(* ===== verification/Grub_Prelude.thy ===== *)
theory Grub_Prelude
  imports Main "HOL-Library.Word" "HOL-Library.Monad_Syntax" "HOL-Library.Sublist"
begin

unbundle bit_operations_syntax

text \<open>
  Shared vocabulary of the development: bytes, memory regions and C strings, the
  conversions between the C integer types of the ia32 build (\<^verbatim>\<open>int\<close>,
  \<^verbatim>\<open>long\<close> and pointers are 32 bits wide), little-endian loads, the
  \<^verbatim>\<open>bsfl\<close> instruction behind \<^verbatim>\<open>grub_log2\<close>, the error codes of
  \<^verbatim>\<open>stage2/shared.h\<close>, and the generic lemmas the components use.

  Conventions. A signed C integer is an \<open>int\<close>; an unsigned one is an
  \<open>int\<close> reduced by \<open>u32\<close> wherever the source's arithmetic can leave the
  range, or a word where the bits matter. A result of type \<open>'a option\<close> is
  \<open>None\<close> where the machine code traps or reads outside its object (division by
  zero, a null device, a store outside a buffer); errors that the program itself reports
  are values of \<open>grub_error\<close> in the program's \<^verbatim>\<open>errnum\<close>.
\<close>

named_theorems cstr_simps \<open>reading and advancing C strings\<close>
named_theorems mem_simps \<open>loads from and copies between memory regions\<close>
named_theorems width_simps \<open>conversions between integer widths\<close>

section \<open>Bytes, memory, C strings\<close>

type_synonym byte = "8 word"
type_synonym mem = "nat \<Rightarrow> byte"
type_synonym cstr = "byte list"

text \<open>The bytes of a source string literal.\<close>

definition bytes_of :: "string \<Rightarrow> byte list" where
  "bytes_of s = map of_char s"

text \<open>
  A pointer into a NUL-terminated string is the list of bytes from there on. The end of
  the list reads as the terminator, and a zero byte inside the list is a terminator too,
  so every list stands for the string before its first zero.
\<close>

definition deref :: "cstr \<Rightarrow> byte" where
  "deref s = (case s of [] \<Rightarrow> 0 | c # _ \<Rightarrow> c)"

definition cstring :: "cstr \<Rightarrow> byte list" where
  "cstring s = takeWhile (\<lambda>c. c \<noteq> 0) s"

lemma deref_Nil [cstr_simps, simp]: "deref [] = 0"
  by (simp add: deref_def)

lemma deref_Cons [cstr_simps, simp]: "deref (c # s) = c"
  by (simp add: deref_def)

lemma deref_nonempty [termination_simp, cstr_simps]: "deref s \<noteq> 0 \<Longrightarrow> s \<noteq> []"
  by auto

lemma cstring_Nil [cstr_simps, simp]: "cstring [] = []"
  by (simp add: cstring_def)

lemma cstring_Cons [cstr_simps, simp]:
  "cstring (c # s) = (if c = 0 then [] else c # cstring s)"
  by (simp add: cstring_def)

lemma cstring_no_nul: "0 \<notin> set (cstring s)"
  by (auto simp: cstring_def dest: set_takeWhileD)

lemma cstring_id: "0 \<notin> set s \<Longrightarrow> cstring s = s"
  by (induction s) auto

lemma cstring_idem [simp]: "cstring (cstring s) = cstring s"
  by (simp add: cstring_id cstring_no_nul)

lemma cstring_eq_Nil [simp]: "cstring s = [] \<longleftrightarrow> deref s = 0"
  by (cases s) auto

lemma cstring_empty [simp]: "deref s = 0 \<Longrightarrow> cstring s = []"
  by simp

lemma length_cstring_le: "length (cstring s) \<le> length s"
  by (simp add: cstring_def length_takeWhile_le)

lemma cstring_append_nul [simp]: "0 \<notin> set xs \<Longrightarrow> cstring (xs @ 0 # ys) = xs"
  by (induction xs) auto

lemma deref_cstring [simp]: "deref (cstring s) = deref s"
  by (cases s) auto

lemma cstring_append:
  "0 \<notin> set xs \<Longrightarrow> cstring (xs @ ys) = xs @ cstring ys"
  by (induction xs) auto

section \<open>Integer widths\<close>

definition u32 :: "int \<Rightarrow> int" where
  "u32 x = x mod 2 ^ 32"

definition s32 :: "int \<Rightarrow> int" where
  "s32 x = (x + 2 ^ 31) mod 2 ^ 32 - 2 ^ 31"

definition MAXINT :: int where
  "MAXINT = 0x7FFFFFFF"

lemma u32_id [width_simps]: "0 \<le> x \<Longrightarrow> x < 2 ^ 32 \<Longrightarrow> u32 x = x"
  by (simp add: u32_def)

lemma u32_range [width_simps]: "0 \<le> u32 x" "u32 x < 2 ^ 32"
  by (simp_all add: u32_def)

lemma s32_id [width_simps]: "- (2 ^ 31) \<le> x \<Longrightarrow> x < 2 ^ 31 \<Longrightarrow> s32 x = x"
  by (simp add: s32_def)

lemma s32_range [width_simps]: "- (2 ^ 31) \<le> s32 x" "s32 x < 2 ^ 31"
  using pos_mod_bound [of "2 ^ 32" "x + 2 ^ 31"] pos_mod_sign [of "2 ^ 32" "x + 2 ^ 31"]
  by (simp_all add: s32_def)

lemma u32_s32 [simp]: "u32 (s32 x) = u32 x"
  by (simp add: u32_def s32_def mod_diff_left_eq)

lemma u32_u32 [simp]: "u32 (u32 x) = u32 x"
  by (simp add: u32_def)

lemma s32_u32 [simp]: "s32 (u32 x) = s32 x"
  by (simp add: u32_def s32_def mod_add_left_eq)

text \<open>A plain \<^verbatim>\<open>char\<close> is signed on this target.\<close>

abbreviation schar :: "byte \<Rightarrow> int" where
  "schar c \<equiv> sint c"

lemma byte_range: "0 \<le> uint (c :: byte)" "uint (c :: byte) < 256"
  using uint_lt2p [of c] by simp_all

lemma schar_eq: "schar c = (if uint c < 128 then uint c else uint c - 256)"
proof -
  have s: "sint c = (uint c + 128) mod 256 - 128"
    by (simp add: sint_uint signed_take_bit_eq_take_bit_shift take_bit_eq_mod)
  have "(uint c - 128 + 256) mod 256 = uint c - 128" if "128 \<le> uint c"
    using that byte_range [of c] by (simp only: mod_add_self2) simp
  with s byte_range [of c] show ?thesis
    by (cases "uint c < 128") (simp_all add: add.commute)
qed

lemma u32_small: "- (2 ^ 32) \<le> y \<Longrightarrow> y < 2 ^ 32 \<Longrightarrow> u32 y = (if y < 0 then y + 2 ^ 32 else y)"
proof -
  assume a: "- (2 ^ 32) \<le> y" "y < 2 ^ 32"
  have "y mod 2 ^ 32 = y + 2 ^ 32" if "y < 0"
  proof -
    have "y mod 2 ^ 32 = (y + 2 ^ 32) mod 2 ^ 32" by (rule mod_add_self2 [symmetric])
    also have "\<dots> = y + 2 ^ 32" using a that by (intro mod_pos_pos_trivial) auto
    finally show ?thesis .
  qed
  with a show ?thesis by (auto simp: u32_def)
qed

section \<open>Loads and copies\<close>

definition ld8 :: "mem \<Rightarrow> nat \<Rightarrow> int" where
  "ld8 m a = uint (m a)"

definition ld16 :: "mem \<Rightarrow> nat \<Rightarrow> int" where
  "ld16 m a = ld8 m a + 256 * ld8 m (a + 1)"

definition ld32 :: "mem \<Rightarrow> nat \<Rightarrow> int" where
  "ld32 m a = ld16 m a + 65536 * ld16 m (a + 2)"

definition ld64 :: "mem \<Rightarrow> nat \<Rightarrow> int" where
  "ld64 m a = ld32 m a + 4294967296 * ld32 m (a + 4)"

lemma ld8_range [mem_simps]: "0 \<le> ld8 m a" "ld8 m a < 2 ^ 8"
  using uint_lt2p [of "m a"] by (simp_all add: ld8_def)

lemma ld16_range [mem_simps]: "0 \<le> ld16 m a" "ld16 m a < 2 ^ 16"
  using ld8_range [of m a] ld8_range [of m "a + 1"] by (simp_all add: ld16_def)

lemma ld32_range [mem_simps]: "0 \<le> ld32 m a" "ld32 m a < 2 ^ 32"
  using ld16_range [of m a] ld16_range [of m "a + 2"] by (simp_all add: ld32_def)

lemma ld64_range [mem_simps]: "0 \<le> ld64 m a" "ld64 m a < 2 ^ 64"
  using ld32_range [of m a] ld32_range [of m "a + 4"] by (simp_all add: ld64_def)

text \<open>\<open>copy_mem d i s j n\<close> is region \<open>d\<close> after \<open>n\<close> bytes of \<open>s\<close> from
  offset \<open>j\<close> have been stored at offset \<open>i\<close>.\<close>

definition copy_mem :: "mem \<Rightarrow> nat \<Rightarrow> mem \<Rightarrow> nat \<Rightarrow> nat \<Rightarrow> mem" where
  "copy_mem d i s j n = (\<lambda>k. if i \<le> k \<and> k < i + n then s (j + (k - i)) else d k)"

definition store_list :: "mem \<Rightarrow> nat \<Rightarrow> byte list \<Rightarrow> mem" where
  "store_list d i bs = (\<lambda>k. if i \<le> k \<and> k < i + length bs then bs ! (k - i) else d k)"

definition mem_slice :: "mem \<Rightarrow> nat \<Rightarrow> nat \<Rightarrow> byte list" where
  "mem_slice m i n = map m [i..<i + n]"

lemma copy_mem_in [mem_simps]:
  "i \<le> k \<Longrightarrow> k < i + n \<Longrightarrow> copy_mem d i s j n k = s (j + (k - i))"
  by (simp add: copy_mem_def)

lemma copy_mem_out [mem_simps]:
  "k < i \<or> i + n \<le> k \<Longrightarrow> copy_mem d i s j n k = d k"
  by (auto simp: copy_mem_def)

lemma copy_mem_0 [mem_simps, simp]: "copy_mem d i s j 0 = d"
  by (rule ext) (auto simp: copy_mem_def)

lemma length_mem_slice [mem_simps, simp]: "length (mem_slice m i n) = n"
  by (simp add: mem_slice_def)

lemma nth_mem_slice [mem_simps, simp]: "k < n \<Longrightarrow> mem_slice m i n ! k = m (i + k)"
  by (simp add: mem_slice_def)

lemma mem_slice_cong:
  "(\<And>k. i \<le> k \<Longrightarrow> k < i + n \<Longrightarrow> m k = m' k) \<Longrightarrow> mem_slice m i n = mem_slice m' i n"
  by (simp add: mem_slice_def)

lemma mem_slice_append: "mem_slice m i (a + b) = mem_slice m i a @ mem_slice m (i + a) b"
  by (rule nth_equalityI) (simp_all add: nth_append add.assoc)

lemma mem_slice_Suc: "mem_slice m i (Suc n) = mem_slice m i n @ [m (i + n)]"
  by (simp add: mem_slice_def)

lemma mem_slice_0 [simp]: "mem_slice m i 0 = []"
  by (simp add: mem_slice_def)

lemma mem_slice_copy_mem [mem_simps]:
  "mem_slice (copy_mem d i s j n) i n = mem_slice s j n"
  by (rule nth_equalityI) (simp_all add: copy_mem_def)

lemma mem_slice_store_list [mem_simps]:
  "length bs = n \<Longrightarrow> mem_slice (store_list d i bs) i n = bs"
  by (rule nth_equalityI) (simp_all add: store_list_def)

lemma store_list_in [mem_simps]:
  "i \<le> k \<Longrightarrow> k < i + length bs \<Longrightarrow> store_list d i bs k = bs ! (k - i)"
  by (simp add: store_list_def)

lemma store_list_out [mem_simps]:
  "k < i \<or> i + length bs \<le> k \<Longrightarrow> store_list d i bs k = d k"
  by (auto simp: store_list_def)

section \<open>Bit scan\<close>

text \<open>
  \<^verbatim>\<open>bsfl\<close> (disk\_io.c, fsys\_fat.c, efidisk.c): the index of the lowest set bit of
  a 32-bit operand; the destination is undefined for operand zero.
\<close>

fun bsf_from :: "nat \<Rightarrow> nat \<Rightarrow> int \<Rightarrow> nat option" where
  "bsf_from 0 i x = None"
| "bsf_from (Suc k) i x = (if bit x i then Some i else bsf_from k (Suc i) x)"

definition bsf :: "int \<Rightarrow> nat option" where
  "bsf x = bsf_from 32 0 x"

lemma bsf_from_Some:
  "bsf_from k i x = Some n \<Longrightarrow> i \<le> n \<and> n < i + k \<and> bit x n \<and> (\<forall>j. i \<le> j \<and> j < n \<longrightarrow> \<not> bit x j)"
proof (induction k arbitrary: i)
  case 0
  then show ?case by simp
next
  case (Suc k)
  show ?case
  proof (cases "bit x i")
    case True
    with Suc.prems show ?thesis by auto
  next
    case False
    with Suc.prems have "bsf_from k (Suc i) x = Some n" by simp
    from Suc.IH [OF this] False show ?thesis
      by (auto simp: less_Suc_eq_le) (metis le_neq_implies_less Suc_leI)
  qed
qed

lemma bsf_Some: "bsf x = Some n \<Longrightarrow> n < 32 \<and> bit x n \<and> (\<forall>j < n. \<not> bit x j)"
  unfolding bsf_def using bsf_from_Some [of 32 0 x n] by auto

lemma bsf_from_exp:
  "i \<le> n \<Longrightarrow> n < i + k \<Longrightarrow> bsf_from k i (2 ^ n) = Some n"
  by (induction k arbitrary: i) (auto simp: bit_exp_iff)

lemma bsf_exp [simp]: "n < 32 \<Longrightarrow> bsf (2 ^ n) = Some n"
  by (simp add: bsf_def bsf_from_exp)

section \<open>Error codes\<close>

text \<open>\<^verbatim>\<open>grub_error_t\<close> of stage2/shared.h, in its order.\<close>

datatype grub_error =
    ERR_NONE | ERR_BAD_FILENAME | ERR_BAD_FILETYPE | ERR_BAD_GZIP_DATA | ERR_BAD_GZIP_HEADER
  | ERR_BAD_PART_TABLE | ERR_BAD_VERSION | ERR_BELOW_1MB | ERR_BOOT_COMMAND | ERR_BOOT_FAILURE
  | ERR_BOOT_FEATURES | ERR_DEV_FORMAT | ERR_DEV_VALUES | ERR_EXEC_FORMAT | ERR_FILELENGTH
  | ERR_FILE_NOT_FOUND | ERR_FSYS_CORRUPT | ERR_FSYS_MOUNT | ERR_GEOM | ERR_NEED_LX_KERNEL
  | ERR_NEED_MB_KERNEL | ERR_NO_DISK | ERR_NO_PART | ERR_NUMBER_PARSING | ERR_OUTSIDE_PART
  | ERR_READ | ERR_SYMLINK_LOOP | ERR_UNRECOGNIZED | ERR_WONT_FIT | ERR_WRITE
  | ERR_BAD_ARGUMENT | ERR_UNALIGNED | ERR_PRIVILEGED | ERR_DEV_NEED_INIT | ERR_NO_DISK_SPACE
  | ERR_NUMBER_OVERFLOW | ERR_CLN_VERIFICATION | ERR_SGN_FILE_NOT_FOUND

end
