(* ===== verification/Char_Io.thy ===== *)
theory Char_Io
  imports Grub_Prelude
begin

text \<open>
  The string, number and memory routines of \<^verbatim>\<open>stage2/char_io.c\<close>: number
  printing (\<^verbatim>\<open>convert_to_ascii\<close>) and parsing (\<^verbatim>\<open>safe_parse_maxint\<close>),
  character classes, comparison, search, tokenising and copying, in the source's order of
  tests and with its loops as recursive functions.

  Strings are \<^typ>\<open>cstr\<close> pointers; a returned pointer into a string is the suffix it
  points at. Routines that write through a pointer take the buffer and return it.
\<close>

section \<open>Definitions\<close>

subsection \<open>Number printing\<close>

definition digit_char :: "int \<Rightarrow> byte" where
  "digit_char dig = (if dig > 9 then word_of_int (dig + 97 - 10) else word_of_int (48 + dig))"

text \<open>The \<^verbatim>\<open>do ... while (num /= mult)\<close> loop: digits in the order they are stored.\<close>

function ascii_digits :: "int \<Rightarrow> int \<Rightarrow> byte list" where
  "ascii_digits mult num =
     (if num div mult = 0 \<or> mult \<le> 1 \<or> num < 0 then [digit_char (num mod mult)]
      else digit_char (num mod mult) # ascii_digits mult (num div mult))"
  by pat_completeness auto
termination
proof (relation "measure (\<lambda>(mult, num). nat num)", goal_cases)
  case 1
  show ?case by simp
next
  case (2 mult num)
  then have "0 < num" "1 < mult" by (cases "num = 0"; simp)+
  then have "num div mult < num" by (intro int_div_less_self) auto
  moreover from 2 have "0 \<le> num div mult" by (simp add: pos_imp_zdiv_nonneg_iff)
  ultimately show ?case by simp
qed

declare ascii_digits.simps [simp del]

text \<open>The in-place reversal: \<^verbatim>\<open>ptr1\<close> moves down, \<^verbatim>\<open>ptr2\<close> up.\<close>

function reorder :: "nat \<Rightarrow> nat \<Rightarrow> byte list \<Rightarrow> byte list" where
  "reorder ptr1 ptr2 xs =
     (if ptr1 > ptr2 then reorder (ptr1 - 1) (ptr2 + 1) (xs[ptr1 := xs ! ptr2, ptr2 := xs ! ptr1])
      else xs)"
  by pat_completeness auto
termination
  by (relation "measure (\<lambda>(a, b, xs). a)") auto

declare reorder.simps [simp del]

text \<open>The characters \<^verbatim>\<open>convert_to_ascii\<close> stores for the conversion letter
  \<open>c\<close> and the unsigned value \<open>num\<close>.\<close>

definition convert_to_ascii :: "char \<Rightarrow> int \<Rightarrow> byte list" where
  "convert_to_ascii c num =
     (let mult = (if c = CHR ''x'' \<or> c = CHR ''X'' then 16 else 10);
          neg = s32 num < 0 \<and> c = CHR ''d'';
          num' = (if neg then u32 (- num) else num);
          ds = ascii_digits mult num'
      in (if neg then [45] else []) @ reorder (length ds - 1) 0 ds)"

subsection \<open>Character classes and number parsing\<close>

definition grub_tolower :: "int \<Rightarrow> int" where
  "grub_tolower c = (if c \<ge> 65 \<and> c \<le> 90 then c + (97 - 65) else c)"

definition grub_isspace :: "int \<Rightarrow> bool" where
  "grub_isspace c \<longleftrightarrow> c = 32 \<or> c = 9 \<or> c = 13 \<or> c = 10"

text \<open>One round of the digit test: \<open>None\<close> where the loop breaks.\<close>

definition parse_digit :: "int \<Rightarrow> byte \<Rightarrow> int option" where
  "parse_digit mult c =
     (let digit = u32 (grub_tolower (schar c) - 48)
      in if digit > 9
         then (let digit' = u32 (digit - 49)
               in if mult = 10 \<or> digit' > 5 then None else Some (u32 (digit' + 10)))
         else Some digit)"

lemma parse_digit_nul [simp]: "parse_digit mult 0 = None"
  by (simp add: parse_digit_def grub_tolower_def u32_def)

text \<open>The \<^verbatim>\<open>while (1)\<close> loop: the final \<^verbatim>\<open>ptr\<close>, \<^verbatim>\<open>myint\<close> and
  \<^verbatim>\<open>found\<close>, or the overflow error.\<close>

function parse_loop :: "int \<Rightarrow> cstr \<Rightarrow> int \<Rightarrow> bool \<Rightarrow> grub_error + (cstr \<times> int \<times> bool)" where
  "parse_loop mult ptr myint found =
     (case parse_digit mult (deref ptr) of
        None \<Rightarrow> Inr (ptr, myint, found)
      | Some digit \<Rightarrow>
          (if u32 myint > u32 (MAXINT - digit) div mult then Inl ERR_NUMBER_OVERFLOW
           else parse_loop mult (drop 1 ptr) (myint * mult + digit) True))"
  by pat_completeness auto
termination
proof (relation "measure (\<lambda>(m, p, i, f). length p)", goal_cases)
  case 1
  show ?case by simp
next
  case (2 mult ptr myint found digit)
  then have "ptr \<noteq> []" by (cases ptr) auto
  then show ?case by simp
qed

declare parse_loop.simps [simp del]

text \<open>
  \<^verbatim>\<open>safe_parse_maxint\<close>: \<open>Inl e\<close> is the return value 0 with
  \<^verbatim>\<open>errnum = e\<close> and both outputs untouched, \<open>Inr (n, p)\<close> the return value 1
  with \<^verbatim>\<open>*myint_ptr = n\<close> and \<^verbatim>\<open>*str_ptr = p\<close>.
\<close>

definition safe_parse_maxint :: "cstr \<Rightarrow> grub_error + (int \<times> cstr)" where
  "safe_parse_maxint ptr =
     (let hex = deref ptr = 48 \<and> grub_tolower (schar (deref (drop 1 ptr))) = 120;
          ptr' = (if hex then drop 2 ptr else ptr);
          mult = (if hex then 16 else 10)
      in case parse_loop mult ptr' 0 False of
           Inl e \<Rightarrow> Inl e
         | Inr (p, myint, found) \<Rightarrow>
             (if \<not> found then Inl ERR_NUMBER_PARSING else Inr (myint, p)))"

subsection \<open>Comparison\<close>

fun grub_memcmp :: "byte list \<Rightarrow> byte list \<Rightarrow> nat \<Rightarrow> int option" where
  "grub_memcmp s1 s2 0 = Some 0"
| "grub_memcmp (a # s1) (b # s2) (Suc n) =
     (if schar a < schar b then Some (- 1)
      else if schar a > schar b then Some 1
      else grub_memcmp s1 s2 n)"
| "grub_memcmp _ _ (Suc n) = None"

function grub_strcmp :: "cstr \<Rightarrow> cstr \<Rightarrow> int" where
  "grub_strcmp s1 s2 =
     (if deref s1 \<noteq> 0 \<or> deref s2 \<noteq> 0
      then if schar (deref s1) < schar (deref s2) then - 1
           else if schar (deref s1) > schar (deref s2) then 1
           else grub_strcmp (drop 1 s1) (drop 1 s2)
      else 0)"
  by pat_completeness auto
termination
proof (relation "measure (\<lambda>(s1, s2). length s1 + length s2)", goal_cases)
  case 1
  show ?case by simp
next
  case (2 s1 s2)
  then show ?case by (cases s1; cases s2) auto
qed

declare grub_strcmp.simps [simp del]

text \<open>The shared loop of \<^verbatim>\<open>substring\<close> and \<^verbatim>\<open>subcasestring\<close>, over what is
  compared of each character.\<close>

fun substring_by :: "(byte \<Rightarrow> int) \<Rightarrow> cstr \<Rightarrow> cstr \<Rightarrow> int" where
  "substring_by f s1 s2 =
     (if f (deref s1) = f (deref s2)
      then if deref s1 = 0 then 0 else substring_by f (drop 1 s1) (drop 1 s2)
      else if deref s1 = 0 then - 1 else 1)"

declare substring_by.simps [simp del]

definition substring :: "cstr \<Rightarrow> cstr \<Rightarrow> int" where
  "substring s1 s2 = substring_by schar s1 s2"

definition subcasestring :: "cstr \<Rightarrow> cstr \<Rightarrow> int" where
  "subcasestring s1 s2 = substring_by (\<lambda>c. grub_tolower (schar c)) s1 s2"

text \<open>\<^verbatim>\<open>grub_strncasecmp\<close> for distinct pointers; \<open>n\<close> counts down to the
  \<^verbatim>\<open>--n == 0\<close> test.\<close>

fun strncasecmp_loop :: "cstr \<Rightarrow> cstr \<Rightarrow> nat \<Rightarrow> int" where
  "strncasecmp_loop s0 s1 n =
     (let c0 = schar (deref s0) AND NOT 0x20; c1 = schar (deref s1) AND NOT 0x20
      in if n \<le> 1 \<or> c0 = 0 \<or> c0 \<noteq> c1 then (if c0 > c1 then 1 else if c0 < c1 then - 1 else 0)
         else strncasecmp_loop (drop 1 s0) (drop 1 s1) (n - 1))"

declare strncasecmp_loop.simps [simp del]

definition grub_strncasecmp :: "cstr \<Rightarrow> cstr \<Rightarrow> nat \<Rightarrow> int" where
  "grub_strncasecmp s0 s1 n = (if n = 0 then 0 else strncasecmp_loop s0 s1 n)"

subsection \<open>Length, search and tokens\<close>

fun grub_strlen :: "cstr \<Rightarrow> nat" where
  "grub_strlen str = (if deref str \<noteq> 0 then Suc (grub_strlen (drop 1 str)) else 0)"

declare grub_strlen.simps [simp del]

text \<open>\<^verbatim>\<open>nul_terminate\<close>: the overwritten character and the terminated word.\<close>

fun nul_terminate :: "cstr \<Rightarrow> byte \<times> cstr" where
  "nul_terminate str =
     (if deref str \<noteq> 0 \<and> \<not> grub_isspace (schar (deref str))
      then map_prod id (\<lambda>w. deref str # w) (nul_terminate (drop 1 str))
      else (deref str, []))"

declare nul_terminate.simps [simp del]

text \<open>The inner loop of \<^verbatim>\<open>grub_strstr\<close>: does \<open>tmp\<close> run out first?\<close>

fun strstr_here :: "cstr \<Rightarrow> cstr \<Rightarrow> bool" where
  "strstr_here ptr tmp =
     (if deref tmp \<noteq> 0 \<and> deref ptr = deref tmp
      then strstr_here (drop 1 ptr) (drop 1 tmp)
      else deref tmp = 0)"

declare strstr_here.simps [simp del]

text \<open>\<^verbatim>\<open>tmp > s2\<close> holds after the inner loop iff it made a step, so an empty
  needle is never found.\<close>

fun grub_strstr :: "cstr \<Rightarrow> cstr \<Rightarrow> cstr option" where
  "grub_strstr s1 s2 =
     (if deref s1 \<noteq> 0
      then if deref s2 \<noteq> 0 \<and> deref s1 = deref s2 \<and> strstr_here s1 s2 then Some s1
           else grub_strstr (drop 1 s1) s2
      else None)"

declare grub_strstr.simps [simp del]

fun grub_strspn :: "cstr \<Rightarrow> cstr \<Rightarrow> nat" where
  "grub_strspn s acc =
     (if deref s \<noteq> 0 \<and> deref s \<in> set (cstring acc)
      then Suc (grub_strspn (drop 1 s) acc) else 0)"

declare grub_strspn.simps [simp del]

fun grub_strcspn :: "cstr \<Rightarrow> cstr \<Rightarrow> nat" where
  "grub_strcspn s rej =
     (if deref s \<noteq> 0 \<and> deref s \<notin> set (cstring rej)
      then Suc (grub_strcspn (drop 1 s) rej) else 0)"

declare grub_strcspn.simps [simp del]

text \<open>\<^verbatim>\<open>grub_strtok_r\<close> from position \<open>s\<close>: the token (terminated in place) and the
  new \<^verbatim>\<open>*ptrptr\<close>.\<close>

definition grub_strtok_r :: "cstr \<Rightarrow> cstr \<Rightarrow> cstr option \<times> cstr" where
  "grub_strtok_r s delim =
     (let s1 = drop (grub_strspn s delim) s
      in if deref s1 \<noteq> 0
         then let l = grub_strcspn s1 delim; s2 = drop l s1
              in (Some (take l s1), if deref s2 \<noteq> 0 then drop 1 s2 else s2)
         else (None, s1))"

fun grub_strchr :: "cstr \<Rightarrow> byte \<Rightarrow> cstr option" where
  "grub_strchr s c =
     (if deref s \<noteq> 0 then if deref s = c then Some s else grub_strchr (drop 1 s) c
      else None)"

fun grub_strnchr :: "cstr \<Rightarrow> byte \<Rightarrow> cstr option" where
  "grub_strnchr s c =
     (if deref s \<noteq> 0 then if deref s \<noteq> c then Some s else grub_strnchr (drop 1 s) c
      else None)"

fun strrchr_loop :: "cstr \<Rightarrow> byte \<Rightarrow> cstr option \<Rightarrow> cstr option" where
  "strrchr_loop s c p =
     (if deref s \<noteq> 0 then strrchr_loop (drop 1 s) c (if deref s = c then Some s else p)
      else p)"

definition grub_strrchr :: "cstr \<Rightarrow> byte \<Rightarrow> cstr option" where
  "grub_strrchr s c = strrchr_loop s c None"

fun grub_strnlen :: "cstr \<Rightarrow> nat \<Rightarrow> nat" where
  "grub_strnlen s 0 = 0"
| "grub_strnlen s (Suc n) = (if deref s \<noteq> 0 then Suc (grub_strnlen (drop 1 s) n) else 0)"

declare grub_strchr.simps [simp del] grub_strnchr.simps [simp del] strrchr_loop.simps [simp del]

subsection \<open>Copying\<close>

text \<open>\<^verbatim>\<open>grub_strncat\<close> on the buffer \<open>s1\<close>: \<open>None\<close> where it accesses the
  buffer out of range.\<close>

function strncat_scan :: "byte list \<Rightarrow> nat \<Rightarrow> nat \<Rightarrow> nat option" where
  "strncat_scan s1 n i =
     (if i < n
      then if i < length s1 then if s1 ! i \<noteq> 0 then strncat_scan s1 n (i + 1) else Some i else None
      else Some i)"
  by pat_completeness auto
termination
  by (relation "measure (\<lambda>(s, n, i). n - i)") auto

function strncat_copy :: "byte list \<Rightarrow> cstr \<Rightarrow> nat \<Rightarrow> nat \<Rightarrow> (byte list \<times> nat) option" where
  "strncat_copy s1 s2 n i =
     (if i < n
      then if i < length s1
           then let s1' = s1[i := deref s2]
                in if deref s2 \<noteq> 0 then strncat_copy s1' (drop 1 s2) n (i + 1)
                   else Some (s1', i + 1)
           else None
      else Some (s1, i))"
  by pat_completeness auto
termination
  by (relation "measure (\<lambda>(s, t, n, i). n - i)") auto

declare strncat_scan.simps [simp del] strncat_copy.simps [simp del]

definition grub_strncat :: "byte list \<Rightarrow> cstr \<Rightarrow> nat \<Rightarrow> (byte list \<times> int) option" where
  "grub_strncat s1 s2 n = do {
     i \<leftarrow> strncat_scan s1 n 0;
     (t, j) \<leftarrow> strncat_copy s1 s2 n i;
     if n = 0 \<or> length t < n then None
     else let t' = t[n - 1 := 0]
          in if j \<ge> n then Some (t', 0) else Some (t'[j := 0], 1) }"

text \<open>\<^verbatim>\<open>grub_strncpy\<close>: the characters before the terminator, at most \<open>n\<close>, with no
  terminator stored.\<close>

fun strncpy_loop :: "byte list \<Rightarrow> cstr \<Rightarrow> nat \<Rightarrow> nat \<Rightarrow> byte list option" where
  "strncpy_loop new s n i =
     (if deref s \<noteq> 0 \<and> i < n
      then if i < length new then strncpy_loop (new[i := deref s]) (drop 1 s) n (i + 1) else None
      else Some new)"

declare strncpy_loop.simps [simp del]

definition grub_strncpy :: "byte list \<Rightarrow> cstr \<Rightarrow> nat \<Rightarrow> byte list option" where
  "grub_strncpy new s n = strncpy_loop new s n 0"

text \<open>\<^verbatim>\<open>grub_stpncpy\<close>: the buffer and the offset of the returned pointer;
  \<^verbatim>\<open>res\<close> is \<open>None\<close> while it is still \<^verbatim>\<open>NULL\<close>.\<close>

fun stpncpy_loop :: "byte list \<Rightarrow> nat \<Rightarrow> cstr \<Rightarrow> nat \<Rightarrow> nat option \<Rightarrow> (byte list \<times> nat) option" where
  "stpncpy_loop dest d src 0 res = Some (dest, case res of None \<Rightarrow> d | Some r \<Rightarrow> r)"
| "stpncpy_loop dest d src (Suc n) res =
     (if d < length dest
      then if deref src \<noteq> 0
           then stpncpy_loop (dest[d := deref src]) (d + 1) (drop 1 src) n res
           else stpncpy_loop (dest[d := deref src]) (d + 1) src n
                  (case res of None \<Rightarrow> Some d | Some r \<Rightarrow> Some r)
      else None)"

definition grub_stpncpy :: "byte list \<Rightarrow> cstr \<Rightarrow> nat \<Rightarrow> (byte list \<times> nat) option" where
  "grub_stpncpy dest src n = stpncpy_loop dest 0 src n None"

text \<open>On EFI \<^verbatim>\<open>memcheck\<close> accepts every range.\<close>

definition memcheck :: "nat \<Rightarrow> nat \<Rightarrow> bool" where
  "memcheck addr len = True"

text \<open>\<^verbatim>\<open>rep movsb\<close> upwards and downwards.\<close>

fun movsb_up :: "nat \<Rightarrow> nat \<Rightarrow> nat \<Rightarrow> mem \<Rightarrow> mem" where
  "movsb_up 0 si di m = m"
| "movsb_up (Suc cx) si di m = movsb_up cx (si + 1) (di + 1) (m(di := m si))"

fun movsb_down :: "nat \<Rightarrow> nat \<Rightarrow> nat \<Rightarrow> mem \<Rightarrow> mem" where
  "movsb_down 0 si di m = m"
| "movsb_down (Suc cx) si di m = movsb_down cx (si - 1) (di - 1) (m(di := m si))"

definition grub_memmove :: "mem \<Rightarrow> nat \<Rightarrow> nat \<Rightarrow> nat \<Rightarrow> mem" where
  "grub_memmove m dst src len =
     (if memcheck dst len
      then if dst < src then movsb_up len src dst m
           else movsb_down len (len - 1 + src) (len - 1 + dst) m
      else m)"

fun memcpy_loop :: "nat \<Rightarrow> nat \<Rightarrow> nat \<Rightarrow> nat \<Rightarrow> mem \<Rightarrow> mem" where
  "memcpy_loop 0 i d s m = m"
| "memcpy_loop (Suc k) i d s m = memcpy_loop k (i + 1) d s (m(d + i := m (s + i)))"

definition grub_memcpy :: "mem \<Rightarrow> nat \<Rightarrow> nat \<Rightarrow> nat \<Rightarrow> mem" where
  "grub_memcpy m dest src len = memcpy_loop len 0 dest src m"

fun memset_loop :: "nat \<Rightarrow> nat \<Rightarrow> byte \<Rightarrow> mem \<Rightarrow> mem" where
  "memset_loop 0 p c m = m"
| "memset_loop (Suc len) p c m = memset_loop len (p + 1) c (m(p := c))"

definition grub_memset :: "mem \<Rightarrow> nat \<Rightarrow> byte \<Rightarrow> nat \<Rightarrow> mem" where
  "grub_memset m start c len = (if memcheck start len then memset_loop len start c m else m)"

text \<open>The C string that starts at address \<open>a\<close> of a memory that ends at \<open>lim\<close>.\<close>

function cstr_upto :: "nat \<Rightarrow> mem \<Rightarrow> nat \<Rightarrow> cstr" where
  "cstr_upto lim m a =
     (if a < lim then if m a = 0 then [] else m a # cstr_upto lim m (a + 1) else [])"
  by pat_completeness auto
termination
  by (relation "measure (\<lambda>(lim, m, a). lim - a)") auto

declare cstr_upto.simps [simp del]

definition grub_strcpy :: "nat \<Rightarrow> mem \<Rightarrow> nat \<Rightarrow> nat \<Rightarrow> mem" where
  "grub_strcpy lim m dest src =
     grub_memmove m dest src (grub_strlen (cstr_upto lim m src) + 1)"

section \<open>Number parsing and printing\<close>

text \<open>What a digit is (\<open>0\<close> to \<open>9\<close>, and \<open>A\<close> to \<open>F\<close> or \<open>a\<close> to \<open>f\<close> in base 16), and the number a digit
  string denotes.\<close>

definition is_digit :: "int \<Rightarrow> byte \<Rightarrow> bool" where
  "is_digit mult c \<longleftrightarrow> c \<in> {48..57} \<or> mult = 16 \<and> (c \<in> {65..70} \<or> c \<in> {97..102})"

definition digit_value :: "byte \<Rightarrow> int" where
  "digit_value c = (if c \<le> 57 then uint c - 48 else grub_tolower (uint c) - 87)"

definition num_value :: "int \<Rightarrow> byte list \<Rightarrow> int" where
  "num_value mult ds = foldl (\<lambda>n d. n * mult + digit_value d) 0 ds"

definition number_base :: "cstr \<Rightarrow> int \<times> cstr" where
  "number_base s = (if deref s = 48 \<and> (deref (drop 1 s) = 120 \<or> deref (drop 1 s) = 88)
                    then (16, drop 2 s) else (10, s))"

lemma tolower_schar:
  "grub_tolower (schar c) = (if 65 \<le> uint c \<and> uint c \<le> 90 then uint c + 32
     else if uint c < 128 then uint c else uint c - 256)"
  using byte_range [of c] by (simp add: grub_tolower_def schar_eq)

lemma tolower_schar_range: "- 128 \<le> grub_tolower (schar c)" "grub_tolower (schar c) < 128"
proof -
  have "- 128 \<le> schar c" "schar c < 128"
    using sint_range_size [of c] by (simp_all add: word_size)
  then show "- 128 \<le> grub_tolower (schar c)" "grub_tolower (schar c) < 128"
    by (simp_all add: grub_tolower_def)
qed

lemma digit_test:
  fixes t :: int
  assumes "- 128 \<le> t" "t < 128"
  shows "(if u32 (t - 48) > 9
          then if mult = 10 \<or> u32 (u32 (t - 48) - 49) > 5 then None
               else Some (u32 (u32 (u32 (t - 48) - 49) + 10))
          else Some (u32 (t - 48))) =
         (if 48 \<le> t \<and> t \<le> 57 then Some (t - 48)
          else if mult \<noteq> 10 \<and> 97 \<le> t \<and> t \<le> 102 then Some (t - 87) else None)"
proof -
  have d: "u32 (t - 48) = (if t < 48 then t - 48 + 2 ^ 32 else t - 48)"
    using assms by (subst u32_small) auto
  have e: "u32 (u32 (t - 48) - 49) = (if 97 \<le> t then t - 97 else t - 97 + 2 ^ 32)"
    unfolding d using assms by (subst u32_small) auto
  have "u32 (t - 97 + 10) = t - 87" if "97 \<le> t"
    using assms that by (subst u32_small) auto
  with assms show ?thesis unfolding e unfolding d by auto
qed

lemma parse_digit_eq:
  "parse_digit mult c =
     (if 48 \<le> uint c \<and> uint c \<le> 57
        \<or> mult \<noteq> 10 \<and> (97 \<le> uint c \<and> uint c \<le> 102 \<or> 65 \<le> uint c \<and> uint c \<le> 70)
      then Some (digit_value c) else None)"
proof -
  define x where "x = uint c"
  define t where "t = grub_tolower (schar c)"
  have x: "0 \<le> x" "x < 256" using byte_range [of c] by (simp_all add: x_def)
  have t: "t = (if 65 \<le> x \<and> x \<le> 90 then x + 32 else if x < 128 then x else x - 256)"
    by (simp add: x_def t_def tolower_schar)
  have v: "digit_value c = (if x \<le> 57 then x - 48 else grub_tolower x - 87)"
    by (simp add: digit_value_def x_def word_le_def)
  have pd: "parse_digit mult c = (if 48 \<le> t \<and> t \<le> 57 then Some (t - 48)
      else if mult \<noteq> 10 \<and> 97 \<le> t \<and> t \<le> 102 then Some (t - 87) else None)"
    unfolding parse_digit_def Let_def t_def by (rule digit_test [OF tolower_schar_range])
  consider "x < 48" | "48 \<le> x" "x \<le> 57" | "58 \<le> x" "x \<le> 64" | "65 \<le> x" "x \<le> 70"
    | "71 \<le> x" "x \<le> 90" | "91 \<le> x" "x \<le> 96" | "97 \<le> x" "x \<le> 102" | "103 \<le> x" "x \<le> 127"
    | "128 \<le> x" by linarith
  then show ?thesis
    unfolding pd v x_def [symmetric]
    using x by cases (simp_all add: t grub_tolower_def)
qed

lemma is_digit_uint:
  "is_digit mult c \<longleftrightarrow> 48 \<le> uint c \<and> uint c \<le> 57 \<or>
     mult = 16 \<and> (97 \<le> uint c \<and> uint c \<le> 102 \<or> 65 \<le> uint c \<and> uint c \<le> 70)"
  by (auto simp: is_digit_def word_le_def)

lemma parse_digit_digit: "mult = 10 \<or> mult = 16 \<Longrightarrow> parse_digit mult c \<noteq> None \<longleftrightarrow> is_digit mult c"
  by (auto simp: parse_digit_eq is_digit_uint)

lemma parse_digit_Some:
  assumes "parse_digit mult c = Some d" and "mult = 10 \<or> mult = 16"
  shows "d = digit_value c \<and> 0 \<le> d \<and> d < mult"
proof -
  define x where "x = uint c"
  have v: "digit_value c = (if x \<le> 57 then x - 48 else grub_tolower x - 87)"
    by (simp add: digit_value_def x_def word_le_def)
  from assms show ?thesis
    unfolding parse_digit_eq v x_def [symmetric] by (auto simp: grub_tolower_def split: if_splits)
qed

lemma foldl_digits_ge:
  assumes "1 \<le> mult" and "\<forall>d \<in> set ds. 0 \<le> digit_value d" and "0 \<le> n"
  shows "n \<le> foldl (\<lambda>n d. n * mult + digit_value d) n ds"
  using assms(2,3)
proof (induction ds arbitrary: n)
  case Nil
  then show ?case by simp
next
  case (Cons d ds)
  have le: "n \<le> n * mult + digit_value d"
    using Cons.prems assms(1) mult_left_mono [of 1 mult n] by simp
  with Cons.prems Cons.IH [of "n * mult + digit_value d"] show ?case by simp
qed

lemma overflow_test:
  fixes n d mult :: int
  assumes "0 \<le> n" "n \<le> MAXINT" "0 \<le> d" "d < mult" "mult = 10 \<or> mult = 16"
  shows "u32 n > u32 (MAXINT - d) div mult \<longleftrightarrow> n * mult + d > MAXINT"
proof -
  have "u32 n = n" "u32 (MAXINT - d) = MAXINT - d"
    using assms by (auto simp: MAXINT_def intro!: u32_id)
  moreover have "(MAXINT - d) div mult < n \<longleftrightarrow> MAXINT - d < n * mult"
    using assms(5) by auto
  ultimately show ?thesis by auto
qed

lemma parse_loop_spec:
  assumes "mult = 10 \<or> mult = 16" "0 \<le> n" "n \<le> MAXINT"
  shows "parse_loop mult p n found =
    (let ds = takeWhile (is_digit mult) p; v = foldl (\<lambda>n d. n * mult + digit_value d) n ds
     in if v > MAXINT then Inl ERR_NUMBER_OVERFLOW
        else Inr (dropWhile (is_digit mult) p, v, found \<or> ds \<noteq> []))"
  using assms(2,3)
proof (induction p arbitrary: n found)
  case Nil
  then show ?case by (simp add: parse_loop.simps)
next
  case (Cons c p)
  show ?case
  proof (cases "parse_digit mult c")
    case None
    then have "\<not> is_digit mult c" using parse_digit_digit [OF assms(1), of c] by simp
    with None Cons.prems show ?thesis by (simp add: parse_loop.simps)
  next
    case (Some d)
    from parse_digit_Some [OF Some assms(1)] have d: "d = digit_value c" "0 \<le> d" "d < mult" by auto
    have dig: "is_digit mult c" using Some parse_digit_digit [OF assms(1), of c] by simp
    let ?n = "n * mult + d"
    have n0: "0 \<le> ?n" using Cons.prems assms(1) d by auto
    have ov: "u32 n > u32 (MAXINT - d) div mult \<longleftrightarrow> ?n > MAXINT"
      using overflow_test [OF Cons.prems d(2,3) assms(1)] .
    have nn: "\<forall>d \<in> set (takeWhile (is_digit mult) p). 0 \<le> digit_value d"
      using parse_digit_Some [OF _ assms(1)] by (fastforce simp: parse_digit_digit [OF assms(1), symmetric] dest: set_takeWhileD)
    show ?thesis
    proof (cases "?n > MAXINT")
      case True
      then have "foldl (\<lambda>n d. n * mult + digit_value d) ?n (takeWhile (is_digit mult) p) > MAXINT"
        using foldl_digits_ge [OF _ nn n0, of mult] assms(1) by auto
      with True ov Some d(1) show ?thesis
        by (simp add: parse_loop.simps [of _ "c # p"] dig Let_def)
    next
      case False
      with Cons.IH [OF n0, of True] ov Some d(1) show ?thesis
        by (simp add: parse_loop.simps [of _ "c # p"] dig Let_def)
    qed
  qed
qed

lemma tolower_x: "grub_tolower (schar c) = 120 \<longleftrightarrow> c = 120 \<or> c = 88"
proof -
  have "c = 120 \<longleftrightarrow> uint c = 120" "c = 88 \<longleftrightarrow> uint c = 88" by (simp_all add: word_uint_eq_iff)
  then show ?thesis using byte_range [of c] by (auto simp: tolower_schar split: if_splits)
qed

lemma safe_parse_maxint_eq:
  "safe_parse_maxint s =
     (let (mult, t) = number_base s; ds = takeWhile (is_digit mult) t
      in if ds = [] then Inl ERR_NUMBER_PARSING
         else if num_value mult ds > MAXINT then Inl ERR_NUMBER_OVERFLOW
         else Inr (num_value mult ds, dropWhile (is_digit mult) t))"
proof -
  obtain mult t where b: "number_base s = (mult, t)" by fastforce
  then have m: "mult = 10 \<or> mult = 16" by (auto simp: number_base_def split: if_splits)
  have "safe_parse_maxint s = (case parse_loop mult t 0 False of Inl e \<Rightarrow> Inl e
      | Inr (p, myint, found) \<Rightarrow> if \<not> found then Inl ERR_NUMBER_PARSING else Inr (myint, p))"
    using b by (auto simp: safe_parse_maxint_def number_base_def tolower_x Let_def split: if_splits)
  also have "parse_loop mult t 0 False =
      (let ds = takeWhile (is_digit mult) t
       in if num_value mult ds > MAXINT then Inl ERR_NUMBER_OVERFLOW
          else Inr (dropWhile (is_digit mult) t, num_value mult ds, ds \<noteq> []))"
    using parse_loop_spec [OF m, of 0 t False] by (simp add: MAXINT_def num_value_def Let_def)
  finally show ?thesis
    using b by (auto simp: Let_def num_value_def MAXINT_def)
qed

lemma reorder_nth:
  assumes "b < length xs" "a \<le> b + 1"
  shows "length (reorder b a xs) = length xs \<and>
    (\<forall>i < length xs. reorder b a xs ! i = (if a \<le> i \<and> i \<le> b then xs ! (a + b - i) else xs ! i))"
  using assms
proof (induction b a xs rule: reorder.induct)
  case (1 b a xs)
  show ?case
  proof (cases "b > a")
    case True
    let ?ys = "xs[b := xs ! a, a := xs ! b]"
    have r: "reorder b a xs = reorder (b - 1) (a + 1) ?ys"
      using True by (simp add: reorder.simps [of b a xs])
    have ih: "length (reorder (b - 1) (a + 1) ?ys) = length ?ys \<and>
      (\<forall>i < length ?ys. reorder (b - 1) (a + 1) ?ys ! i =
         (if a + 1 \<le> i \<and> i \<le> b - 1 then ?ys ! (a + 1 + (b - 1) - i) else ?ys ! i))"
      using "1.prems" True by (intro "1.IH") auto
    show ?thesis
    proof (intro conjI allI impI)
      show "length (reorder b a xs) = length xs" using ih r by simp
    next
      fix i assume i: "i < length xs"
      have "reorder b a xs ! i = (if a + 1 \<le> i \<and> i \<le> b - 1 then ?ys ! (a + b - i) else ?ys ! i)"
        using ih r i True by auto
      also have "\<dots> = (if a \<le> i \<and> i \<le> b then xs ! (a + b - i) else xs ! i)"
        using True i "1.prems"(1) by (cases "i = a"; cases "i = b") (auto simp: nth_list_update)
      finally show "reorder b a xs ! i = (if a \<le> i \<and> i \<le> b then xs ! (a + b - i) else xs ! i)" .
    qed
  next
    case False
    with "1.prems" have "a = b \<or> a = b + 1" by linarith
    then show ?thesis by (auto simp: reorder.simps [of b a xs])
  qed
qed

lemma reorder_rev: "xs \<noteq> [] \<Longrightarrow> reorder (length xs - 1) 0 xs = rev xs"
  using reorder_nth [of "length xs - 1" xs 0]
  by (intro nth_equalityI) (auto simp: rev_nth)

lemma uint_byte_of_int: "0 \<le> x \<Longrightarrow> x < 256 \<Longrightarrow> uint (word_of_int x :: byte) = x"
  by (simp add: unsigned_of_int take_bit_eq_mod)

lemma uint_digit_char:
  "0 \<le> d \<Longrightarrow> d < 16 \<Longrightarrow> uint (digit_char d) = (if d > 9 then d + 87 else d + 48)"
  by (simp add: digit_char_def uint_byte_of_int del: of_int_add of_int_diff of_int_numeral)

lemma digit_value_digit_char: "0 \<le> d \<Longrightarrow> d < 16 \<Longrightarrow> digit_value (digit_char d) = d"
  using uint_digit_char [of d] by (auto simp: digit_value_def word_le_def grub_tolower_def)

lemma is_digit_digit_char:
  assumes "0 \<le> d" "d < mult" "mult = 10 \<or> mult = 16"
  shows "is_digit mult (digit_char d)"
  using assms uint_digit_char [of d]
  by (cases "d > 9") (auto simp: is_digit_uint)

lemma ascii_digits_digits:
  assumes "mult = 10 \<or> mult = 16" "0 \<le> n"
  shows "ascii_digits mult n \<noteq> [] \<and> (\<forall>c \<in> set (ascii_digits mult n). is_digit mult c)"
  using assms
proof (induction mult n rule: ascii_digits.induct)
  case (1 mult n)
  have d: "is_digit mult (digit_char (n mod mult))"
    using "1.prems" by (intro is_digit_digit_char) auto
  show ?case
  proof (cases "n div mult = 0")
    case True
    then show ?thesis using d by (simp add: ascii_digits.simps [of mult n])
  next
    case False
    moreover have "0 \<le> n div mult" using "1.prems" by (auto simp: pos_imp_zdiv_nonneg_iff)
    ultimately show ?thesis using "1.IH" "1.prems" d
      by (auto simp: ascii_digits.simps [of mult n])
  qed
qed

lemma num_value_snoc: "num_value mult (ds @ [d]) = num_value mult ds * mult + digit_value d"
  by (simp add: num_value_def)

lemma num_value_ascii_digits:
  assumes "mult = 10 \<or> mult = 16" "0 \<le> n"
  shows "num_value mult (rev (ascii_digits mult n)) = n"
  using assms
proof (induction mult n rule: ascii_digits.induct)
  case (1 mult n)
  have d: "digit_value (digit_char (n mod mult)) = n mod mult"
    using "1.prems" by (intro digit_value_digit_char) (auto intro: less_le_trans [OF pos_mod_bound])
  show ?case
  proof (cases "n div mult = 0")
    case True
    then show ?thesis using d "1.prems" div_mult_mod_eq [of n mult]
      by (simp add: ascii_digits.simps [of mult n] num_value_def)
  next
    case False
    moreover have "0 \<le> n div mult" using "1.prems" by (auto simp: pos_imp_zdiv_nonneg_iff)
    ultimately have "num_value mult (rev (ascii_digits mult (n div mult))) = n div mult"
      using "1.IH" "1.prems" by auto
    then show ?thesis using d False "1.prems" div_mult_mod_eq [of n mult]
      by (auto simp: ascii_digits.simps [of mult n] num_value_snoc)
  qed
qed

lemma num_value_singleton [simp]: "num_value mult [d] = digit_value d"
  by (simp add: num_value_def)

lemma ascii_digits_last_nonzero:
  assumes "mult = 10 \<or> mult = 16" "0 < n"
  shows "last (ascii_digits mult n) \<noteq> 48"
  using assms
proof (induction mult n rule: ascii_digits.induct)
  case (1 mult n)
  show ?case
  proof (cases "n div mult = 0")
    case True
    with "1.prems" have "n mod mult = n" "n < 16" by (auto simp: zdiv_eq_0_iff)
    moreover have "digit_char n \<noteq> 48"
      using digit_value_digit_char [of n] \<open>n < 16\<close> "1.prems"(2) by (auto simp: digit_value_def)
    ultimately show ?thesis using True by (simp add: ascii_digits.simps [of mult n])
  next
    case False
    moreover have "0 < n div mult"
      using "1.prems" False by (auto simp: pos_imp_zdiv_pos_iff zdiv_eq_0_iff not_less)
    ultimately show ?thesis using "1.IH" "1.prems" ascii_digits_digits [of mult "n div mult"]
      by (auto simp: ascii_digits.simps [of mult n])
  qed
qed

lemma takeWhile_digits:
  assumes "\<forall>c \<in> set ds. P c" "\<not> P (deref rest)" "\<not> P 0"
  shows "takeWhile P (ds @ rest) = ds" "dropWhile P (ds @ rest) = rest"
proof -
  have "takeWhile P rest = []" "dropWhile P rest = rest"
    using assms(2) by (cases rest; simp)+
  then show "takeWhile P (ds @ rest) = ds" "dropWhile P (ds @ rest) = rest"
    using assms(1) by (induction ds) auto
qed

lemma convert_to_ascii_nonneg:
  assumes "0 \<le> n" "n \<le> MAXINT"
  shows "convert_to_ascii CHR ''d'' n = rev (ascii_digits 10 n)"
    and "convert_to_ascii CHR ''x'' n = rev (ascii_digits 16 n)"
proof -
  have "\<not> s32 n < 0" using assms by (simp add: s32_id MAXINT_def)
  then show "convert_to_ascii CHR ''d'' n = rev (ascii_digits 10 n)"
    using ascii_digits_digits [of 10 n] assms
    by (simp add: convert_to_ascii_def Let_def reorder_rev [simplified])
  show "convert_to_ascii CHR ''x'' n = rev (ascii_digits 16 n)"
    using ascii_digits_digits [of 16 n] assms
    by (simp add: convert_to_ascii_def Let_def reorder_rev [simplified])
qed

lemma number_base_decimal:
  assumes "0 \<le> n" "n = 0 \<longrightarrow> deref rest \<noteq> 120 \<and> deref rest \<noteq> 88"
  shows "number_base (rev (ascii_digits 10 n) @ rest) = (10, rev (ascii_digits 10 n) @ rest)"
proof (cases "n = 0")
  case True
  then have "ascii_digits 10 n = [48]" by (simp add: ascii_digits.simps digit_char_def)
  with assms(2) True show ?thesis by (cases rest) (auto simp: number_base_def)
next
  case False
  then have "last (ascii_digits 10 n) \<noteq> 48" using assms(1) ascii_digits_last_nonzero [of 10 n] by simp
  moreover obtain c cs where "rev (ascii_digits 10 n) = c # cs"
    using ascii_digits_digits [of 10 n] assms(1) by (cases "rev (ascii_digits 10 n)") auto
  moreover from this have "last (ascii_digits 10 n) = c"
    by (metis last_rev list.sel(1) rev_rev_ident list.distinct(1))
  ultimately show ?thesis by (simp add: number_base_def)
qed

lemma parse_print_decimal:
  assumes "0 \<le> n" "n \<le> MAXINT" "\<not> is_digit 10 (deref rest)"
    and "n = 0 \<longrightarrow> deref rest \<noteq> 120 \<and> deref rest \<noteq> 88"
  shows "safe_parse_maxint (convert_to_ascii CHR ''d'' n @ rest) = Inr (n, rest)"
proof -
  let ?ds = "rev (ascii_digits 10 n)"
  have ds: "?ds \<noteq> []" "\<forall>c \<in> set ?ds. is_digit 10 c"
    using ascii_digits_digits [of 10 n] assms(1) by auto
  have "\<not> is_digit 10 0" by (simp add: is_digit_uint)
  then have "takeWhile (is_digit 10) (?ds @ rest) = ?ds" "dropWhile (is_digit 10) (?ds @ rest) = rest"
    using takeWhile_digits [OF ds(2) assms(3)] by simp_all
  then show ?thesis
    using ds(1) assms num_value_ascii_digits [of 10 n]
    by (simp add: convert_to_ascii_nonneg safe_parse_maxint_eq number_base_decimal)
qed

lemma parse_print_hex:
  assumes "0 \<le> n" "n \<le> MAXINT" "\<not> is_digit 16 (deref rest)"
  shows "safe_parse_maxint (bytes_of ''0x'' @ convert_to_ascii CHR ''x'' n @ rest) = Inr (n, rest)"
proof -
  let ?ds = "rev (ascii_digits 16 n)"
  have ds: "?ds \<noteq> []" "\<forall>c \<in> set ?ds. is_digit 16 c"
    using ascii_digits_digits [of 16 n] assms(1) by auto
  have "\<not> is_digit 16 0" by (simp add: is_digit_uint)
  then have tw: "takeWhile (is_digit 16) (?ds @ rest) = ?ds" "dropWhile (is_digit 16) (?ds @ rest) = rest"
    using takeWhile_digits [OF ds(2) assms(3)] by simp_all
  have "number_base (48 # 120 # ?ds @ rest) = (16, ?ds @ rest)"
    by (simp add: number_base_def)
  then show ?thesis
    using ds(1) assms tw num_value_ascii_digits [of 16 n]
    by (simp add: convert_to_ascii_nonneg safe_parse_maxint_eq bytes_of_def)
qed

section \<open>Memory\<close>

lemma movsb_up_eq:
  "di < si \<Longrightarrow> movsb_up n si di m = copy_mem m di m si n"
proof (induction n arbitrary: si di m)
  case 0
  then show ?case by simp
next
  case (Suc n)
  let ?m = "m(di := m si)"
  have "movsb_up (Suc n) si di m = movsb_up n (si + 1) (di + 1) ?m"
    by (rule movsb_up.simps)
  also have "\<dots> = copy_mem ?m (di + 1) ?m (si + 1) n"
    using Suc.prems by (intro Suc.IH) simp
  also have "\<dots> = copy_mem m di m si (Suc n)"
    using Suc.prems by (auto simp: copy_mem_def fun_eq_iff Suc_diff_Suc)
  finally show ?case .
qed

lemma movsb_down_eq:
  "si \<le> di \<Longrightarrow> movsb_down n (n - 1 + si) (n - 1 + di) m = copy_mem m di m si n"
proof (induction n arbitrary: m)
  case 0
  then show ?case by simp
next
  case (Suc n)
  let ?m = "m(n + di := m (n + si))"
  have "copy_mem ?m di ?m si n = copy_mem m di m si (Suc n)"
    using Suc.prems by (auto simp: copy_mem_def fun_eq_iff) (metis add.commute le_neq_implies_less less_Suc_eq le_add_diff_inverse2 linorder_not_less)+
  moreover have "movsb_down (Suc n) (Suc n - 1 + si) (Suc n - 1 + di) m =
      movsb_down n (n - 1 + si) (n - 1 + di) ?m"
    by (cases n) simp_all
  ultimately show ?case using Suc by simp
qed

lemma grub_memmove_eq [mem_simps]: "grub_memmove m dst src len = copy_mem m dst m src len"
  by (simp add: grub_memmove_def memcheck_def movsb_up_eq movsb_down_eq [simplified])

lemma memset_loop_eq:
  "memset_loop n p c m = (\<lambda>k. if p \<le> k \<and> k < p + n then c else m k)"
  by (induction n arbitrary: p m) (auto simp: fun_eq_iff)

lemma memcpy_loop_disjoint:
  "d + i + n \<le> s + i \<or> s + i + n \<le> d + i \<Longrightarrow> memcpy_loop n i d s m = copy_mem m (d + i) m (s + i) n"
proof (induction n arbitrary: i m)
  case 0
  then show ?case by simp
next
  case (Suc n)
  let ?m = "m(d + i := m (s + i))"
  have "memcpy_loop n (Suc i) d s ?m = copy_mem ?m (d + Suc i) ?m (s + Suc i) n"
    using Suc.prems by (intro Suc.IH) auto
  also have "\<dots> = copy_mem m (d + i) m (s + i) (Suc n)"
    using Suc.prems by (auto simp: copy_mem_def fun_eq_iff Suc_diff_Suc)
  finally show ?case by simp
qed

lemma grub_memcpy_disjoint:
  "dest + len \<le> src \<or> src + len \<le> dest \<Longrightarrow> grub_memcpy m dest src len = copy_mem m dest m src len"
  using memcpy_loop_disjoint [of dest 0 len src m] by (simp add: grub_memcpy_def)

section \<open>Strings\<close>

lemma schar_inject [simp]: "schar a = schar b \<longleftrightarrow> a = b"
  using inj_eq [OF inj_signed, of a b] by blast

lemma schar_0_iff [simp]: "schar c = 0 \<longleftrightarrow> c = 0"
  using schar_inject [of c 0] by (simp del: schar_inject)

text \<open>The string loops unrolled on the list representation.\<close>

lemma grub_strlen_simps [simp]:
  "grub_strlen [] = 0" "grub_strlen (c # s) = (if c \<noteq> 0 then Suc (grub_strlen s) else 0)"
  by (subst grub_strlen.simps; simp)+

lemma substring_by_simps [simp]:
  "substring_by f [] s2 = (if f 0 = f (deref s2) then 0 else - 1)"
  "substring_by f (c # s1) s2 =
     (if f c = f (deref s2) then if c = 0 then 0 else substring_by f s1 (drop 1 s2)
      else if c = 0 then - 1 else 1)"
  by (subst substring_by.simps; simp)+

lemma strstr_here_simps [simp]:
  "strstr_here ptr [] = True"
  "strstr_here ptr (c # tmp) =
     (c = 0 \<or> deref ptr = c \<and> strstr_here (drop 1 ptr) tmp)"
  by (subst strstr_here.simps; simp)+

lemma grub_strstr_simps [simp]:
  "grub_strstr [] s2 = None"
  "grub_strstr (c # s1) s2 =
     (if c \<noteq> 0
      then if deref s2 \<noteq> 0 \<and> c = deref s2 \<and> strstr_here (c # s1) s2 then Some (c # s1)
           else grub_strstr s1 s2
      else None)"
  by (subst grub_strstr.simps, simp only: deref_Nil deref_Cons drop_Suc_Cons One_nat_def drop0 simp_thms if_False)+

lemma grub_strspn_simps [simp]:
  "grub_strspn [] acc = 0"
  "grub_strspn (c # s) acc = (if c \<noteq> 0 \<and> c \<in> set (cstring acc) then Suc (grub_strspn s acc) else 0)"
  by (subst grub_strspn.simps; simp)+

lemma grub_strcspn_simps [simp]:
  "grub_strcspn [] rej = 0"
  "grub_strcspn (c # s) rej = (if c \<noteq> 0 \<and> c \<notin> set (cstring rej) then Suc (grub_strcspn s rej) else 0)"
  by (subst grub_strcspn.simps; simp)+

lemma grub_strlen_eq [cstr_simps]: "grub_strlen s = length (cstring s)"
  by (induction s) auto

text \<open>\<^verbatim>\<open>grub_strcmp\<close> is the lexicographic order of the strings up to their terminators,
  characters taken as signed.\<close>

fun sign_lex :: "byte list \<Rightarrow> byte list \<Rightarrow> int" where
  "sign_lex [] [] = 0"
| "sign_lex [] (b # bs) = (if schar b > 0 then - 1 else 1)"
| "sign_lex (a # as) [] = (if schar a < 0 then - 1 else 1)"
| "sign_lex (a # as) (b # bs) =
     (if schar a < schar b then - 1 else if schar a > schar b then 1 else sign_lex as bs)"

lemma grub_strcmp_eq [cstr_simps]: "grub_strcmp s1 s2 = sign_lex (cstring s1) (cstring s2)"
proof (induction s1 s2 rule: grub_strcmp.induct)
  case (1 s1 s2)
  show ?case
  proof (cases "deref s1 = deref s2")
    case True
    have z: "cstring s = []" if "deref s = 0" for s using that by simp
    show ?thesis
    proof (cases "deref s1 = 0")
      case False
      with True have "s1 \<noteq> []" "s2 \<noteq> []" by auto
      then obtain a as bs where "s1 = a # as" "s2 = a # bs" using True
        by (cases s1; cases s2) auto
      with "1.IH" False show ?thesis by (simp add: grub_strcmp.simps [of "a # as"])
    qed (use True in \<open>simp add: grub_strcmp.simps [of s1 s2] z\<close>)
  next
    case False
    then have "grub_strcmp s1 s2 = (if schar (deref s1) < schar (deref s2) then - 1 else 1)"
      using linorder_less_linear [of "schar (deref s1)" "schar (deref s2)"]
      by (auto simp: grub_strcmp.simps [of s1 s2])
    moreover have "sign_lex (cstring s1) (cstring s2) =
        (if schar (deref s1) < schar (deref s2) then - 1 else 1)"
      using False linorder_less_linear [of "schar (deref s1)" "schar (deref s2)"]
      by (cases s1; cases s2) auto
    ultimately show ?thesis by simp
  qed
qed

lemma sign_lex_0_iff: "sign_lex as bs = 0 \<longleftrightarrow> as = bs"
proof (induction as bs rule: sign_lex.induct)
  case (4 a as b bs)
  then show ?case using linorder_less_linear [of "schar a" "schar b"] by auto
qed auto

lemma sign_lex_antisym: "0 \<notin> set as \<Longrightarrow> 0 \<notin> set bs \<Longrightarrow> sign_lex bs as = - sign_lex as bs"
  by (induction as bs rule: sign_lex.induct) (auto simp: not_less le_less)

lemma substring_by_eq:
  assumes f0: "\<And>c. f c = f 0 \<longleftrightarrow> c = 0"
  shows "substring_by f s1 s2 =
    (if map f (cstring s1) = map f (cstring s2) then 0
     else if prefix (map f (cstring s1)) (map f (cstring s2)) then - 1 else 1)"
proof (induction s1 arbitrary: s2)
  case Nil
  show ?case using f0 [of "deref s2"] by (auto simp: eq_commute [of "f 0"])
next
  case (Cons c s1)
  have f0': "f 0 = f c \<longleftrightarrow> c = 0" for c using f0 [of c] by auto
  show ?case
  proof (cases s2)
    case Nil
    then show ?thesis using f0 [of c] by auto
  next
    case (Cons d s2')
    then show ?thesis using Cons.IH [of s2'] f0 f0' by (auto split: if_splits)
  qed
qed

lemma prefix_map_inj: "inj f \<Longrightarrow> prefix (map f xs) (map f ys) \<longleftrightarrow> prefix xs ys"
proof (induction xs arbitrary: ys)
  case (Cons x xs)
  then show ?case by (cases ys) (auto simp: inj_eq)
qed simp

lemma substring_eq [cstr_simps]:
  "substring s1 s2 = (if cstring s1 = cstring s2 then 0
     else if prefix (cstring s1) (cstring s2) then - 1 else 1)"
proof -
  have "inj schar" by (rule injI) simp
  then show ?thesis
    by (simp add: substring_def substring_by_eq inj_map_eq_map prefix_map_inj)
qed

text \<open>\<^verbatim>\<open>grub_strstr\<close> returns the first occurrence, and fails on an empty needle.\<close>

lemma strstr_here_eq: "strstr_here s1 s2 \<longleftrightarrow> prefix (cstring s2) (cstring s1)"
proof (induction s2 arbitrary: s1)
  case (Cons c s2)
  then show ?case by (cases s1) auto
qed simp

lemma grub_strstr_Some:
  assumes "grub_strstr s1 s2 = Some p"
  shows "\<exists>u. s1 = u @ p \<and> 0 \<notin> set u \<and> prefix (cstring s2) (cstring p) \<and> cstring s2 \<noteq> []
    \<and> (\<forall>v w. cstring s1 = v @ cstring s2 @ w \<longrightarrow> length u \<le> length v)"
  using assms
proof (induction s1)
  case Nil
  then show ?case by simp
next
  case (Cons c s1)
  then have c: "c \<noteq> 0" by (simp split: if_splits)
  show ?case
  proof (cases "deref s2 \<noteq> 0 \<and> c = deref s2 \<and> strstr_here (c # s1) s2")
    case True
    with Cons.prems c have "p = c # s1" by (simp split: if_splits)
    with True show ?thesis by (auto simp: strstr_here_eq intro!: exI [of _ "[]"])
  next
    case False
    with Cons.prems c have "grub_strstr s1 s2 = Some p" by (auto split: if_splits)
    from Cons.IH [OF this] obtain u where u: "s1 = u @ p" "0 \<notin> set u" "prefix (cstring s2) (cstring p)"
      "cstring s2 \<noteq> []" and least: "\<And>v w. cstring s1 = v @ cstring s2 @ w \<Longrightarrow> length u \<le> length v"
      by auto
    have "Suc (length u) \<le> length v" if e: "c # cstring s1 = v @ cstring s2 @ w" for v w
    proof (cases v)
      case Nil
      then have "prefix (cstring s2) (cstring (c # s1))" using e c by (auto simp: prefix_def)
      moreover from this u(4) have "c = deref s2" using c by (cases s2) (auto split: if_splits)
      ultimately show ?thesis using False u(4) by (simp add: strstr_here_eq)
    next
      case (Cons x v')
      with e have "cstring s1 = v' @ cstring s2 @ w" by simp
      from least [OF this] Cons show ?thesis by simp
    qed
    then show ?thesis using u c by (intro exI [of _ "c # u"]) auto
  qed
qed

lemma grub_strstr_None:
  assumes "grub_strstr s1 s2 = None" "cstring s2 \<noteq> []"
  shows "\<not> sublist (cstring s2) (cstring s1)"
  using assms
proof (induction s1)
  case Nil
  then show ?case by (simp add: sublist_code)
next
  case (Cons c s1)
  have "\<not> prefix (cstring s2) (cstring (c # s1))" if "c \<noteq> 0"
  proof
    assume p: "prefix (cstring s2) (cstring (c # s1))"
    from p Cons.prems(2) that have "deref s2 = c" by (cases s2) (auto split: if_splits)
    moreover have "strstr_here (c # s1) s2" using p by (simp add: strstr_here_eq)
    ultimately have "grub_strstr (c # s1) s2 = Some (c # s1)" using that by simp
    with Cons.prems(1) show False by simp
  qed
  moreover have "c \<noteq> 0 \<Longrightarrow> grub_strstr s1 s2 = None"
    using Cons.prems(1) by (simp split: if_splits)
  moreover have "\<not> sublist (cstring s2) []" using Cons.prems(2) by (cases "cstring s2") auto
  ultimately show ?case
    using Cons.IH Cons.prems(2) by (cases "c = 0") (simp_all add: sublist_Cons_right)
qed

text \<open>Tokens.\<close>

lemma grub_strspn_eq: "grub_strspn s d = length (takeWhile (\<lambda>c. c \<in> set (cstring d)) (cstring s))"
  by (induction s) auto

lemma grub_strcspn_eq: "grub_strcspn s d = length (takeWhile (\<lambda>c. c \<notin> set (cstring d)) (cstring s))"
  by (induction s) auto

lemma strncat_scan_eq:
  assumes "n \<le> length s" "i \<le> n"
  shows "strncat_scan s n i = Some (i + length (cstring (drop i (take n s))))"
  using assms
proof (induction s n i rule: strncat_scan.induct)
  case (1 s n i)
  show ?case
  proof (cases "i < n")
    case True
    with "1.prems" have "drop i (take n s) = s ! i # drop (Suc i) (take n s)"
      by (simp add: Cons_nth_drop_Suc [symmetric])
    with True "1.IH" "1.prems" show ?thesis by (simp add: strncat_scan.simps [of s n i])
  qed (use "1.prems" in \<open>simp add: strncat_scan.simps [of s n n]\<close>)
qed

lemma strncat_copy_simps:
  "strncat_copy s1 s2 n i =
     (if i < n
      then if i < length s1
           then if deref s2 \<noteq> 0 then strncat_copy (s1[i := deref s2]) (drop 1 s2) n (i + 1)
                else Some (s1[i := deref s2], i + 1)
           else None
      else Some (s1, i))"
  by (subst strncat_copy.simps) (simp add: Let_def)

lemma strncat_copy_eq:
  assumes "n \<le> length s" "i \<le> n"
  shows "strncat_copy s t n i =
    (let c = take (n - i) (cstring t @ [0])
     in Some (take i s @ c @ drop (i + length c) s, i + length c))"
  using assms
proof (induction t arbitrary: s i)
  case Nil
  then show ?case
    by (auto simp: strncat_copy_simps [of s] upd_conv_take_nth_drop Suc_diff_Suc [symmetric])
next
  case (Cons c t)
  show ?case
  proof (cases "i < n")
    case True
    then have i: "i < length s" using Cons.prems by simp
    have tk: "take (Suc i) (s[i := c]) = take i s @ [c]" for c
      using i by (simp add: take_Suc_conv_app_nth)
    have ni: "n - i = Suc (n - Suc i)" using True by simp
    show ?thesis
    proof (cases "c = 0")
      case True
      then show ?thesis using i \<open>i < n\<close>
        by (simp add: strncat_copy_simps [of s] ni upd_conv_take_nth_drop)
    next
      case False
      then have "strncat_copy s (c # t) n i = strncat_copy (s[i := c]) t n (i + 1)"
        using True i by (simp add: strncat_copy_simps [of s])
      also have "\<dots> = (let d = take (n - (i + 1)) (cstring t @ [0])
          in Some (take (i + 1) (s[i := c]) @ d @ drop (i + 1 + length d) (s[i := c]), i + 1 + length d))"
        using Cons.prems True by (intro Cons.IH) auto
      finally show ?thesis using False by (simp add: tk ni Let_def)
    qed
  qed (use Cons.prems in \<open>simp add: strncat_copy_simps [of s]\<close>)
qed

text \<open>The buffer after the copy loop, and what the two final stores make of it.\<close>

lemma strncat_fits:
  assumes "0 \<notin> set c" "length c + 1 < n" "n \<le> length (c @ 0 # rest)"
    and u_def: "u = (c @ 0 # rest)[n - 1 := 0, length c + 1 := 0]"
  shows "length u = length (c @ 0 # rest) \<and> drop n u = drop n (c @ 0 # rest) \<and> cstring u = c"
proof -
  obtain k where "n = Suc (length c + 1 + k)" using less_imp_Suc_add [OF assms(2)] by blast
  then have "u = c @ 0 # rest[k := 0, 0 := 0]"
    by (simp add: u_def list_update_append)
  then have "cstring u = c" using assms(1) by simp
  then show ?thesis using assms(2) by (simp add: u_def)
qed

lemma strncat_full:
  assumes "0 \<notin> set c" "0 < n" "n \<le> length c + 1"
    and t_def: "t = take n (c @ [0]) @ rest"
  shows "length (t[n - 1 := 0]) = n + length rest \<and> drop n (t[n - 1 := 0]) = rest
    \<and> cstring (t[n - 1 := 0]) = take (n - 1) c"
proof -
  have n: "length (take n (c @ [0])) = n" using assms(3) by simp
  have "take n (c @ [0]) = take (n - 1) (c @ [0]) @ [(c @ [0]) ! (n - 1)]"
    using assms(2,3) take_Suc_conv_app_nth [of "n - 1" "c @ [0]"] by simp
  then have "t[n - 1 := 0] = take (n - 1) c @ 0 # rest"
    using assms(2,3) by (simp add: t_def list_update_append)
  moreover have "0 \<notin> set (take (n - 1) c)" using assms(1) by (auto dest: in_set_takeD)
  ultimately show ?thesis using assms(2,3) n by simp
qed

lemma grub_strncat_eq:
  assumes "0 < n" "n \<le> length s1" "c = cstring (take n s1) @ cstring s2"
  shows "\<exists>t. grub_strncat s1 s2 n = Some (t, if length c + 1 < n then 1 else 0)
    \<and> length t = length s1 \<and> drop n t = drop n s1 \<and> cstring t = take (n - 1) c"
proof -
  define i where "i = length (cstring (take n s1))"
  define d where "d = take (n - i) (cstring s2 @ [0])"
  have i: "i \<le> n" using length_cstring_le [of "take n s1"] assms(2) by (simp add: i_def)
  have tk: "take i s1 = cstring (take n s1)"
  proof -
    have "take i (take n s1) = cstring (take n s1)"
      unfolding i_def cstring_def by (metis takeWhile_eq_take)
    then show ?thesis using i by (simp add: min_def)
  qed
  have nul: "0 \<notin> set c" by (simp add: assms(3) cstring_no_nul)
  let ?t = "cstring (take n s1) @ d @ drop (i + length d) s1"
  have sc: "strncat_scan s1 n 0 = Some i" using assms(2) by (simp add: strncat_scan_eq i_def)
  have cp: "strncat_copy s1 s2 n i = Some (?t, i + length d)"
    unfolding strncat_copy_eq [OF assms(2) i] d_def [symmetric] tk by (simp add: Let_def)
  have "n \<le> length ?t" using assms(2) i by (simp add: d_def i_def)
  with sc cp assms(1) have r: "grub_strncat s1 s2 n = (if i + length d \<ge> n then Some (?t[n - 1 := 0], 0)
      else Some (?t[n - 1 := 0, i + length d := 0], 1))"
    by (simp add: grub_strncat_def Let_def)
  show ?thesis
  proof (cases "length c + 1 < n")
    case True
    then have d: "d = cstring s2 @ [0]" by (simp add: d_def i_def assms(3))
    then have t: "?t = c @ 0 # drop (length c + 1) s1" and j: "i + length d = length c + 1"
      by (simp_all add: assms(3) i_def)
    have len: "length (c @ 0 # drop (length c + 1) s1) = length s1" using True assms(2) by simp
    have dr: "drop n (c @ 0 # drop (length c + 1) s1) = drop n s1"
      using less_imp_Suc_add [OF True] by (auto simp: add.commute)
    show ?thesis
      using strncat_fits [OF nul True _ refl, of "drop (length c + 1) s1", unfolded len dr]
        r [unfolded t, unfolded j] True assms(2) by auto
  next
    case False
    then have j: "i + length d = n" using i by (simp add: d_def i_def assms(3))
    have t: "?t = take n (c @ [0]) @ drop n s1"
      unfolding j using i by (simp add: d_def assms(3) i_def)
    show ?thesis
      using strncat_full [OF nul assms(1) _ refl, of "drop n s1"] r [unfolded t, unfolded j]
        False assms(2) by auto
  qed
qed

lemma cstring_drop: "n \<le> length (cstring s) \<Longrightarrow> cstring (drop n s) = drop n (cstring s)"
  by (induction s arbitrary: n) (auto simp: drop_Cons split: nat.splits)

lemma cstring_take: "n \<le> length (cstring s) \<Longrightarrow> take n s = take n (cstring s)"
  by (induction s arbitrary: n) (auto simp: take_Cons split: nat.splits)

lemma grub_strtok_r_eq:
  assumes "grub_strtok_r s delim = (tok, rest)" and "D = set (cstring delim)"
  shows "case tok of
      None \<Rightarrow> set (cstring s) \<subseteq> D \<and> cstring rest = []
    | Some t \<Rightarrow> \<exists>lead sep. cstring s = lead @ t @ sep @ cstring rest \<and> set lead \<subseteq> D
         \<and> t \<noteq> [] \<and> set t \<inter> D = {} \<and> (sep = [] \<and> cstring rest = [] \<or> (\<exists>x \<in> D. sep = [x]))"
proof -
  define k where "k = grub_strspn s delim"
  define s1 where "s1 = drop k s"
  define lead where "lead = takeWhile (\<lambda>c. c \<in> D) (cstring s)"
  have k: "k = length lead" by (simp add: k_def lead_def grub_strspn_eq assms(2))
  then have "k \<le> length (cstring s)" by (simp add: lead_def length_takeWhile_le)
  then have s1: "cstring s1 = dropWhile (\<lambda>c. c \<in> D) (cstring s)"
    by (simp add: s1_def cstring_drop k lead_def dropWhile_eq_drop)
  have split: "cstring s = lead @ cstring s1" by (simp add: lead_def s1)
  have leadD: "set lead \<subseteq> D" by (auto simp: lead_def dest: set_takeWhileD)
  show ?thesis
  proof (cases "deref s1 = 0")
    case True
    then have "tok = None" "rest = s1"
      using assms(1) by (simp_all add: grub_strtok_r_def Let_def k_def [symmetric] s1_def [symmetric])
    with True split leadD show ?thesis by simp
  next
    case False
    define l where "l = grub_strcspn s1 delim"
    define s2 where "s2 = drop l s1"
    define t where "t = takeWhile (\<lambda>c. c \<notin> D) (cstring s1)"
    have l: "l = length t" by (simp add: l_def t_def grub_strcspn_eq assms(2))
    then have "l \<le> length (cstring s1)" by (simp add: t_def length_takeWhile_le)
    then have s2: "cstring s2 = dropWhile (\<lambda>c. c \<notin> D) (cstring s1)" and tk: "take l s1 = t"
      by (simp_all add: s2_def cstring_drop cstring_take l t_def dropWhile_eq_drop takeWhile_eq_take [symmetric])
    have res: "tok = Some t" "rest = (if deref s2 \<noteq> 0 then drop 1 s2 else s2)"
      using assms(1) False tk
      by (auto simp: grub_strtok_r_def Let_def k_def [symmetric] s1_def [symmetric] l_def [symmetric] s2_def
          split: if_splits)
    have "cstring s1 \<noteq> []" using False by simp
    then have t: "t \<noteq> []" "set t \<inter> D = {}"
      using s1 hd_dropWhile [of "\<lambda>c. c \<in> D" "cstring s"]
      by (auto simp: t_def takeWhile_eq_Nil_iff dest: set_takeWhileD)
    have sp: "cstring s1 = t @ cstring s2" by (simp add: t_def s2)
    show ?thesis
    proof (cases "deref s2 = 0")
      case True
      then have "rest = s2" "cstring s2 = []" using res by simp_all
      then show ?thesis using split sp leadD t
        unfolding res(1) option.case by (intro exI [of _ lead] exI [of _ "[]"]) simp
    next
      case False
      then have c2: "cstring s2 = deref s2 # cstring (drop 1 s2)" by (cases s2) auto
      moreover have "deref s2 \<in> D"
        using c2 s2 hd_dropWhile [of "\<lambda>c. c \<notin> D" "cstring s1"] by (metis list.distinct(1) list.sel(1))
      ultimately show ?thesis using res split sp leadD t False
        unfolding res(1) option.case by (intro exI [of _ lead] exI [of _ "[deref s2]"]) simp
    qed
  qed
qed

section \<open>Properties\<close>

text \<open>C8: \<^verbatim>\<open>safe_parse_maxint\<close> accepts exactly a non-empty run of digits (hexadecimal after
  \<^verbatim>\<open>0x\<close> or \<^verbatim>\<open>0X\<close>, decimal otherwise) whose value is at most \<^verbatim>\<open>MAXINT\<close>,
  returns that value with the rest of the string, and reports a missing number and an
  overflowing one by their own error codes.\<close>

theorem safe_parse_maxint_spec:
  "safe_parse_maxint s =
     (let (mult, t) = number_base s; ds = takeWhile (is_digit mult) t
      in if ds = [] then Inl ERR_NUMBER_PARSING
         else if num_value mult ds > MAXINT then Inl ERR_NUMBER_OVERFLOW
         else Inr (num_value mult ds, dropWhile (is_digit mult) t))"
  by (rule safe_parse_maxint_eq)

text \<open>C9: Printing a number with \<^verbatim>\<open>convert_to_ascii\<close> and parsing the result with
  \<^verbatim>\<open>safe_parse_maxint\<close> gives the number back and leaves the text that follows, in
  decimal and, behind a \<^verbatim>\<open>0x\<close>, in hexadecimal.\<close>

theorem print_parse_roundtrip:
  assumes "0 \<le> n" "n \<le> MAXINT" "\<not> is_digit 16 (deref rest)"
    and "n = 0 \<longrightarrow> deref rest \<noteq> 120 \<and> deref rest \<noteq> 88"
  shows "safe_parse_maxint (convert_to_ascii CHR ''d'' n @ rest) = Inr (n, rest)
    \<and> safe_parse_maxint (bytes_of ''0x'' @ convert_to_ascii CHR ''x'' n @ rest) = Inr (n, rest)"
proof -
  have "\<not> is_digit 10 (deref rest)" using assms(3) by (auto simp: is_digit_uint)
  with assms show ?thesis by (simp add: parse_print_decimal parse_print_hex)
qed

theorem print_parse_roundtrip_witness:
  "safe_parse_maxint (convert_to_ascii CHR ''d'' 2015 @ bytes_of '',a'') = Inr (2015, bytes_of '',a'')
   \<and> safe_parse_maxint (bytes_of ''0x'' @ convert_to_ascii CHR ''x'' 2015 @ bytes_of '',a'')
     = Inr (2015, bytes_of '',a'')"
proof -
  have "\<not> is_digit 16 (deref (bytes_of '',a''))" by (simp add: is_digit_uint bytes_of_def)
  then show ?thesis
    by (intro print_parse_roundtrip) (simp_all add: MAXINT_def)
qed

text \<open>C12: \<^verbatim>\<open>grub_memmove\<close> copies correctly for every overlap of source and destination: the
  choice of direction makes the byte-by-byte \<^verbatim>\<open>rep movsb\<close> equal to a copy of the
  original source bytes, and no other byte changes.\<close>

theorem grub_memmove_correct:
  "grub_memmove m dst src len k = (if dst \<le> k \<and> k < dst + len then m (src + (k - dst)) else m k)"
  by (simp add: grub_memmove_eq copy_mem_def)

text \<open>C13: With room for \<open>n\<close> bytes, \<^verbatim>\<open>grub_strncat\<close> never writes at or beyond
  offset \<open>n\<close>, leaves a terminated string that is the concatenation cut to
  \<open>n - 1\<close> characters, and returns 1 exactly when one more byte than the
  terminated result needs is available.\<close>

theorem grub_strncat_spec:
  assumes "0 < n" "n \<le> length s1"
  shows "\<exists>t. grub_strncat s1 s2 n =
      Some (t, if length (cstring (take n s1) @ cstring s2) + 1 < n then 1 else 0)
    \<and> length t = length s1 \<and> drop n t = drop n s1
    \<and> cstring t = take (n - 1) (cstring (take n s1) @ cstring s2)"
  using assms by (intro grub_strncat_eq) simp_all

theorem grub_strncat_spec_witness:
  "\<exists>t. grub_strncat [97, 0, 7, 7, 7] [98, 99, 100] 4 = Some (t, 0)
    \<and> length t = length [97, 0, 7, 7, 7 :: byte] \<and> drop 4 t = [7] \<and> cstring t = [97, 98, 99]"
proof -
  have "0 < (4::nat)" "4 \<le> length [97, 0, 7, 7, 7 :: byte]" by simp_all
  from grub_strncat_spec [OF this, of "[98, 99, 100]"] show ?thesis by simp
qed

text \<open>C14: \<^verbatim>\<open>grub_strstr\<close> returns the leftmost occurrence of a non-empty needle and fails
  exactly when there is none; an empty needle is never found.\<close>

theorem grub_strstr_spec:
  "case grub_strstr s1 s2 of
     Some p \<Rightarrow> \<exists>u. s1 = u @ p \<and> 0 \<notin> set u \<and> prefix (cstring s2) (cstring p)
       \<and> (\<forall>v w. cstring s1 = v @ cstring s2 @ w \<longrightarrow> length u \<le> length v)
   | None \<Rightarrow> cstring s2 = [] \<or> \<not> sublist (cstring s2) (cstring s1)"
  using grub_strstr_Some [of s1 s2] grub_strstr_None [of s1 s2]
  by (auto split: option.splits)

theorem grub_strstr_spec_witness:
  "grub_strstr [97, 98, 99, 98] [98, 99] = Some [98, 99, 98] \<and>
   (\<exists>u. [97, 98, 99, 98 :: byte] = u @ [98, 99, 98] \<and> prefix (cstring [98, 99]) (cstring [98, 99, 98 :: byte]))"
proof -
  have e: "grub_strstr [97, 98, 99, 98] [98, 99] = Some [98, 99, 98]" by code_simp
  from grub_strstr_spec [of "[97, 98, 99, 98]" "[98, 99]"] show ?thesis
    unfolding e by auto
qed

text \<open>C15: \<^verbatim>\<open>grub_strtok_r\<close> splits off the next token: it skips leading delimiters, the
  token is non-empty, free of delimiters and ended by a delimiter or the end of the
  string, and it reports no token only when nothing but delimiters is left.\<close>

theorem grub_strtok_r_spec:
  "case grub_strtok_r s delim of (tok, rest) \<Rightarrow>
     (case tok of
        None \<Rightarrow> set (cstring s) \<subseteq> set (cstring delim) \<and> cstring rest = []
      | Some t \<Rightarrow> \<exists>lead sep. cstring s = lead @ t @ sep @ cstring rest
           \<and> set lead \<subseteq> set (cstring delim) \<and> t \<noteq> [] \<and> set t \<inter> set (cstring delim) = {}
           \<and> (sep = [] \<and> cstring rest = [] \<or> (\<exists>x \<in> set (cstring delim). sep = [x])))"
  using grub_strtok_r_eq [OF _ refl, of s delim] by (auto split: prod.splits)

theorem grub_strtok_r_spec_witness:
  "\<exists>lead sep. cstring [32, 97, 98, 32, 99] = lead @ [97, 98] @ sep @ cstring [99 :: byte] \<and> set lead \<subseteq> set (cstring [32])"
proof -
  have e: "grub_strtok_r [32, 97, 98, 32, 99] [32] = (Some [97, 98], [99])" by code_simp
  from grub_strtok_r_spec [of "[32, 97, 98, 32, 99]" "[32]"] show ?thesis
    unfolding e by (simp only: prod.case option.case) blast
qed

end
