(* ===== verification/Md5.thy ===== *)
theory Md5
  imports Char_Io
begin

text \<open>
  \<^verbatim>\<open>stage2/md5.c\<close>: the MD5 digest and the \<^verbatim>\<open>$1$\<close> password scheme.

  The static variables \<^verbatim>\<open>state\<close>, \<^verbatim>\<open>length\<close> and \<^verbatim>\<open>buffer\<close> are the record
  \<open>md5_ctx\<close>, passed and returned. A pointer with a length is the list of the bytes it
  covers. The buffer of \<^verbatim>\<open>crypted\<close> is a list; the password function is \<open>None\<close> where the
  source would store past its end, or use the difference of a null pointer as a length.

  The reference is RFC 1321: padding, the 64 in-place operations on four registers, and
  the digest as the little-endian bytes of the registers. The development shows that the
  incremental digest over any split of a message is the RFC digest of the message, and that
  the password check accepts exactly the strings the scheme produces.
\<close>

section \<open>The digest\<close>

type_synonym u4 = "32 word"
type_synonym regs = "u4 \<times> u4 \<times> u4 \<times> u4"

definition md5_F :: "u4 \<Rightarrow> u4 \<Rightarrow> u4 \<Rightarrow> u4" where
  "md5_F x y z = (x AND y) OR (NOT x AND z)"

definition md5_G :: "u4 \<Rightarrow> u4 \<Rightarrow> u4 \<Rightarrow> u4" where
  "md5_G x y z = (x AND z) OR (y AND NOT z)"

definition md5_H :: "u4 \<Rightarrow> u4 \<Rightarrow> u4 \<Rightarrow> u4" where
  "md5_H x y z = x XOR y XOR z"

definition md5_I :: "u4 \<Rightarrow> u4 \<Rightarrow> u4 \<Rightarrow> u4" where
  "md5_I x y z = y XOR (x OR NOT z)"

definition ROTATE_LEFT :: "u4 \<Rightarrow> nat \<Rightarrow> u4" where
  "ROTATE_LEFT x n = push_bit n x OR drop_bit (32 - n) x"

definition initstate :: regs where
  "initstate = (0x67452301, 0xefcdab89, 0x98badcfe, 0x10325476)"

definition md5_s1 :: "nat list" where "md5_s1 = [7, 12, 17, 22]"
definition md5_s2 :: "nat list" where "md5_s2 = [5, 9, 14, 20]"
definition md5_s3 :: "nat list" where "md5_s3 = [4, 11, 16, 23]"
definition md5_s4 :: "nat list" where "md5_s4 = [6, 10, 15, 21]"

definition md5_T :: "u4 list" where
  "md5_T = [
    0xd76aa478, 0xe8c7b756, 0x242070db, 0xc1bdceee, 0xf57c0faf, 0x4787c62a, 0xa8304613, 0xfd469501,
    0x698098d8, 0x8b44f7af, 0xffff5bb1, 0x895cd7be, 0x6b901122, 0xfd987193, 0xa679438e, 0x49b40821,
    0xf61e2562, 0xc040b340, 0x265e5a51, 0xe9b6c7aa, 0xd62f105d, 0x02441453, 0xd8a1e681, 0xe7d3fbc8,
    0x21e1cde6, 0xc33707d6, 0xf4d50d87, 0x455a14ed, 0xa9e3e905, 0xfcefa3f8, 0x676f02d9, 0x8d2a4c8a,
    0xfffa3942, 0x8771f681, 0x6d9d6122, 0xfde5380c, 0xa4beea44, 0x4bdecfa9, 0xf6bb4b60, 0xbebfbc70,
    0x289b7ec6, 0xeaa127fa, 0xd4ef3085, 0x04881d05, 0xd9d4d039, 0xe6db99e5, 0x1fa27cf8, 0xc4ac5665,
    0xf4292244, 0x432aff97, 0xab9423a7, 0xfc93a039, 0x655b59c3, 0x8f0ccc92, 0xffeff47d, 0x85845dd1,
    0x6fa87e4f, 0xfe2ce6e0, 0xa3014314, 0x4e0811a1, 0xf7537e82, 0xbd3af235, 0x2ad7d2bb, 0xeb86d391]"

text \<open>Little-endian words of a block, and the bytes of a word.\<close>

definition le32 :: "byte list \<Rightarrow> u4" where
  "le32 bs = word_of_int (uint (bs ! 0) + 2 ^ 8 * uint (bs ! 1) + 2 ^ 16 * uint (bs ! 2) + 2 ^ 24 * uint (bs ! 3))"

definition word_at :: "byte list \<Rightarrow> nat \<Rightarrow> u4" where
  "word_at block i = le32 (drop (4 * i) block)"

definition bytes_le :: "u4 \<Rightarrow> byte list" where
  "bytes_le w = map (\<lambda>i. word_of_int (uint w div 2 ^ (8 * i))) [0..<4]"

text \<open>The body of the four loops; the variables are \<^verbatim>\<open>a\<close>, \<^verbatim>\<open>b\<close>, \<^verbatim>\<open>c\<close>, \<^verbatim>\<open>d\<close>.\<close>

definition md5_step :: "(u4 \<Rightarrow> u4 \<Rightarrow> u4 \<Rightarrow> u4) \<Rightarrow> u4 \<Rightarrow> u4 \<Rightarrow> nat \<Rightarrow> regs \<Rightarrow> regs" where
  "md5_step f x t s = (\<lambda>(a, b, c, d).
     let tmp = a + f b c d + x + t; tmp = ROTATE_LEFT tmp s; tmp = tmp + b in (d, tmp, b, c))"

definition md5_transform :: "byte list \<Rightarrow> regs \<Rightarrow> regs" where
  "md5_transform block state =
     (let x = word_at block;
          r1 = fold (\<lambda>i. md5_step md5_F (x i) (md5_T ! i) (md5_s1 ! (i mod 4))) [0..<16] state;
          r2 = fold (\<lambda>i. md5_step md5_G (x ((1 + 5 * i) mod 16)) (md5_T ! (i + 16)) (md5_s2 ! (i mod 4))) [0..<16] r1;
          r3 = fold (\<lambda>i. md5_step md5_H (x ((5 + 3 * i) mod 16)) (md5_T ! (i + 32)) (md5_s3 ! (i mod 4))) [0..<16] r2;
          r4 = fold (\<lambda>i. md5_step md5_I (x (7 * i mod 16)) (md5_T ! (i + 48)) (md5_s4 ! (i mod 4))) [0..<16] r3
      in case (state, r4) of ((s0, s1, s2, s3), (a, b, c, d)) \<Rightarrow> (s0 + a, s1 + b, s2 + c, s3 + d))"

record md5_ctx =
  md_state :: regs
  md_length :: u4
  md_buffer :: "byte list"

definition md5_init :: "md5_ctx \<Rightarrow> md5_ctx" where
  "md5_init ctx = ctx\<lparr>md_state := initstate, md_length := 0\<rparr>"

text \<open>\<^verbatim>\<open>memcpy (buffer + n, input, len)\<close>, for a range inside the buffer.\<close>

definition put_buffer :: "nat \<Rightarrow> byte list \<Rightarrow> byte list \<Rightarrow> byte list" where
  "put_buffer n bs buf = take n buf @ bs @ drop (n + length bs) buf"

text \<open>The loop over whole blocks; the result has the remaining input.\<close>

function md5_blocks :: "byte list \<Rightarrow> regs \<Rightarrow> byte list \<times> regs" where
  "md5_blocks input st =
     (if 64 \<le> length input then md5_blocks (drop 64 input) (md5_transform (take 64 input) st)
      else (input, st))"
  by auto
termination by (relation "measure (\<lambda>(input, st). length input)") auto

declare md5_blocks.simps [simp del]

definition md5_update :: "byte list \<Rightarrow> md5_ctx \<Rightarrow> md5_ctx" where
  "md5_update input ctx =
     (let buflen = unat (md_length ctx AND 63);
          inputlen = length input;
          ctx = ctx\<lparr>md_length := md_length ctx + of_nat inputlen\<rparr>
      in if buflen + inputlen < 64
         then ctx\<lparr>md_buffer := put_buffer buflen input (md_buffer ctx)\<rparr>
         else let buf = put_buffer buflen (take (64 - buflen) input) (md_buffer ctx);
                  st = md5_transform buf (md_state ctx);
                  (rest, st') = md5_blocks (drop (64 - buflen) input) st
              in ctx\<lparr>md_state := st', md_buffer := put_buffer 0 rest buf\<rparr>)"

definition digest_bytes :: "regs \<Rightarrow> byte list" where
  "digest_bytes = (\<lambda>(a, b, c, d). bytes_le a @ bytes_le b @ bytes_le c @ bytes_le d)"

definition md5_final :: "md5_ctx \<Rightarrow> byte list \<times> md5_ctx" where
  "md5_final ctx =
     (let buflen = unat (md_length ctx AND 63);
          buf = (md_buffer ctx)[buflen := 0x80];
          buflen = buflen + 1;
          buf = put_buffer buflen (replicate (64 - buflen) 0) buf;
          (st, buf) = (if buflen > 56 then (md5_transform buf (md_state ctx), replicate 64 0)
                       else (md_state ctx, buf));
          buf = put_buffer 56 (bytes_le (8 * md_length ctx)) buf;
          buf = put_buffer 60 (bytes_le 0) buf;
          st = md5_transform buf st
      in (digest_bytes st, ctx\<lparr>md_state := st, md_buffer := buf\<rparr>))"

text \<open>The digest of a string, the function \<^verbatim>\<open>md5\<close> of the file's test program.\<close>

definition md5 :: "byte list \<Rightarrow> md5_ctx \<Rightarrow> byte list \<times> md5_ctx" where
  "md5 input ctx = md5_final (md5_update input (md5_init ctx))"

section \<open>The reference, RFC 1321\<close>

text \<open>Operation \<open>i\<close> of the 64 (RFC 1321, section 3.4): register \<open>r\<close> is updated in place from
  the three registers after it, cyclically.\<close>

definition rfc_f :: "nat \<Rightarrow> u4 \<Rightarrow> u4 \<Rightarrow> u4 \<Rightarrow> u4" where
  "rfc_f i = (if i < 16 then (\<lambda>x y z. (x AND y) OR (NOT x AND z))
              else if i < 32 then (\<lambda>x y z. (x AND z) OR (y AND NOT z))
              else if i < 48 then (\<lambda>x y z. x XOR y XOR z)
              else (\<lambda>x y z. y XOR (x OR NOT z)))"

definition rfc_k :: "nat \<Rightarrow> nat" where
  "rfc_k i = (if i < 16 then i else if i < 32 then (5 * i + 1) mod 16
              else if i < 48 then (3 * i + 5) mod 16 else 7 * i mod 16)"

definition rfc_s :: "nat \<Rightarrow> nat" where
  "rfc_s i = [[7, 12, 17, 22], [5, 9, 14, 20], [4, 11, 16, 23], [6, 10, 15, 21]] ! (i div 16) ! (i mod 4)"

definition rfc_op :: "(nat \<Rightarrow> u4) \<Rightarrow> nat \<Rightarrow> u4 list \<Rightarrow> u4 list" where
  "rfc_op x i v =
     (let r = (64 - i) mod 4; a = v ! r; b = v ! ((r + 1) mod 4); c = v ! ((r + 2) mod 4); d = v ! ((r + 3) mod 4)
      in v[r := b + word_rotl (rfc_s i) (a + rfc_f i b c d + x (rfc_k i) + md5_T ! i)])"

definition rfc_compress :: "byte list \<Rightarrow> u4 list \<Rightarrow> u4 list" where
  "rfc_compress block v = map2 (+) v (fold (rfc_op (word_at block)) [0..<64] v)"

definition rfc_pad :: "byte list \<Rightarrow> byte list" where
  "rfc_pad msg = msg @ 0x80 # replicate ((119 - length msg mod 64) mod 64) 0 @
     map (\<lambda>i. word_of_int (8 * int (length msg) div 2 ^ (8 * i))) [0..<8]"

function blocks64 :: "byte list \<Rightarrow> byte list list" where
  "blocks64 bs = (if bs = [] then [] else take 64 bs # blocks64 (drop 64 bs))"
  by auto
termination by (relation "measure length") auto

declare blocks64.simps [simp del]

definition rfc_md5 :: "byte list \<Rightarrow> byte list" where
  "rfc_md5 msg = concat (map bytes_le
     (fold rfc_compress (blocks64 (rfc_pad msg)) [0x67452301, 0xefcdab89, 0x98badcfe, 0x10325476]))"

section \<open>The compression function\<close>

lemma ROTATE_LEFT_eq:
  assumes "0 < n" "n < 32"
  shows "ROTATE_LEFT x n = word_rotl n x"
proof (rule bit_word_eqI)
  fix k
  assume "k < LENGTH(32)"
  then have k: "k < 32" by simp
  show "bit (ROTATE_LEFT x n) k \<longleftrightarrow> bit (word_rotl n x) k"
  proof (cases "k < n")
    case True
    then have "(k + (32 - n)) mod 32 = 32 - n + k" using assms by simp
    with True k assms show ?thesis
      by (simp add: ROTATE_LEFT_def bit_or_iff bit_push_bit_iff bit_drop_bit_eq bit_word_rotl_iff)
  next
    case False
    then have "(k + (32 - n)) mod 32 = k - n" "\<not> bit x (32 - n + k)"
      using assms k by (auto simp: mod_if dest: bit_imp_le_length)
    with False k assms show ?thesis
      by (simp add: ROTATE_LEFT_def bit_or_iff bit_push_bit_iff bit_drop_bit_eq bit_word_rotl_iff)
  qed
qed

text \<open>Rotating the variables instead of naming the registers: after \<open>i\<close> steps the variables
  \<^verbatim>\<open>a\<close> to \<^verbatim>\<open>d\<close> are the registers from number \<open>- i\<close> on.\<close>

definition regs_at :: "nat \<Rightarrow> u4 list \<Rightarrow> regs" where
  "regs_at i v = (let r = (64 - i) mod 4
     in (v ! r, v ! ((r + 1) mod 4), v ! ((r + 2) mod 4), v ! ((r + 3) mod 4)))"

lemma rfc_s_range: "i < 64 \<Longrightarrow> 0 < rfc_s i \<and> rfc_s i < 32"
proof -
  assume "i < 64"
  then have "i div 16 < 4" "i mod 4 < 4" by auto
  then have "i div 16 \<in> {0, 1, 2, 3}" "i mod 4 \<in> {0, 1, 2, 3}" by auto
  then show ?thesis by (auto simp: rfc_s_def)
qed

lemma register_cycle:
  assumes "i < 64"
  shows "(64 - i) mod 4 = 0 \<and> (64 - Suc i) mod 4 = 3 \<or> (64 - i) mod 4 = 1 \<and> (64 - Suc i) mod 4 = 0 \<or>
    (64 - i) mod 4 = 2 \<and> (64 - Suc i) mod 4 = 1 \<or> (64 - i) mod 4 = 3 \<and> (64 - Suc i) mod 4 = 2"
proof -
  have "64 - i = Suc (64 - Suc i)" using assms by simp
  then show ?thesis by (simp add: mod_Suc) arith
qed

lemma list4: "length v = 4 \<Longrightarrow> \<exists>a b c d. v = [a, b, c, d]"
  by (auto simp: eval_nat_numeral length_Suc_conv)

lemma list4_simps:
  "[a, b, c, d] ! 2 = c" "[a, b, c, d] ! 3 = d" "[a, b, c, d][2 := y] = [a, b, y, d]" "[a, b, c, d][3 := y] = [a, b, c, y]"
  by (simp_all add: numeral_2_eq_2 numeral_3_eq_3)

lemma rfc_op_step:
  assumes "i < 64" "length v = 4"
  shows "md5_step (rfc_f i) (x (rfc_k i)) (md5_T ! i) (rfc_s i) (regs_at i v) = regs_at (Suc i) (rfc_op x i v)"
proof -
  obtain v0 v1 v2 v3 where v: "v = [v0, v1, v2, v3]" using list4 [OF assms(2)] by blast
  show ?thesis
    unfolding v using register_cycle [OF assms(1)] rfc_s_range [OF assms(1)]
    by (elim disjE conjE)
       (simp_all add: regs_at_def rfc_op_def md5_step_def ROTATE_LEFT_eq Let_def list4_simps add.commute)
qed

lemma length_rfc_op [simp]: "length (rfc_op x i v) = length v"
  by (simp add: rfc_op_def Let_def)

lemma rfc_fold:
  assumes "n \<le> 64" "length v = 4"
  shows "fold (\<lambda>i. md5_step (rfc_f i) (x (rfc_k i)) (md5_T ! i) (rfc_s i)) [0..<n] (regs_at 0 v) =
      regs_at n (fold (rfc_op x) [0..<n] v) \<and> length (fold (rfc_op x) [0..<n] v) = 4"
  using assms(1)
proof (induction n)
  case (Suc n)
  then show ?case using rfc_op_step [of n "fold (rfc_op x) [0..<n] v" x] by simp
qed (simp add: assms(2))

lemma fold_upt_add: "fold f [a..<a + n] s = fold (\<lambda>i. f (i + a)) [0..<n] s" for f :: "nat \<Rightarrow> 'a \<Rightarrow> 'a"
proof -
  have "[a..<a + n] = map (\<lambda>i. i + a) [0..<n]" by (simp add: map_add_upt add.commute)
  then show ?thesis by (simp add: fold_map comp_def)
qed

lemma fold_rounds:
  "fold f [0..<64] s = fold (\<lambda>i. f (i + 48)) [0..<16] (fold (\<lambda>i. f (i + 32)) [0..<16]
     (fold (\<lambda>i. f (i + 16)) [0..<16] (fold f [0..<16] s)))" for f :: "nat \<Rightarrow> 'a \<Rightarrow> 'a"
proof -
  have "[0..<64] = [0..<16] @ [16..<16 + 16] @ [32..<32 + 16] @ [48..<48 + 16]" by (simp add: upt_conv_Cons)
  then show ?thesis by (simp only: fold_append comp_def fold_upt_add)
qed

definition regs_list :: "regs \<Rightarrow> u4 list" where
  "regs_list = (\<lambda>(a, b, c, d). [a, b, c, d])"

lemma regs_at_0: "regs_at 0 (regs_list st) = st"
  by (cases st) (simp add: regs_at_def regs_list_def)

lemma md5_transform_rounds:
  "md5_transform block st =
     (case (st, fold (\<lambda>i. md5_step (rfc_f i) (word_at block (rfc_k i)) (md5_T ! i) (rfc_s i)) [0..<64] st) of
        ((s0, s1, s2, s3), (a, b, c, d)) \<Rightarrow> (s0 + a, s1 + b, s2 + c, s3 + d))"
proof -
  have f: "md5_F = rfc_f i" if "i < 16" for i
    using that by (simp add: fun_eq_iff md5_F_def rfc_f_def)
  have g: "md5_G = rfc_f (i + 16)" if "i < 16" for i
    using that by (simp add: fun_eq_iff md5_G_def rfc_f_def)
  have h: "md5_H = rfc_f (i + 32)" if "i < 16" for i
    using that by (simp add: fun_eq_iff md5_H_def rfc_f_def)
  have ii: "md5_I = rfc_f (i + 48)" if "i < 16" for i
    using that by (simp add: fun_eq_iff md5_I_def rfc_f_def)
  have "5 * (i + 16) + 1 = (1 + 5 * i) + 5 * 16" "3 * (i + 32) + 5 = (5 + 3 * i) + 6 * 16"
    "7 * (i + 48) = 7 * i + 21 * 16" for i :: nat by simp_all
  then have k: "(1 + 5 * i) mod 16 = rfc_k (i + 16)" "(5 + 3 * i) mod 16 = rfc_k (i + 32)"
    "7 * i mod 16 = rfc_k (i + 48)" "i = rfc_k i" if "i < 16" for i
    using that unfolding rfc_k_def by (simp_all only: mod_mult_self1) simp_all
  have s: "md5_s1 ! (i mod 4) = rfc_s i" "md5_s2 ! (i mod 4) = rfc_s (i + 16)" "md5_s3 ! (i mod 4) = rfc_s (i + 32)"
    "md5_s4 ! (i mod 4) = rfc_s (i + 48)" if "i < 16" for i
  proof -
    have "(i + 32) mod 4 = i mod 4" "(i + 16) mod 4 = i mod 4" "(i + 48) mod 4 = i mod 4" by presburger+
    moreover have "i div 16 = 0" "(i + 16) div 16 = 1" "(i + 32) div 16 = 2" "(i + 48) div 16 = 3" using that by auto
    ultimately show "md5_s1 ! (i mod 4) = rfc_s i" "md5_s2 ! (i mod 4) = rfc_s (i + 16)" "md5_s3 ! (i mod 4) = rfc_s (i + 32)"
      "md5_s4 ! (i mod 4) = rfc_s (i + 48)"
      by (simp_all only: rfc_s_def md5_s1_def md5_s2_def md5_s3_def md5_s4_def)
         (simp_all add: numeral_2_eq_2 numeral_3_eq_3)
  qed
  let ?g = "\<lambda>i. md5_step (rfc_f i) (word_at block (rfc_k i)) (md5_T ! i) (rfc_s i)"
  have r1: "fold (\<lambda>i. md5_step md5_F (word_at block i) (md5_T ! i) (md5_s1 ! (i mod 4))) [0..<16] v = fold ?g [0..<16] v" for v
    by (rule fold_cong) (auto simp: f s simp flip: k(4))
  have r2: "fold (\<lambda>i. md5_step md5_G (word_at block ((1 + 5 * i) mod 16)) (md5_T ! (i + 16)) (md5_s2 ! (i mod 4))) [0..<16] v
      = fold (\<lambda>i. ?g (i + 16)) [0..<16] v" for v
    by (rule fold_cong) (auto simp: g s simp flip: k(1))
  have r3: "fold (\<lambda>i. md5_step md5_H (word_at block ((5 + 3 * i) mod 16)) (md5_T ! (i + 32)) (md5_s3 ! (i mod 4))) [0..<16] v
      = fold (\<lambda>i. ?g (i + 32)) [0..<16] v" for v
    by (rule fold_cong) (auto simp: h s simp flip: k(2))
  have r4: "fold (\<lambda>i. md5_step md5_I (word_at block (7 * i mod 16)) (md5_T ! (i + 48)) (md5_s4 ! (i mod 4))) [0..<16] v
      = fold (\<lambda>i. ?g (i + 48)) [0..<16] v" for v
    by (rule fold_cong) (auto simp: ii s simp flip: k(3))
  show ?thesis unfolding md5_transform_def Let_def r1 r2 r3 r4 fold_rounds [of ?g] ..
qed

lemma md5_transform_rfc: "regs_list (md5_transform block st) = rfc_compress block (regs_list st)"
proof -
  have l: "length (regs_list st) = 4" by (cases st) (simp add: regs_list_def)
  note f = rfc_fold [OF order_refl l, of "word_at block", unfolded regs_at_0]
  note * = conjunct1 [OF f] conjunct2 [OF f]
  obtain a b c d where v: "fold (rfc_op (word_at block)) [0..<64] (regs_list st) = [a, b, c, d]"
    using list4 [OF *(2)] by blast
  have r: "regs_at 64 [a, b, c, d] = (a, b, c, d)" by (simp add: regs_at_def list4_simps)
  show ?thesis
    unfolding md5_transform_rounds rfc_compress_def *(1) v r
    by (cases st) (simp only: regs_list_def prod.case zip_Cons_Cons list.map zip_Nil)
qed

section \<open>Incremental digests\<close>

lemma md5_blocks_append:
  "md5_blocks (xs @ ys) st = (case md5_blocks xs st of (rest, st') \<Rightarrow> md5_blocks (rest @ ys) st')"
proof (induction xs st rule: md5_blocks.induct)
  case (1 xs st)
  show ?case
  proof (cases "64 \<le> length xs")
    case True
    with 1 show ?thesis by (subst (1 2) md5_blocks.simps) simp
  next
    case False
    then show ?thesis by (subst (2) md5_blocks.simps) simp
  qed
qed

lemma md5_blocks_rest: "length (fst (md5_blocks xs st)) = length xs mod 64"
proof (induction xs st rule: md5_blocks.induct)
  case (1 xs st)
  then show ?case by (subst md5_blocks.simps) (auto simp: le_mod_geq)
qed

lemma md5_blocks_short: "length xs < 64 \<Longrightarrow> md5_blocks xs st = (xs, st)"
  by (subst md5_blocks.simps) simp

lemma md5_blocks_one: "length xs = 64 \<Longrightarrow> md5_blocks (xs @ ys) st = md5_blocks ys (md5_transform xs st)"
  by (subst md5_blocks.simps) simp

text \<open>The context after the bytes \<open>msg\<close>: the whole blocks are in the registers, the rest at
  the start of the buffer.\<close>

definition absorbed :: "byte list \<Rightarrow> md5_ctx \<Rightarrow> bool" where
  "absorbed msg ctx \<longleftrightarrow> length (md_buffer ctx) = 64 \<and> md_length ctx = of_nat (length msg) \<and>
     md5_blocks msg initstate = (take (length msg mod 64) (md_buffer ctx), md_state ctx)"

lemma buflen: "unat ((of_nat n :: u4) AND 63) = n mod 64"
proof -
  have "(of_nat n :: u4) AND 63 = take_bit 6 (of_nat n)" by (simp add: take_bit_eq_mask mask_eq_exp_minus_1)
  then have "unat ((of_nat n :: u4) AND 63) = take_bit 6 (n mod 4294967296)"
    by (simp only: unsigned_take_bit_eq unsigned_of_nat) (simp add: take_bit_eq_mod)
  also have "\<dots> = n mod 64" by (simp add: take_bit_eq_mod mod_mod_cancel)
  finally show ?thesis .
qed

lemma absorbed_init: "length (md_buffer ctx) = 64 \<Longrightarrow> absorbed [] (md5_init ctx)"
  by (simp add: absorbed_def md5_init_def md5_blocks_short)

lemma put_buffer_length: "n + length bs \<le> length buf \<Longrightarrow> length (put_buffer n bs buf) = length buf"
  by (simp add: put_buffer_def)

lemma absorbed_update:
  assumes "absorbed msg ctx"
  shows "absorbed (msg @ input) (md5_update input ctx)"
proof -
  define k where "k = length msg mod 64"
  define buf where "buf = md_buffer ctx"
  have k: "k < 64" "unat (md_length ctx AND 63) = k"
    using assms by (simp_all add: k_def absorbed_def buflen)
  have b: "length buf = 64" "md5_blocks msg initstate = (take k buf, md_state ctx)"
    using assms by (simp_all add: absorbed_def k_def buf_def)
  have all: "md5_blocks (msg @ input) initstate = md5_blocks (take k buf @ input) (md_state ctx)"
    by (simp only: md5_blocks_append [of msg] b prod.case)
  have len: "of_nat (length msg + length input) = md_length ctx + of_nat (length input)"
    using assms by (simp add: absorbed_def)
  have m: "length (msg @ input) mod 64 = (k + length input) mod 64" by (simp add: k_def mod_add_left_eq)
  show ?thesis
  proof (cases "k + length input < 64")
    case True
    then have "md5_update input ctx = ctx\<lparr>md_length := md_length ctx + of_nat (length input),
        md_buffer := put_buffer k input buf\<rparr>"
      by (simp add: md5_update_def k buf_def)
    moreover have "take (k + length input) (put_buffer k input buf) = take k buf @ input"
      using b True by (simp add: put_buffer_def)
    ultimately show ?thesis
      using True b m len by (simp add: absorbed_def all md5_blocks_short put_buffer_length)
  next
    case False
    define buf1 where "buf1 = put_buffer k (take (64 - k) input) buf"
    have buf1: "buf1 = take k buf @ take (64 - k) input" "length buf1 = 64"
      using False k b by (simp_all add: buf1_def put_buffer_def)
    obtain rest st where r: "md5_blocks (drop (64 - k) input) (md5_transform buf1 (md_state ctx)) = (rest, st)"
      by (rule prod.exhaust)
    have "take k buf @ input = buf1 @ drop (64 - k) input" by (simp add: buf1)
    then have a: "md5_blocks (msg @ input) initstate = (rest, st)"
      unfolding all using buf1(2) r by (simp add: md5_blocks_one)
    have lr: "length rest = (k + length input) mod 64"
      using md5_blocks_rest [of "msg @ input" initstate] m by (simp add: a)
    have lr64: "length rest < 64" by (simp add: lr)
    have "md5_update input ctx = ctx\<lparr>md_length := md_length ctx + of_nat (length input),
        md_state := st, md_buffer := put_buffer 0 rest buf1\<rparr>"
      using False r by (simp add: md5_update_def k Let_def buf_def [symmetric] buf1_def [symmetric])
    then show ?thesis
      using a lr lr64 len m buf1(2) by (simp add: absorbed_def put_buffer_length) (simp add: put_buffer_def)
  qed
qed

lemma absorbed_updates: "absorbed msg ctx \<Longrightarrow> absorbed (msg @ concat chunks) (fold md5_update chunks ctx)"
proof (induction chunks arbitrary: msg ctx)
  case (Cons c chunks)
  from Cons.IH [OF absorbed_update [OF Cons.prems, of c]] show ?case by simp
qed simp

section \<open>Padding\<close>

lemma bytes_le_length [simp]: "length (bytes_le w) = 4"
  by (simp add: bytes_le_def)

lemma length_bytes:
  assumes "n < 2 ^ 29"
  shows "map (\<lambda>i. word_of_int (8 * int n div 2 ^ (8 * i)) :: byte) [0..<8] = bytes_le (8 * of_nat n) @ bytes_le 0"
proof -
  have e: "[0..<8] = [0..<4] @ map (\<lambda>i. i + 4) [0..<4]" by (simp add: upt_conv_Cons)
  have u: "uint (8 * of_nat n :: u4) = 8 * int n"
    using assms by (simp add: uint_word_ariths unsigned_of_nat take_bit_eq_mod)
  have hi: "8 * int n div 2 ^ (8 * (i + 4)) = 0" for i
  proof -
    have "8 * int n < 2 ^ 32" using assms by simp
    also have "\<dots> \<le> 2 ^ (8 * (i + 4))" by (rule power_increasing) auto
    finally show ?thesis by (simp add: div_pos_pos_trivial)
  qed
  show ?thesis unfolding e bytes_le_def map_append map_map comp_def hi u by simp
qed

lemma md5_final_rfc:
  assumes "absorbed msg ctx" "length msg < 2 ^ 29"
  shows "fst (md5_final ctx) = digest_bytes (snd (md5_blocks (rfc_pad msg) initstate))"
proof -
  define k where "k = length msg mod 64"
  define buf where "buf = md_buffer ctx"
  let ?len = "bytes_le (8 * md_length ctx) @ bytes_le 0"
  have k: "k < 64" "unat (md_length ctx AND 63) = k"
    using assms by (simp_all add: k_def absorbed_def buflen)
  have b: "length buf = 64" "md5_blocks msg initstate = (take k buf, md_state ctx)"
    using assms by (simp_all add: absorbed_def k_def buf_def)
  have pad: "rfc_pad msg = msg @ 0x80 # replicate ((119 - k) mod 64) 0 @ ?len"
    using assms length_bytes [of "length msg"] by (simp add: rfc_pad_def k_def absorbed_def)
  have all: "md5_blocks (rfc_pad msg) initstate =
      md5_blocks (take k buf @ 0x80 # replicate ((119 - k) mod 64) 0 @ ?len) (md_state ctx)"
    unfolding pad by (simp only: md5_blocks_append [of msg] b prod.case)
  have buf1: "put_buffer (Suc k) (replicate (63 - k) 0) (buf[k := 0x80]) = take k buf @ 0x80 # replicate (63 - k) 0"
    using k(1) b(1) by (simp add: put_buffer_def take_Suc_conv_app_nth take_update_swap list_update_append)
  have tail: "put_buffer 60 (bytes_le 0) (put_buffer 56 (bytes_le w) xs) = take 56 xs @ bytes_le w @ bytes_le 0"
    if "length xs = 64" for w and xs :: "byte list"
    using that by (simp add: put_buffer_def)
  show ?thesis
  proof (cases "k < 56")
    case True
    then have m: "(119 - k) mod 64 = 55 - k" by (simp add: mod_if)
    from True have "take 56 (take k buf @ 0x80 # replicate (63 - k) 0) = take k buf @ 0x80 # replicate (55 - k) 0"
      using b(1) by (simp add: take_Cons' min_def)
    then have "fst (md5_final ctx) = digest_bytes (md5_transform (take k buf @ 0x80 # replicate (55 - k) 0 @ ?len) (md_state ctx))"
      using True k b(1) by (simp add: md5_final_def Let_def buf_def [symmetric] buf1 tail)
    then show ?thesis
      using True b(1) md5_blocks_one [of "take k buf @ 0x80 # replicate (55 - k) 0 @ ?len" "[]"]
      unfolding all m by (simp add: md5_blocks_short)
  next
    case False
    then have m: "(119 - k) mod 64 = (63 - k) + 56" using k by (simp add: mod_if)
    have "fst (md5_final ctx) =
        digest_bytes (md5_transform (replicate 56 0 @ ?len) (md5_transform (take k buf @ 0x80 # replicate (63 - k) 0) (md_state ctx)))"
      using False k b(1) by (simp add: md5_final_def Let_def buf_def [symmetric] buf1 tail)
    moreover have "md5_blocks (rfc_pad msg) initstate =
        md5_blocks ((take k buf @ 0x80 # replicate (63 - k) 0) @ (replicate 56 0 @ ?len) @ []) (md_state ctx)"
      unfolding all m by (simp add: replicate_add)
    ultimately show ?thesis
      using False k b(1) by (subst (asm) (1) md5_blocks_one, simp, subst (asm) (1) md5_blocks_one, simp)
        (simp add: md5_blocks_short)
  qed
qed

lemma md5_blocks_fold:
  assumes "length bs mod 64 = 0"
  shows "regs_list (snd (md5_blocks bs st)) = fold rfc_compress (blocks64 bs) (regs_list st)"
  using assms
proof (induction bs st rule: md5_blocks.induct)
  case (1 bs st)
  show ?case
  proof (cases "64 \<le> length bs")
    case True
    then have "bs \<noteq> []" "length (drop 64 bs) mod 64 = 0" using 1(2) by (auto simp: le_mod_geq)
    with True 1(1) show ?thesis
      by (subst md5_blocks.simps, subst blocks64.simps) (simp add: md5_transform_rfc)
  next
    case False
    with 1(2) have "bs = []" by simp
    then show ?thesis by (simp add: md5_blocks_short blocks64.simps [of "[]"])
  qed
qed

lemma rfc_pad_length: "length (rfc_pad msg) mod 64 = 0"
proof -
  define q r where "q = length msg div 64" and "r = length msg mod 64"
  have m: "length msg = 64 * q + r" "r < 64" by (simp_all add: q_def r_def)
  have "length (rfc_pad msg) = 64 * q + (r + 9 + (119 - r) mod 64)" by (simp add: rfc_pad_def m)
  also have "(119 - r) mod 64 = (if r < 56 then 55 - r else 119 - r)" using m by (simp add: mod_if)
  finally have "length (rfc_pad msg) = 64 * (q + (if r < 56 then 1 else 2))" using m by (simp split: if_splits)
  then show ?thesis by simp
qed

lemma digest_bytes_regs: "digest_bytes st = concat (map bytes_le (regs_list st))"
  by (cases st) (simp add: digest_bytes_def regs_list_def)

lemma md5_final_eq:
  assumes "absorbed msg ctx" "length msg < 2 ^ 29"
  shows "fst (md5_final ctx) = rfc_md5 msg"
  unfolding md5_final_rfc [OF assms] digest_bytes_regs md5_blocks_fold [OF rfc_pad_length] rfc_md5_def
  by (simp add: initstate_def regs_list_def)

text \<open>
  C23: MD5. Whatever pieces a message of less than 2^29 bytes is fed in, and whatever the static
  buffer held before, \<^verbatim>\<open>md5_init\<close>, \<^verbatim>\<open>md5_update\<close> on each piece and \<^verbatim>\<open>md5_final\<close>
  give the digest that RFC 1321 defines by padding and the 64 in-place operations per block.
\<close>

theorem md5_streaming:
  assumes "length (md_buffer ctx) = 64" "length (concat chunks) < 2 ^ 29"
  shows "fst (md5_final (fold md5_update chunks (md5_init ctx))) = rfc_md5 (concat chunks)"
  using md5_final_eq [OF absorbed_updates [OF absorbed_init [OF assms(1)]], of chunks] assms(2) by simp

theorem md5_streaming_witness:
  "fst (md5_final (fold md5_update [bytes_of ''message '', [], bytes_of ''digest'']
     (md5_init \<lparr>md_state = (1, 2, 3, 4), md_length = 5, md_buffer = replicate 64 6\<rparr>))) = rfc_md5 (bytes_of ''message digest'')"
  using md5_streaming [of "\<lparr>md_state = (1, 2, 3, 4), md_length = 5, md_buffer = replicate 64 6\<rparr>"
    "[bytes_of ''message '', [], bytes_of ''digest'']"] by (simp add: bytes_of_def)

section \<open>Passwords\<close>

definition b64t :: "byte list" where
  "b64t = bytes_of ''./0123456789ABCDEFGHIJKLMNOPQRSTUVWXYZabcdefghijklmnopqrstuvwxyz''"

text \<open>The loop over the alternate digest, for \<^verbatim>\<open>i\<close> bytes.\<close>

function alt_updates :: "byte list \<Rightarrow> nat \<Rightarrow> md5_ctx \<Rightarrow> md5_ctx" where
  "alt_updates alt i ctx =
     (if 16 < i then alt_updates alt (i - 16) (md5_update (take 16 alt) ctx) else md5_update (take i alt) ctx)"
  by auto
termination by (relation "measure (\<lambda>(alt, i, ctx). i)") auto

text \<open>The loop over the bits of the key's length; \<^verbatim>\<open>key[keylen]\<close> is the terminator.\<close>

function bit_updates :: "cstr \<Rightarrow> nat \<Rightarrow> md5_ctx \<Rightarrow> md5_ctx" where
  "bit_updates key i ctx =
     (if 0 < i then bit_updates key (i div 2) (md5_update [if odd i then 0 else deref key] ctx) else ctx)"
  by auto
termination by (relation "measure (\<lambda>(key, i, ctx). i)") auto

declare alt_updates.simps [simp del] bit_updates.simps [simp del]

definition md5_round :: "byte list \<Rightarrow> byte list \<Rightarrow> nat \<Rightarrow> byte list \<times> md5_ctx \<Rightarrow> byte list \<times> md5_ctx" where
  "md5_round key salt i = (\<lambda>(alt, ctx).
     let ctx = md5_init ctx;
         ctx = (if odd i then md5_update key ctx else md5_update alt ctx);
         ctx = (if i mod 3 \<noteq> 0 then md5_update salt ctx else ctx);
         ctx = (if i mod 7 \<noteq> 0 then md5_update key ctx else ctx);
         ctx = (if odd i then md5_update alt ctx else md5_update key ctx)
     in md5_final ctx)"

text \<open>The output loop: \<open>Inl ()\<close> is the return of 1 on a mismatch, \<open>None\<close> a store outside
  the buffer.\<close>

fun md5_emit :: "bool \<Rightarrow> nat \<Rightarrow> u4 \<Rightarrow> nat \<Rightarrow> byte list \<Rightarrow> (unit + nat \<times> byte list) option" where
  "md5_emit check 0 w p crypted = Some (Inr (p, crypted))"
| "md5_emit check (Suc n) w p crypted =
     (let ch = b64t ! unat (w AND 0x3f)
      in if check
         then if deref (drop p crypted) \<noteq> ch then Some (Inl ()) else md5_emit check n (drop_bit 6 w) (p + 1) crypted
         else if p < length crypted then md5_emit check n (drop_bit 6 w) (p + 1) (crypted[p := ch]) else None)"

fun md5_emits :: "bool \<Rightarrow> (u4 \<times> nat) list \<Rightarrow> nat \<Rightarrow> byte list \<Rightarrow> (unit + nat \<times> byte list) option" where
  "md5_emits check [] p crypted = Some (Inr (p, crypted))"
| "md5_emits check ((w, n) # ws) p crypted =
     (case md5_emit check n w p crypted of
        Some (Inr (p', crypted')) \<Rightarrow> md5_emits check ws p' crypted'
      | r \<Rightarrow> r)"

definition md5_words :: "byte list \<Rightarrow> (u4 \<times> nat) list" where
  "md5_words digest =
     map (\<lambda>i. (ucast (digest ! (if i = 4 then 5 else 12 + i)) OR push_bit 8 (ucast (digest ! (6 + i)))
               OR push_bit 16 (ucast (digest ! i)), 4)) [0..<5] @ [(ucast (digest ! 11), 2)]"

text \<open>\<^verbatim>\<open>md5_password\<close> from the first \<^verbatim>\<open>md5_init\<close> on.\<close>

definition md5_crypt :: "cstr \<Rightarrow> byte list \<Rightarrow> nat \<Rightarrow> bool \<Rightarrow> md5_ctx \<Rightarrow> (int \<times> byte list \<times> md5_ctx) option" where
  "md5_crypt key crypted saltlen check ctx =
     (let keylen = grub_strlen key; k = take keylen key; salt = take saltlen (drop 3 crypted);
          (alt, ctx) = md5_final (md5_update k (md5_update salt (md5_update k (md5_init ctx))));
          ctx = md5_update (take (3 + saltlen) crypted) (md5_update k (md5_init ctx));
          ctx = bit_updates key keylen (alt_updates alt keylen ctx);
          (digest, ctx) = fold (md5_round k salt) [0..<1000] (md5_final ctx)
      in case md5_emits check (md5_words digest) (3 + saltlen + 1) crypted of
           None \<Rightarrow> None
         | Some (Inl _) \<Rightarrow> Some (1, crypted, ctx)
         | Some (Inr (p, crypted)) \<Rightarrow>
             if check then Some (schar (deref (drop p crypted)), crypted, ctx)
             else if p < length crypted then Some (0, crypted[p := 0], ctx) else None)"

definition md5_password :: "cstr \<Rightarrow> byte list \<Rightarrow> bool \<Rightarrow> md5_ctx \<Rightarrow> (int \<times> byte list \<times> md5_ctx) option" where
  "md5_password key crypted check ctx =
     (let salt = drop 3 crypted; fin = grub_strstr salt (bytes_of ''$'')
      in if check
         then if grub_strlen crypted \<le> 3 then Some (1, crypted, ctx)
              else case fin of
                     None \<Rightarrow> None
                   | Some e \<Rightarrow> md5_crypt key crypted (length salt - length e) check ctx
         else let saltlen = (case fin of
                      Some e \<Rightarrow> if length salt - length e < 8 then length salt - length e else 8
                    | None \<Rightarrow> 8)
              in if 3 + saltlen < length crypted
                 then md5_crypt key (crypted[3 + saltlen := 36]) saltlen check ctx else None)"

text \<open>The reference: MD5 crypt over the RFC digest.\<close>

definition cycled :: "byte list \<Rightarrow> nat \<Rightarrow> byte list" where
  "cycled alt n = map (\<lambda>i. alt ! (i mod 16)) [0..<n]"

function length_bits :: "byte \<Rightarrow> nat \<Rightarrow> byte list" where
  "length_bits c n = (if n = 0 then [] else (if odd n then 0 else c) # length_bits c (n div 2))"
  by auto
termination by (relation "measure snd") auto

declare length_bits.simps [simp del]

definition crypt_round :: "byte list \<Rightarrow> byte list \<Rightarrow> nat \<Rightarrow> byte list \<Rightarrow> byte list" where
  "crypt_round key salt i d = rfc_md5
     ((if odd i then key else d) @ (if i mod 3 \<noteq> 0 then salt else []) @ (if i mod 7 \<noteq> 0 then key else []) @
      (if odd i then d else key))"

definition crypt_digest :: "byte list \<Rightarrow> byte list \<Rightarrow> byte list \<Rightarrow> byte list" where
  "crypt_digest key magic salt = fold (crypt_round key salt) [0..<1000]
     (rfc_md5 (key @ magic @ salt @ cycled (rfc_md5 (key @ salt @ key)) (length key) @ length_bits (deref key) (length key)))"

fun b64_chars :: "nat \<Rightarrow> u4 \<Rightarrow> byte list" where
  "b64_chars 0 w = []"
| "b64_chars (Suc n) w = b64t ! unat (w AND 0x3f) # b64_chars n (drop_bit 6 w)"

definition crypt_hash :: "byte list \<Rightarrow> byte list \<Rightarrow> byte list \<Rightarrow> byte list" where
  "crypt_hash key magic salt = concat (map (\<lambda>(w, n). b64_chars n w) (md5_words (crypt_digest key magic salt)))"

lemma rfc_md5_length: "length (rfc_md5 msg) = 16"
proof -
  have "length (fold rfc_compress bs v) = length v" for bs v
  proof (induction bs arbitrary: v)
    case (Cons b bs)
    have "length (fold (rfc_op x) js v) = length v" for x js v by (induction js arbitrary: v) auto
    with Cons show ?case by (simp add: rfc_compress_def)
  qed simp
  then show ?thesis unfolding rfc_md5_def length_concat map_map comp_def
    by (simp only: bytes_le_length map_replicate_const) simp
qed

lemma md5_final_buffer: "length (md_buffer ctx) = 64 \<Longrightarrow> length (md_buffer (snd (md5_final ctx))) = 64"
proof -
  assume l: "length (md_buffer ctx) = 64"
  have "unat (md_length ctx AND 63) < 64"
  proof -
    have "md_length ctx = of_nat (unat (md_length ctx))" by simp
    then have "unat (md_length ctx AND 63) = unat (md_length ctx) mod 64" using buflen by metis
    then show ?thesis by simp
  qed
  with l show ?thesis by (simp add: md5_final_def Let_def put_buffer_length split: prod.splits if_splits)
qed

lemma absorbed_final:
  assumes "absorbed msg ctx" "length msg < 2 ^ 29"
  shows "fst (md5_final ctx) = rfc_md5 msg \<and> length (md_buffer (snd (md5_final ctx))) = 64"
  using md5_final_eq [OF assms] md5_final_buffer [of ctx] assms(1) by (simp add: absorbed_def)

lemma absorbed_alt:
  assumes "absorbed msg ctx" "length alt = 16"
  shows "absorbed (msg @ cycled alt n) (alt_updates alt n ctx)"
  using assms
proof (induction alt n ctx arbitrary: msg rule: alt_updates.induct)
  case (1 alt i ctx)
  show ?case
  proof (cases "16 < i")
    case True
    have e: "[0..<i] = [0..<16] @ map (\<lambda>j. j + 16) [0..<i - 16]"
      using True upt_add_eq_append [of 0 16 "i - 16"] by (simp add: map_add_upt del: upt_rec_numeral)
    have "cycled alt i = map (\<lambda>j. alt ! (j mod 16)) [0..<16] @ cycled alt (i - 16)"
      unfolding cycled_def e by (simp add: comp_def del: upt_rec_numeral)
    also have "map (\<lambda>j. alt ! (j mod 16)) [0..<16] = alt"
      using 1(3) by (intro nth_equalityI) (simp_all del: upt_rec_numeral)
    finally show ?thesis
      using True 1(1) [OF True absorbed_update [OF 1(2), of "take 16 alt"] 1(3)] 1(3)
      by (subst alt_updates.simps) simp
  next
    case False
    have "cycled alt i = take i alt" using False 1(3) by (intro nth_equalityI) (simp_all add: cycled_def)
    then show ?thesis using False absorbed_update [OF 1(2), of "take i alt"] by (subst alt_updates.simps) simp
  qed
qed

lemma absorbed_bits:
  assumes "absorbed msg ctx"
  shows "absorbed (msg @ length_bits (deref key) n) (bit_updates key n ctx)"
  using assms
proof (induction key n ctx arbitrary: msg rule: bit_updates.induct)
  case (1 key i ctx)
  show ?case
    using 1(1) [OF _ absorbed_update [OF 1(2), of "[if odd i then 0 else deref key]"]] 1(2)
    by (subst bit_updates.simps, subst length_bits.simps) auto
qed


lemma absorbed_either:
  "absorbed msg ctx \<Longrightarrow> absorbed (msg @ (if b then x else y)) (if b then md5_update x ctx else md5_update y ctx)"
  by (simp add: absorbed_update)

lemma absorbed_optional:
  "absorbed msg ctx \<Longrightarrow> absorbed (msg @ (if b then x else [])) (if b then md5_update x ctx else ctx)"
  by (simp add: absorbed_update)

lemma md5_round_eq:
  assumes "length (md_buffer ctx) = 64" "length d = 16" "length key < 2 ^ 27" "length salt < 2 ^ 27"
  shows "fst (md5_round key salt i (d, ctx)) = crypt_round key salt i d \<and>
    length (md_buffer (snd (md5_round key salt i (d, ctx)))) = 64"
proof -
  note a = absorbed_either [OF absorbed_optional [OF absorbed_optional [OF absorbed_either
      [OF absorbed_init [OF assms(1)], of "odd i" key d], of "i mod 3 \<noteq> 0" salt], of "i mod 7 \<noteq> 0" key], of "odd i" d key]
  have "length ((([] @ (if odd i then key else d)) @ (if i mod 3 \<noteq> 0 then salt else [])) @
      (if i mod 7 \<noteq> 0 then key else [])) + length (if odd i then d else key) < 2 ^ 29"
    using assms(2-4) by auto
  then show ?thesis
    using absorbed_final [OF a] unfolding md5_round_def Let_def prod.case crypt_round_def
    by (simp only: length_append append_assoc append_Nil)
qed

lemma md5_rounds_eq:
  assumes "length (md_buffer ctx) = 64" "length d = 16" "length key < 2 ^ 27" "length salt < 2 ^ 27"
  shows "fst (fold (md5_round key salt) is1 (d, ctx)) = fold (crypt_round key salt) is1 d \<and>
    length (md_buffer (snd (fold (md5_round key salt) is1 (d, ctx)))) = 64"
  using assms(1,2)
proof (induction is1 arbitrary: d ctx)
  case (Cons i is1)
  obtain d' ctx' where e: "md5_round key salt i (d, ctx) = (d', ctx')" by (rule prod.exhaust)
  then have "d' = crypt_round key salt i d" "length (md_buffer ctx') = 64"
    using md5_round_eq [OF Cons.prems assms(3,4), of i] by simp_all
  then show ?case using Cons.IH [of ctx' d'] e by (simp add: crypt_round_def rfc_md5_length)
qed simp

text \<open>What the output loops do with the characters to come.\<close>

fun put_chars :: "bool \<Rightarrow> byte list \<Rightarrow> nat \<Rightarrow> byte list \<Rightarrow> (unit + nat \<times> byte list) option" where
  "put_chars check [] p crypted = Some (Inr (p, crypted))"
| "put_chars check (c # cs) p crypted =
     (if check then if deref (drop p crypted) \<noteq> c then Some (Inl ()) else put_chars check cs (p + 1) crypted
      else if p < length crypted then put_chars check cs (p + 1) (crypted[p := c]) else None)"

lemma md5_emit_chars: "md5_emit check n w p crypted = put_chars check (b64_chars n w) p crypted"
  by (induction n arbitrary: w p crypted) (auto simp: Let_def)

lemma put_chars_append:
  "put_chars check (cs @ ds) p crypted = (case put_chars check cs p crypted of
     Some (Inr (p', crypted')) \<Rightarrow> put_chars check ds p' crypted' | r \<Rightarrow> r)"
  by (induction cs arbitrary: p crypted) auto

lemma md5_emits_chars:
  "md5_emits check ws p crypted = put_chars check (concat (map (\<lambda>(w, n). b64_chars n w) ws)) p crypted"
proof (induction ws arbitrary: p crypted)
  case (Cons a ws)
  then show ?case by (cases a) (auto simp: md5_emit_chars put_chars_append split: option.splits sum.splits)
qed simp

lemma put_chars_make:
  "p + length cs \<le> length crypted \<Longrightarrow>
   put_chars False cs p crypted = Some (Inr (p + length cs, take p crypted @ cs @ drop (p + length cs) crypted))"
proof (induction cs arbitrary: p crypted)
  case (Cons c cs)
  from Cons.prems Cons.IH [of "p + 1" "crypted[p := c]"] show ?case
    by (simp add: take_Suc_conv_app_nth list_update_append take_update_swap)
qed simp

lemma put_chars_check:
  assumes "0 \<notin> set cs"
  shows "put_chars True cs p crypted =
    (if prefix cs (cstring (drop p crypted)) then Some (Inr (p + length cs, crypted)) else Some (Inl ()))"
  using assms
proof (induction cs arbitrary: p)
  case step: (Cons c cs)
  show ?case
  proof (cases "drop p crypted")
    case Nil
    with step.prems show ?thesis by auto
  next
    case (Cons d ds)
    then have ds: "drop (Suc p) crypted = ds" by (metis drop_Suc drop_tl list.sel(3))
    have "put_chars True cs (Suc p) crypted =
        (if prefix cs (cstring ds) then Some (Inr (Suc p + length cs, crypted)) else Some (Inl ()))"
      using step.IH [of "Suc p"] step.prems unfolding ds by simp
    with Cons step.prems show ?thesis by auto
  qed
qed simp


lemma b64t_facts: "length b64t = 64" "0 \<notin> set b64t"
  by code_simp+

lemma and_3f: "unat (w AND 0x3f :: u4) < 64"
proof -
  have "unat (w AND 63) = unat w mod 64" using buflen [of "unat w"] by simp
  then show ?thesis by simp
qed

lemma b64_chars_nonzero: "0 \<notin> set (b64_chars n w)"
proof (induction n arbitrary: w)
  case (Suc n)
  have "b64t ! unat (w AND 0x3f) \<in> set b64t" using and_3f [of w] b64t_facts(1) by (intro nth_mem) simp
  with Suc b64t_facts(2) show ?case by auto
qed simp

lemma crypt_hash_nonzero: "0 \<notin> set (crypt_hash key magic salt)"
  unfolding crypt_hash_def using b64_chars_nonzero by fastforce

lemma b64_chars_length [simp]: "length (b64_chars n w) = n"
  by (induction n arbitrary: w) auto

lemma crypt_hash_length: "length (crypt_hash key magic salt) = 22"
  by (simp add: crypt_hash_def md5_words_def upt_conv_Cons)

lemma take_strlen: "take (length (cstring s)) s = cstring s"
  unfolding cstring_def by (rule takeWhile_eq_take [symmetric])

lemma md5_crypt_eq:
  assumes "length (md_buffer ctx) = 64" "length (cstring key) < 2 ^ 26" "saltlen < 2 ^ 26"
    "3 + saltlen \<le> length crypted"
  shows "\<exists>ctx'. length (md_buffer ctx') = 64 \<and> md5_crypt key crypted saltlen check ctx =
    (case put_chars check (crypt_hash (cstring key) (take 3 crypted) (take saltlen (drop 3 crypted))) (3 + saltlen + 1) crypted of
       None \<Rightarrow> None
     | Some (Inl _) \<Rightarrow> Some (1, crypted, ctx')
     | Some (Inr (p, crypted)) \<Rightarrow>
         if check then Some (schar (deref (drop p crypted)), crypted, ctx')
         else if p < length crypted then Some (0, crypted[p := 0], ctx') else None)"
proof -
  define k where "k = cstring key"
  define salt where "salt = take saltlen (drop 3 crypted)"
  have k: "take (length k) key = k" "grub_strlen key = length k" "deref key = deref k"
    by (simp_all add: grub_strlen_eq k_def take_strlen)
  have salt: "length salt < 2 ^ 26" "take (3 + saltlen) crypted = take 3 crypted @ salt"
    using assms(3,4) by (simp_all add: salt_def take_add)
  obtain alt ctx1 where f1: "md5_final (md5_update k (md5_update salt (md5_update k (md5_init ctx)))) = (alt, ctx1)"
    by (rule prod.exhaust)
  note a1 = absorbed_update [OF absorbed_update [OF absorbed_update [OF absorbed_init [OF assms(1)], of k], of salt], of k]
  have alt: "alt = rfc_md5 (k @ salt @ k)" "length (md_buffer ctx1) = 64"
    using absorbed_final [OF a1] assms(2) salt(1) f1 by (simp_all add: k_def)
  then have l: "length alt = 16" by (simp add: rfc_md5_length)
  note a2 = absorbed_bits [OF absorbed_alt [OF absorbed_update [OF absorbed_update [OF absorbed_init [OF alt(2)], of k],
      of "take 3 crypted @ salt"] l, of "length k"], of key "length k"]
  have bits: "length (length_bits c n) \<le> n" for c n
  proof (induction c n rule: length_bits.induct)
    case (1 c n)
    then show ?case by (subst length_bits.simps) (cases "n = 0"; fastforce)
  qed
  obtain d ctx2 where f2: "md5_final (bit_updates key (length k) (alt_updates alt (length k)
      (md5_update (take 3 crypted @ salt) (md5_update k (md5_init ctx1))))) = (d, ctx2)" by (rule prod.exhaust)
  have d: "d = rfc_md5 (k @ take 3 crypted @ salt @ cycled alt (length k) @ length_bits (deref k) (length k))"
      "length (md_buffer ctx2) = 64"
    using absorbed_final [OF a2] assms(2) salt(1) f2 bits [of "deref k" "length k"]
    by (simp_all add: k_def [symmetric] k(3) cycled_def)
  obtain dd ctx3 where f3: "fold (md5_round k salt) [0..<1000] (d, ctx2) = (dd, ctx3)" by (rule prod.exhaust)
  have dd: "dd = crypt_digest k (take 3 crypted) salt" and b3: "length (md_buffer ctx3) = 64"
    using md5_rounds_eq [OF d(2), of d k salt "[0..<1000]"] assms(2) salt(1)
    unfolding f3 crypt_digest_def alt(1) [symmetric] d(1) [symmetric]
    by (simp_all add: k_def rfc_md5_length d(1) del: upt_rec_numeral)
  have "md5_crypt key crypted saltlen check ctx =
    (case put_chars check (crypt_hash k (take 3 crypted) salt) (3 + saltlen + 1) crypted of
       None \<Rightarrow> None
     | Some (Inl _) \<Rightarrow> Some (1, crypted, ctx3)
     | Some (Inr (p, crypted)) \<Rightarrow>
         if check then Some (schar (deref (drop p crypted)), crypted, ctx3)
         else if p < length crypted then Some (0, crypted[p := 0], ctx3) else None)"
    unfolding md5_crypt_def Let_def k salt_def [symmetric] salt(2) f1 prod.case f2 f3 dd md5_emits_chars crypt_hash_def ..
  with b3 show ?thesis unfolding k_def salt_def by blast
qed


lemma strstr_dollar:
  "0 \<notin> set salt \<Longrightarrow> 36 \<notin> set salt \<Longrightarrow> grub_strstr (salt @ 36 # tail) [36] = Some (36 # tail)"
  by (induction salt) auto

lemma strstr_after:
  assumes "36 \<notin> set salt" "grub_strstr (salt @ junk) [36] = Some e"
  shows "length salt \<le> length (salt @ junk) - length e"
proof -
  obtain u where u: "salt @ junk = u @ e" "prefix [36] (cstring e)"
    using grub_strstr_Some [OF assms(2)] by auto
  then obtain es where "e = 36 # es" by (cases e) (auto split: if_splits)
  then have "(salt @ junk) ! length u = 36" using u(1) by simp
  then have "length salt \<le> length u"
    using assms(1) nth_mem [of "length u" salt] by (metis not_le nth_append)
  then show ?thesis using u(1) by simp
qed

lemma prefix_cstring_eq:
  assumes "prefix h (cstring t)"
  shows "deref (drop (length h) t) = 0 \<longleftrightarrow> cstring t = h"
proof -
  have h: "0 \<notin> set h" using assms cstring_no_nul [of t] by (auto dest: set_mono_prefix)
  obtain z where "cstring t = h @ z" using assms by (auto simp: prefix_def)
  then have "t = h @ z @ dropWhile (\<lambda>c. c \<noteq> 0) t"
    using takeWhile_dropWhile_id [of "\<lambda>c. c \<noteq> 0" t] by (simp add: cstring_def)
  then have "take (length h) t = h" by (metis append_eq_conv_conj)
  then have "cstring t = h @ cstring (drop (length h) t)"
    using cstring_append [OF h, of "drop (length h) t"] by (metis append_take_drop_id)
  then show ?thesis by simp
qed

lemma md5_check_ok:
  assumes "length (md_buffer ctx) = 64" "length (cstring key) < 2 ^ 26" "length salt < 2 ^ 26"
    "length magic = 3" "0 \<notin> set (magic @ salt)" "36 \<notin> set salt"
  shows "\<exists>r ctx'. md5_password key (magic @ salt @ 36 # tail) True ctx = Some (r, magic @ salt @ 36 # tail, ctx') \<and>
    (r = 0 \<longleftrightarrow> cstring tail = crypt_hash (cstring key) magic salt)"
proof -
  let ?c = "magic @ salt @ 36 # tail"
  let ?h = "crypt_hash (cstring key) magic salt"
  have "cstring ?c = magic @ salt @ 36 # cstring tail"
    using assms(5) cstring_append [of "magic @ salt" "36 # tail"] by simp
  then have "3 < grub_strlen ?c" using assms(4) by (simp add: grub_strlen_eq)
  then have e: "md5_password key ?c True ctx = md5_crypt key ?c (length salt) True ctx"
    using assms strstr_dollar [of salt tail] by (simp add: md5_password_def bytes_of_def)
  obtain ctx' where c: "md5_crypt key ?c (length salt) True ctx =
      (if prefix ?h (cstring tail) then Some (schar (deref (drop (length ?h) tail)), ?c, ctx') else Some (1, ?c, ctx'))"
    using md5_crypt_eq [OF assms(1-3), of ?c True] assms(4)
    by (auto simp: put_chars_check [OF crypt_hash_nonzero] split: if_splits)
  have z: "schar x = 0 \<longleftrightarrow> x = 0" for x :: byte by (simp add: sint_0)
  show ?thesis
    unfolding e c using prefix_cstring_eq [of ?h tail] z by auto
qed

lemma md5_make_ok:
  assumes "length (md_buffer ctx) = 64" "length (cstring key) < 2 ^ 26"
    "length magic = 3" "0 \<notin> set (magic @ salt)" "36 \<notin> set salt"
    "length salt = 8 \<or> length salt < 8 \<and> deref junk = 36" "24 \<le> length junk"
  shows "\<exists>ctx'. length (md_buffer ctx') = 64 \<and> md5_password key (magic @ salt @ junk) False ctx =
    Some (0, magic @ salt @ 36 # crypt_hash (cstring key) magic salt @ 0 # drop 24 junk, ctx')"
proof -
  let ?c = "magic @ salt @ 36 # drop 1 junk"
  let ?h = "crypt_hash (cstring key) magic salt"
  have l: "(case grub_strstr (salt @ junk) [36] of Some e \<Rightarrow>
      if length (salt @ junk) - length e < 8 then length (salt @ junk) - length e else 8 | None \<Rightarrow> 8) = length salt"
    using assms(6)
  proof
    assume "length salt = 8"
    then show ?thesis using strstr_after [OF assms(5), of junk] by (auto split: option.splits)
  next
    assume a: "length salt < 8 \<and> deref junk = 36"
    then obtain js where "junk = 36 # js" using assms(7) by (cases junk) auto
    with a show ?thesis using strstr_dollar [of salt js] assms(4,5) by simp
  qed
  have u: "(magic @ salt @ junk)[3 + length salt := 36] = ?c"
    using assms(3,7) by (cases junk) (auto simp: list_update_append)
  have e: "md5_password key (magic @ salt @ junk) False ctx = md5_crypt key ?c (length salt) False ctx"
    using l u assms(3,7) by (auto simp: md5_password_def bytes_of_def Let_def)
  have d: "drop 23 junk = junk ! 23 # drop 24 junk" using Cons_nth_drop_Suc [of 23 junk] assms(7) by simp
  have p: "put_chars False ?h (3 + length salt + 1) ?c =
      Some (Inr (3 + length salt + 23, magic @ salt @ 36 # ?h @ junk ! 23 # drop 24 junk))"
    using assms(3,7) crypt_hash_length [of "cstring key" magic salt] d by (subst put_chars_make) auto
  have "(magic @ salt @ 36 # ?h @ junk ! 23 # drop 24 junk)[3 + length salt + 23 := 0] =
      magic @ salt @ 36 # ?h @ 0 # drop 24 junk"
    using assms(3) crypt_hash_length [of "cstring key" magic salt] by (simp add: list_update_append)
  moreover have t: "take 3 ?c = magic" "take (length salt) (drop 3 ?c) = salt" "length salt < 2 ^ 26" "3 + length salt \<le> length ?c"
    using assms(3,6) by auto
  ultimately show ?thesis
    using md5_crypt_eq [OF assms(1,2) t(3,4), of False] assms(3) unfolding e t(1,2) p
    by (auto simp: crypt_hash_length)
qed


text \<open>
  C24: The password check. For a crypted string of a three-byte header, a salt without dollar
  sign, a dollar sign and a tail, \<^verbatim>\<open>md5_password\<close> with \<^verbatim>\<open>check\<close> set returns zero exactly
  when the tail is the MD5-crypt hash of the key under that header and salt, and never changes
  the string; it always returns.
\<close>

theorem md5_password_check:
  assumes "length (md_buffer ctx) = 64" "length (cstring key) < 2 ^ 26" "length salt < 2 ^ 26"
    "length magic = 3" "0 \<notin> set (magic @ salt)" "36 \<notin> set salt"
  shows "\<exists>r ctx'. md5_password key (magic @ salt @ 36 # tail) True ctx = Some (r, magic @ salt @ 36 # tail, ctx') \<and>
    (r = 0 \<longleftrightarrow> cstring tail = crypt_hash (cstring key) magic salt)"
  using md5_check_ok [OF assms] .

definition sample_ctx :: md5_ctx where
  "sample_ctx = \<lparr>md_state = (1, 2, 3, 4), md_length = 5, md_buffer = replicate 64 6\<rparr>"

theorem md5_password_check_witness:
  "\<exists>r ctx'. md5_password (bytes_of ''Hello'') (bytes_of ''$1$'' @ bytes_of ''saltstri'' @ 36 # bytes_of ''YMygu'') True sample_ctx =
      Some (r, bytes_of ''$1$'' @ bytes_of ''saltstri'' @ 36 # bytes_of ''YMygu'', ctx') \<and>
    (r = 0 \<longleftrightarrow> cstring (bytes_of ''YMygu'') = crypt_hash (cstring (bytes_of ''Hello'')) (bytes_of ''$1$'') (bytes_of ''saltstri''))"
proof -
  have "length (cstring (bytes_of ''Hello'')) < 2 ^ 26"
    using length_cstring_le [of "bytes_of ''Hello''"] by (simp add: bytes_of_def)
  moreover have "length (bytes_of ''$1$'') = 3"
    "0 \<notin> set (bytes_of ''$1$'' @ bytes_of ''saltstri'')" "36 \<notin> set (bytes_of ''saltstri'')" by code_simp+
  moreover have "length (md_buffer sample_ctx) = 64" "length (bytes_of ''saltstri'') < 2 ^ 26"
    by (simp_all add: sample_ctx_def bytes_of_def)
  ultimately show ?thesis using md5_password_check by metis
qed

text \<open>
  C25: Passwords made by \<^verbatim>\<open>md5_password\<close> are accepted by it. In a buffer that holds a header,
  a salt of eight bytes (or a shorter one ended by a dollar sign) and has room for the
  24 bytes to come, the call with \<^verbatim>\<open>check\<close> clear stores the salt's dollar sign, the 22
  characters of the hash and the terminator and nothing else; a later check of the same key
  against that buffer returns zero.
\<close>

theorem md5_password_make:
  assumes "length (md_buffer ctx) = 64" "length (cstring key) < 2 ^ 26"
    "length magic = 3" "0 \<notin> set (magic @ salt)" "36 \<notin> set salt"
    "length salt = 8 \<or> length salt < 8 \<and> deref junk = 36" "24 \<le> length junk"
  shows "\<exists>hash ctx1 ctx2. length hash = 22 \<and>
    md5_password key (magic @ salt @ junk) False ctx = Some (0, magic @ salt @ 36 # hash @ 0 # drop 24 junk, ctx1) \<and>
    md5_password key (magic @ salt @ 36 # hash @ 0 # drop 24 junk) True ctx1 =
      Some (0, magic @ salt @ 36 # hash @ 0 # drop 24 junk, ctx2)"
proof -
  obtain ctx1 where c: "length (md_buffer ctx1) = 64" "md5_password key (magic @ salt @ junk) False ctx =
      Some (0, magic @ salt @ 36 # crypt_hash (cstring key) magic salt @ 0 # drop 24 junk, ctx1)"
    using md5_make_ok [OF assms] by blast
  have "length salt < 2 ^ 26" using assms(6) by auto
  from md5_check_ok [OF c(1) assms(2) this assms(3-5), of "crypt_hash (cstring key) magic salt @ 0 # drop 24 junk"]
  show ?thesis
    using c(2) crypt_hash_nonzero [of "cstring key" magic salt] crypt_hash_length [of "cstring key" magic salt]
    by fastforce
qed

theorem md5_password_make_witness:
  "\<exists>hash ctx1 ctx2. length hash = 22 \<and>
    md5_password (bytes_of ''Hello'') (bytes_of ''$1$'' @ bytes_of ''saltstri'' @ replicate 24 0) False sample_ctx =
      Some (0, bytes_of ''$1$'' @ bytes_of ''saltstri'' @ 36 # hash @ 0 # drop 24 (replicate 24 0), ctx1) \<and>
    md5_password (bytes_of ''Hello'') (bytes_of ''$1$'' @ bytes_of ''saltstri'' @ 36 # hash @ 0 # drop 24 (replicate 24 0)) True ctx1 =
      Some (0, bytes_of ''$1$'' @ bytes_of ''saltstri'' @ 36 # hash @ 0 # drop 24 (replicate 24 0), ctx2)"
proof (rule md5_password_make)
  show "length (cstring (bytes_of ''Hello'')) < 2 ^ 26"
    using length_cstring_le [of "bytes_of ''Hello''"] by (simp add: bytes_of_def)
  show "length (bytes_of ''$1$'') = 3"
    "0 \<notin> set (bytes_of ''$1$'' @ bytes_of ''saltstri'')" "36 \<notin> set (bytes_of ''saltstri'')" by code_simp+
  show "length (md_buffer sample_ctx) = 64" "24 \<le> length (replicate 24 (0 :: byte))"
    "length (bytes_of ''saltstri'') = 8 \<or> length (bytes_of ''saltstri'') < 8 \<and> deref (replicate 24 0) = 36"
    by (simp_all add: sample_ctx_def bytes_of_def)
qed

end
