(* ===== verification/Efi_Mm.thy ===== *)
theory Efi_Mm
  imports Grub_Prelude "HOL-Library.Multiset"
begin

text \<open>
  \<^verbatim>\<open>efi/efimm.c\<close>: page allocation through the EFI boot services with a table of the
  allocated blocks, the EFI memory map, and its translation to the e820 map that kernels get.

  64-bit quantities are \<open>int\<close> reduced by \<open>u64\<close>. The e820 array with its count is a list,
  the descriptors lie in a memory region as the firmware writes them. The boot services are
  a parameter, the record \<open>mm_services\<close>, over a world they may change.
\<close>

definition u64 :: "int \<Rightarrow> int" where
  "u64 x = x mod 2 ^ 64"

lemma u64_id [width_simps]: "0 \<le> x \<Longrightarrow> x < 2 ^ 64 \<Longrightarrow> u64 x = x"
  by (simp add: u64_def)

section \<open>The e820 map\<close>

abbreviation (input) "GRUB_EFI_RESERVED_MEMORY_TYPE \<equiv> 0 :: int"
abbreviation (input) "GRUB_EFI_LOADER_CODE \<equiv> 1 :: int"
abbreviation (input) "GRUB_EFI_LOADER_DATA \<equiv> 2 :: int"
abbreviation (input) "GRUB_EFI_BOOT_SERVICES_CODE \<equiv> 3 :: int"
abbreviation (input) "GRUB_EFI_BOOT_SERVICES_DATA \<equiv> 4 :: int"
abbreviation (input) "GRUB_EFI_RUNTIME_SERVICES_CODE \<equiv> 5 :: int"
abbreviation (input) "GRUB_EFI_RUNTIME_SERVICES_DATA \<equiv> 6 :: int"
abbreviation (input) "GRUB_EFI_CONVENTIONAL_MEMORY \<equiv> 7 :: int"
abbreviation (input) "GRUB_EFI_UNUSABLE_MEMORY \<equiv> 8 :: int"
abbreviation (input) "GRUB_EFI_ACPI_RECLAIM_MEMORY \<equiv> 9 :: int"
abbreviation (input) "GRUB_EFI_ACPI_MEMORY_NVS \<equiv> 10 :: int"
abbreviation (input) "GRUB_EFI_MEMORY_MAPPED_IO \<equiv> 11 :: int"
abbreviation (input) "GRUB_EFI_MEMORY_MAPPED_IO_PORT_SPACE \<equiv> 12 :: int"
abbreviation (input) "GRUB_EFI_PAL_CODE \<equiv> 13 :: int"

abbreviation (input) "E820_RAM \<equiv> 1 :: int"
abbreviation (input) "E820_RESERVED \<equiv> 2 :: int"
abbreviation (input) "E820_ACPI \<equiv> 3 :: int"
abbreviation (input) "E820_NVS \<equiv> 4 :: int"

definition E820_MAX :: nat where
  "E820_MAX = 128"

record e820_entry =
  e_addr :: int
  e_size :: int
  e_type :: int

record memory_descriptor =
  d_type :: int
  physical_start :: int
  num_pages :: int

text \<open>The array with its count, and the four static variables of \<^verbatim>\<open>add_memory_region\<close>
  (\<^verbatim>\<open>esize\<close> is an \<^verbatim>\<open>unsigned long\<close>).\<close>

record e820_state =
  e820_map :: "e820_entry list"
  estart :: int
  esize :: int
  etype :: int
  merge :: int

definition add_memory_region :: "int \<Rightarrow> int \<Rightarrow> int \<Rightarrow> e820_state \<Rightarrow> e820_state" where
  "add_memory_region start len ty st =
     (let x = length (e820_map st); l = e820_map st ! (x - 1)
      in if x > 0 \<and> u64 (e_addr l + e_size l) = start \<and> e_type l = ty
         then let l' = l\<lparr>e_size := u64 (e_size l + len)\<rparr>
              in st\<lparr>e820_map := (e820_map st)[x - 1 := l'], estart := e_addr l', esize := u32 (e_size l'),
                    etype := e_type l', merge := merge st + 1\<rparr>
         else if x < E820_MAX
         then st\<lparr>e820_map := e820_map st @ [\<lparr>e_addr = start, e_size = len, e_type = ty\<rparr>], merge := 0\<rparr>
         else if etype st \<noteq> ty \<or> u64 (estart st + esize st) \<noteq> start
         then st\<lparr>merge := 0, estart := start, esize := u32 len, etype := ty\<rparr>
         else st\<lparr>estart := u64 (estart st + esize st), esize := u32 (esize st + len), merge := merge st + 1\<rparr>)"

text \<open>One descriptor; the \<^verbatim>\<open>continue\<close> inside the switch is the end of a branch.\<close>

definition e820_descriptor :: "memory_descriptor \<Rightarrow> e820_state \<Rightarrow> e820_state" where
  "e820_descriptor desc st =
     (let ty = d_type desc; start = physical_start desc; len = u64 (num_pages desc * 2 ^ 12)
      in if ty = GRUB_EFI_ACPI_RECLAIM_MEMORY then add_memory_region start len E820_ACPI st
         else if ty \<in> {GRUB_EFI_RUNTIME_SERVICES_CODE, GRUB_EFI_RUNTIME_SERVICES_DATA, GRUB_EFI_RESERVED_MEMORY_TYPE,
                GRUB_EFI_MEMORY_MAPPED_IO, GRUB_EFI_MEMORY_MAPPED_IO_PORT_SPACE, GRUB_EFI_UNUSABLE_MEMORY, GRUB_EFI_PAL_CODE}
         then add_memory_region start len E820_RESERVED st
         else if ty \<in> {GRUB_EFI_LOADER_CODE, GRUB_EFI_LOADER_DATA, GRUB_EFI_BOOT_SERVICES_CODE,
                GRUB_EFI_BOOT_SERVICES_DATA, GRUB_EFI_CONVENTIONAL_MEMORY}
         then let fin = u64 (start + len)
              in if start < 0x100000 \<and> fin > 0xA0000
                 then let st1 = (if start < 0xA0000 then add_memory_region start (0xA0000 - start) E820_RAM st else st)
                      in if fin \<le> 0x100000 then st1
                         else add_memory_region 0x100000 (fin - 0x100000) E820_RAM st1
                 else add_memory_region start len E820_RAM st
         else if ty = GRUB_EFI_ACPI_MEMORY_NVS then add_memory_region start len E820_NVS st
         else st)"

definition descriptor_at :: "mem \<Rightarrow> nat \<Rightarrow> memory_descriptor" where
  "descriptor_at m a = \<lparr>d_type = ld32 m a, physical_start = ld64 m (a + 8), num_pages = ld64 m (a + 24)\<rparr>"

text \<open>The loop over the map; a descriptor size of zero would keep it at one descriptor for
  ever, which is \<open>None\<close>.\<close>

function e820_loop :: "mem \<Rightarrow> nat \<Rightarrow> nat \<Rightarrow> nat \<Rightarrow> e820_state \<Rightarrow> e820_state option" where
  "e820_loop m a desc_size map_size st =
     (if a < map_size
      then if desc_size = 0 then None
           else e820_loop m (a + desc_size) desc_size map_size (e820_descriptor (descriptor_at m a) st)
      else Some st)"
  by auto
termination by (relation "measure (\<lambda>(m, a, desc_size, map_size, st). map_size - a)") auto

declare e820_loop.simps [simp del]

definition e820_map_from_efi_map :: "mem \<Rightarrow> nat \<Rightarrow> nat \<Rightarrow> e820_state \<Rightarrow> e820_state option" where
  "e820_map_from_efi_map m desc_size map_size st = e820_loop m 0 desc_size map_size (st\<lparr>e820_map := []\<rparr>)"

text \<open>\<^verbatim>\<open>get_mmap_entry\<close>: the entry as \<^verbatim>\<open>desc\<close> (\<open>None\<close> for length 0) and the continuation.\<close>

definition get_mmap_entry :: "e820_entry list \<Rightarrow> int \<Rightarrow> e820_entry option \<times> int" where
  "get_mmap_entry es cont =
     (if cont < 0 \<or> cont \<ge> int (length es) then (None, 0)
      else (Some (es ! nat cont), if cont + 1 < int (length es) then cont + 1 else 0))"

section \<open>What the map describes\<close>

text \<open>The bytes a descriptor contributes to an e820 type; the ISA hole is never RAM.\<close>

definition e820_class :: "int \<Rightarrow> int option" where
  "e820_class ty =
     (if ty = 9 then Some E820_ACPI else if ty \<in> {5, 6, 0, 11, 12, 8, 13} then Some E820_RESERVED
      else if ty \<in> {1, 2, 3, 4, 7} then Some E820_RAM else if ty = 10 then Some E820_NVS else None)"

definition described :: "int \<Rightarrow> memory_descriptor \<Rightarrow> int set" where
  "described t d =
     (if e820_class (d_type d) = Some t
      then {physical_start d ..< physical_start d + num_pages d * 2 ^ 12} - (if t = E820_RAM then {0xA0000 ..< 0x100000} else {})
      else {})"

definition covered :: "int \<Rightarrow> e820_entry list \<Rightarrow> int set" where
  "covered t es = (\<Union>e \<in> {e \<in> set es. e_type e = t}. {e_addr e ..< e_addr e + e_size e})"

definition sane_entry :: "e820_entry \<Rightarrow> bool" where
  "sane_entry e \<longleftrightarrow> 0 \<le> e_addr e \<and> 0 \<le> e_size e \<and> e_addr e + e_size e < 2 ^ 64"

definition sane_descriptor :: "memory_descriptor \<Rightarrow> bool" where
  "sane_descriptor d \<longleftrightarrow> 0 \<le> physical_start d \<and> 0 \<le> num_pages d \<and> physical_start d + num_pages d * 2 ^ 12 < 2 ^ 64"

text \<open>Neighbours that could have been merged do not occur.\<close>

fun merged :: "e820_entry list \<Rightarrow> bool" where
  "merged (e # f # es) \<longleftrightarrow> (e_addr e + e_size e = e_addr f \<longrightarrow> e_type e \<noteq> e_type f) \<and> merged (f # es)"
| "merged _ \<longleftrightarrow> True"

definition e820_inv :: "e820_state \<Rightarrow> bool" where
  "e820_inv st \<longleftrightarrow> length (e820_map st) \<le> E820_MAX \<and> (\<forall>e \<in> set (e820_map st). sane_entry e) \<and> merged (e820_map st)"

lemma merged_snoc:
  "merged (es @ [e]) \<longleftrightarrow> merged es \<and> (es \<noteq> [] \<longrightarrow> e_addr (last es) + e_size (last es) = e_addr e \<longrightarrow> e_type (last es) \<noteq> e_type e)"
  by (induction es rule: merged.induct) auto

lemma merged_grow:
  "merged (es @ [e]) \<Longrightarrow> e_addr e' = e_addr e \<Longrightarrow> e_type e' = e_type e \<Longrightarrow> merged (es @ [e'])"
  by (simp add: merged_snoc)

lemma covered_snoc: "covered t (es @ [e]) = covered t es \<union> (if e_type e = t then {e_addr e ..< e_addr e + e_size e} else {})"
  by (auto simp: covered_def)

text \<open>A region that is added is covered, unless the table is full.\<close>

lemma add_memory_region_ok:
  assumes "e820_inv st" "0 \<le> start" "0 \<le> len" "start + len < 2 ^ 64"
  shows "e820_inv (add_memory_region start len ty st) \<and>
    length (e820_map st) \<le> length (e820_map (add_memory_region start len ty st)) \<and>
    (covered t (e820_map (add_memory_region start len ty st)) = covered t (e820_map st) \<union> (if ty = t then {start ..< start + len} else {}) \<or>
     length (e820_map (add_memory_region start len ty st)) = E820_MAX \<and>
       e820_map (add_memory_region start len ty st) = e820_map st)"
proof (cases "e820_map st" rule: rev_cases)
  case Nil
  then show ?thesis using assms
    by (simp add: add_memory_region_def Let_def e820_inv_def E820_MAX_def sane_entry_def covered_def)
next
  case (snoc es l)
  have l: "0 \<le> e_addr l" "0 \<le> e_size l" "e_addr l + e_size l < 2 ^ 64" and es: "\<forall>e \<in> set es. sane_entry e" "merged (es @ [l])"
      "length es < E820_MAX"
    using assms(1) snoc by (auto simp: e820_inv_def sane_entry_def)
  have u: "u64 (e_addr l + e_size l) = e_addr l + e_size l" using l by (simp add: u64_id)
  show ?thesis
  proof (cases "e_addr l + e_size l = start \<and> e_type l = ty")
    case True
    then have "u64 (e_size l + len) = e_size l + len" using l assms by (intro u64_id) auto
    then have a: "e820_map (add_memory_region start len ty st) = es @ [l\<lparr>e_size := e_size l + len\<rparr>]"
      using True snoc u by (simp add: add_memory_region_def Let_def)
    have "{e_addr l ..< e_addr l + (e_size l + len)} = {e_addr l ..< e_addr l + e_size l} \<union> {start ..< start + len}"
      using True l assms by auto
    then show ?thesis
      using True snoc a l es assms merged_grow [of es l "l\<lparr>e_size := e_size l + len\<rparr>"]
      by (auto simp: e820_inv_def sane_entry_def covered_snoc)
  next
    case False
    show ?thesis
    proof (cases "length (e820_map st) < E820_MAX")
      case True
      with False have a: "e820_map (add_memory_region start len ty st) = (es @ [l]) @ [\<lparr>e_addr = start, e_size = len, e_type = ty\<rparr>]"
        using snoc u by (auto simp: add_memory_region_def Let_def)
      show ?thesis
        using True False a snoc assms(1) assms(2-4) unfolding e820_inv_def a snoc covered_snoc merged_snoc [of "es @ [l]"]
        by (auto simp: sane_entry_def)
    next
      case full: False
      then have "e820_map (add_memory_region start len ty st) = e820_map st"
        using False snoc u by (auto simp: add_memory_region_def Let_def)
      then show ?thesis using full assms(1) by (auto simp: e820_inv_def)
    qed
  qed
qed

text \<open>What a step adds: nothing outside \<open>S\<close>, and all of \<open>S\<close> while the table is not full.\<close>

definition adds :: "int \<Rightarrow> int set \<Rightarrow> e820_state \<Rightarrow> e820_state \<Rightarrow> bool" where
  "adds t S st st' \<longleftrightarrow> e820_inv st' \<and> covered t (e820_map st') \<subseteq> covered t (e820_map st) \<union> S \<and>
     (length (e820_map st') < E820_MAX \<longrightarrow>
        length (e820_map st) < E820_MAX \<and> covered t (e820_map st') = covered t (e820_map st) \<union> S)"

lemma adds_refl: "e820_inv st \<Longrightarrow> adds t {} st st"
  by (simp add: adds_def)

lemma adds_trans: "adds t S a b \<Longrightarrow> adds t S' b c \<Longrightarrow> adds t (S \<union> S') a c"
  by (auto simp: adds_def)

lemma adds_region:
  assumes "e820_inv st" "0 \<le> start" "0 \<le> len" "start + len < 2 ^ 64"
  shows "adds t (if ty = t then {start ..< start + len} else {}) st (add_memory_region start len ty st)"
proof -
  let ?st = "add_memory_region start len ty st"
  note ok = add_memory_region_ok [OF assms, of ty t]
  show ?thesis
  proof (cases "covered t (e820_map ?st) = covered t (e820_map st) \<union> (if ty = t then {start ..< start + len} else {})")
    case True
    then show ?thesis unfolding adds_def True using ok by simp
  next
    case False
    with ok have "e820_map ?st = e820_map st" "length (e820_map ?st) = E820_MAX" "e820_inv ?st" by blast+
    then show ?thesis unfolding adds_def by simp
  qed
qed

lemma e820_class_cases:
  "e820_class ty = Some 3 \<longleftrightarrow> ty = 9" "e820_class ty = Some 2 \<longleftrightarrow> ty \<in> {5, 6, 0, 11, 12, 8, 13}"
  "e820_class ty = Some 1 \<longleftrightarrow> ty \<in> {1, 2, 3, 4, 7}" "e820_class ty = Some 4 \<longleftrightarrow> ty = 10"
  "e820_class ty = None \<longleftrightarrow> ty \<notin> {9, 5, 6, 0, 11, 12, 8, 13, 1, 2, 3, 4, 7, 10}"
  "e820_class ty = Some c \<Longrightarrow> c \<in> {1, 2, 3, 4}"
  unfolding e820_class_def by (simp_all split: if_splits)

lemma e820_descriptor_plain:
  "e820_class (d_type d) = Some ty \<Longrightarrow> ty \<noteq> E820_RAM \<Longrightarrow>
     e820_descriptor d st = add_memory_region (physical_start d) (u64 (num_pages d * 2 ^ 12)) ty st"
  "e820_class (d_type d) = None \<Longrightarrow> e820_descriptor d st = st"
proof -
  assume a: "e820_class (d_type d) = Some ty" "ty \<noteq> E820_RAM"
  then consider "ty = 2" | "ty = 3" | "ty = 4" using e820_class_cases(6) by blast
  then show "e820_descriptor d st = add_memory_region (physical_start d) (u64 (num_pages d * 2 ^ 12)) ty st"
    using a(1) unfolding e820_descriptor_def Let_def
    by cases (simp_all only: e820_class_cases, simp_all only: insert_iff empty_iff, (elim disjE; simp), simp_all)
qed (simp add: e820_class_cases e820_descriptor_def)

lemma adds_descriptor:
  assumes "e820_inv st" "sane_descriptor d"
  shows "adds t (described t d) st (e820_descriptor d st)"
proof -
  define start len where "start = physical_start d" and "len = num_pages d * 2 ^ 12"
  have r: "0 \<le> start" "0 \<le> len" "start + len < 2 ^ 64" "u64 len = len" "u64 (start + len) = start + len"
    using assms(2) by (auto simp: sane_descriptor_def start_def len_def intro!: u64_id)
  note add = adds_region [OF _ r(1-3), of _ t]
  show ?thesis
  proof (cases "e820_class (d_type d) = Some E820_RAM")
    case False
    show ?thesis
    proof (cases "e820_class (d_type d)")
      case None
      then show ?thesis using adds_refl [OF assms(1)] by (simp add: e820_descriptor_plain described_def)
    next
      case (Some ty)
      with False have "e820_descriptor d st = add_memory_region start len ty st"
        using r(4) by (simp add: e820_descriptor_plain start_def len_def)
      moreover have "described t d = (if ty = t then {start ..< start + len} else {})"
        using Some False by (auto simp: described_def start_def len_def)
      ultimately show ?thesis using add [OF assms(1)] by simp
    qed
  next
    case True
    then have ty: "d_type d \<in> {1, 2, 3, 4, 7}" by (auto simp: e820_class_def split: if_splits)
    have s: "described t d = (if 1 = t then {start ..< start + len} - {0xA0000 ..< 0x100000} else {})"
      using True by (auto simp: described_def start_def len_def)
    have e: "e820_descriptor d st =
        (if start < 0x100000 \<and> start + len > 0xA0000
         then let st1 = (if start < 0xA0000 then add_memory_region start (0xA0000 - start) 1 st else st)
              in if start + len \<le> 0x100000 then st1 else add_memory_region 0x100000 (start + len - 0x100000) 1 st1
         else add_memory_region start len 1 st)"
      using ty unfolding e820_descriptor_def Let_def start_def [symmetric] len_def [symmetric] r(4,5) insert_iff empty_iff
      by (elim disjE; simp)
    show ?thesis
    proof (cases "start < 0x100000 \<and> start + len > 0xA0000")
      case False
      have "described t d = (if 1 = t then {start ..< start + len} else {})" using False unfolding s by auto
      moreover have "e820_descriptor d st = add_memory_region start len 1 st" using False unfolding e by (rule if_not_P)
      ultimately show ?thesis using add [OF assms(1), of 1] by simp
    next
      case hole: True
      define lo where "lo = (if 1 = t then {start ..< 0xA0000} else {})"
      define hi where "hi = (if 1 = t then {0x100000 ..< start + len} else {})"
      have sp: "described t d = lo \<union> hi" using hole unfolding s lo_def hi_def by auto
      define st1 where "st1 = (if start < 0xA0000 then add_memory_region start (0xA0000 - start) 1 st else st)"
      have a1: "adds t lo st st1"
        using adds_region [OF assms(1) r(1), of "0xA0000 - start" t 1] adds_refl [OF assms(1)]
        by (auto simp: st1_def lo_def)
      then have "e820_inv st1" by (simp add: adds_def)
      then have "adds t hi st1 (if start + len \<le> 0x100000 then st1 else add_memory_region 0x100000 (start + len - 0x100000) 1 st1)"
        using adds_region [of st1 1048576 "start + len - 0x100000" t 1] r adds_refl [of st1] by (auto simp: hi_def)
      then show ?thesis
        using hole adds_trans [OF a1] unfolding e sp by (simp add: st1_def [symmetric] Let_def)
    qed
  qed
qed

text \<open>The descriptors of a map, from an offset on.\<close>

function descriptors :: "mem \<Rightarrow> nat \<Rightarrow> nat \<Rightarrow> nat \<Rightarrow> memory_descriptor list" where
  "descriptors m a desc_size map_size =
     (if a < map_size \<and> 0 < desc_size then descriptor_at m a # descriptors m (a + desc_size) desc_size map_size else [])"
  by auto
termination by (relation "measure (\<lambda>(m, a, desc_size, map_size). map_size - a)") auto

declare descriptors.simps [simp del]

lemma e820_loop_ok:
  assumes "0 < desc_size" "\<forall>d \<in> set (descriptors m a desc_size map_size). sane_descriptor d" "e820_inv st"
  shows "\<exists>st'. e820_loop m a desc_size map_size st = Some st' \<and>
    (\<forall>t. adds t (\<Union>d \<in> set (descriptors m a desc_size map_size). described t d) st st')"
  using assms
proof (induction m a desc_size map_size st rule: e820_loop.induct)
  case (1 m a desc_size map_size st)
  show ?case
  proof (cases "a < map_size")
    case True
    let ?d = "descriptor_at m a"
    have ds: "descriptors m a desc_size map_size = ?d # descriptors m (a + desc_size) desc_size map_size"
      using True 1(2) by (subst descriptors.simps) simp
    have d: "\<forall>t. adds t (described t ?d) st (e820_descriptor ?d st)"
      using adds_descriptor [OF 1(4)] 1(3) by (simp add: ds)
    then obtain st' where st': "e820_loop m (a + desc_size) desc_size map_size (e820_descriptor ?d st) = Some st'"
        "\<forall>t. adds t (\<Union>d \<in> set (descriptors m (a + desc_size) desc_size map_size). described t d) (e820_descriptor ?d st) st'"
      using 1(1) [OF True] 1(2,3) ds by (auto simp: adds_def)
    have "e820_loop m a desc_size map_size st = Some st'" using True 1(2) st'(1) by (subst e820_loop.simps) simp
    then show ?thesis using adds_trans [OF d [rule_format] st'(2) [rule_format]] by (auto simp: ds)
  next
    case False
    then show ?thesis using 1(4) by (subst e820_loop.simps, subst (1) descriptors.simps) (simp add: adds_refl)
  qed
qed

text \<open>
  C26: The e820 map. Translating an EFI memory map whose descriptors end below 2^64 terminates
  with at most 128 entries, no two neighbours of which could be merged; each byte an entry gives
  a type to is given that type by some descriptor, where no RAM lies in the ISA hole from
  640K to 1M; and as long as the table is not full, the entries of each type cover exactly the
  bytes of the descriptors of that type.
\<close>

theorem e820_map_correct:
  assumes "0 < desc_size" "\<forall>d \<in> set (descriptors m 0 desc_size map_size). sane_descriptor d"
  shows "\<exists>st'. e820_map_from_efi_map m desc_size map_size st = Some st' \<and>
    length (e820_map st') \<le> E820_MAX \<and> merged (e820_map st') \<and>
    (\<forall>t. covered t (e820_map st') \<subseteq> (\<Union>d \<in> set (descriptors m 0 desc_size map_size). described t d)) \<and>
    (length (e820_map st') < E820_MAX \<longrightarrow>
      (\<forall>t. covered t (e820_map st') = (\<Union>d \<in> set (descriptors m 0 desc_size map_size). described t d)))"
  using e820_loop_ok [OF assms, of "st\<lparr>e820_map := []\<rparr>"]
  by (auto simp: e820_map_from_efi_map_def adds_def e820_inv_def covered_def)

text \<open>Two descriptors: the low megabyte less a page as conventional memory, then a reserved page.\<close>

definition sample_map :: mem where
  "sample_map = store_list (\<lambda>_. 0) 0
     ([7, 0, 0, 0, 0, 0, 0, 0] @ replicate 16 0 @ [0xFF, 0] @ replicate 14 0 @
      [0, 0, 0, 0, 0, 0, 0, 0, 0, 0xF0, 0x0F] @ replicate 13 0 @ [1, 0] @ replicate 14 0)"

lemma sample_descriptors:
  "descriptors sample_map 0 40 80 =
     [\<lparr>d_type = 7, physical_start = 0, num_pages = 255\<rparr>, \<lparr>d_type = 0, physical_start = 0xFF000, num_pages = 1\<rparr>]"
  by code_simp

theorem e820_map_correct_witness:
  "\<exists>st'. e820_map_from_efi_map sample_map 40 80 \<lparr>e820_map = [], estart = 0, esize = 0, etype = 0, merge = 0\<rparr> = Some st' \<and>
    length (e820_map st') \<le> E820_MAX \<and> merged (e820_map st') \<and>
    (\<forall>t. covered t (e820_map st') \<subseteq> (\<Union>d \<in> set (descriptors sample_map 0 40 80). described t d)) \<and>
    (length (e820_map st') < E820_MAX \<longrightarrow>
      (\<forall>t. covered t (e820_map st') = (\<Union>d \<in> set (descriptors sample_map 0 40 80). described t d)))"
proof (rule e820_map_correct)
  show "\<forall>d \<in> set (descriptors sample_map 0 40 80). sane_descriptor d"
    by (simp add: sample_descriptors sane_descriptor_def)
qed simp

section \<open>Pages\<close>

datatype mm_status = MM_SUCCESS | MM_BUFFER_TOO_SMALL | MM_NOT_FOUND | MM_ERROR

datatype allocate_type = ALLOCATE_ANY_PAGES | ALLOCATE_MAX_ADDRESS | ALLOCATE_ADDRESS

text \<open>The boot services: \<^verbatim>\<open>allocate_pages\<close> (type, memory type, pages, address) with the status
  and the address, \<^verbatim>\<open>free_pages\<close>, and \<^verbatim>\<open>get_memory_map\<close> (buffer size, buffer) with the
  status, the size, the buffer's contents and the descriptor size.\<close>

record 'w mm_services =
  sv_allocate_pages :: "allocate_type \<Rightarrow> int \<Rightarrow> int \<Rightarrow> int \<Rightarrow> 'w \<Rightarrow> mm_status \<times> int \<times> 'w"
  sv_free_pages :: "int \<Rightarrow> int \<Rightarrow> 'w \<Rightarrow> 'w"
  sv_get_memory_map :: "int \<Rightarrow> int \<Rightarrow> 'w \<Rightarrow> mm_status \<times> int \<times> mem \<times> nat \<times> 'w"

text \<open>The static variables. \<open>allocated_pages\<close> is the pointer (zero for null), \<open>page_table\<close> the
  array it points to.\<close>

record 'w mm_state =
  allocated_pages :: int
  page_table :: "(int \<times> int) list"
  mmap_buf :: int
  mmap_mem :: mem
  mmap_size :: int
  mmap_pages :: int
  grub_e820 :: e820_state
  mm_world :: 'w

definition MAX_ALLOCATED_PAGES :: nat where
  "MAX_ALLOCATED_PAGES = 256"

text \<open>The search loops over the table: the first index whose address is \<open>a\<close>.\<close>

fun find_slot :: "int \<Rightarrow> (int \<times> int) list \<Rightarrow> nat \<Rightarrow> nat \<Rightarrow> nat option" where
  "find_slot a tbl i 0 = None"
| "find_slot a tbl i (Suc n) = (if fst (tbl ! i) = a then Some i else find_slot a tbl (Suc i) n)"

text \<open>The recording part shared by the two allocators: the pointer returned is null when the
  table is full.\<close>

definition record_block :: "int \<Rightarrow> int \<Rightarrow> 'w mm_state \<Rightarrow> int \<times> 'w mm_state" where
  "record_block address pages mm =
     (case find_slot 0 (page_table mm) 0 MAX_ALLOCATED_PAGES of
        None \<Rightarrow> (0, mm)
      | Some i \<Rightarrow> (u32 address, mm\<lparr>page_table := (page_table mm)[i := (address, pages)]\<rparr>))"

definition grub_efi_allocate_anypages :: "'w mm_services \<Rightarrow> int \<Rightarrow> 'w mm_state \<Rightarrow> int \<times> 'w mm_state" where
  "grub_efi_allocate_anypages sv pages mm =
     (let (status, address, w) = sv_allocate_pages sv ALLOCATE_ANY_PAGES GRUB_EFI_LOADER_DATA pages 0 (mm_world mm);
          mm = mm\<lparr>mm_world := w\<rparr>
      in if status \<noteq> MM_SUCCESS then (0, mm)
         else if allocated_pages mm \<noteq> 0 then record_block address pages mm
         else (u32 address, mm))"

definition grub_efi_free_pages :: "'w mm_services \<Rightarrow> int \<Rightarrow> int \<Rightarrow> 'w mm_state \<Rightarrow> 'w mm_state" where
  "grub_efi_free_pages sv address pages mm =
     (let mm1 = (if allocated_pages mm \<noteq> 0 \<and> allocated_pages mm \<noteq> address
                 then case find_slot address (page_table mm) 0 MAX_ALLOCATED_PAGES of
                        None \<Rightarrow> mm
                      | Some i \<Rightarrow> mm\<lparr>page_table := (page_table mm)[i := (0, snd (page_table mm ! i))]\<rparr>
                 else mm)
      in mm1\<lparr>mm_world := sv_free_pages sv address pages (mm_world mm1)\<rparr>)"

definition grub_efi_allocate_pages_real ::
    "'w mm_services \<Rightarrow> int \<Rightarrow> int \<Rightarrow> int \<Rightarrow> 'w mm_state \<Rightarrow> int \<times> 'w mm_state" where
  "grub_efi_allocate_pages_real sv address pages memtype mm =
     (if address > 0x7fffffff then (0, mm)
      else
        let ty = (if address = 0 then ALLOCATE_MAX_ADDRESS else ALLOCATE_ADDRESS);
            address = (if address = 0 then 0x7fffffff else address);
            (status, address, w) = sv_allocate_pages sv ty memtype pages address (mm_world mm);
            mm = mm\<lparr>mm_world := w\<rparr>
        in if status \<noteq> MM_SUCCESS
           then if memtype = GRUB_EFI_RUNTIME_SERVICES_DATA \<and> status = MM_NOT_FOUND then (u32 address, mm) else (0, mm)
           else
             let (status, address, mm) =
                   (if address = 0
                    then let (status, address, w) = sv_allocate_pages sv ty GRUB_EFI_LOADER_DATA pages 0x7fffffff (mm_world mm)
                         in (status, address, grub_efi_free_pages sv 0 pages (mm\<lparr>mm_world := w\<rparr>))
                    else (status, address, mm))
             in if status \<noteq> MM_SUCCESS then (0, mm)
                else if allocated_pages mm \<noteq> 0 \<and> memtype \<noteq> GRUB_EFI_RUNTIME_SERVICES_DATA
                then record_block address pages mm
                else (u32 address, mm))"

definition grub_efi_allocate_pages :: "'w mm_services \<Rightarrow> int \<Rightarrow> int \<Rightarrow> 'w mm_state \<Rightarrow> int \<times> 'w mm_state" where
  "grub_efi_allocate_pages sv address pages mm = grub_efi_allocate_pages_real sv address pages GRUB_EFI_LOADER_DATA mm"

definition grub_efi_allocate_runtime_pages :: "'w mm_services \<Rightarrow> int \<Rightarrow> int \<Rightarrow> 'w mm_state \<Rightarrow> int \<times> 'w mm_state" where
  "grub_efi_allocate_runtime_pages sv address pages mm =
     grub_efi_allocate_pages_real sv address pages GRUB_EFI_RUNTIME_SERVICES_DATA mm"

text \<open>\<^verbatim>\<open>grub_efi_get_memory_map\<close>: the result code and the descriptor size. The loop goes on
  while the firmware asks for a larger buffer, so it has fuel.\<close>

fun grub_efi_get_memory_map :: "nat \<Rightarrow> 'w mm_services \<Rightarrow> 'w mm_state \<Rightarrow> (int \<times> nat \<times> 'w mm_state) option" where
  "grub_efi_get_memory_map 0 sv mm = None"
| "grub_efi_get_memory_map (Suc fuel) sv mm =
     (let (status, tmp_mmap_size, contents, desc_size, w) =
            sv_get_memory_map sv (u32 (mmap_pages mm * 2 ^ 12)) (mmap_buf mm) (mm_world mm);
          mm = mm\<lparr>mm_world := w, mmap_mem := contents\<rparr>
      in if status = MM_SUCCESS then Some (1, desc_size, mm\<lparr>mmap_size := tmp_mmap_size\<rparr>)
         else if status \<noteq> MM_BUFFER_TOO_SMALL then Some (- 1, desc_size, mm)
         else
           let mm = (if mmap_buf mm \<noteq> 0 then grub_efi_free_pages sv (mmap_buf mm) (mmap_pages mm) mm else mm);
               pages = u32 (u32 (tmp_mmap_size + 4095) div 2 ^ 12 + 1);
               (buf, mm) = grub_efi_allocate_pages sv 0 pages mm;
               mm = mm\<lparr>mmap_pages := pages, mmap_buf := buf\<rparr>
           in if buf = 0 then Some (- 1, desc_size, mm\<lparr>mmap_pages := 0\<rparr>)
              else grub_efi_get_memory_map fuel sv mm)"

definition update_e820_map :: "nat \<Rightarrow> 'w mm_services \<Rightarrow> 'w mm_state \<Rightarrow> 'w mm_state option" where
  "update_e820_map fuel sv mm =
     (case grub_efi_get_memory_map fuel sv mm of
        None \<Rightarrow> None
      | Some (r, desc_size, mm) \<Rightarrow>
          if r < 0 then Some mm
          else map_option (\<lambda>e. mm\<lparr>grub_e820 := e\<rparr>)
                 (e820_map_from_efi_map (mmap_mem mm) desc_size (nat (mmap_size mm)) (grub_e820 mm)))"

definition grub_efi_mm_init :: "nat \<Rightarrow> 'w mm_services \<Rightarrow> 'w mm_state \<Rightarrow> 'w mm_state option" where
  "grub_efi_mm_init fuel sv mm =
     (let (p, mm) = grub_efi_allocate_pages sv 0 1 mm; mm = mm\<lparr>allocated_pages := p\<rparr>
      in if p = 0 then Some mm
         else update_e820_map fuel sv (mm\<lparr>page_table := replicate MAX_ALLOCATED_PAGES (0, 0)\<rparr>))"

definition fini_step :: "'w mm_services \<Rightarrow> nat \<Rightarrow> 'w mm_state \<Rightarrow> 'w mm_state" where
  "fini_step sv i mm =
     (let (addr, pages) = page_table mm ! i
      in if addr \<noteq> 0 then grub_efi_free_pages sv (u32 addr) (u32 pages) mm else mm)"

definition grub_efi_mm_fini :: "'w mm_services \<Rightarrow> 'w mm_state \<Rightarrow> 'w mm_state" where
  "grub_efi_mm_fini sv mm =
     (if allocated_pages mm \<noteq> 0
      then let mm = fold (fini_step sv) [0..<MAX_ALLOCATED_PAGES] mm
           in grub_efi_free_pages sv (allocated_pages mm) 1 mm
      else mm)"

section \<open>No page is lost\<close>

text \<open>The documented behaviour of the boot services in terms of the blocks they have handed
  out and not got back: an allocation that succeeds adds one block at a new address in the
  32-bit address space, freeing removes it, and nothing else changes them.\<close>

definition services_ok :: "'w mm_services \<Rightarrow> ('w \<Rightarrow> (int \<times> int) set) \<Rightarrow> bool" where
  "services_ok sv live \<longleftrightarrow>
     (\<forall>ty mt pages addr w. case sv_allocate_pages sv ty mt pages addr w of (st, a, w') \<Rightarrow>
        if st = MM_SUCCESS then 0 \<le> a \<and> a < 2 ^ 32 \<and> a \<notin> fst ` live w \<and> live w' = insert (a, pages) (live w)
        else live w' = live w) \<and>
     (\<forall>a p w. live (sv_free_pages sv a p w) = live w - {(a, p)}) \<and>
     (\<forall>n b w. live (snd (snd (snd (snd (sv_get_memory_map sv n b w))))) = live w)"

definition blocks :: "'w mm_state \<Rightarrow> (int \<times> int) set" where
  "blocks mm = {b \<in> set (page_table mm). fst b \<noteq> 0}"

definition owned :: "'w mm_state \<Rightarrow> (int \<times> int) set" where
  "owned mm = insert (allocated_pages mm, 1) (blocks mm)"

definition block_ok :: "int \<times> int \<Rightarrow> bool" where
  "block_ok b \<longleftrightarrow> 0 \<le> fst b \<and> fst b < 2 ^ 32 \<and> 0 \<le> snd b \<and> snd b < 2 ^ 32"

definition table_ok :: "'w mm_state \<Rightarrow> bool" where
  "table_ok mm \<longleftrightarrow> 0 < allocated_pages mm \<and> allocated_pages mm < 2 ^ 32 \<and>
     length (page_table mm) = MAX_ALLOCATED_PAGES \<and> (\<forall>b \<in> set (page_table mm). block_ok b) \<and>
     (\<forall>i < MAX_ALLOCATED_PAGES. \<forall>j < MAX_ALLOCATED_PAGES.
        fst (page_table mm ! i) = fst (page_table mm ! j) \<longrightarrow> fst (page_table mm ! i) \<noteq> 0 \<longrightarrow> i = j) \<and>
     allocated_pages mm \<notin> fst ` blocks mm"

lemma find_slot_Some:
  "find_slot a tbl i n = Some k \<Longrightarrow> i \<le> k \<and> k < i + n \<and> fst (tbl ! k) = a"
  by (induction n arbitrary: i) (fastforce split: if_splits)+

lemma find_slot_None: "find_slot a tbl i n = None \<Longrightarrow> i \<le> k \<Longrightarrow> k < i + n \<Longrightarrow> fst (tbl ! k) \<noteq> a"
proof (induction n arbitrary: i)
  case (Suc n)
  then show ?case by (cases "k = i") (auto split: if_splits)
qed simp

lemma find_slot_ex: "k < n \<Longrightarrow> fst (tbl ! k) = a \<Longrightarrow> \<exists>i. find_slot a tbl 0 n = Some i \<and> i < n \<and> fst (tbl ! i) = a"
  using find_slot_None [of a tbl 0 n k] find_slot_Some [of a tbl 0 n] by (cases "find_slot a tbl 0 n") auto

definition free_slot :: "'w mm_state \<Rightarrow> bool" where
  "free_slot mm \<longleftrightarrow> (\<exists>k < MAX_ALLOCATED_PAGES. fst (page_table mm ! k) = 0)"

text \<open>Storing a block in a free slot, and clearing the slot of a block.\<close>

lemma blocks_nth:
  "length (page_table mm) = MAX_ALLOCATED_PAGES \<Longrightarrow>
   b \<in> blocks mm \<longleftrightarrow> fst b \<noteq> 0 \<and> (\<exists>j < MAX_ALLOCATED_PAGES. page_table mm ! j = b)"
  by (auto simp: blocks_def in_set_conv_nth)

lemma blocks_update:
  assumes "length (page_table mm) = MAX_ALLOCATED_PAGES" "i < MAX_ALLOCATED_PAGES"
  shows "b \<in> blocks (mm\<lparr>page_table := (page_table mm)[i := x]\<rparr>) \<longleftrightarrow>
    fst b \<noteq> 0 \<and> (x = b \<or> (\<exists>j < MAX_ALLOCATED_PAGES. j \<noteq> i \<and> page_table mm ! j = b))"
proof -
  have "(\<exists>j < MAX_ALLOCATED_PAGES. (page_table mm)[i := x] ! j = b) \<longleftrightarrow>
      x = b \<or> (\<exists>j < MAX_ALLOCATED_PAGES. j \<noteq> i \<and> page_table mm ! j = b)"
    using assms by (metis nth_list_update_eq nth_list_update_neq)
  then show ?thesis using assms(1) by (simp add: blocks_nth)
qed

lemma store_slot:
  assumes "table_ok mm" "i < MAX_ALLOCATED_PAGES" "fst (page_table mm ! i) = 0"
    "block_ok (a, p)" "a \<noteq> 0" "a \<notin> fst ` owned mm"
  shows "table_ok (mm\<lparr>page_table := (page_table mm)[i := (a, p)]\<rparr>) \<and>
    blocks (mm\<lparr>page_table := (page_table mm)[i := (a, p)]\<rparr>) = insert (a, p) (blocks mm)"
proof -
  let ?t = "page_table mm"
  have l: "length ?t = MAX_ALLOCATED_PAGES" using assms(1) by (simp add: table_ok_def)
  have b: "blocks (mm\<lparr>page_table := ?t[i := (a, p)]\<rparr>) = insert (a, p) (blocks mm)"
    using assms(3,5) by (intro set_eqI) (auto simp: blocks_update [OF l assms(2)] blocks_nth [OF l])
  have n: "fst (?t ! j) \<noteq> a" if "j < MAX_ALLOCATED_PAGES" for j
  proof
    assume "fst (?t ! j) = a"
    then have "?t ! j \<in> blocks mm" using that assms(5) l by (auto simp: blocks_def)
    with \<open>fst (?t ! j) = a\<close> assms(6) show False by (auto simp: owned_def)
  qed
  have "table_ok (mm\<lparr>page_table := ?t[i := (a, p)]\<rparr>)"
    using assms(1,2,4,6) l b n unfolding table_ok_def
    by (auto simp: nth_list_update owned_def dest!: set_update_subset_insert [THEN subsetD] split: if_splits)
  with b show ?thesis by simp
qed

lemma clear_slot:
  assumes "table_ok mm" "i < MAX_ALLOCATED_PAGES" "page_table mm ! i = (a, p)" "a \<noteq> 0"
  shows "table_ok (mm\<lparr>page_table := (page_table mm)[i := (0, q)]\<rparr>) \<or> \<not> block_ok (0, q)" 
    "blocks (mm\<lparr>page_table := (page_table mm)[i := (0, q)]\<rparr>) = blocks mm - {(a, p)}"
proof -
  let ?t = "page_table mm"
  have l: "length ?t = MAX_ALLOCATED_PAGES" using assms(1) by (simp add: table_ok_def)
  have "?t ! j \<noteq> (a, p)" if "j < MAX_ALLOCATED_PAGES" "j \<noteq> i" for j
    using assms that by (auto simp: table_ok_def)
  then show b: "blocks (mm\<lparr>page_table := ?t[i := (0, q)]\<rparr>) = blocks mm - {(a, p)}"
    using assms(3,4) by (intro set_eqI) (auto simp: blocks_update [OF l assms(2)] blocks_nth [OF l])
  show "table_ok (mm\<lparr>page_table := ?t[i := (0, q)]\<rparr>) \<or> \<not> block_ok (0, q)"
    using assms(1,2) l b unfolding table_ok_def
    by (auto simp: nth_list_update dest!: set_update_subset_insert [THEN subsetD] split: if_splits)
qed

text \<open>The part of the state that the page operations leave alone.\<close>

definition same_map :: "'w mm_state \<Rightarrow> 'w mm_state \<Rightarrow> bool" where
  "same_map mm mm' \<longleftrightarrow> allocated_pages mm' = allocated_pages mm \<and> mmap_buf mm' = mmap_buf mm \<and> mmap_pages mm' = mmap_pages mm"

lemma world_table [simp]:
  "table_ok (mm\<lparr>mm_world := w\<rparr>) = table_ok mm" "blocks (mm\<lparr>mm_world := w\<rparr>) = blocks mm"
  "owned (mm\<lparr>mm_world := w\<rparr>) = owned mm" "free_slot (mm\<lparr>mm_world := w\<rparr>) = free_slot mm"
  by (simp_all add: table_ok_def blocks_def owned_def free_slot_def)

lemma table_frame [simp]:
  "blocks (mm\<lparr>mmap_mem := c\<rparr>) = blocks mm" "blocks (mm\<lparr>mmap_size := n\<rparr>) = blocks mm"
  "blocks (mm\<lparr>mmap_pages := n\<rparr>) = blocks mm" "blocks (mm\<lparr>mmap_buf := n\<rparr>) = blocks mm" "blocks (mm\<lparr>grub_e820 := e\<rparr>) = blocks mm"
  "table_ok (mm\<lparr>mmap_mem := c\<rparr>) = table_ok mm" "table_ok (mm\<lparr>mmap_size := n\<rparr>) = table_ok mm"
  "table_ok (mm\<lparr>mmap_pages := n\<rparr>) = table_ok mm" "table_ok (mm\<lparr>mmap_buf := n\<rparr>) = table_ok mm" "table_ok (mm\<lparr>grub_e820 := e\<rparr>) = table_ok mm"
  "owned (mm\<lparr>mmap_mem := c\<rparr>) = owned mm" "owned (mm\<lparr>mmap_size := n\<rparr>) = owned mm"
  "owned (mm\<lparr>mmap_pages := n\<rparr>) = owned mm" "owned (mm\<lparr>mmap_buf := n\<rparr>) = owned mm" "owned (mm\<lparr>grub_e820 := e\<rparr>) = owned mm"
  "free_slot (mm\<lparr>mmap_mem := c\<rparr>) = free_slot mm"
  by (simp_all add: table_ok_def blocks_def owned_def free_slot_def)

text \<open>The blocks that the firmware has handed out are the ones in the table with the page of the table itself, and
  the blocks \<open>U\<close> that are not recorded.\<close>

definition mm_holds :: "('w \<Rightarrow> (int \<times> int) set) \<Rightarrow> 'w mm_state \<Rightarrow> (int \<times> int) set \<Rightarrow> bool" where
  "mm_holds live mm U \<longleftrightarrow> table_ok mm \<and> live (mm_world mm) = owned mm \<union> U \<and> fst ` owned mm \<inter> fst ` U = {}"

lemma holds_frame [simp]:
  "mm_holds live (mm\<lparr>mmap_mem := c\<rparr>) U = mm_holds live mm U" "mm_holds live (mm\<lparr>mmap_size := n\<rparr>) U = mm_holds live mm U"
  "mm_holds live (mm\<lparr>mmap_pages := n\<rparr>) U = mm_holds live mm U" "mm_holds live (mm\<lparr>mmap_buf := n\<rparr>) U = mm_holds live mm U"
  "mm_holds live (mm\<lparr>grub_e820 := e\<rparr>) U = mm_holds live mm U"
  by (simp_all add: mm_holds_def)

lemma holds_disjoint: "mm_holds live mm U \<Longrightarrow> (a, p) \<in> owned mm \<Longrightarrow> (a, q) \<notin> U"
  by (force simp: mm_holds_def)

lemma free_live: "services_ok sv live \<Longrightarrow> live (sv_free_pages sv a p w) = live w - {(a, p)}"
  by (simp add: services_ok_def)

lemma free_pages_ok:
  assumes "mm_holds live mm U" "(a, p) \<in> blocks mm" "services_ok sv live" "mm' = grub_efi_free_pages sv a p mm"
  shows "mm_holds live mm' U \<and> blocks mm' = blocks mm - {(a, p)} \<and> free_slot mm' \<and>
    allocated_pages mm' = allocated_pages mm \<and> mmap_buf mm' = mmap_buf mm \<and> mmap_pages mm' = mmap_pages mm"
proof -
  have tk: "table_ok mm" and lv: "live (mm_world mm) = owned mm \<union> U" using assms(1) by (simp_all add: mm_holds_def)
  have l: "length (page_table mm) = MAX_ALLOCATED_PAGES" using tk by (simp add: table_ok_def)
  obtain k where k: "k < MAX_ALLOCATED_PAGES" "page_table mm ! k = (a, p)" and a: "a \<noteq> 0"
    using assms(2) l by (auto simp: blocks_def in_set_conv_nth)
  obtain i where i: "find_slot a (page_table mm) 0 MAX_ALLOCATED_PAGES = Some i" "i < MAX_ALLOCATED_PAGES" "fst (page_table mm ! i) = a"
    using find_slot_ex [OF k(1), of "page_table mm" a] k(2) by auto
  have "i = k" using tk i k a by (auto simp: table_ok_def)
  then have pi: "page_table mm ! i = (a, p)" using k(2) by simp
  define mm1 where "mm1 = mm\<lparr>page_table := (page_table mm)[i := (0, p)]\<rparr>"
  have ap: "allocated_pages mm \<noteq> a" "allocated_pages mm \<noteq> 0" using tk assms(2) by (force simp: table_ok_def)+
  have e: "mm' = mm1\<lparr>mm_world := sv_free_pages sv a p (mm_world mm)\<rparr>"
    using ap i(1) pi by (simp add: assms(4) grub_efi_free_pages_def mm1_def)
  have "block_ok (a, p)" using tk pi i(2) l by (auto simp: table_ok_def in_set_conv_nth)
  then have t: "table_ok mm1" and b: "blocks mm1 = blocks mm - {(a, p)}"
    using clear_slot [OF tk i(2) pi a, of p] by (auto simp: mm1_def block_ok_def)
  have o: "owned mm' = owned mm - {(a, p)}" using ap b by (auto simp: owned_def e mm1_def blocks_def)
  have "(a, p) \<notin> U" using holds_disjoint [OF assms(1)] assms(2) by (auto simp: owned_def)
  then have "live (mm_world mm') = owned mm' \<union> U" using o lv by (auto simp: e free_live [OF assms(3)])
  moreover have "fst ` owned mm' \<inter> fst ` U = {}" using assms(1) o by (auto simp: mm_holds_def)
  moreover have "free_slot mm'" using i(2) l by (auto simp: free_slot_def e mm1_def intro!: exI [of _ i])
  ultimately show ?thesis using t b by (simp add: mm_holds_def e table_ok_def blocks_def mm1_def)
qed

lemma owned_nonzero: "table_ok mm \<Longrightarrow> 0 \<notin> fst ` owned mm"
  by (auto simp: owned_def blocks_def table_ok_def)

lemma record_block_ok:
  assumes "table_ok mm" "free_slot mm" "0 < a" "a < 2 ^ 32" "0 \<le> p" "p < 2 ^ 32" "a \<notin> fst ` owned mm"
  shows "\<exists>mm'. record_block a p mm = (a, mm') \<and> table_ok mm' \<and> blocks mm' = insert (a, p) (blocks mm) \<and>
    owned mm' = insert (a, p) (owned mm) \<and> mm_world mm' = mm_world mm \<and> same_map mm mm'"
proof -
  obtain i where i: "find_slot 0 (page_table mm) 0 MAX_ALLOCATED_PAGES = Some i" "i < MAX_ALLOCATED_PAGES" "fst (page_table mm ! i) = 0"
    using assms(2) find_slot_ex [of _ MAX_ALLOCATED_PAGES "page_table mm" 0] by (auto simp: free_slot_def)
  note s = store_slot [OF assms(1) i(2,3), of a p]
  let ?m = "mm\<lparr>page_table := (page_table mm)[i := (a, p)]\<rparr>"
  have "table_ok ?m \<and> blocks ?m = insert (a, p) (blocks mm)" using s assms by (simp add: block_ok_def)
  moreover have "record_block a p mm = (a, ?m)" using i(1) assms(3,4) by (simp add: record_block_def u32_id)
  ultimately show ?thesis by (auto simp: owned_def same_map_def)
qed

text \<open>A full table takes no block, and a block at address zero is not seen in it.\<close>

lemma record_block_full: "\<not> free_slot mm \<Longrightarrow> record_block a p mm = (0, mm)"
  by (auto simp: record_block_def free_slot_def dest: find_slot_Some split: option.splits)

lemma record_block_zero:
  assumes "table_ok mm" "0 \<le> p" "p < 2 ^ 32"
  shows "\<exists>mm'. record_block 0 p mm = (0, mm') \<and> table_ok mm' \<and> owned mm' = owned mm \<and> blocks mm' = blocks mm \<and>
    mm_world mm' = mm_world mm \<and> same_map mm mm'"
proof (cases "find_slot 0 (page_table mm) 0 MAX_ALLOCATED_PAGES")
  case None
  then show ?thesis using assms(1) by (simp add: record_block_def same_map_def)
next
  case (Some i)
  let ?t = "page_table mm"
  have i: "i < MAX_ALLOCATED_PAGES" "fst (?t ! i) = 0" using find_slot_Some [OF Some] by simp_all
  have l: "length ?t = MAX_ALLOCATED_PAGES" using assms(1) by (simp add: table_ok_def)
  let ?m = "mm\<lparr>page_table := ?t[i := (0, p)]\<rparr>"
  have b: "blocks ?m = blocks mm"
    using i by (intro set_eqI) (auto simp: blocks_update [OF l i(1)] blocks_nth [OF l])
  have "table_ok ?m"
    using assms i l b unfolding table_ok_def
    by (auto simp: nth_list_update block_ok_def dest!: set_update_subset_insert [THEN subsetD] split: if_splits)
  then show ?thesis using b Some by (auto simp: record_block_def owned_def same_map_def u32_id)
qed

lemma services_alloc:
  assumes "services_ok sv live" "sv_allocate_pages sv ty mt pages addr w = (st, a, w')"
  shows "if st = MM_SUCCESS then 0 \<le> a \<and> a < 2 ^ 32 \<and> a \<notin> fst ` live w \<and> live w' = insert (a, pages) (live w) else live w' = live w"
proof -
  have "\<forall>ty mt pages addr w. case sv_allocate_pages sv ty mt pages addr w of (st, a, w') \<Rightarrow>
      if st = MM_SUCCESS then 0 \<le> a \<and> a < 2 ^ 32 \<and> a \<notin> fst ` live w \<and> live w' = insert (a, pages) (live w)
      else live w' = live w"
    using assms(1) unfolding services_ok_def by (rule conjunct1)
  from this [THEN spec [of _ ty], THEN spec [of _ mt], THEN spec [of _ pages], THEN spec [of _ addr], THEN spec [of _ w]] show ?thesis unfolding assms(2) by simp
qed

text \<open>Freeing address zero, or any block that is not in the table, only tells the firmware.\<close>

lemma free_zero: "grub_efi_free_pages sv 0 p mm = mm\<lparr>mm_world := sv_free_pages sv 0 p (mm_world mm)\<rparr>"
proof -
  have "(page_table mm)[i := (0, snd (page_table mm ! i))] = page_table mm" if "fst (page_table mm ! i) = 0" for i
    using that by (metis list_update_id prod.collapse)
  then show ?thesis
    by (auto simp: grub_efi_free_pages_def dest: find_slot_Some split: option.splits)
qed

lemma free_unrecorded:
  assumes "table_ok mm" "a \<notin> fst ` owned mm"
  shows "grub_efi_free_pages sv a p mm = mm\<lparr>mm_world := sv_free_pages sv a p (mm_world mm)\<rparr>"
proof (cases "a = 0")
  case False
  have "find_slot a (page_table mm) 0 MAX_ALLOCATED_PAGES = None"
  proof (rule ccontr)
    assume "find_slot a (page_table mm) 0 MAX_ALLOCATED_PAGES \<noteq> None"
    then obtain i where "i < MAX_ALLOCATED_PAGES" "fst (page_table mm ! i) = a" by (auto dest: find_slot_Some)
    then have "page_table mm ! i \<in> blocks mm" using False assms(1) by (auto simp: blocks_def table_ok_def)
    then show False using assms(2) \<open>fst (page_table mm ! i) = a\<close> by (auto simp: owned_def)
  qed
  then show ?thesis by (simp add: grub_efi_free_pages_def)
qed (simp add: free_zero)

text \<open>The calls of the firmware in \<^verbatim>\<open>grub_efi_allocate_pages_real\<close>: they get no block, or one that is not at address
  zero, which is recorded unless it is for the runtime.\<close>

lemma allocate_raw:
  assumes "services_ok sv live" "grub_efi_allocate_pages_real sv address p mt mm = (r, mm')"
  shows "(\<exists>w. live w = live (mm_world mm) \<and> mm' = mm\<lparr>mm_world := w\<rparr> \<and> (mt \<noteq> 6 \<longrightarrow> r = 0)) \<or>
    (\<exists>a w. 0 < a \<and> a < 2 ^ 32 \<and> a \<notin> fst ` live (mm_world mm) \<and> live w = insert (a, p) (live (mm_world mm)) \<and>
       (r, mm') = (if allocated_pages mm \<noteq> 0 \<and> mt \<noteq> 6 then record_block a p (mm\<lparr>mm_world := w\<rparr>) else (a, mm\<lparr>mm_world := w\<rparr>)))"
    (is "?no \<or> ?yes")
proof (cases "address > 0x7fffffff")
  case True
  then have "r = 0" "mm' = mm\<lparr>mm_world := mm_world mm\<rparr>" using assms(2) by (simp_all add: grub_efi_allocate_pages_real_def)
  then show ?thesis by blast
next
  case low: False
  define ty where "ty = (if address = 0 then ALLOCATE_MAX_ADDRESS else ALLOCATE_ADDRESS)"
  define ad where "ad = (if address = 0 then 0x7fffffff else address)"
  obtain st a w where al: "sv_allocate_pages sv ty mt p ad (mm_world mm) = (st, a, w)" by (rule prod_cases3)
  note law = services_alloc [OF assms(1) al]
  note unf = grub_efi_allocate_pages_real_def ty_def ad_def Let_def
  consider "st \<noteq> MM_SUCCESS" | "st = MM_SUCCESS" "a \<noteq> 0" | "st = MM_SUCCESS" "a = 0" by blast
  then show ?thesis
  proof cases
    case 1
    then have "mm' = mm\<lparr>mm_world := w\<rparr>" "mt \<noteq> 6 \<longrightarrow> r = 0" using assms(2) low al by (auto simp: unf split: if_splits)
    then show ?thesis using law 1 by auto
  next
    case 2
    then have "(r, mm') = (if allocated_pages mm \<noteq> 0 \<and> mt \<noteq> 6 then record_block a p (mm\<lparr>mm_world := w\<rparr>) else (u32 a, mm\<lparr>mm_world := w\<rparr>))"
      using assms(2) low al by (auto simp: unf split: if_splits)
    moreover have "0 < a" "u32 a = a" using law 2 by (simp_all add: u32_id)
    ultimately have ?yes using law 2 by (intro exI [of _ a] exI [of _ w]) simp
    then show ?thesis ..
  next
    case 3
    obtain st2 a2 w2 where al2: "sv_allocate_pages sv ty 2 p 0x7fffffff w = (st2, a2, w2)" by (rule prod_cases3)
    note law2 = services_alloc [OF assms(1) al2]
    define w3 where "w3 = sv_free_pages sv 0 p w2"
    have l3: "live w3 = live w2 - {(0, p)}" by (simp add: w3_def free_live [OF assms(1)])
    have lw: "live w = insert (0, p) (live (mm_world mm))" "0 \<notin> fst ` live (mm_world mm)" using law 3 by simp_all
    have e: "(r, mm') = (if st2 \<noteq> MM_SUCCESS then (0, mm\<lparr>mm_world := w3\<rparr>)
        else if allocated_pages mm \<noteq> 0 \<and> mt \<noteq> 6 then record_block a2 p (mm\<lparr>mm_world := w3\<rparr>) else (u32 a2, mm\<lparr>mm_world := w3\<rparr>))"
      using assms(2) low al al2 3 by (auto simp: unf free_zero w3_def split: if_splits)
    show ?thesis
    proof (cases "st2 = MM_SUCCESS")
      case False
      then have "live w3 = live (mm_world mm)" using law2 l3 lw by (force simp: image_iff)
      then have ?no using e False by auto
      then show ?thesis ..
    next
      case True
      then have a2: "0 < a2" "a2 < 2 ^ 32" "a2 \<notin> fst ` live (mm_world mm)" "u32 a2 = a2" using law2 lw by (auto simp: less_le u32_id)
      have "live w3 = insert (a2, p) (live (mm_world mm))" using law2 True l3 lw a2(1) by (force simp: image_iff)
      then have ?yes using e True a2 by (intro exI [of _ a2] exI [of _ w3]) simp
      then show ?thesis ..
    qed
  qed
qed

text \<open>What the firmware has handed out between two states.\<close>

definition gained :: "('w \<Rightarrow> (int \<times> int) set) \<Rightarrow> 'w mm_state \<Rightarrow> 'w mm_state \<Rightarrow> (int \<times> int) set" where
  "gained live mm mm' = live (mm_world mm') - live (mm_world mm)"

lemma holds_same:
  assumes "mm_holds live mm U" "live w = live (mm_world mm)"
  shows "mm_holds live (mm\<lparr>mm_world := w\<rparr>) U" "gained live mm (mm\<lparr>mm_world := w\<rparr>) = {}"
  using assms by (simp_all add: mm_holds_def gained_def)

lemma holds_unrecorded:
  assumes "mm_holds live mm U" "a \<notin> fst ` live (mm_world mm)" "live (mm_world mm') = insert (a, p) (live (mm_world mm))"
    "table_ok mm'" "owned mm' = owned mm"
  shows "mm_holds live mm' (U \<union> gained live mm mm')"
proof -
  have "gained live mm mm' = {(a, p)}" using assms(2,3) by (force simp: gained_def image_iff)
  then show ?thesis using assms by (auto simp: mm_holds_def)
qed

lemma allocate_pages_ok:
  assumes "mm_holds live mm U" "services_ok sv live" "0 \<le> p" "p < 2 ^ 32" "grub_efi_allocate_pages sv address p mm = (r, mm')"
  shows "mm_holds live mm' (if free_slot mm then U else U \<union> gained live mm mm')" "same_map mm mm'"
    "if r = 0 then blocks mm' = blocks mm else blocks mm' = insert (r, p) (blocks mm)" "free_slot mm \<or> r = 0"
proof -
  have tk: "table_ok mm" "allocated_pages mm \<noteq> 0" "fst ` owned mm \<subseteq> fst ` live (mm_world mm)"
    using assms(1) by (auto simp: mm_holds_def table_ok_def)
  from allocate_raw [OF assms(2) assms(5) [unfolded grub_efi_allocate_pages_def]]
  have "mm_holds live mm' (if free_slot mm then U else U \<union> gained live mm mm') \<and> same_map mm mm' \<and>
    (if r = 0 then blocks mm' = blocks mm else blocks mm' = insert (r, p) (blocks mm)) \<and> (free_slot mm \<or> r = 0)"
  proof (elim disjE exE conjE)
    fix w assume "live w = live (mm_world mm)" "mm' = mm\<lparr>mm_world := w\<rparr>" "2 \<noteq> (6 :: int) \<longrightarrow> r = 0"
    then show ?thesis using holds_same [OF assms(1)] by (simp add: same_map_def)
  next
    fix a w assume a: "0 < a" "a < 2 ^ 32" "a \<notin> fst ` live (mm_world mm)" "live w = insert (a, p) (live (mm_world mm))"
      and e: "(r, mm') = (if allocated_pages mm \<noteq> 0 \<and> 2 \<noteq> (6 :: int) then record_block a p (mm\<lparr>mm_world := w\<rparr>) else (a, mm\<lparr>mm_world := w\<rparr>))"
    let ?m = "mm\<lparr>mm_world := w\<rparr>"
    have e: "record_block a p ?m = (r, mm')" using e tk(2) by simp
    show ?thesis
    proof (cases "free_slot mm")
      case True
      have "a \<notin> fst ` owned ?m" using a(3) tk(3) by auto
      from record_block_ok [OF _ _ a(1,2) assms(3,4) this] True tk(1) e
      have "r = a" "table_ok mm'" "blocks mm' = insert (a, p) (blocks mm)" "owned mm' = insert (a, p) (owned mm)" "mm_world mm' = w" "same_map ?m mm'"
        by auto
      then show ?thesis using True a assms(1) by (auto simp: mm_holds_def same_map_def)
    next
      case False
      then have "r = 0" "mm' = ?m" using record_block_full [of ?m a p] e by auto
      then show ?thesis using False holds_unrecorded [OF assms(1) a(3), of mm' p] a(4) tk(1) by (simp add: same_map_def)
    qed
  qed
  then show "mm_holds live mm' (if free_slot mm then U else U \<union> gained live mm mm')" "same_map mm mm'"
    "if r = 0 then blocks mm' = blocks mm else blocks mm' = insert (r, p) (blocks mm)" "free_slot mm \<or> r = 0" by blast+
qed

lemma allocate_runtime_ok:
  assumes "mm_holds live mm U" "services_ok sv live" "grub_efi_allocate_runtime_pages sv address p mm = (r, mm')"
  shows "mm_holds live mm' (U \<union> gained live mm mm') \<and> same_map mm mm' \<and> blocks mm' = blocks mm"
  using allocate_raw [OF assms(2) assms(3) [unfolded grub_efi_allocate_runtime_pages_def]]
proof (elim disjE exE conjE)
  fix w assume "live w = live (mm_world mm)" "mm' = mm\<lparr>mm_world := w\<rparr>"
  then show ?thesis using holds_same [OF assms(1)] by (simp add: same_map_def)
next
  fix a w assume a: "a \<notin> fst ` live (mm_world mm)" "live w = insert (a, p) (live (mm_world mm))"
    and e: "(r, mm') = (if allocated_pages mm \<noteq> 0 \<and> 6 \<noteq> (6 :: int) then record_block a p (mm\<lparr>mm_world := w\<rparr>) else (a, mm\<lparr>mm_world := w\<rparr>))"
  then show ?thesis using holds_unrecorded [OF assms(1) a(1), of mm' p] assms(1) by (simp add: same_map_def mm_holds_def)
qed

lemma allocate_any_ok:
  assumes "mm_holds live mm U" "services_ok sv live" "0 \<le> p" "p < 2 ^ 32" "grub_efi_allocate_anypages sv p mm = (r, mm')"
  shows "mm_holds live mm' (if r = 0 then U \<union> gained live mm mm' else U) \<and> same_map mm mm' \<and> blocks mm \<subseteq> blocks mm'"
proof -
  have tk: "table_ok mm" "allocated_pages mm \<noteq> 0" "fst ` owned mm \<subseteq> fst ` live (mm_world mm)"
    using assms(1) by (auto simp: mm_holds_def table_ok_def)
  obtain st a w where al: "sv_allocate_pages sv ALLOCATE_ANY_PAGES 2 p 0 (mm_world mm) = (st, a, w)" by (rule prod_cases3)
  note law = services_alloc [OF assms(2) al]
  let ?m = "mm\<lparr>mm_world := w\<rparr>"
  show ?thesis
  proof (cases "st = MM_SUCCESS")
    case False
    then have "r = 0" "mm' = ?m" using assms(5) al by (simp_all add: grub_efi_allocate_anypages_def)
    then show ?thesis using holds_same [OF assms(1), of w] law False by (simp add: same_map_def)
  next
    case True
    then have a: "0 \<le> a" "a < 2 ^ 32" "a \<notin> fst ` live (mm_world mm)" "live w = insert (a, p) (live (mm_world mm))" using law by simp_all
    have e: "record_block a p ?m = (r, mm')" using assms(5) al True tk(2) by (simp add: grub_efi_allocate_anypages_def)
    have o: "a \<notin> fst ` owned ?m" using a(3) tk(3) by auto
    consider "free_slot mm" "0 < a" | "a = 0" | "\<not> free_slot mm" using a(1) by force
    then show ?thesis
    proof cases
      case 1
      from record_block_ok [OF _ _ this(2) a(2) assms(3,4) o] this tk(1) e
      have "r = a" "table_ok mm'" "blocks mm' = insert (a, p) (blocks mm)" "owned mm' = insert (a, p) (owned mm)" "mm_world mm' = w" "same_map ?m mm'"
        by auto
      then show ?thesis using 1 a assms(1) by (auto simp: mm_holds_def same_map_def)
    next
      case 2
      from record_block_zero [of ?m p] assms(3,4) tk(1) e 2
      have "r = 0" "table_ok mm'" "owned mm' = owned mm" "blocks mm' = blocks mm" "mm_world mm' = w" "same_map ?m mm'" by auto
      then show ?thesis using holds_unrecorded [OF assms(1) a(3), of mm' p] a(4) by (auto simp: same_map_def)
    next
      case 3
      then have "r = 0" "mm' = ?m" using record_block_full [of ?m a p] e by auto
      then show ?thesis using holds_unrecorded [OF assms(1) a(3), of mm' p] a(4) tk(1) by (simp add: same_map_def)
    qed
  qed
qed

text \<open>The state invariant: in addition, the buffer of the memory map is a recorded block.\<close>

definition mm_inv :: "('w \<Rightarrow> (int \<times> int) set) \<Rightarrow> 'w mm_state \<Rightarrow> (int \<times> int) set \<Rightarrow> bool" where
  "mm_inv live mm U \<longleftrightarrow> mm_holds live mm U \<and> (mmap_buf mm = 0 \<or> (mmap_buf mm, mmap_pages mm) \<in> blocks mm)"

lemma allocate_inv:
  assumes "mm_inv live mm U" "services_ok sv live" "0 \<le> p" "p < 2 ^ 32" "grub_efi_allocate_pages sv address p mm = (r, mm')"
  shows "mm_inv live mm' (if free_slot mm then U else U \<union> gained live mm mm')"
proof -
  have i: "mm_holds live mm U" using assms(1) by (simp add: mm_inv_def)
  note ok = allocate_pages_ok [OF i assms(2-5)]
  have "blocks mm \<subseteq> blocks mm'" using ok(3) by (auto split: if_splits)
  then show ?thesis using ok(1,2) assms(1) by (auto simp: mm_inv_def same_map_def)
qed

lemma free_inv:
  assumes "mm_inv live mm U" "(a, p) \<in> blocks mm" "a \<noteq> mmap_buf mm" "services_ok sv live"
  shows "mm_inv live (grub_efi_free_pages sv a p mm) U"
  using free_pages_ok [OF _ assms(2,4) refl] assms(1,3) by (auto simp: mm_inv_def)

lemma free_unrecorded_inv:
  assumes "mm_inv live mm U" "(a, p) \<in> U" "services_ok sv live"
  shows "mm_inv live (grub_efi_free_pages sv a p mm) (U - {(a, p)})"
proof -
  have i: "mm_holds live mm U" "table_ok mm" using assms(1) by (simp_all add: mm_inv_def mm_holds_def)
  have a: "a \<notin> fst ` owned mm" using i(1) assms(2) by (force simp: mm_holds_def)
  then have "(a, p) \<notin> owned mm" by force
  then have "mm_holds live (mm\<lparr>mm_world := sv_free_pages sv a p (mm_world mm)\<rparr>) (U - {(a, p)})"
    using i(1) by (auto simp: mm_holds_def free_live [OF assms(3)])
  then show ?thesis using assms(1) by (simp add: free_unrecorded [OF i(2) a] mm_inv_def)
qed

lemma services_map:
  assumes "services_ok sv live" "sv_get_memory_map sv n b w = (st, sz, c, d, w')"
  shows "live w' = live w"
proof -
  have "\<forall>n b w. live (snd (snd (snd (snd (sv_get_memory_map sv n b w))))) = live w"
    using assms(1) unfolding services_ok_def by (elim conjE)
  then have "live (snd (snd (snd (snd (sv_get_memory_map sv n b w))))) = live w" by blast
  then show ?thesis by (simp add: assms(2))
qed

text \<open>The table loses a block to \<^verbatim>\<open>grub_efi_get_memory_map\<close> only if there was no buffer yet and the table was full.\<close>

lemma get_memory_map_inv:
  assumes "services_ok sv live" "mm_inv live mm U" "grub_efi_get_memory_map fuel sv mm = Some (r, ds, mm')"
  shows "mm_inv live mm' (if mmap_buf mm \<noteq> 0 \<or> free_slot mm then U else U \<union> gained live mm mm')"
  using assms(2,3)
proof (induction fuel arbitrary: mm)
  case (Suc fuel)
  obtain st sz c d w where g: "sv_get_memory_map sv (u32 (mmap_pages mm * 2 ^ 12)) (mmap_buf mm) (mm_world mm) = (st, sz, c, d, w)"
    by (rule prod_cases5)
  have lw: "live w = live (mm_world mm)" using services_map [OF assms(1) g] .
  define mm1 where "mm1 = mm\<lparr>mm_world := w, mmap_mem := c\<rparr>"
  have i1: "mm_inv live mm1 U" using Suc.prems(1) lw by (simp add: mm_inv_def mm_holds_def mm1_def)
  have m1: "mmap_buf mm1 = mmap_buf mm" "free_slot mm1 = free_slot mm" "live (mm_world mm1) = live (mm_world mm)"
    using lw by (simp_all add: mm1_def)
  show ?case
  proof (cases "st = MM_BUFFER_TOO_SMALL")
    case False
    then have "mm' = mm1 \<or> mm' = mm1\<lparr>mmap_size := sz\<rparr>"
      using Suc.prems(2) g by (auto simp: mm1_def Let_def split: if_splits)
    then have "mm_inv live mm' U" "gained live mm mm' = {}"
      using i1 m1(3) by (elim disjE; simp add: mm_inv_def gained_def)+
    then show ?thesis by simp
  next
    case True
    define mm2 where "mm2 = (if mmap_buf mm1 \<noteq> 0 then grub_efi_free_pages sv (mmap_buf mm1) (mmap_pages mm1) mm1 else mm1)"
    have h2: "mm_holds live mm2 U" "free_slot mm2 \<longleftrightarrow> mmap_buf mm \<noteq> 0 \<or> free_slot mm"
      and g2: "mmap_buf mm = 0 \<Longrightarrow> live (mm_world mm2) = live (mm_world mm)"
      using free_pages_ok [of live mm1 U "mmap_buf mm1" "mmap_pages mm1" sv] i1 assms(1) m1
      by (auto simp: mm2_def mm_inv_def)
    define pages where "pages = u32 (u32 (sz + 4095) div 2 ^ 12 + 1)"
    have pages: "0 \<le> pages" "pages < 2 ^ 32" unfolding pages_def by (rule u32_range)+
    obtain buf mm3 where al: "grub_efi_allocate_pages sv 0 pages mm2 = (buf, mm3)" by (rule prod.exhaust)
    note ok = allocate_pages_ok [OF h2(1) assms(1) pages al, unfolded h2(2)]
    define mm4 where "mm4 = mm3\<lparr>mmap_pages := pages, mmap_buf := buf\<rparr>"
    have e: "grub_efi_get_memory_map (Suc fuel) sv mm =
        (if buf = 0 then Some (- 1, d, mm4\<lparr>mmap_pages := 0\<rparr>) else grub_efi_get_memory_map fuel sv mm4)"
      using True g al unfolding pages_def mm2_def mm4_def mm1_def by (simp add: Let_def)
    show ?thesis
    proof (cases "buf = 0")
      case True
      then have m': "mm' = mm4\<lparr>mmap_pages := 0\<rparr>" using e Suc.prems(2) by simp
      then have "gained live mm2 mm3 = gained live mm mm'" if "mmap_buf mm = 0" using g2 [OF that] by (simp add: gained_def mm4_def)
      then show ?thesis using ok(1) True by (auto simp: m' mm_inv_def mm4_def)
    next
      case False
      then have f: "mmap_buf mm \<noteq> 0 \<or> free_slot mm" using ok(4) by simp
      then have "mm_inv live mm4 U" using ok(1,3) False by (simp add: mm_inv_def mm4_def)
      then show ?thesis using Suc.IH [of mm4] False f e Suc.prems(2) by (simp add: mm4_def)
    qed
  qed
qed simp

lemma free_pages_zero:
  assumes "table_ok mm" "k < MAX_ALLOCATED_PAGES" "page_table mm ! k = (a, p)" "a \<noteq> 0"
  shows "page_table (grub_efi_free_pages sv a q mm) = (page_table mm)[k := (0, p)]"
proof -
  have l: "length (page_table mm) = MAX_ALLOCATED_PAGES" using assms(1) by (simp add: table_ok_def)
  obtain i where i: "find_slot a (page_table mm) 0 MAX_ALLOCATED_PAGES = Some i" "i < MAX_ALLOCATED_PAGES" "fst (page_table mm ! i) = a"
    using find_slot_ex [OF assms(2), of "page_table mm" a] assms(3) by auto
  have ki: "k = i" using assms i by (auto simp: table_ok_def)
  have "(a, p) \<in> blocks mm" using assms l by (auto simp: blocks_nth)
  then have "allocated_pages mm \<noteq> a" "allocated_pages mm \<noteq> 0" using assms(1) by (force simp: table_ok_def)+
  then show ?thesis using i(1) assms(3) ki by (simp add: grub_efi_free_pages_def)
qed

lemma fini_loop:
  assumes "services_ok sv live" "mm_holds live mm U" "n \<le> MAX_ALLOCATED_PAGES" "mm' = fold (fini_step sv) [0..<n] mm"
  shows "mm_holds live mm' U \<and> allocated_pages mm' = allocated_pages mm \<and> (\<forall>i < n. fst (page_table mm' ! i) = 0)"
  using assms(3,4)
proof (induction n arbitrary: mm')
  case 0
  then show ?case using assms by simp
next
  case (Suc n)
  define m where "m = fold (fini_step sv) [0..<n] mm"
  have m: "mm_holds live m U" "allocated_pages m = allocated_pages mm" "\<forall>i < n. fst (page_table m ! i) = 0"
    using Suc.IH [OF _ m_def] Suc.prems(1) by auto
  have tk: "table_ok m" using m(1) by (simp add: mm_holds_def)
  have l: "length (page_table m) = MAX_ALLOCATED_PAGES" using tk by (simp add: table_ok_def)
  obtain a p where ap: "page_table m ! n = (a, p)" by (rule prod.exhaust)
  have "block_ok (a, p)" using tk l Suc.prems(1) ap nth_mem [of n "page_table m"] unfolding table_ok_def by auto
  then have u: "u32 a = a" "u32 p = p" by (simp_all add: block_ok_def u32_id)
  have e: "mm' = (if a \<noteq> 0 then grub_efi_free_pages sv a p m else m)"
    using Suc.prems(2) ap u by (simp add: m_def [symmetric]) (simp add: fini_step_def)
  show ?case
  proof (cases "a = 0")
    case True
    then show ?thesis using e m ap by (auto simp: less_Suc_eq)
  next
    case False
    have b: "(a, p) \<in> blocks m" using ap False l Suc.prems(1) by (auto simp: blocks_nth intro: exI [of _ n])
    have t: "page_table mm' = (page_table m)[n := (0, p)]"
      using free_pages_zero [OF tk _ ap False] Suc.prems(1) False e by simp
    show ?thesis
      using free_pages_ok [OF m(1) b assms(1) refl] False e t m(2,3) l Suc.prems(1)
      by (auto simp: less_Suc_eq nth_list_update)
  qed
qed

lemma fini_frees_recorded:
  assumes "services_ok sv live" "mm_holds live mm U"
  shows "live (mm_world (grub_efi_mm_fini sv mm)) = U"
proof -
  define m where "m = fold (fini_step sv) [0..<MAX_ALLOCATED_PAGES] mm"
  have m: "mm_holds live m U" "\<forall>i < MAX_ALLOCATED_PAGES. fst (page_table m ! i) = 0" "allocated_pages m = allocated_pages mm"
    using fini_loop [OF assms order_refl m_def] by auto
  have z: "allocated_pages mm \<noteq> 0" using assms(2) by (auto simp: mm_holds_def table_ok_def)
  have "blocks m = {}" using m(1,2) by (auto simp: blocks_def mm_holds_def table_ok_def in_set_conv_nth)
  then have o: "owned m = {(allocated_pages m, 1)}" by (simp add: owned_def)
  then have "live (mm_world m) - {(allocated_pages m, 1)} = U" using m(1) holds_disjoint [OF m(1), of "allocated_pages m" 1 1] by (auto simp: mm_holds_def)
  then show ?thesis
    using z m(3) unfolding grub_efi_mm_fini_def m_def [symmetric] Let_def
    by (simp add: grub_efi_free_pages_def free_live [OF assms(1)])
qed

text \<open>Before the table exists, an allocation is not recorded.\<close>

lemma allocate_first:
  assumes "services_ok sv live" "allocated_pages mm = 0" "live (mm_world mm) = {}"
    "grub_efi_allocate_pages sv 0 p mm = (r, mm')"
  shows "(r = 0 \<or> 0 < r \<and> r < 2 ^ 32 \<and> live (mm_world mm') = {(r, p)}) \<and> mmap_buf mm' = mmap_buf mm"
  using allocate_raw [OF assms(1) assms(4) [unfolded grub_efi_allocate_pages_def]] assms(2,3) by auto

lemma init_inv:
  assumes "services_ok sv live" "allocated_pages mm0 = 0" "mmap_buf mm0 = 0" "live (mm_world mm0) = {}"
    "grub_efi_mm_init fuel sv mm0 = Some mm" "allocated_pages mm \<noteq> 0"
  shows "mm_inv live mm {}"
proof -
  obtain r mm1 where al: "grub_efi_allocate_pages sv 0 1 mm0 = (r, mm1)" by (rule prod.exhaust)
  note first = allocate_first [OF assms(1,2,4) al]
  define mm2 where "mm2 = mm1\<lparr>allocated_pages := r, page_table := replicate MAX_ALLOCATED_PAGES (0, 0)\<rparr>"
  have r: "r \<noteq> 0" using assms(5,6) al by (auto simp: grub_efi_mm_init_def split: if_splits)
  have b: "blocks mm2 = {}" by (auto simp: blocks_def mm2_def)
  have "table_ok mm2" using first r unfolding table_ok_def b by (simp add: mm2_def block_ok_def)
  moreover have "live (mm_world mm2) = owned mm2" "mmap_buf mm2 = 0"
    using first r assms(3) by (simp_all add: owned_def b) (simp_all add: mm2_def)
  ultimately have i: "mm_inv live mm2 {}" by (simp add: mm_inv_def mm_holds_def)
  have fs: "free_slot mm2" by (auto simp: free_slot_def mm2_def MAX_ALLOCATED_PAGES_def intro!: exI [of _ 0])
  have "update_e820_map fuel sv mm2 = Some mm"
    using assms(5) al r by (simp add: grub_efi_mm_init_def mm2_def)
  then obtain c ds mm3 where g: "grub_efi_get_memory_map fuel sv mm2 = Some (c, ds, mm3)" "mm = mm3 \<or> (\<exists>e. mm = mm3\<lparr>grub_e820 := e\<rparr>)"
    unfolding update_e820_map_def by (auto split: option.splits if_splits) blast+
  from get_memory_map_inv [OF assms(1) i g(1)] fs g(2) show ?thesis by (auto simp: mm_inv_def)
qed

text \<open>The states of the page allocator with the blocks \<open>U\<close> that GRUB was given and has not recorded. After
  initialisation, callers allocate (pages, runtime pages, or anywhere), free what they have, give the buffer of the memory map
  back, and ask for the memory map, in any order. A block goes to \<open>U\<close> when the table is full, when it is for the runtime, which
  is meant to outlive GRUB, and when \<^verbatim>\<open>grub_efi_allocate_anypages\<close> is given address zero.\<close>

inductive mm_reach :: "('w \<Rightarrow> (int \<times> int) set) \<Rightarrow> 'w mm_services \<Rightarrow> 'w mm_state \<Rightarrow> 'w mm_state \<Rightarrow> (int \<times> int) set \<Rightarrow> bool"
  for live sv mm0 where
  reach_init: "grub_efi_mm_init fuel sv mm0 = Some mm \<Longrightarrow> allocated_pages mm \<noteq> 0 \<Longrightarrow> mm_reach live sv mm0 mm {}"
| reach_allocate: "mm_reach live sv mm0 mm U \<Longrightarrow> 0 \<le> p \<Longrightarrow> p < 2 ^ 32 \<Longrightarrow> grub_efi_allocate_pages sv address p mm = (r, mm') \<Longrightarrow>
    mm_reach live sv mm0 mm' (if free_slot mm then U else U \<union> gained live mm mm')"
| reach_runtime: "mm_reach live sv mm0 mm U \<Longrightarrow> grub_efi_allocate_runtime_pages sv address p mm = (r, mm') \<Longrightarrow>
    mm_reach live sv mm0 mm' (U \<union> gained live mm mm')"
| reach_any: "mm_reach live sv mm0 mm U \<Longrightarrow> 0 \<le> p \<Longrightarrow> p < 2 ^ 32 \<Longrightarrow> grub_efi_allocate_anypages sv p mm = (r, mm') \<Longrightarrow>
    mm_reach live sv mm0 mm' (if r = 0 then U \<union> gained live mm mm' else U)"
| reach_free: "mm_reach live sv mm0 mm U \<Longrightarrow> (a, p) \<in> blocks mm \<Longrightarrow> a \<noteq> mmap_buf mm \<Longrightarrow>
    mm_reach live sv mm0 (grub_efi_free_pages sv a p mm) U"
| reach_free_unrecorded: "mm_reach live sv mm0 mm U \<Longrightarrow> (a, p) \<in> U \<Longrightarrow>
    mm_reach live sv mm0 (grub_efi_free_pages sv a p mm) (U - {(a, p)})"
| reach_free_map: "mm_reach live sv mm0 mm U \<Longrightarrow> mmap_buf mm \<noteq> 0 \<Longrightarrow>
    mm_reach live sv mm0 ((grub_efi_free_pages sv (mmap_buf mm) (mmap_pages mm) mm)\<lparr>mmap_buf := 0\<rparr>) U"
| reach_map: "mm_reach live sv mm0 mm U \<Longrightarrow> grub_efi_get_memory_map fuel sv mm = Some (r, ds, mm') \<Longrightarrow>
    mm_reach live sv mm0 mm' (if mmap_buf mm \<noteq> 0 \<or> free_slot mm then U else U \<union> gained live mm mm')"

lemma mm_reach_inv:
  assumes "services_ok sv live" "allocated_pages mm0 = 0" "mmap_buf mm0 = 0" "live (mm_world mm0) = {}" "mm_reach live sv mm0 mm U"
  shows "mm_inv live mm U"
  using assms(5)
proof induction
  case (reach_init fuel mm)
  then show ?case using init_inv [OF assms(1-4)] by blast
next
  case (reach_allocate mm U p address r mm')
  then show ?case using allocate_inv [OF _ assms(1)] by blast
next
  case (reach_runtime mm U address p r mm')
  then have "mm_holds live mm U" by (simp add: mm_inv_def)
  from allocate_runtime_ok [OF this assms(1) reach_runtime.hyps(2)] show ?case
    using reach_runtime.IH by (simp add: mm_inv_def same_map_def)
next
  case (reach_any mm U p r mm')
  then have "mm_holds live mm U" by (simp add: mm_inv_def)
  from allocate_any_ok [OF this assms(1) reach_any.hyps(2-4)] show ?case
    using reach_any.IH by (auto simp: mm_inv_def same_map_def)
next
  case (reach_free mm U a p)
  then show ?case using free_inv assms(1) by blast
next
  case (reach_free_unrecorded mm U a p)
  then show ?case using free_unrecorded_inv assms(1) by blast
next
  case (reach_free_map mm U)
  then have "mm_holds live mm U" "(mmap_buf mm, mmap_pages mm) \<in> blocks mm" by (simp_all add: mm_inv_def)
  from free_pages_ok [OF this assms(1) refl] show ?case by (simp add: mm_inv_def)
next
  case (reach_map mm U fuel r ds mm')
  then show ?case using get_memory_map_inv [OF assms(1)] by blast
qed

text \<open>
  C27: The page blocks are accounted for. Whatever sequence of allocations of all three kinds, frees and memory-map
  requests follows initialisation, the blocks the firmware has handed out and not got back are exactly those in GRUB's table,
  the table's own page, and the unrecorded blocks \<open>U\<close>, none of which is also in the table; and \<^verbatim>\<open>grub_efi_mm_fini\<close> returns all
  blocks but \<open>U\<close> to the firmware. So nothing is lost but the blocks for the runtime, those given out while the table of 256 entries is
  full, and one at address zero from \<^verbatim>\<open>grub_efi_allocate_anypages\<close>.
\<close>

theorem mm_no_leak:
  assumes "services_ok sv live" "allocated_pages mm0 = 0" "mmap_buf mm0 = 0" "live (mm_world mm0) = {}" "mm_reach live sv mm0 mm U"
  shows "live (mm_world mm) = owned mm \<union> U \<and> fst ` owned mm \<inter> fst ` U = {} \<and> live (mm_world (grub_efi_mm_fini sv mm)) = U"
  using mm_reach_inv [OF assms] fini_frees_recorded [OF assms(1)] by (simp add: mm_inv_def mm_holds_def)

text \<open>A firmware that hands out pages upwards; the world is the next page and the live blocks.\<close>

definition bump_services :: "(nat \<times> (int \<times> int) list) mm_services" where
  "bump_services =
     \<lparr>sv_allocate_pages = \<lambda>ty mt pages addr (n, bs).
        if int n * 4096 < 2 ^ 30 \<and> (\<forall>b \<in> set bs. fst b < int n * 4096)
        then (MM_SUCCESS, int n * 4096, (n + nat pages + 1, (int n * 4096, pages) # bs)) else (MM_ERROR, 0, (n, bs)),
      sv_free_pages = \<lambda>a p (n, bs). (n, filter (\<lambda>b. b \<noteq> (a, p)) bs),
      sv_get_memory_map = \<lambda>size buf w. (if size < 80 then MM_BUFFER_TOO_SMALL else MM_SUCCESS, 80, sample_map, 40, w)\<rparr>"

lemma bump_services_ok: "services_ok bump_services (\<lambda>(n, bs). set bs)"
  by (force simp: services_ok_def bump_services_def split: prod.splits if_splits)

definition mm_start :: "(nat \<times> (int \<times> int) list) mm_state" where
  "mm_start = \<lparr>allocated_pages = 0, page_table = [], mmap_buf = 0, mmap_mem = \<lambda>_. 0, mmap_size = 0, mmap_pages = 0,
     grub_e820 = \<lparr>e820_map = [], estart = 0, esize = 0, etype = 0, merge = 0\<rparr>, mm_world = (0, [])\<rparr>"

definition mm_ready :: "(nat \<times> (int \<times> int) list) mm_state" where
  "mm_ready = the (grub_efi_mm_init 3 bump_services mm_start)"

lemma mm_ready_init: "grub_efi_mm_init 3 bump_services mm_start = Some mm_ready"
proof -
  have "\<not> Option.is_none (grub_efi_mm_init 3 bump_services mm_start)" by code_simp
  then show ?thesis by (auto simp: mm_ready_def Option.is_none_def)
qed

lemma mm_ready_facts: "allocated_pages mm_ready \<noteq> 0" "free_slot mm_ready" "mmap_size mm_ready = 80"
  "length (e820_map (grub_e820 mm_ready)) = 2"
proof -
  show "allocated_pages mm_ready \<noteq> 0" "mmap_size mm_ready = 80" "length (e820_map (grub_e820 mm_ready)) = 2" by code_simp+
  have "fst (page_table mm_ready ! 5) = 0" by code_simp
  then show "free_slot mm_ready" by (auto simp: free_slot_def MAX_ALLOCATED_PAGES_def intro!: exI [of _ 5])
qed

text \<open>A block for the runtime is given out at \<open>mm_ready\<close>, then seven pages are allocated: at the end the first is left.\<close>

definition mm_runtime :: "(nat \<times> (int \<times> int) list) mm_state" where
  "mm_runtime = snd (grub_efi_allocate_runtime_pages bump_services 0xC0000 16 mm_ready)"

lemma mm_runtime_facts: "free_slot mm_runtime"
  "set (snd (mm_world mm_runtime)) - set (snd (mm_world mm_ready)) = {(28672, 16)}"
proof -
  have "fst (page_table mm_runtime ! 5) = 0" by code_simp
  then show "free_slot mm_runtime" by (auto simp: free_slot_def MAX_ALLOCATED_PAGES_def intro!: exI [of _ 5])
  show "set (snd (mm_world mm_runtime)) - set (snd (mm_world mm_ready)) = {(28672, 16)}" by code_simp
qed

theorem mm_no_leak_witness:
  "let mm = snd (grub_efi_allocate_pages bump_services 0 7 mm_runtime)
   in set (snd (mm_world mm)) = owned mm \<union> {(28672, 16)} \<and> set (snd (mm_world (grub_efi_mm_fini bump_services mm))) = {(28672, 16)}"
proof -
  let ?live = "\<lambda>(n :: nat, bs :: (int \<times> int) list). set bs"
  have "mm_reach ?live bump_services mm_start mm_ready {}" by (rule reach_init [OF mm_ready_init mm_ready_facts(1)])
  from reach_runtime [OF this, of "0xC0000" 16] have "mm_reach ?live bump_services mm_start mm_runtime {(28672, 16)}"
    using mm_runtime_facts(2) by (simp add: mm_runtime_def gained_def case_prod_unfold prod_eq_iff)
  from reach_allocate [OF this, of 7 0] have "mm_reach ?live bump_services mm_start
      (snd (grub_efi_allocate_pages bump_services 0 7 mm_runtime)) {(28672, 16)}"
    using mm_runtime_facts(1) by (cases "grub_efi_allocate_pages bump_services 0 7 mm_runtime") simp
  from mm_no_leak [OF bump_services_ok _ _ _ this] show ?thesis
    by (simp add: mm_start_def case_prod_unfold Let_def)
qed

section \<open>The memory map is obtained\<close>

text \<open>The documented behaviour of the firmware: the call succeeds when the buffer has room for the map, and otherwise says
  that it is too small and reports the size of the map. The map itself may change with every call of the page services; it
  describes a finite memory, so there is a bound \<open>B\<close> on its size.\<close>

definition map_service_ok :: "'w mm_services \<Rightarrow> ('w \<Rightarrow> int) \<Rightarrow> int \<Rightarrow> bool" where
  "map_service_ok sv need B \<longleftrightarrow>
     (\<forall>n b w. \<exists>c d. sv_get_memory_map sv n b w =
        (if n < need w then MM_BUFFER_TOO_SMALL else MM_SUCCESS, need w, c, d, w)) \<and>
     (\<forall>w. 0 \<le> need w \<and> need w \<le> B) \<and> B < 2 ^ 30"

text \<open>One round of the loop: it ends, or the next buffer is larger by a page than the one that was too small.\<close>

lemma get_memory_map_round:
  assumes "map_service_ok sv need B"
  shows "(\<exists>ds mm'. grub_efi_get_memory_map (Suc fuel) sv mm = Some (1, ds, mm') \<and>
        mmap_size mm' = need (mm_world mm') \<and> need (mm_world mm') \<le> u32 (mmap_pages mm' * 2 ^ 12)) \<or>
    (\<exists>ds mm'. grub_efi_get_memory_map (Suc fuel) sv mm = Some (- 1, ds, mm') \<and> mmap_buf mm' = 0 \<and> mmap_pages mm' = 0) \<or>
    (\<exists>mm'. grub_efi_get_memory_map (Suc fuel) sv mm = grub_efi_get_memory_map fuel sv mm' \<and>
        u32 (mmap_pages mm * 2 ^ 12) + 4096 \<le> u32 (mmap_pages mm' * 2 ^ 12) \<and> u32 (mmap_pages mm * 2 ^ 12) < B)"
proof -
  define w n where "w = mm_world mm" and "n = u32 (mmap_pages mm * 2 ^ 12)"
  obtain c d where g: "sv_get_memory_map sv n (mmap_buf mm) w =
      (if n < need w then MM_BUFFER_TOO_SMALL else MM_SUCCESS, need w, c, d, w)"
    using assms unfolding map_service_ok_def by blast
  define mm1 where "mm1 = mm\<lparr>mm_world := w, mmap_mem := c\<rparr>"
  show ?thesis
  proof (cases "n < need w")
    case False
    then have "grub_efi_get_memory_map (Suc fuel) sv mm = Some (1, d, mm1\<lparr>mmap_size := need w\<rparr>)"
      using g by (simp add: w_def n_def mm1_def)
    then show ?thesis using False by (simp add: mm1_def w_def n_def)
  next
    case True
    define mm2 where "mm2 = (if mmap_buf mm1 \<noteq> 0 then grub_efi_free_pages sv (mmap_buf mm1) (mmap_pages mm1) mm1 else mm1)"
    define pages where "pages = u32 (u32 (need w + 4095) div 2 ^ 12 + 1)"
    obtain buf mm3 where al: "grub_efi_allocate_pages sv 0 pages mm2 = (buf, mm3)" by (rule prod.exhaust)
    define mm4 where "mm4 = mm3\<lparr>mmap_pages := pages, mmap_buf := buf\<rparr>"
    have e: "grub_efi_get_memory_map (Suc fuel) sv mm =
        (if buf = 0 then Some (- 1, d, mm4\<lparr>mmap_pages := 0\<rparr>) else grub_efi_get_memory_map fuel sv mm4)"
      using True g al unfolding pages_def mm2_def mm4_def mm1_def w_def n_def by (simp add: Let_def)
    have nw: "0 \<le> need w" "need w \<le> B" "B < 2 ^ 30" using assms unfolding map_service_ok_def by blast+
    have "u32 (need w + 4095) = need w + 4095" using nw by (intro u32_id) auto
    then have p: "pages = (need w + 4095) div 4096 + 1" using nw by (simp add: pages_def u32_id)
    then have big: "pages * 4096 \<ge> need w + 4096" "0 \<le> pages" "pages * 4096 < 2 ^ 32" using nw by auto
    then have "u32 (mmap_pages mm4 * 2 ^ 12) = pages * 4096" by (simp add: mm4_def u32_id)
    then have "n + 4096 \<le> u32 (mmap_pages mm4 * 2 ^ 12)" "n < B" using big True nw by linarith+
    then show ?thesis using e by (cases "buf = 0") (auto simp: mm4_def n_def)
  qed
qed

text \<open>
  C28: \<^verbatim>\<open>grub_efi_get_memory_map\<close> returns. The pages it allocates for its buffer can make the map larger, so that the next call
  may find the buffer too small again; but every round makes the buffer larger by a page at least. If no map of the firmware is
  larger than \<open>B\<close> bytes, the endless loop ends within one round more than there are pages in \<open>B\<close>, from every state: it returns 1
  with the map in a buffer that is large enough, or -1 with no buffer because the firmware had no pages left.
\<close>

theorem get_memory_map_returns:
  assumes "map_service_ok sv need B" "nat (B div 4096) + 2 \<le> fuel"
  shows "\<exists>r ds mm'. grub_efi_get_memory_map fuel sv mm = Some (r, ds, mm') \<and>
    (r = 1 \<and> mmap_size mm' = need (mm_world mm') \<and> need (mm_world mm') \<le> u32 (mmap_pages mm' * 2 ^ 12) \<or>
     r = - 1 \<and> mmap_buf mm' = 0 \<and> mmap_pages mm' = 0)"
proof -
  have rounds: "\<exists>r ds mm'. grub_efi_get_memory_map (Suc k) sv mm = Some (r, ds, mm') \<and>
      (r = 1 \<and> mmap_size mm' = need (mm_world mm') \<and> need (mm_world mm') \<le> u32 (mmap_pages mm' * 2 ^ 12) \<or>
       r = - 1 \<and> mmap_buf mm' = 0 \<and> mmap_pages mm' = 0)"
    if "B \<le> u32 (mmap_pages mm * 2 ^ 12) + 4096 * int k" for k mm
    using that
  proof (induction k arbitrary: mm)
    case 0
    then show ?case using get_memory_map_round [OF assms(1), of 0 mm] by (elim disjE exE conjE) auto
  next
    case (Suc k)
    from get_memory_map_round [OF assms(1), of "Suc k" mm] show ?case
    proof (elim disjE exE conjE)
      fix mm' assume m: "grub_efi_get_memory_map (Suc (Suc k)) sv mm = grub_efi_get_memory_map (Suc k) sv mm'"
        "u32 (mmap_pages mm * 2 ^ 12) + 4096 \<le> u32 (mmap_pages mm' * 2 ^ 12)"
      have "B \<le> u32 (mmap_pages mm' * 2 ^ 12) + 4096 * int k" using Suc.prems m(2) by simp
      from Suc.IH [OF this] show ?thesis unfolding m(1) .
    qed auto
  qed
  obtain k where k: "fuel = Suc k" "nat (B div 4096) + 1 \<le> k" using assms(2) by (cases fuel) auto
  have "B div 4096 + 1 \<le> int k" using k(2) by linarith
  then have "B \<le> 4096 * int k" by linarith
  then have "B \<le> u32 (mmap_pages mm * 2 ^ 12) + 4096 * int k" using u32_range [of "mmap_pages mm * 2 ^ 12"] by linarith
  from rounds [OF this] show ?thesis unfolding k(1) .
qed

lemma bump_map_service_ok: "map_service_ok bump_services (\<lambda>w. 80) 80"
  by (auto simp: map_service_ok_def bump_services_def)

theorem get_memory_map_returns_witness:
  "\<exists>r ds mm'. grub_efi_get_memory_map 2 bump_services mm_start = Some (r, ds, mm') \<and>
    (r = 1 \<and> mmap_size mm' = 80 \<and> 80 \<le> u32 (mmap_pages mm' * 2 ^ 12) \<or>
     r = - 1 \<and> mmap_buf mm' = 0 \<and> mmap_pages mm' = 0)"
  using get_memory_map_returns [OF bump_map_service_ok, of 2 mm_start] by simp

end
