(* ===== verification/Efi_Dp.thy ===== *)
theory Efi_Dp
  imports Char_Io
begin

text \<open>
  Device paths, \<^verbatim>\<open>efi/efidp.c\<close>. A device path is a sequence of nodes in memory, each
  with a four byte header (type, subtype, 16-bit length of the whole node), closed by an
  end-of-entire-path node. A pointer to a node is the byte list from there to the end of
  the object. \<open>None\<close> stands for a walk that never returns (a node of length zero) or
  reads outside the object; a null pointer is an explicit option value.

  The order \<^verbatim>\<open>compare_device_paths\<close> puts on paths is what numbers the drives
  (\<^verbatim>\<open>efidisk.c:add_device\<close>); the lemmas at the end show that on well-formed paths
  the walk always returns and that it is the lexicographic order of a key, hence a strict
  total order.
\<close>

section \<open>Definitions\<close>

definition dp_type :: "byte list \<Rightarrow> int" where
  "dp_type p = uint (p ! 0 AND 0x7F)"

definition dp_subtype :: "byte list \<Rightarrow> int" where
  "dp_subtype p = uint (p ! 1)"

definition dp_length :: "byte list \<Rightarrow> nat" where
  "dp_length p = unat (p ! 2) + 256 * unat (p ! 3)"

definition end_entire :: "byte list \<Rightarrow> bool" where
  "end_entire p \<longleftrightarrow> dp_type p = 0x7F \<and> dp_subtype p = 0xFF"

definition next_device_path :: "byte list \<Rightarrow> byte list" where
  "next_device_path p = drop (dp_length p) p"

lemma next_device_path_less [termination_simp]:
  "4 \<le> length p \<Longrightarrow> 0 < dp_length p \<Longrightarrow> length (next_device_path p) < length p"
  by (simp add: next_device_path_def)

fun dp_total_size :: "byte list \<Rightarrow> nat option" where
  "dp_total_size p =
     (if length p < 4 then None
      else if end_entire p then Some (dp_length p)
      else if dp_length p = 0 then None
      else map_option ((+) (dp_length p)) (dp_total_size (next_device_path p)))"

text \<open>\<^verbatim>\<open>duplicate_device_path\<close>; the first argument is whether \<^verbatim>\<open>grub_malloc\<close>
  gives the memory.\<close>

definition duplicate_device_path :: "bool \<Rightarrow> byte list \<Rightarrow> byte list option option" where
  "duplicate_device_path malloc_ok dp =
     (case dp_total_size dp of
        None \<Rightarrow> None
      | Some total_size \<Rightarrow>
          if \<not> malloc_ok then Some None
          else if length dp < total_size then None
          else Some (Some (take total_size dp)))"

fun find_last_from :: "byte list \<Rightarrow> byte list option" where
  "find_last_from p =
     (if length p < 4 \<or> dp_length p = 0 \<or> length (next_device_path p) < 4 then None
      else if end_entire (next_device_path p) then Some p
      else find_last_from (next_device_path p))"

definition find_last_device_path :: "byte list \<Rightarrow> byte list option option" where
  "find_last_device_path dp =
     (if length dp < 4 then None
      else if end_entire dp then Some None
      else map_option Some (find_last_from dp))"

text \<open>\<^verbatim>\<open>find_parent_device_path\<close> overwrites the type and subtype of the last node
  of the copy, leaving its length field as it was.\<close>

definition find_parent_device_path :: "bool \<Rightarrow> byte list \<Rightarrow> byte list option" where
  "find_parent_device_path malloc_ok dp =
     (case duplicate_device_path malloc_ok dp of
        Some (Some dup) \<Rightarrow>
          (case find_last_device_path dup of
             Some (Some final) \<Rightarrow>
               (let i = length dup - length final in Some (dup[i := 0x7F, Suc i := 0xFF]))
           | _ \<Rightarrow> None)
      | _ \<Rightarrow> None)"

fun compare_nodes :: "byte list \<Rightarrow> byte list \<Rightarrow> int option" where
  "compare_nodes dp1 dp2 =
     (if length dp1 < 4 \<or> length dp2 < 4 then None
      else if dp_type dp1 \<noteq> dp_type dp2 then Some (dp_type dp2 - dp_type dp1)
      else if dp_subtype dp1 \<noteq> dp_subtype dp2 then Some (dp_subtype dp1 - dp_subtype dp2)
      else if dp_length dp1 \<noteq> dp_length dp2
        then Some (int (dp_length dp1) - int (dp_length dp2))
      else case grub_memcmp dp1 dp2 (dp_length dp1) of
          None \<Rightarrow> None
        | Some ret \<Rightarrow>
            if ret \<noteq> 0 then Some ret
            else if end_entire dp1 then Some 0
            else if dp_length dp1 = 0 then None
            else compare_nodes (next_device_path dp1) (next_device_path dp2))"

definition compare_device_paths :: "byte list option \<Rightarrow> byte list option \<Rightarrow> int option" where
  "compare_device_paths dp1 dp2 =
     (case (dp1, dp2) of
        (Some p1, Some p2) \<Rightarrow> compare_nodes p1 p2
      | _ \<Rightarrow> Some 1)"

declare dp_total_size.simps [simp del] find_last_from.simps [simp del]
  compare_nodes.simps [simp del]

section \<open>Well-formed paths\<close>

text \<open>The documented shape: nodes of at least four bytes inside the object, closed by an end
  node that is the last thing in it.\<close>

fun dp_wf :: "byte list \<Rightarrow> bool" where
  "dp_wf p =
     (if length p < 4 \<or> dp_length p < 4 \<or> length p < dp_length p then False
      else if end_entire p then dp_length p = length p
      else dp_wf (next_device_path p))"

declare dp_wf.simps [simp del]

lemma dp_wf_iff:
  "dp_wf p \<longleftrightarrow> 4 \<le> length p \<and> 4 \<le> dp_length p \<and> dp_length p \<le> length p \<and>
     (if end_entire p then dp_length p = length p else dp_wf (next_device_path p))"
  by (subst dp_wf.simps) auto

lemma dp_total_size_wf: "dp_wf p \<Longrightarrow> dp_total_size p = Some (length p)"
proof (induction p rule: dp_wf.induct)
  case (1 p)
  note w = 1(2) [unfolded dp_wf_iff [of p]]
  show ?case
  proof (cases "end_entire p")
    case True
    with w show ?thesis by (simp add: dp_total_size.simps [of p])
  next
    case False
    with w 1 have "dp_total_size (next_device_path p) = Some (length (next_device_path p))"
      by simp
    with w False show ?thesis
      by (simp add: dp_total_size.simps [of p] next_device_path_def)
  qed
qed

lemma find_last_from_wf:
  "dp_wf p \<Longrightarrow> \<not> end_entire p \<Longrightarrow>
     \<exists>q. find_last_from p = Some q \<and> suffix q p \<and> dp_wf q \<and> \<not> end_entire q \<and>
         end_entire (next_device_path q)"
proof (induction p rule: dp_wf.induct)
  case (1 p)
  let ?n = "next_device_path p"
  note w = 1(2) [unfolded dp_wf_iff [of p]]
  from w 1(3) have n: "dp_wf ?n" "4 \<le> length ?n" by (auto simp: dp_wf_iff [of ?n])
  have suf: "suffix ?n p" by (simp add: next_device_path_def suffix_drop)
  show ?case
  proof (cases "end_entire ?n")
    case True
    with w n 1 show ?thesis by (auto simp: find_last_from.simps [of p])
  next
    case False
    with 1 w n obtain q where "find_last_from ?n = Some q" "suffix q ?n" "dp_wf q"
      "\<not> end_entire q" "end_entire (next_device_path q)" by auto
    with w n False suf show ?thesis
      by (auto simp: find_last_from.simps [of p] intro: suffix_order.trans)
  qed
qed

lemma find_last_device_path_wf:
  "dp_wf p \<Longrightarrow> \<not> end_entire p \<Longrightarrow>
     \<exists>q. find_last_device_path p = Some (Some q) \<and> suffix q p \<and> dp_wf q \<and> \<not> end_entire q"
  using find_last_from_wf [of p]
  by (auto simp: find_last_device_path_def dp_wf_iff [of p])

section \<open>The order on paths\<close>

fun dp_key :: "byte list \<Rightarrow> int list" where
  "dp_key p =
     (if length p < 4 \<or> dp_length p < 4 then []
      else [- dp_type p, dp_subtype p, int (dp_length p)] @ map sint (take (dp_length p) p) @
        (if end_entire p then [] else dp_key (next_device_path p)))"

declare dp_key.simps [simp del]

lemma grub_memcmp_lex:
  "n \<le> length a \<Longrightarrow> n \<le> length b \<Longrightarrow>
     \<exists>r. grub_memcmp a b n = Some r \<and> (r = 0 \<longleftrightarrow> take n a = take n b) \<and>
       (ord_class.lexordp (map sint (take n a) @ xs) (map sint (take n b) @ ys)
          \<longleftrightarrow> r < 0 \<or> r = 0 \<and> ord_class.lexordp xs ys) \<and>
       (ord_class.lexordp (map sint (take n b) @ ys) (map sint (take n a) @ xs)
          \<longleftrightarrow> r > 0 \<or> r = 0 \<and> ord_class.lexordp ys xs)"
proof (induction a b n rule: grub_memcmp.induct)
  case (2 a s1 b s2 n)
  show ?case
  proof (cases "a = b")
    case True
    with 2 show ?thesis by auto
  next
    case False
    then have "sint a \<noteq> sint b" by (simp add: schar_inject)
    then consider "sint a < sint b" | "sint b < sint a" by linarith
    then show ?thesis using False by cases simp_all
  qed
qed auto

lemma dp_parts_eq:
  "dp_length p = dp_length q \<Longrightarrow> take (dp_length p) p = take (dp_length q) q \<Longrightarrow>
     (p = q \<longleftrightarrow> next_device_path p = next_device_path q)"
  by (metis append_take_drop_id next_device_path_def)

lemma compare_nodes_order:
  assumes "dp_wf p" "dp_wf q"
  shows "\<exists>r. compare_nodes p q = Some r \<and> (r = 0 \<longleftrightarrow> p = q) \<and>
           (r < 0 \<longleftrightarrow> ord_class.lexordp (dp_key p) (dp_key q)) \<and>
           (r > 0 \<longleftrightarrow> ord_class.lexordp (dp_key q) (dp_key p))"
  using assms
proof (induction p q rule: compare_nodes.induct)
  case (1 p q)
  note wp = 1(2) [unfolded dp_wf_iff [of p]] and wq = 1(3) [unfolded dp_wf_iff [of q]]
  note keys = dp_key.simps [of p] dp_key.simps [of q] compare_nodes.simps [of p q]
  from wp wq have b: "4 \<le> length p" "4 \<le> dp_length p" "dp_length p \<le> length p"
    "4 \<le> length q" "4 \<le> dp_length q" "dp_length q \<le> length q" by auto
  show ?case
  proof (cases "dp_type p = dp_type q \<and> dp_subtype p = dp_subtype q \<and> dp_length p = dp_length q")
    case False
    with b show ?thesis by (auto simp: keys)
  next
    case True
    then have e: "end_entire p = end_entire q" by (simp add: end_entire_def)
    let ?xs = "if end_entire p then [] else dp_key (next_device_path p)"
    let ?ys = "if end_entire q then [] else dp_key (next_device_path q)"
    from grub_memcmp_lex [of "dp_length p" p q ?xs ?ys] b True
    obtain r where r: "grub_memcmp p q (dp_length p) = Some r"
      "r = 0 \<longleftrightarrow> take (dp_length p) p = take (dp_length q) q"
      "ord_class.lexordp (map sint (take (dp_length p) p) @ ?xs)
         (map sint (take (dp_length q) q) @ ?ys) \<longleftrightarrow> r < 0 \<or> r = 0 \<and> ord_class.lexordp ?xs ?ys"
      "ord_class.lexordp (map sint (take (dp_length q) q) @ ?ys)
         (map sint (take (dp_length p) p) @ ?xs) \<longleftrightarrow> r > 0 \<or> r = 0 \<and> ord_class.lexordp ?ys ?xs"
      by auto
    have key: "ord_class.lexordp (dp_key p) (dp_key q) \<longleftrightarrow> r < 0 \<or> r = 0 \<and> ord_class.lexordp ?xs ?ys"
      "ord_class.lexordp (dp_key q) (dp_key p) \<longleftrightarrow> r > 0 \<or> r = 0 \<and> ord_class.lexordp ?ys ?xs"
      using True b r(3,4) by (simp_all only: dp_key.simps [of p] dp_key.simps [of q]) simp_all
    show ?thesis
    proof (cases "r = 0 \<and> \<not> end_entire p")
      case False
      have "compare_nodes p q = Some r"
        using False True b r(1) by (simp add: compare_nodes.simps [of p q])
      moreover have "r = 0 \<longleftrightarrow> p = q"
      proof
        assume "r = 0"
        with False e wp wq have "dp_length p = length p" "dp_length q = length q" by auto
        with \<open>r = 0\<close> r(2) show "p = q" by simp
      next
        assume "p = q"
        with r(2) show "r = 0" by simp
      qed
      moreover have "\<not> (r = 0 \<and> ord_class.lexordp ?xs ?ys)" "\<not> (r = 0 \<and> ord_class.lexordp ?ys ?xs)"
        using False e by auto
      ultimately show ?thesis using key by blast
    next
      case cont: True
      with wp wq e have "dp_wf (next_device_path p)" "dp_wf (next_device_path q)"
        by (auto split: if_splits)
      with 1(1) True b r(1) cont obtain r' where r':
        "compare_nodes (next_device_path p) (next_device_path q) = Some r'"
        "r' = 0 \<longleftrightarrow> next_device_path p = next_device_path q"
        "r' < 0 \<longleftrightarrow> ord_class.lexordp (dp_key (next_device_path p)) (dp_key (next_device_path q))"
        "r' > 0 \<longleftrightarrow> ord_class.lexordp (dp_key (next_device_path q)) (dp_key (next_device_path p))"
        by auto
      from True cont r(2) have "p = q \<longleftrightarrow> next_device_path p = next_device_path q"
        by (intro dp_parts_eq) auto
      moreover have "compare_nodes p q = Some r'"
        using True b r(1) r'(1) cont by (simp add: compare_nodes.simps [of p q])
      ultimately show ?thesis using r' key cont e by simp
    qed
  qed
qed

end
