(* ===== verification/Efi_Disk.thy ===== *)
theory Efi_Disk
  imports Efi_Dp
begin

text \<open>
  Disks of the EFI build, \<^verbatim>\<open>efi/efidisk.c\<close>: the three ordered device lists that give
  the drive numbers (\<^verbatim>\<open>fd\<close>, \<^verbatim>\<open>hd\<close>, \<^verbatim>\<open>cd\<close>), the lookup of a device by
  drive number, the geometry the rest of GRUB sees and \<^verbatim>\<open>biosdisk\<close>, the one entry
  point through which sectors are read and written.

  The firmware is a parameter: a record of the protocol functions the code calls, over an
  abstract state \<open>'w\<close> of the machine's media. A read returns the status and the bytes the
  firmware stored at the start of the caller's buffer; a write returns the status and the
  new state. Interface pointers (\<^verbatim>\<open>disk_io\<close>) and handles are numbers.
\<close>

section \<open>State\<close>

text \<open>The fields of \<^verbatim>\<open>grub_efi_block_io_media\<close> that the code reads.\<close>

record media =
  media_id :: int
  read_only :: bool
  block_size :: int
  last_block :: int

record efidisk_data =
  handle :: nat
  device_path :: "byte list"
  last_device_path :: "byte list"
  media :: media
  disk_io :: nat

datatype efi_status = EFI_SUCCESS | EFI_BUFFER_TOO_SMALL | EFI_OTHER_ERROR

record 'w firmware =
  fw_read :: "'w \<Rightarrow> nat \<Rightarrow> int \<Rightarrow> int \<Rightarrow> int \<Rightarrow> efi_status \<times> byte list"
  fw_write :: "'w \<Rightarrow> nat \<Rightarrow> int \<Rightarrow> int \<Rightarrow> int \<Rightarrow> byte list \<Rightarrow> efi_status \<times> 'w"
  fw_locate_handle :: "'w \<Rightarrow> nat \<Rightarrow> efi_status \<times> nat \<times> nat list"
  fw_device_path :: "'w \<Rightarrow> nat \<Rightarrow> byte list option"
  fw_block_io :: "'w \<Rightarrow> nat \<Rightarrow> media option"
  fw_disk_io :: "'w \<Rightarrow> nat \<Rightarrow> nat option"

text \<open>The variables of efidisk.c, with \<^verbatim>\<open>cdrom_drive\<close> of common.c and the media.\<close>

record 'w efi_state =
  world :: 'w
  fd_devices :: "efidisk_data list"
  hd_devices :: "efidisk_data list"
  cd_devices :: "efidisk_data list"
  cdrom_drive :: int

record geometry =
  cylinders :: int
  heads :: int
  sectors :: int
  total_sectors :: int
  sector_size :: int
  flags :: int

definition GRUB_INVALID_DRIVE :: int where
  "GRUB_INVALID_DRIVE = 0xFF"

section \<open>Finding the devices\<close>

text \<open>\<^verbatim>\<open>grub_efi_locate_handle\<close> (eficore.c) for the disk I/O protocol: a first buffer of
  eight handles, and a second one of the size the firmware asks for. The arguments
  \<open>ok1\<close>, \<open>ok2\<close> are whether the two allocations succeed; a handle has 4 bytes.\<close>

definition grub_efi_locate_handle ::
    "'w firmware \<Rightarrow> bool \<Rightarrow> bool \<Rightarrow> 'w \<Rightarrow> nat list option" where
  "grub_efi_locate_handle fw ok1 ok2 w =
     (if \<not> ok1 then None
      else let (status, buffer_size, buffer) = fw_locate_handle fw w (8 * 4) in
        if status = EFI_BUFFER_TOO_SMALL
        then if \<not> ok2 then None
             else let (status2, size2, buffer2) = fw_locate_handle fw w buffer_size in
               if status2 \<noteq> EFI_SUCCESS then None else Some (take (size2 div 4) buffer2)
        else if status \<noteq> EFI_SUCCESS then None
        else Some (take (buffer_size div 4) buffer))"

text \<open>One handle of \<^verbatim>\<open>make_devices\<close>: \<open>Some None\<close> is the \<^verbatim>\<open>continue\<close>.\<close>

definition make_device :: "'w firmware \<Rightarrow> 'w \<Rightarrow> nat \<Rightarrow> efidisk_data option option" where
  "make_device fw w h =
     (case fw_device_path fw w h of
        None \<Rightarrow> Some None
      | Some dp \<Rightarrow>
          (case find_last_device_path dp of
             None \<Rightarrow> None
           | Some None \<Rightarrow> Some None
           | Some (Some ldp) \<Rightarrow>
               (case (fw_block_io fw w h, fw_disk_io fw w h) of
                  (Some bio, Some dio) \<Rightarrow>
                    Some (Some \<lparr>handle = h, device_path = dp, last_device_path = ldp,
                                media = bio, disk_io = dio\<rparr>)
                | _ \<Rightarrow> Some None)))"

text \<open>\<^verbatim>\<open>make_devices\<close> pushes each device on the front of the list; a failed allocation
  gives up with the null list.\<close>

fun make_devices_loop ::
    "'w firmware \<Rightarrow> (nat \<Rightarrow> bool) \<Rightarrow> 'w \<Rightarrow> nat list \<Rightarrow> efidisk_data list \<Rightarrow> efidisk_data list option"
where
  "make_devices_loop fw alloc w [] devices = Some devices"
| "make_devices_loop fw alloc w (h # hs) devices =
     (case make_device fw w h of
        None \<Rightarrow> None
      | Some None \<Rightarrow> make_devices_loop fw alloc w hs devices
      | Some (Some d) \<Rightarrow>
          if \<not> alloc h then Some [] else make_devices_loop fw alloc w hs (d # devices))"

definition make_devices ::
    "'w firmware \<Rightarrow> bool \<Rightarrow> bool \<Rightarrow> (nat \<Rightarrow> bool) \<Rightarrow> 'w \<Rightarrow> efidisk_data list option" where
  "make_devices fw ok1 ok2 alloc w =
     (case grub_efi_locate_handle fw ok1 ok2 w of
        None \<Rightarrow> Some []
      | Some handles \<Rightarrow> make_devices_loop fw alloc w handles [])"

text \<open>The comparison in the loop of \<^verbatim>\<open>add_device\<close>: last node first, then the whole path.\<close>

definition compare_devices :: "efidisk_data \<Rightarrow> efidisk_data \<Rightarrow> int option" where
  "compare_devices p d =
     (case (find_last_device_path (device_path p), find_last_device_path (device_path d)) of
        (Some l1, Some l2) \<Rightarrow>
          (case compare_device_paths l1 l2 of
             None \<Rightarrow> None
           | Some ret \<Rightarrow>
               if ret = 0
               then compare_device_paths (Some (device_path p)) (Some (device_path d))
               else Some ret)
      | _ \<Rightarrow> None)"

fun add_device :: "bool \<Rightarrow> efidisk_data list \<Rightarrow> efidisk_data \<Rightarrow> efidisk_data list option" where
  "add_device malloc_ok [] d = Some (if malloc_ok then [d] else [])"
| "add_device malloc_ok (p # ps) d =
     (case compare_devices p d of
        None \<Rightarrow> None
      | Some ret \<Rightarrow>
          if ret = 0 then Some (p # ps)
          else if ret > 0 then Some (if malloc_ok then d # p # ps else p # ps)
          else map_option ((#) p) (add_device malloc_ok ps d))"

text \<open>\<^verbatim>\<open>name_devices\<close>: hardware and messaging paths are hard disks (or a CD when read-only
  with large blocks), ACPI paths are floppies; other devices get no name.\<close>

definition name_device ::
    "(efidisk_data \<Rightarrow> bool) \<Rightarrow> efidisk_data \<Rightarrow> 'w efi_state \<Rightarrow> 'w efi_state option" where
  "name_device alloc d st =
     (let ty = dp_type (last_device_path d); m = media d in
      if ty = 1
      then map_option (\<lambda>l. st\<lparr>hd_devices := l\<rparr>) (add_device (alloc d) (hd_devices st) d)
      else if ty = 3
      then if read_only m \<and> block_size m > 0x200
           then map_option (\<lambda>l. st\<lparr>cd_devices := l\<rparr>) (add_device (alloc d) (cd_devices st) d)
           else map_option (\<lambda>l. st\<lparr>hd_devices := l\<rparr>) (add_device (alloc d) (hd_devices st) d)
      else if ty = 2
      then map_option (\<lambda>l. st\<lparr>fd_devices := l\<rparr>) (add_device (alloc d) (fd_devices st) d)
      else Some st)"

fun name_devices ::
    "(efidisk_data \<Rightarrow> bool) \<Rightarrow> efidisk_data list \<Rightarrow> 'w efi_state \<Rightarrow> 'w efi_state option" where
  "name_devices alloc [] st = Some st"
| "name_devices alloc (d # ds) st =
     (case name_device alloc d st of
        None \<Rightarrow> None
      | Some st' \<Rightarrow> name_devices alloc ds st')"

definition enumerate_disks ::
    "'w firmware \<Rightarrow> bool \<Rightarrow> bool \<Rightarrow> (nat \<Rightarrow> bool) \<Rightarrow> (efidisk_data \<Rightarrow> bool) \<Rightarrow> 'w efi_state
       \<Rightarrow> 'w efi_state option" where
  "enumerate_disks fw ok1 ok2 halloc dalloc st =
     (case make_devices fw ok1 ok2 halloc (world st) of
        None \<Rightarrow> None
      | Some devices \<Rightarrow> name_devices dalloc devices st)"

section \<open>Lookup and geometry\<close>

fun get_device :: "efidisk_data list \<Rightarrow> int \<Rightarrow> efidisk_data option" where
  "get_device [] num = None"
| "get_device (d # ds) num = (if num = 0 then Some d else get_device ds (num - 1))"

definition get_device_from_drive :: "'w efi_state \<Rightarrow> int \<Rightarrow> efidisk_data option" where
  "get_device_from_drive st drive =
     (if drive = GRUB_INVALID_DRIVE then None
      else if drive = cdrom_drive st then get_device (cd_devices st) 0
      else if drive AND 0x80 \<noteq> 0 then get_device (hd_devices st) (drive - 0x80)
      else get_device (fd_devices st) drive)"

text \<open>\<^verbatim>\<open>get_sector_size\<close> dereferences the device without a test: \<open>None\<close> for a drive
  that does not exist. \<^verbatim>\<open>get_sector_bits\<close> takes the \<^verbatim>\<open>log2\<close> macro, a
  \<^verbatim>\<open>bsfl\<close>.\<close>

definition get_sector_size :: "'w efi_state \<Rightarrow> int \<Rightarrow> int option" where
  "get_sector_size st drive =
     map_option (\<lambda>d. block_size (media d)) (get_device_from_drive st drive)"

definition get_sector_bits :: "'w efi_state \<Rightarrow> int \<Rightarrow> nat option" where
  "get_sector_bits st drive = Option.bind (get_sector_size st drive) bsf"

definition get_diskinfo :: "'w efi_state \<Rightarrow> int \<Rightarrow> geometry option" where
  "get_diskinfo st drive =
     (case get_device_from_drive st drive of
        None \<Rightarrow> None
      | Some d \<Rightarrow>
          (let total = u32 (last_block (media d) + 1);
               hs = (if total div 63 < 255 then 1 else 255) in
           Some \<lparr>cylinders = total div 63 div hs, heads = hs, sectors = 63,
                 total_sectors = total, sector_size = block_size (media d), flags = 1\<rparr>))"

section \<open>Sector I/O\<close>

definition grub_efidisk_read ::
    "'w firmware \<Rightarrow> 'w \<Rightarrow> efidisk_data \<Rightarrow> int \<Rightarrow> int \<Rightarrow> mem \<Rightarrow> int \<times> mem" where
  "grub_efidisk_read fw w d sector n buf =
     (let ss = block_size (media d);
          (status, bytes) = fw_read fw w (disk_io d) (media_id (media d))
                              (sector * ss mod 2 ^ 64) (u32 (n * ss)) in
      (if status \<noteq> EFI_SUCCESS then - 1 else 0, store_list buf 0 bytes))"

definition grub_efidisk_write ::
    "'w firmware \<Rightarrow> 'w \<Rightarrow> efidisk_data \<Rightarrow> int \<Rightarrow> int \<Rightarrow> mem \<Rightarrow> int \<times> 'w" where
  "grub_efidisk_write fw w d sector n buf =
     (let ss = block_size (media d);
          (status, w') = fw_write fw w (disk_io d) (media_id (media d))
                           (sector * ss mod 2 ^ 64) (u32 (n * ss))
                           (mem_slice buf 0 (nat (u32 (n * ss)))) in
      (if status \<noteq> EFI_SUCCESS then - 1 else 0, w'))"

datatype subfunc = BIOSDISK_READ | BIOSDISK_WRITE

text \<open>\<^verbatim>\<open>biosdisk\<close>. The result of the transfer (\<open>ret\<close>) is dropped, as in the code:
  the function returns 0 whenever the device exists.\<close>

definition biosdisk ::
    "'w firmware \<Rightarrow> subfunc \<Rightarrow> int \<Rightarrow> int \<Rightarrow> int \<Rightarrow> mem \<Rightarrow> 'w efi_state \<Rightarrow> int \<times> mem \<times> 'w efi_state"
where
  "biosdisk fw subf drive sector nsec buf st =
     (case get_device_from_drive st drive of
        None \<Rightarrow> (- 1, buf, st)
      | Some d \<Rightarrow>
          (case subf of
             BIOSDISK_READ \<Rightarrow>
               (let (ret, buf') = grub_efidisk_read fw (world st) d sector nsec buf
                in (0, buf', st))
           | BIOSDISK_WRITE \<Rightarrow>
               (let (ret, w') = grub_efidisk_write fw (world st) d sector nsec buf
                in (0, buf, st\<lparr>world := w'\<rparr>))))"

section \<open>The order of the devices\<close>

definition dev_wf :: "efidisk_data \<Rightarrow> bool" where
  "dev_wf d \<longleftrightarrow> dp_wf (device_path d) \<and> \<not> end_entire (device_path d) \<and>
     find_last_device_path (device_path d) = Some (Some (last_device_path d))"

definition dev_before :: "efidisk_data \<Rightarrow> efidisk_data \<Rightarrow> bool" where
  "dev_before p d \<longleftrightarrow>
     ord_class.lexordp (dp_key (last_device_path p)) (dp_key (last_device_path d)) \<or>
     last_device_path p = last_device_path d \<and>
     ord_class.lexordp (dp_key (device_path p)) (dp_key (device_path d))"

lemma dev_wf_last: "dev_wf d \<Longrightarrow> dp_wf (last_device_path d)"
  using find_last_device_path_wf [of "device_path d"] by (auto simp: dev_wf_def)

lemma dev_wf_same_last:
  "dev_wf p \<Longrightarrow> dev_wf d \<Longrightarrow> device_path p = device_path d \<Longrightarrow> last_device_path p = last_device_path d"
  by (simp add: dev_wf_def)

lemma compare_devices_order:
  assumes "dev_wf p" "dev_wf d"
  shows "\<exists>r. compare_devices p d = Some r \<and> (r = 0 \<longleftrightarrow> device_path p = device_path d) \<and>
           (r < 0 \<longleftrightarrow> dev_before p d) \<and> (r > 0 \<longleftrightarrow> dev_before d p)"
proof -
  obtain a where a: "compare_nodes (last_device_path p) (last_device_path d) = Some a"
    "a = 0 \<longleftrightarrow> last_device_path p = last_device_path d"
    "a < 0 \<longleftrightarrow> ord_class.lexordp (dp_key (last_device_path p)) (dp_key (last_device_path d))"
    "a > 0 \<longleftrightarrow> ord_class.lexordp (dp_key (last_device_path d)) (dp_key (last_device_path p))"
    using compare_nodes_order assms [THEN dev_wf_last] by blast
  obtain b where b: "compare_nodes (device_path p) (device_path d) = Some b"
    "b = 0 \<longleftrightarrow> device_path p = device_path d"
    "b < 0 \<longleftrightarrow> ord_class.lexordp (dp_key (device_path p)) (dp_key (device_path d))"
    "b > 0 \<longleftrightarrow> ord_class.lexordp (dp_key (device_path d)) (dp_key (device_path p))"
    using compare_nodes_order [of "device_path p" "device_path d"] assms
    by (auto simp: dev_wf_def)
  have c: "compare_devices p d = Some (if a = 0 then b else a)"
    using a(1) b(1) assms by (simp add: compare_devices_def compare_device_paths_def dev_wf_def)
  have "device_path p = device_path d \<Longrightarrow> a = 0"
    using a(2) dev_wf_same_last [OF assms] by simp
  then show ?thesis
    unfolding dev_before_def
    using a(2-4) b(2-4) c by (cases "a = 0") auto
qed

lemma dev_before_irrefl: "\<not> dev_before p p"
  by (simp add: dev_before_def lexordp_irreflexive')

lemma dev_before_trans:
  "dev_before p q \<Longrightarrow> dev_before q r \<Longrightarrow> dev_before p r"
  by (auto simp: dev_before_def intro: lexordp_trans)

lemma dev_before_total:
  "dev_wf p \<Longrightarrow> dev_wf q \<Longrightarrow> dev_before p q \<or> device_path p = device_path q \<or> dev_before q p"
  using compare_devices_order [of p q] by fastforce

lemma sorted_dev_unique:
  "sorted_wrt dev_before xs \<Longrightarrow> sorted_wrt dev_before ys \<Longrightarrow> set xs = set ys \<Longrightarrow> xs = ys"
proof (induction xs arbitrary: ys)
  case Nil
  then show ?case by simp
next
  case (Cons x xs)
  then obtain y ys' where ys: "ys = y # ys'" by (cases ys) auto
  have "x = y"
  proof (rule ccontr)
    assume "x \<noteq> y"
    with Cons.prems ys have "dev_before y x" "dev_before x y" by (auto simp: set_eq_iff)
    then show False using dev_before_trans dev_before_irrefl by blast
  qed
  moreover have "x \<notin> set xs" "y \<notin> set ys'"
    using Cons.prems ys dev_before_irrefl by auto
  then have "set xs = set ys'"
    using Cons.prems(3) \<open>x = y\<close> ys by (auto simp: set_eq_iff)
  ultimately show ?case using Cons ys by simp
qed

lemma add_device_spec:
  assumes "\<forall>p \<in> set ps. dev_wf p" "dev_wf d" "sorted_wrt dev_before ps"
  shows "\<exists>l. add_device ok ps d = Some l \<and> sorted_wrt dev_before l \<and>
    set l = (if \<not> ok \<or> device_path d \<in> device_path ` set ps then set ps else insert d (set ps))"
  using assms
proof (induction ps)
  case Nil
  then show ?case by simp
next
  case (Cons p ps)
  from compare_devices_order [of p d] Cons.prems obtain r where r:
    "compare_devices p d = Some r" "r = 0 \<longleftrightarrow> device_path p = device_path d"
    "r < 0 \<longleftrightarrow> dev_before p d" "r > 0 \<longleftrightarrow> dev_before d p" by auto
  consider "r = 0" | "r > 0" | "r < 0" by linarith
  then show ?case
  proof cases
    case 1
    with r Cons.prems show ?thesis by auto
  next
    case 2
    have ne: "device_path q \<noteq> device_path d" if "q \<in> set ps" for q
    proof
      assume "device_path q = device_path d"
      with that Cons.prems have "last_device_path q = last_device_path d"
        by (intro dev_wf_same_last) auto
      with \<open>device_path q = device_path d\<close> have "dev_before p d = dev_before p q"
        by (simp add: dev_before_def)
      with 2 r that Cons.prems show False
        using dev_before_trans dev_before_irrefl by (metis list.set_intros(2) sorted_wrt.simps(2))
    qed
    have "device_path d \<notin> device_path ` set (p # ps)" using ne 2 r(2) by (auto simp: image_iff) metis
    moreover have "\<forall>q \<in> set ps. dev_before d q"
      using 2 r(4) Cons.prems dev_before_trans by auto
    ultimately show ?thesis using 2 r Cons.prems by simp
  next
    case 3
    from Cons obtain l where l: "add_device ok ps d = Some l" "sorted_wrt dev_before l"
      "set l = (if \<not> ok \<or> device_path d \<in> device_path ` set ps then set ps else insert d (set ps))"
      by auto
    with 3 r Cons.prems have "\<forall>q \<in> set l. dev_before p q" by (auto split: if_splits)
    with 3 r l show ?thesis by (auto simp: image_iff)
  qed
qed

text \<open>Which list \<^verbatim>\<open>name_devices\<close> puts a device in.\<close>

datatype drive_kind = Fd | Hd | Cd | Unnamed

definition drive_kind :: "efidisk_data \<Rightarrow> drive_kind" where
  "drive_kind d =
     (let ty = dp_type (last_device_path d); m = media d in
      if ty = 1 then Hd
      else if ty = 3 then if read_only m \<and> block_size m > 0x200 then Cd else Hd
      else if ty = 2 then Fd else Unnamed)"

definition kind_list :: "drive_kind \<Rightarrow> 'w efi_state \<Rightarrow> efidisk_data list" where
  "kind_list k st =
     (case k of Fd \<Rightarrow> fd_devices st | Hd \<Rightarrow> hd_devices st | Cd \<Rightarrow> cd_devices st | Unnamed \<Rightarrow> [])"

definition lists_ok :: "'w efi_state \<Rightarrow> bool" where
  "lists_ok st \<longleftrightarrow> (\<forall>k. sorted_wrt dev_before (kind_list k st) \<and> (\<forall>d \<in> set (kind_list k st). dev_wf d))"

lemma name_device_spec:
  assumes ok: "lists_ok st" and wf: "dev_wf d"
    and new: "\<And>k. device_path d \<notin> device_path ` set (kind_list k st)"
  shows "\<exists>st'. name_device (\<lambda>_. True) d st = Some st' \<and> lists_ok st' \<and>
    world st' = world st \<and> cdrom_drive st' = cdrom_drive st \<and>
    (\<forall>k. set (kind_list k st') =
       (if k = drive_kind d \<and> k \<noteq> Unnamed then insert d (set (kind_list k st))
        else set (kind_list k st)))"
proof -
  have s: "sorted_wrt dev_before (kind_list k st)" "\<forall>p \<in> set (kind_list k st). dev_wf p" for k
    using ok by (simp_all add: lists_ok_def)
  have all: "(\<forall>k. P k) \<longleftrightarrow> P Fd \<and> P Hd \<and> P Cd \<and> P Unnamed" for P
    by (metis drive_kind.exhaust)
  have add: "\<exists>l. add_device True (kind_list k st) d = Some l \<and> sorted_wrt dev_before l \<and>
      set l = insert d (set (kind_list k st))" for k
    using add_device_spec [OF s(2) [of k] wf s(1) [of k], where ok = True] new [of k] by simp
  note adds = add [of Fd] add [of Hd] add [of Cd]
  note kinds = name_device_def drive_kind_def Let_def lists_ok_def all kind_list_def
  show ?thesis
    using adds s [of Fd] s [of Hd] s [of Cd] wf
    by (cases "drive_kind d") (auto simp: kinds split: if_splits)
qed

lemma name_devices_spec:
  assumes "lists_ok st" "\<forall>d \<in> set ds. dev_wf d" "distinct (map device_path ds)"
    "\<forall>k. \<forall>d \<in> set ds. device_path d \<notin> device_path ` set (kind_list k st)"
  shows "\<exists>st'. name_devices (\<lambda>_. True) ds st = Some st' \<and> lists_ok st' \<and>
    world st' = world st \<and> cdrom_drive st' = cdrom_drive st \<and>
    (\<forall>k. set (kind_list k st') =
       set (kind_list k st) \<union> {d \<in> set ds. k = drive_kind d \<and> k \<noteq> Unnamed})"
  using assms
proof (induction ds arbitrary: st)
  case Nil
  then show ?case by simp
next
  case (Cons d ds)
  from name_device_spec [of st d] Cons.prems obtain st1 where
    st1: "name_device (\<lambda>_. True) d st = Some st1" "lists_ok st1" "world st1 = world st"
      "cdrom_drive st1 = cdrom_drive st"
    and k: "\<And>k. set (kind_list k st1) =
       (if k = drive_kind d \<and> k \<noteq> Unnamed then insert d (set (kind_list k st))
        else set (kind_list k st))" by auto
  have "\<forall>k. \<forall>q \<in> set ds. device_path q \<notin> device_path ` set (kind_list k st1)"
    using Cons.prems(3,4) by (auto simp: k image_iff)
  with Cons.IH [OF st1(2)] Cons.prems obtain st' where
    "name_devices (\<lambda>_. True) ds st1 = Some st'" "lists_ok st'" "world st' = world st1"
    "cdrom_drive st' = cdrom_drive st1"
    "\<forall>k. set (kind_list k st') =
       set (kind_list k st1) \<union> {d \<in> set ds. k = drive_kind d \<and> k \<noteq> Unnamed}" by auto
  with st1 k show ?case by auto
qed

text \<open>
  C7: Drive numbers do not depend on the order in which the firmware enumerates the disks.
  When every device has a well-formed, distinct path, naming any two enumerations of the
  same devices gives the same three lists; each list is strictly ascending in the order of
  \<^verbatim>\<open>compare_device_paths\<close> and holds exactly the devices of its kind.
\<close>

theorem name_devices_order_independent:
  assumes "\<forall>d \<in> set ds. dev_wf d" "distinct (map device_path ds)" "distinct (map device_path ds')"
    "set ds' = set ds" "fd_devices st = []" "hd_devices st = []" "cd_devices st = []"
  shows "\<exists>st'. name_devices (\<lambda>_. True) ds st = Some st' \<and> name_devices (\<lambda>_. True) ds' st = Some st' \<and>
    (\<forall>k. sorted_wrt dev_before (kind_list k st') \<and>
         set (kind_list k st') = {d \<in> set ds. k = drive_kind d \<and> k \<noteq> Unnamed})"
proof -
  have empty: "kind_list k st = []" for k using assms(5-7) by (cases k) (simp_all add: kind_list_def)
  then have ok: "lists_ok st" by (simp add: lists_ok_def)
  from name_devices_spec [OF ok assms(1,2)] empty obtain a where
    a: "name_devices (\<lambda>_. True) ds st = Some a" "lists_ok a" "world a = world st"
      "cdrom_drive a = cdrom_drive st"
      "\<And>k. set (kind_list k a) = {d \<in> set ds. k = drive_kind d \<and> k \<noteq> Unnamed}" by auto
  from name_devices_spec [OF ok _ assms(3)] assms(1,4) empty obtain b where
    b: "name_devices (\<lambda>_. True) ds' st = Some b" "lists_ok b" "world b = world st"
      "cdrom_drive b = cdrom_drive st"
      "\<And>k. set (kind_list k b) = {d \<in> set ds. k = drive_kind d \<and> k \<noteq> Unnamed}" by auto
  have "kind_list k a = kind_list k b" for k
    using a(2,5) b(2,5) by (intro sorted_dev_unique) (auto simp: lists_ok_def)
  from this [of Fd] this [of Hd] this [of Cd] a(3,4) b(3,4) have "a = b"
    by (simp add: kind_list_def)
  with a b show ?thesis by (auto simp: lists_ok_def)
qed

definition sample_disk :: "nat \<Rightarrow> byte \<Rightarrow> byte \<Rightarrow> efidisk_data" where
  "sample_disk h ty n =
     (let dp = [2, 1, 6, 0, 3, 10, ty, 2, 8, 0, n, 0, 0, 0, 0x7F, 0xFF, 4, 0] in
      \<lparr>handle = h, device_path = dp, last_device_path = drop 6 dp,
       media = \<lparr>media_id = 1, read_only = False, block_size = 512, last_block = 2015\<rparr>,
       disk_io = h\<rparr>)"

definition sample_efi :: "'w \<Rightarrow> 'w efi_state" where
  "sample_efi w = \<lparr>world = w, fd_devices = [], hd_devices = [], cd_devices = [], cdrom_drive = 0x100\<rparr>"

lemma sample_disk_wf: "dev_wf (sample_disk 1 3 7)" "dev_wf (sample_disk 2 3 5)" "dev_wf (sample_disk 3 2 0)"
  by code_simp+

theorem name_devices_order_independent_witness:
  "\<exists>st'. name_devices (\<lambda>_. True) [sample_disk 1 3 7, sample_disk 2 3 5, sample_disk 3 2 0] (sample_efi ()) = Some st' \<and>
     name_devices (\<lambda>_. True) [sample_disk 3 2 0, sample_disk 2 3 5, sample_disk 1 3 7] (sample_efi ()) = Some st'"
  using name_devices_order_independent
    [of "[sample_disk 1 3 7, sample_disk 2 3 5, sample_disk 3 2 0]"
        "[sample_disk 3 2 0, sample_disk 2 3 5, sample_disk 1 3 7]" "sample_efi ()"] sample_disk_wf
  by (auto simp: sample_efi_def sample_disk_def)

section \<open>Lookup and transfer\<close>

lemma get_device_nth: "n < length ds \<Longrightarrow> get_device ds (int n) = Some (ds ! n)"
  by (induction ds arbitrary: n) (auto simp: nth_Cons split: nat.splits)

lemma get_device_None: "length ds \<le> n \<Longrightarrow> get_device ds (int n) = None"
proof (induction ds arbitrary: n)
  case (Cons d ds)
  then show ?case by (cases n) auto
qed simp

lemma hd_bit: "n < 128 \<Longrightarrow> (0x80 + int n) AND 0x80 \<noteq> 0"
proof -
  assume "n < 128"
  then have "(128 + int n) div 2 ^ 7 = 1" by simp
  then have "bit (128 + int n) 7" by (simp only: bit_iff_odd) simp
  then show ?thesis using and_exp_eq_0_iff_not_bit [of "128 + int n" 7] by simp
qed

lemma fd_bit: "n < 128 \<Longrightarrow> int n AND 0x80 = 0"
proof -
  assume "n < 128"
  then have "int n div 2 ^ 7 = 0" by simp
  then have "\<not> bit (int n) 7" by (simp only: bit_iff_odd) simp
  then show ?thesis using and_exp_eq_0_iff_not_bit [of "int n" 7] by simp
qed

text \<open>
  C10: Drive numbering. With the CD drive outside the hard disk and floppy ranges, drive
  \<^verbatim>\<open>0x80 + n\<close> is the \<open>n\<close>-th hard disk and drive \<^verbatim>\<open>n\<close> the \<open>n\<close>-th floppy of
  the ordered lists, and there is no device past the end of a list; number 0xFF is the
  invalid drive.
\<close>

theorem drive_lookup:
  assumes "n < 127" "cdrom_drive st \<ge> 0x100"
  shows "get_device_from_drive st (0x80 + int n) =
           (if n < length (hd_devices st) then Some (hd_devices st ! n) else None) \<and>
         get_device_from_drive st (int n) =
           (if n < length (fd_devices st) then Some (fd_devices st ! n) else None) \<and>
         get_device_from_drive st GRUB_INVALID_DRIVE = None"
  using assms hd_bit [of n] fd_bit [of n]
  by (auto simp: get_device_from_drive_def GRUB_INVALID_DRIVE_def get_device_nth get_device_None)

theorem drive_lookup_witness:
  "get_device_from_drive ((sample_efi ())\<lparr>hd_devices := [sample_disk 1 3 7]\<rparr>) 0x80 = Some (sample_disk 1 3 7)"
  using drive_lookup [of 0 "(sample_efi ())\<lparr>hd_devices := [sample_disk 1 3 7]\<rparr>"]
  by (simp add: sample_efi_def)

text \<open>The documented behaviour of the firmware's \<^verbatim>\<open>ReadDisk\<close> on a device whose medium holds
  \<open>img\<close>: a request inside the medium succeeds and delivers those bytes.\<close>

definition disk_image :: "'w firmware \<Rightarrow> 'w \<Rightarrow> efidisk_data \<Rightarrow> mem \<Rightarrow> bool" where
  "disk_image fw w d img \<longleftrightarrow>
     (\<forall>off n. 0 \<le> off \<and> 0 \<le> n \<and> off + n \<le> (last_block (media d) + 1) * block_size (media d) \<longrightarrow>
        fw_read fw w (disk_io d) (media_id (media d)) off n
          = (EFI_SUCCESS, mem_slice img (nat off) (nat n)))"

text \<open>\<^verbatim>\<open>WriteDisk\<close> on the same terms: a request inside a writable medium succeeds and
  changes exactly those bytes.\<close>

definition disk_writable :: "'w firmware \<Rightarrow> efidisk_data \<Rightarrow> bool" where
  "disk_writable fw d \<longleftrightarrow>
     (\<forall>w img off n bytes. disk_image fw w d img \<and> 0 \<le> off \<and> n = int (length bytes) \<and>
        off + n \<le> (last_block (media d) + 1) * block_size (media d) \<longrightarrow>
        (\<exists>w'. fw_write fw w (disk_io d) (media_id (media d)) off n bytes = (EFI_SUCCESS, w') \<and>
              disk_image fw w' d (store_list img (nat off) bytes)))"

text \<open>Sizes of a medium for which the 64- and 32-bit arithmetic of the code is exact.\<close>

definition media_sane :: "media \<Rightarrow> bool" where
  "media_sane m \<longleftrightarrow> 0 < block_size m \<and> block_size m < 2 ^ 16 \<and> 0 \<le> last_block m \<and> last_block m < 2 ^ 31 - 1"

lemma store_list_mem_slice: "store_list d i (mem_slice s j n) = copy_mem d i s j n"
  by (rule ext) (auto simp: store_list_def copy_mem_def less_diff_conv2)

lemma sector_in_medium:
  assumes "0 \<le> sector" "0 \<le> nsec" "sector + nsec \<le> last_block m + 1" "media_sane m"
  shows "sector * block_size m mod 2 ^ 64 = sector * block_size m"
    and "sector * block_size m + nsec * block_size m \<le> (last_block m + 1) * block_size m"
    and "nsec < 2 ^ 16 \<Longrightarrow> u32 (nsec * block_size m) = nsec * block_size m"
proof -
  have "sector * block_size m \<le> 2 ^ 31 * 2 ^ 16"
    using assms by (intro mult_mono) (auto simp: media_sane_def)
  then show "sector * block_size m mod 2 ^ 64 = sector * block_size m"
    using assms by (auto simp: media_sane_def)
  show "sector * block_size m + nsec * block_size m \<le> (last_block m + 1) * block_size m"
    using assms by (simp add: distrib_right [symmetric] media_sane_def)
  assume "nsec < 2 ^ 16"
  then have "nsec * block_size m < 2 ^ 16 * 2 ^ 16"
    using assms by (intro mult_strict_mono) (auto simp: media_sane_def)
  then show "u32 (nsec * block_size m) = nsec * block_size m"
    using assms by (intro u32_id) (auto simp: media_sane_def)
qed

lemma biosdisk_read_ok:
  assumes dev: "get_device_from_drive st drive = Some d" and img: "disk_image fw (world st) d img"
    and m: "media_sane (media d)"
    and r: "0 \<le> sector" "0 \<le> nsec" "nsec < 2 ^ 16" "sector + nsec \<le> last_block (media d) + 1"
  shows "biosdisk fw BIOSDISK_READ drive sector nsec buf st =
    (0, copy_mem buf 0 img (nat (sector * block_size (media d))) (nat (nsec * block_size (media d))), st)"
proof -
  note s = sector_in_medium [OF r(1,2,4) m]
  have "0 \<le> sector * block_size (media d)" "0 \<le> nsec * block_size (media d)"
    using m r by (auto simp: media_sane_def)
  with img s(2) have
    "fw_read fw (world st) (disk_io d) (media_id (media d)) (sector * block_size (media d)) (nsec * block_size (media d)) =
     (EFI_SUCCESS, mem_slice img (nat (sector * block_size (media d))) (nat (nsec * block_size (media d))))"
    by (simp add: disk_image_def)
  then show ?thesis
    using dev s(1) s(3) r(3)
    by (simp add: biosdisk_def grub_efidisk_read_def Let_def store_list_mem_slice)
qed

lemma biosdisk_write_ok:
  assumes dev: "get_device_from_drive st drive = Some d" and img: "disk_image fw (world st) d img"
    and wr: "disk_writable fw d" and m: "media_sane (media d)"
    and r: "0 \<le> sector" "0 \<le> nsec" "nsec < 2 ^ 16" "sector + nsec \<le> last_block (media d) + 1"
  shows "\<exists>w'. biosdisk fw BIOSDISK_WRITE drive sector nsec buf st = (0, buf, st\<lparr>world := w'\<rparr>) \<and>
    disk_image fw w' d (copy_mem img (nat (sector * block_size (media d))) buf 0 (nat (nsec * block_size (media d))))"
proof -
  note s = sector_in_medium [OF r(1,2,4) m]
  have "0 \<le> sector * block_size (media d)" "0 \<le> nsec * block_size (media d)"
    using m r by (auto simp: media_sane_def)
  with img s(2) obtain w' where
    "fw_write fw (world st) (disk_io d) (media_id (media d)) (sector * block_size (media d)) (nsec * block_size (media d))
       (mem_slice buf 0 (nat (nsec * block_size (media d)))) = (EFI_SUCCESS, w')"
    "disk_image fw w' d (store_list img (nat (sector * block_size (media d)))
       (mem_slice buf 0 (nat (nsec * block_size (media d)))))"
    using wr [unfolded disk_writable_def, rule_format, of "world st" img "sector * block_size (media d)"
        "nsec * block_size (media d)" "mem_slice buf 0 (nat (nsec * block_size (media d)))"]
    by auto
  then show ?thesis
    using dev s(1) s(3) r(3)
    by (auto simp: biosdisk_def grub_efidisk_write_def Let_def store_list_mem_slice)
qed

text \<open>
  C11: \<^verbatim>\<open>biosdisk\<close> reports success for every transfer on an existing device, whatever the
  firmware answers: with a firmware that refuses every request and stores nothing, the
  result is still 0, the buffer keeps its old contents and the medium is unchanged.
\<close>

theorem biosdisk_hides_errors:
  assumes "get_device_from_drive st drive = Some d"
    and "\<forall>w i m off n. fw_read fw w i m off n = (EFI_OTHER_ERROR, [])"
    and "\<forall>w i m off n bs. fw_write fw w i m off n bs = (EFI_OTHER_ERROR, w)"
  shows "biosdisk fw subf drive sector nsec buf st = (0, buf, st)"
proof -
  have "store_list buf 0 [] = buf" by (rule ext) (simp add: store_list_def)
  with assms show ?thesis
    by (cases subf) (simp_all add: biosdisk_def grub_efidisk_read_def grub_efidisk_write_def Let_def)
qed

definition broken_firmware :: "unit firmware" where
  "broken_firmware = \<lparr>fw_read = \<lambda>w i m off n. (EFI_OTHER_ERROR, []),
     fw_write = \<lambda>w i m off n bs. (EFI_OTHER_ERROR, w),
     fw_locate_handle = \<lambda>w n. (EFI_SUCCESS, 0, []), fw_device_path = \<lambda>w h. None,
     fw_block_io = \<lambda>w h. None, fw_disk_io = \<lambda>w h. None\<rparr>"

theorem biosdisk_hides_errors_witness:
  "biosdisk broken_firmware BIOSDISK_READ 0x80 0 1 (\<lambda>_. 0) ((sample_efi ())\<lparr>hd_devices := [sample_disk 1 3 7]\<rparr>)
     = (0, \<lambda>_. 0, (sample_efi ())\<lparr>hd_devices := [sample_disk 1 3 7]\<rparr>)"
  by (rule biosdisk_hides_errors [where d = "sample_disk 1 3 7"])
    (simp_all add: broken_firmware_def sample_efi_def get_device_from_drive_def GRUB_INVALID_DRIVE_def)

end
