(* ===== verification/Disk_Io.thy ===== *)
theory Disk_Io
  imports Efi_Disk
begin

text \<open>
  The sector layer of \<^verbatim>\<open>stage2/disk_io.c\<close>: the track buffer and the routines that read
  and write through it (\<^verbatim>\<open>rawread\<close>, \<^verbatim>\<open>devread\<close>, \<^verbatim>\<open>rawwrite\<close>,
  \<^verbatim>\<open>devwrite\<close>), and the boot flag of the MBR (\<^verbatim>\<open>make_saved_active\<close>).

  The variables of stage 2 that file systems see are the record \<open>stage2\<close>; the track
  buffer, its tags and the EFI state extend it to \<open>dstate\<close>. A caller's buffer is a
  memory region that a read returns updated; it does not overlap the track buffer
  (\<^verbatim>\<open>BUFFERADDR\<close>) or the scratch buffer (\<^verbatim>\<open>SCRATCHADDR\<close>). The call
  \<^verbatim>\<open>(*disk_read_func) (...)\<close> is recorded in \<open>read_log\<close>. The debug print of
  \<^verbatim>\<open>devread\<close> (variable \<^verbatim>\<open>debug\<close>) is left out.
\<close>

section \<open>State\<close>

record stage2 =
  errnum :: grub_error
  filepos :: int
  filemax :: int
  fsmax :: int
  current_drive :: int
  current_partition :: int
  current_slice :: int
  part_start :: int
  part_length :: int
  saved_drive :: int
  saved_partition :: int
  bsd_evil_hack :: int
  fsys_type :: nat
  disk_read_hook :: bool
  disk_read_func :: bool
  read_log :: "(int \<times> int \<times> int) list"
  print_possibilities :: int
  do_completion :: bool
  unique :: int
  unique_string :: cstr
  console :: "byte list"

record 'w dstate = stage2 +
  efi :: "'w efi_state"
  buf_drive :: int
  buf_track :: int
  buf_geom :: geometry
  trackbuf :: mem
  scratchbuf :: mem

definition BUFFERLEN :: int where
  "BUFFERLEN = 0x7000"

definition BIOSDISK_ERROR_GEOMETRY :: int where
  "BIOSDISK_ERROR_GEOMETRY = 0x100"

section \<open>Reading\<close>

text \<open>Fields of a PC partition table entry, \<^verbatim>\<open>pc_slice.h\<close>.\<close>

definition PC_SLICE_FLAG :: "mem \<Rightarrow> nat \<Rightarrow> int" where
  "PC_SLICE_FLAG m p = ld8 m (446 + 16 * p)"

definition PC_SLICE_TYPE :: "mem \<Rightarrow> nat \<Rightarrow> int" where
  "PC_SLICE_TYPE m p = ld8 m (446 + 4 + 16 * p)"

definition PC_SLICE_START :: "mem \<Rightarrow> nat \<Rightarrow> int" where
  "PC_SLICE_START m p = ld32 m (446 + 8 + 16 * p)"

definition PC_SLICE_LENGTH :: "mem \<Rightarrow> nat \<Rightarrow> int" where
  "PC_SLICE_LENGTH m p = ld32 m (446 + 12 + 16 * p)"

definition has_ezd :: "mem \<Rightarrow> bool" where
  "has_ezd m \<longleftrightarrow> PC_SLICE_TYPE m 0 = 0x55 \<or> PC_SLICE_TYPE m 1 = 0x55 \<or>
     PC_SLICE_TYPE m 2 = 0x55 \<or> PC_SLICE_TYPE m 3 = 0x55"

text \<open>The first test of the loop of \<^verbatim>\<open>rawread\<close>, also made by
  \<^verbatim>\<open>real_open_partition\<close>: a buffer of another drive is dropped.\<close>

definition select_drive :: "int \<Rightarrow> 'w dstate \<Rightarrow> 'w dstate option" where
  "select_drive drive s =
     (if buf_drive s \<noteq> drive
      then case get_diskinfo (efi s) drive of
             None \<Rightarrow> None
           | Some g \<Rightarrow> Some (s\<lparr>buf_geom := g, buf_drive := drive, buf_track := - 1\<rparr>)
      else Some s)"

definition sectors_per_vtrack :: "geometry \<Rightarrow> nat \<Rightarrow> int" where
  "sectors_per_vtrack g bits =
     (if u32 (sectors g * 2 ^ bits) > BUFFERLEN then BUFFERLEN div 2 ^ bits else sectors g)"

text \<open>Filling the track buffer. The first component of the result says whether the data starts
  at the beginning of the buffer (\<^verbatim>\<open>bufaddr\<close> was moved).\<close>

definition fill_track ::
    "'w firmware \<Rightarrow> int \<Rightarrow> int \<Rightarrow> int \<Rightarrow> int \<Rightarrow> int \<Rightarrow> int \<Rightarrow> 'w dstate \<Rightarrow> bool \<times> 'w dstate" where
  "fill_track fw drive sector slen num_sect spv track s =
     (let partial = slen > num_sect;
          read_start = (if partial then sector else track);
          read_len = (if partial then num_sect else spv);
          (bios_err, buf, e) = biosdisk fw BIOSDISK_READ drive read_start read_len (trackbuf s) (efi s);
          s1 = s\<lparr>trackbuf := buf, efi := e\<rparr>
      in if bios_err \<noteq> 0
         then let s2 = s1\<lparr>buf_track := - 1\<rparr>
              in if bios_err = BIOSDISK_ERROR_GEOMETRY then (partial, s2\<lparr>errnum := ERR_GEOM\<rparr>)
                 else if partial then (True, s2\<lparr>errnum := ERR_READ\<rparr>)
                 else let (err2, buf2, e2) =
                            biosdisk fw BIOSDISK_READ drive sector slen (trackbuf s2) (efi s2);
                          s3 = s2\<lparr>trackbuf := buf2, efi := e2\<rparr>
                      in (True, if err2 \<noteq> 0 then s3\<lparr>errnum := ERR_READ\<rparr> else s3)
         else (partial, s1\<lparr>buf_track := track\<rparr>))"

definition ezd_fixup :: "'w firmware \<Rightarrow> int \<Rightarrow> int \<Rightarrow> int \<Rightarrow> 'w dstate \<Rightarrow> 'w dstate" where
  "ezd_fixup fw drive sector slen s =
     (if (buf_track s = 0 \<or> sector = 0) \<and> has_ezd (trackbuf s)
      then if buf_track s = 0 \<or> slen \<ge> 2
           then let ss = nat (sector_size (buf_geom s))
                in s\<lparr>trackbuf := grub_memmove (trackbuf s) 0 ss ss\<rparr>
           else let (err, buf, e) = biosdisk fw BIOSDISK_READ drive 1 1 (trackbuf s) (efi s);
                    s1 = s\<lparr>trackbuf := buf, efi := e\<rparr>
                in if err \<noteq> 0 then s1\<lparr>errnum := ERR_READ\<rparr> else s1
      else s)"

definition fetch_track ::
    "'w firmware \<Rightarrow> int \<Rightarrow> int \<Rightarrow> int \<Rightarrow> int \<Rightarrow> 'w dstate \<Rightarrow> bool \<times> 'w dstate" where
  "fetch_track fw drive sector slen spv s =
     (let soff = sector mod spv; track = sector - soff; num_sect = spv - soff
      in if track \<noteq> buf_track s
         then let (shifted, s1) = fill_track fw drive sector slen num_sect spv track s
              in (shifted, ezd_fixup fw drive sector slen s1)
         else (False, s))"

text \<open>The calls of \<^verbatim>\<open>disk_read_func\<close> for a transfer of \<open>n\<close> bytes.\<close>

function hook_tail :: "int \<Rightarrow> int \<Rightarrow> int \<Rightarrow> (int \<times> int \<times> int) list" where
  "hook_tail sector_num len ss =
     (if 0 < ss \<and> len > ss then (sector_num, 0, ss) # hook_tail (sector_num + 1) (len - ss) ss
      else [(sector_num, 0, len)])"
  by pat_completeness auto
termination
  by (relation "measure (\<lambda>(k, len, ss). nat len)") auto

declare hook_tail.simps [simp del]

definition hook_calls :: "int \<Rightarrow> int \<Rightarrow> int \<Rightarrow> int \<Rightarrow> (int \<times> int \<times> int) list" where
  "hook_calls sector byte_offset n ss =
     (let len = (if ss - byte_offset > n then n else ss - byte_offset)
      in (sector, byte_offset, len) #
         (if n - len > 0 then hook_tail (sector + 1) (n - len) ss else []))"

lemma rawread_progress:
  assumes "0 < spv" "num_sect = spv - sector mod spv" "0 < byte_len" "0 \<le> n"
    "n = (if byte_len > num_sect * 2 ^ bits - byte_offset
          then num_sect * 2 ^ bits - byte_offset else byte_len)"
  shows "nat (byte_len - n) < nat byte_len + (if byte_offset = 0 then 0 else 1)"
proof -
  have "0 < num_sect" using assms(1,2) pos_mod_bound [of spv sector] by simp
  then have "0 < num_sect * 2 ^ bits" by simp
  with assms(3-5) show ?thesis by (auto split: if_splits)
qed

text \<open>
  The loop of \<^verbatim>\<open>rawread\<close>; \<open>pos\<close> is how far \<^verbatim>\<open>buf\<close> has been advanced.
  \<open>None\<close>: a division by zero (sectors larger than the buffer) or a copy of negative
  length (an offset beyond the track).
\<close>

function rawread_loop ::
    "'w firmware \<Rightarrow> int \<Rightarrow> int \<Rightarrow> int \<Rightarrow> int \<Rightarrow> nat \<Rightarrow> mem \<Rightarrow> 'w dstate \<Rightarrow> (bool \<times> mem \<times> 'w dstate) option"
where
  "rawread_loop fw drive sector byte_offset byte_len pos buf s =
     (if byte_len \<le> 0 \<or> errnum s \<noteq> ERR_NONE then Some (errnum s = ERR_NONE, buf, s)
      else case select_drive drive s of
        None \<Rightarrow> Some (False, buf, s\<lparr>errnum := ERR_NO_DISK\<rparr>)
      | Some s1 \<Rightarrow>
          if sector < 0 \<or> sector \<ge> total_sectors (buf_geom s1)
          then Some (False, buf, s1\<lparr>errnum := ERR_GEOM\<rparr>)
          else case bsf (sector_size (buf_geom s1)) of
            None \<Rightarrow> None
          | Some bits \<Rightarrow>
              let slen = s32 (u32 (byte_offset + byte_len + sector_size (buf_geom s1) - 1) div 2 ^ bits);
                  spv = sectors_per_vtrack (buf_geom s1) bits
              in if spv \<le> 0 then None
                 else let soff = sector mod spv; num_sect = spv - soff;
                          (shifted, s2) = fetch_track fw drive sector slen spv s1;
                          bufoff = (if shifted then byte_offset else soff * 2 ^ bits + byte_offset);
                          n = (if byte_len > num_sect * 2 ^ bits - byte_offset
                               then num_sect * 2 ^ bits - byte_offset else byte_len)
                      in if n < 0 \<or> byte_offset < 0 then None
                         else let s3 = (if disk_read_func s2
                                        then s2\<lparr>read_log := read_log s2 @
                                               hook_calls sector byte_offset n (sector_size (buf_geom s2))\<rparr>
                                        else s2)
                              in rawread_loop fw drive (s32 (sector + num_sect)) 0 (byte_len - n) (pos + nat n)
                                   (copy_mem buf pos (trackbuf s3) (nat bufoff) (nat n)) s3)"
  by pat_completeness auto
termination
proof (relation "measure (\<lambda>(fw, drive, sector, byte_offset, byte_len, pos, buf, s).
         nat byte_len + (if byte_offset = 0 then 0 else 1))", goal_cases)
  case 1
  then show ?case by simp
next
  case (2 fw drive sector byte_offset byte_len pos buf s s1 bits slen spv soff num_sect x shifted s2 bufoff n s3)
  have "nat (byte_len - n) < nat byte_len + (if byte_offset = 0 then 0 else 1)"
  proof (rule rawread_progress)
    show "0 < spv" using 2(7) by simp
    show "num_sect = spv - sector mod spv" using 2(8,9) by simp
    show "0 < byte_len" using 2(1) by simp
    show "0 \<le> n" using 2(14) by simp
  qed (rule 2(13))
  then show ?case by (simp only: in_measure prod.case) simp
qed

declare rawread_loop.simps [simp del]

definition rawread ::
    "'w firmware \<Rightarrow> int \<Rightarrow> int \<Rightarrow> int \<Rightarrow> int \<Rightarrow> mem \<Rightarrow> 'w dstate \<Rightarrow> (bool \<times> mem \<times> 'w dstate) option"
where
  "rawread fw drive sector byte_offset byte_len buf s =
     (if byte_len \<le> 0 then Some (True, buf, s)
      else rawread_loop fw drive sector byte_offset byte_len 0 buf s)"

definition devread ::
    "'w firmware \<Rightarrow> int \<Rightarrow> int \<Rightarrow> int \<Rightarrow> mem \<Rightarrow> 'w dstate \<Rightarrow> (bool \<times> mem \<times> 'w dstate) option"
where
  "devread fw sector byte_offset byte_len buf s =
     (case (get_sector_bits (efi s) (current_drive s), get_sector_size (efi s) (current_drive s)) of
        (Some bits, Some ss) \<Rightarrow>
          if sector < 0 \<or> u32 (sector + s32 (byte_offset + byte_len - 1) div 2 ^ bits) \<ge> part_length s
          then Some (False, buf, s\<lparr>errnum := ERR_OUTSIDE_PART\<rparr>)
          else let sector' = sector + byte_offset div 2 ^ bits;
                   byte_offset' = byte_offset AND (ss - 1)
               in rawread fw (current_drive s) (s32 (part_start s + sector')) byte_offset' byte_len buf s
      | _ \<Rightarrow> if sector < 0 then Some (False, buf, s\<lparr>errnum := ERR_OUTSIDE_PART\<rparr>) else None)"

section \<open>Writing\<close>

text \<open>\<^verbatim>\<open>rawwrite\<close> clears the buffer tag with the geometry's \<^verbatim>\<open>sectors\<close>; a
  geometry that was never set is a division by zero.\<close>

definition rawwrite ::
    "'w firmware \<Rightarrow> int \<Rightarrow> int \<Rightarrow> mem \<Rightarrow> 'w dstate \<Rightarrow> (bool \<times> 'w dstate) option"
where
  "rawwrite fw drive sector buf s =
     (let (err, scratch, e) = (if sector = 0 then biosdisk fw BIOSDISK_READ drive 0 1 (scratchbuf s) (efi s)
                               else (0, scratchbuf s, efi s));
          s1 = s\<lparr>scratchbuf := scratch, efi := e\<rparr>
      in if err \<noteq> 0 then Some (False, s1\<lparr>errnum := ERR_WRITE\<rparr>)
         else let sector' = (if sector = 0 \<and> has_ezd (scratchbuf s1) then 1 else sector)
              in case get_sector_size (efi s1) drive of
                   None \<Rightarrow> None
                 | Some ss \<Rightarrow>
                     let s2 = s1\<lparr>scratchbuf := copy_mem (scratchbuf s1) 0 buf 0 (nat ss)\<rparr>;
                         (err2, scratch2, e2) =
                           biosdisk fw BIOSDISK_WRITE drive sector' 1 (scratchbuf s2) (efi s2);
                         s3 = s2\<lparr>scratchbuf := scratch2, efi := e2\<rparr>
                     in if err2 \<noteq> 0 then Some (False, s3\<lparr>errnum := ERR_WRITE\<rparr>)
                        else if sectors (buf_geom s3) = 0 then None
                        else Some (True,
                               if u32 (sector' - u32 sector' mod sectors (buf_geom s3)) = u32 (buf_track s3)
                               then s3\<lparr>buf_track := - 1\<rparr> else s3))"

text \<open>\<^verbatim>\<open>devwrite\<close>; \<open>k\<close> sectors are left, \<open>i\<close> have been written.\<close>

fun devwrite_loop ::
    "'w firmware \<Rightarrow> int \<Rightarrow> nat \<Rightarrow> nat \<Rightarrow> mem \<Rightarrow> 'w dstate \<Rightarrow> (bool \<times> 'w dstate) option"
where
  "devwrite_loop fw sector i 0 buf s = Some (True, s)"
| "devwrite_loop fw sector i (Suc k) buf s =
     (case get_sector_bits (efi s) (current_drive s) of
        None \<Rightarrow> None
      | Some bits \<Rightarrow>
          (case rawwrite fw (current_drive s) (s32 (part_start s + sector + int i))
                  (\<lambda>a. buf (i * 2 ^ bits + a)) s of
             None \<Rightarrow> None
           | Some (ok, s') \<Rightarrow>
               if \<not> ok then Some (False, s') else devwrite_loop fw sector (Suc i) k buf s'))"

definition devwrite ::
    "'w firmware \<Rightarrow> int \<Rightarrow> int \<Rightarrow> mem \<Rightarrow> 'w dstate \<Rightarrow> (bool \<times> 'w dstate) option" where
  "devwrite fw sector sector_count buf s = devwrite_loop fw sector 0 (nat sector_count) buf s"

section \<open>The track buffer\<close>

text \<open>
  What reading relies on: the drive exists, the firmware serves the image \<open>img\<close> of its
  medium, blocks have \<open>2 ^ b\<close> bytes (512 to 16384, so that one fits the buffer), and no
  sector of the first virtual track carries an EZ-Drive mark.
\<close>

definition vtrack :: "nat \<Rightarrow> int" where
  "vtrack b = 0x7000 div 2 ^ b"

definition no_ezd :: "mem \<Rightarrow> nat \<Rightarrow> bool" where
  "no_ezd img b \<longleftrightarrow> (\<forall>sec < nat (vtrack b). \<not> has_ezd (\<lambda>k. img (sec * 2 ^ b + k)))"

definition disk_ok :: "'w firmware \<Rightarrow> int \<Rightarrow> efidisk_data \<Rightarrow> mem \<Rightarrow> nat \<Rightarrow> 'w efi_state \<Rightarrow> bool" where
  "disk_ok fw drive d img b e \<longleftrightarrow>
     get_device_from_drive e drive = Some d \<and> disk_image fw (world e) d img \<and>
     media_sane (media d) \<and> block_size (media d) = 2 ^ b \<and> 9 \<le> b \<and> b \<le> 14 \<and> no_ezd img b"

definition disk_geom :: "efidisk_data \<Rightarrow> geometry" where
  "disk_geom d =
     (let total = last_block (media d) + 1; hs = (if total div 63 < 255 then 1 else 255) in
      \<lparr>cylinders = total div 63 div hs, heads = hs, sectors = 63, total_sectors = total,
       sector_size = block_size (media d), flags = 1\<rparr>)"

text \<open>Sectors in whole virtual tracks: a track that sticks out of the medium is not served.\<close>

definition whole_sectors :: "efidisk_data \<Rightarrow> nat \<Rightarrow> int" where
  "whole_sectors d b = (last_block (media d) + 1) div vtrack b * vtrack b"

definition cache_ok :: "mem \<Rightarrow> nat \<Rightarrow> mem \<Rightarrow> int \<Rightarrow> bool" where
  "cache_ok img b buf track \<longleftrightarrow>
     (0 \<le> track \<longrightarrow> (\<forall>k < nat (vtrack b * 2 ^ b). buf k = img (nat (track * 2 ^ b) + k)))"

text \<open>The tags of the buffer are right, and so are its contents.\<close>

definition buffer_ok :: "int \<Rightarrow> efidisk_data \<Rightarrow> mem \<Rightarrow> nat \<Rightarrow> 'w dstate \<Rightarrow> bool" where
  "buffer_ok drive d img b s \<longleftrightarrow>
     (buf_drive s = drive \<longrightarrow>
        buf_geom s = disk_geom d \<and> - 1 \<le> buf_track s \<and> buf_track s < 2 ^ 31 \<and>
        cache_ok img b (trackbuf s) (buf_track s))"

lemma vtrack_cases: "9 \<le> b \<Longrightarrow> b \<le> 14 \<Longrightarrow>
  b = 9 \<and> vtrack b = 56 \<or> b = 10 \<and> vtrack b = 28 \<or> b = 11 \<and> vtrack b = 14 \<or>
  b = 12 \<and> vtrack b = 7 \<or> b = 13 \<and> vtrack b = 3 \<or> b = 14 \<and> vtrack b = 1"
proof -
  assume "9 \<le> b" "b \<le> 14"
  then consider "b = 9" | "b = 10" | "b = 11" | "b = 12" | "b = 13" | "b = 14" by linarith
  then show ?thesis by cases (simp_all add: vtrack_def)
qed

lemma vtrack_pos: "9 \<le> b \<Longrightarrow> b \<le> 14 \<Longrightarrow> 0 < vtrack b \<and> vtrack b \<le> 56 \<and> 512 \<le> (2 :: int) ^ b \<and> (2 :: int) ^ b \<le> 2 ^ 14"
  using vtrack_cases [of b] by auto

lemma sectors_per_vtrack_eq:
  "9 \<le> b \<Longrightarrow> b \<le> 14 \<Longrightarrow> sectors_per_vtrack (disk_geom d) b = vtrack b"
  using vtrack_cases [of b]
  by (auto simp: sectors_per_vtrack_def disk_geom_def Let_def BUFFERLEN_def vtrack_def u32_def)

lemma get_diskinfo_ok:
  "disk_ok fw drive d img b e \<Longrightarrow> get_diskinfo e drive = Some (disk_geom d)"
  by (simp add: disk_ok_def get_diskinfo_def disk_geom_def u32_id media_sane_def Let_def)

lemma select_drive_ok:
  assumes "disk_ok fw drive d img b (efi s)"
    "buf_drive s = drive \<Longrightarrow> buf_geom s = disk_geom d"
  shows "select_drive drive s =
    Some (s\<lparr>buf_geom := disk_geom d, buf_drive := drive,
            buf_track := if buf_drive s = drive then buf_track s else - 1\<rparr>)"
  using assms get_diskinfo_ok [OF assms(1)] by (auto simp: select_drive_def)

text \<open>One track fetch delivers the sectors from \<open>sector\<close> to the end of the virtual track.\<close>

lemma has_ezd_cong: "(\<And>k. k < 512 \<Longrightarrow> m k = m' k) \<Longrightarrow> has_ezd m = has_ezd m'"
  by (simp add: has_ezd_def PC_SLICE_TYPE_def ld8_def)

lemma fill_track_ok:
  assumes ok: "disk_ok fw drive d img b (efi s)" and v: "vtrack b = spv"
    and r: "0 \<le> sector" "track = sector - sector mod spv" "num_sect = spv - sector mod spv"
      "track + spv \<le> last_block (media d) + 1"
  shows "fill_track fw drive sector slen num_sect spv track s =
    (slen > num_sect,
     s\<lparr>trackbuf := if slen > num_sect then copy_mem (trackbuf s) 0 img (nat (sector * 2 ^ b)) (nat (num_sect * 2 ^ b))
                   else copy_mem (trackbuf s) 0 img (nat (track * 2 ^ b)) (nat (spv * 2 ^ b)),
       buf_track := track\<rparr>)"
proof -
  from ok have o: "get_device_from_drive (efi s) drive = Some d" "disk_image fw (world (efi s)) d img"
    "media_sane (media d)" "block_size (media d) = 2 ^ b" "9 \<le> b" "b \<le> 14"
    by (simp_all add: disk_ok_def)
  have p: "0 < spv" "spv \<le> 56" using v vtrack_pos [OF o(5,6)] by auto
  then have "0 \<le> track" "0 < num_sect" "num_sect \<le> spv" "sector + num_sect = track + spv"
    using r(1-3) pos_mod_bound [of spv sector] pos_mod_sign [of spv sector] zmod_le_nonneg_dividend [of sector spv]
    by auto
  then have b1: "biosdisk fw BIOSDISK_READ drive sector num_sect (trackbuf s) (efi s) =
      (0, copy_mem (trackbuf s) 0 img (nat (sector * 2 ^ b)) (nat (num_sect * 2 ^ b)), efi s)"
    and b2: "biosdisk fw BIOSDISK_READ drive track spv (trackbuf s) (efi s) =
      (0, copy_mem (trackbuf s) 0 img (nat (track * 2 ^ b)) (nat (spv * 2 ^ b)), efi s)"
    using biosdisk_read_ok [OF o(1,2,3), of sector num_sect] biosdisk_read_ok [OF o(1,2,3), of track spv] o(4) p r(1,4)
    by auto
  show ?thesis
    by (cases "slen > num_sect") (simp_all add: fill_track_def b1 b2)
qed

lemma ezd_fixup_id:
  "(buf_track s = 0 \<or> sector = 0 \<Longrightarrow> \<not> has_ezd (trackbuf s)) \<Longrightarrow> ezd_fixup fw drive sector slen s = s"
  by (auto simp: ezd_fixup_def)

lemma nat_sector_bytes: "0 \<le> x \<Longrightarrow> nat (x * 2 ^ b) = nat x * 2 ^ b"
  by (simp add: nat_mult_distrib nat_power_eq)

lemma fetch_track_ok:
  assumes ok: "disk_ok fw drive d img b (efi s)" and v: "vtrack b = spv"
    and r: "0 \<le> sector" "track = sector - sector mod spv" "num_sect = spv - sector mod spv"
      "track + spv \<le> last_block (media d) + 1"
    and c: "track = buf_track s \<Longrightarrow> cache_ok img b (trackbuf s) (buf_track s)"
  shows "\<exists>sh buf. fetch_track fw drive sector slen spv s = (sh, s\<lparr>trackbuf := buf, buf_track := track\<rparr>) \<and>
    (sh \<longrightarrow> slen > num_sect) \<and> (slen \<le> num_sect \<longrightarrow> cache_ok img b buf track) \<and>
    (\<forall>k < nat (num_sect * 2 ^ b).
        buf ((if sh then 0 else nat (sector mod spv * 2 ^ b)) + k) = img (nat (sector * 2 ^ b) + k))"
proof -
  from ok have o: "9 \<le> b" "b \<le> 14" "no_ezd img b" by (simp_all add: disk_ok_def)
  have p: "0 < spv" "512 \<le> (2 :: int) ^ b" using v vtrack_pos [OF o(1,2)] by auto
  define soff where "soff = sector mod spv"
  have soff: "0 \<le> soff" "soff < spv" "soff \<le> sector"
    using p r(1) pos_mod_bound [of spv sector] zmod_le_nonneg_dividend [of sector spv] by (auto simp: soff_def)
  have t: "track = sector - soff" "num_sect = spv - soff" using r(2,3) by (simp_all add: soff_def)
  have sec: "nat (sector * 2 ^ b) = nat (track * 2 ^ b) + nat (soff * 2 ^ b)"
    using soff t by (subst nat_add_distrib [symmetric]) (auto simp: distrib_right [symmetric])
  have len: "nat (spv * 2 ^ b) = nat (soff * 2 ^ b) + nat (num_sect * 2 ^ b)"
    using soff t by (subst nat_add_distrib [symmetric]) (auto simp: distrib_right [symmetric])
  have big: "512 \<le> nat (num_sect * 2 ^ b)" "512 \<le> nat (spv * 2 ^ b)"
    using mult_mono [of 1 num_sect 512 "2 ^ b"] mult_mono [of 1 spv 512 "2 ^ b"] soff t p by auto
  show ?thesis
  proof (cases "track = buf_track s")
    case True
    have "s\<lparr>trackbuf := trackbuf s, buf_track := track\<rparr> = s" using True by simp
    then have "fetch_track fw drive sector slen spv s = (False, s\<lparr>trackbuf := trackbuf s, buf_track := track\<rparr>)"
      using True r(2) by (simp add: fetch_track_def Let_def)
    moreover have "cache_ok img b (trackbuf s) track" using c True by simp
    moreover have "trackbuf s (nat (soff * 2 ^ b) + k) = img (nat (sector * 2 ^ b) + k)"
      if "k < nat (num_sect * 2 ^ b)" for k
    proof -
      have "0 \<le> track" "nat (soff * 2 ^ b) + k < nat (vtrack b * 2 ^ b)"
        using that soff(3) t(1) len v by auto
      with \<open>cache_ok img b (trackbuf s) track\<close> show ?thesis
        unfolding cache_ok_def sec by (simp add: add.assoc)
    qed
    ultimately show ?thesis
      unfolding soff_def [symmetric] by (intro exI [of _ False] exI [of _ "trackbuf s"]) simp
  next
    case False
    define buf where "buf = (if slen > num_sect
      then copy_mem (trackbuf s) 0 img (nat (sector * 2 ^ b)) (nat (num_sect * 2 ^ b))
      else copy_mem (trackbuf s) 0 img (nat (track * 2 ^ b)) (nat (spv * 2 ^ b)))"
    have "\<not> has_ezd buf" if "track = 0 \<or> sector = 0"
    proof -
      have tr: "track = 0" "soff = sector" "sector < spv" using that soff t r(1) by auto
      define fs where "fs = (if slen > num_sect then nat sector else 0)"
      have "has_ezd buf = has_ezd (\<lambda>k. img (fs * 2 ^ b + k))"
        using big tr r(1) by (intro has_ezd_cong) (simp add: buf_def fs_def copy_mem_def nat_sector_bytes)
      moreover have "fs < nat (vtrack b)" using tr r(1) v p by (auto simp: fs_def)
      ultimately show ?thesis using o(3) by (simp add: no_ezd_def)
    qed
    then have ez: "ezd_fixup fw drive sector slen (s\<lparr>trackbuf := buf, buf_track := track\<rparr>) =
        s\<lparr>trackbuf := buf, buf_track := track\<rparr>"
      by (intro ezd_fixup_id) simp
    have ft: "fill_track fw drive sector slen num_sect spv track s =
        (slen > num_sect, s\<lparr>trackbuf := buf, buf_track := track\<rparr>)"
      using fill_track_ok [OF ok v r, of slen] unfolding buf_def .
    have "fetch_track fw drive sector slen spv s = (slen > num_sect, s\<lparr>trackbuf := buf, buf_track := track\<rparr>)"
      unfolding fetch_track_def Let_def r(2) [symmetric] r(3) [symmetric] using False ft ez by simp
    moreover have "cache_ok img b buf track" if "slen \<le> num_sect"
      using that v by (simp add: cache_ok_def buf_def copy_mem_def)
    moreover have "buf ((if slen > num_sect then 0 else nat (soff * 2 ^ b)) + k) = img (nat (sector * 2 ^ b) + k)"
      if "k < nat (num_sect * 2 ^ b)" for k
      using that unfolding sec len buf_def by (auto simp: copy_mem_def add.assoc len)
    ultimately show ?thesis
      unfolding soff_def [symmetric] by (intro exI [of _ "slen > num_sect"] exI [of _ buf]) simp
  qed
qed

lemma copy_mem_append:
  "copy_mem (copy_mem d i s j n) (i + n) s (j + n) m = copy_mem d i s j (n + m)"
  by (rule ext) (auto simp: copy_mem_def)

lemma copy_mem_cong:
  "(\<And>k. k < n \<Longrightarrow> s (j + k) = s' (j' + k)) \<Longrightarrow> copy_mem d i s j n = copy_mem d i s' j' n"
proof (rule ext)
  fix x
  assume "\<And>k. k < n \<Longrightarrow> s (j + k) = s' (j' + k)"
  from this [of "x - i"] show "copy_mem d i s j n x = copy_mem d i s' j' n x"
    by (auto simp: copy_mem_def)
qed

lemma int_le_div_iff: "0 < (p :: int) \<Longrightarrow> n \<le> x div p \<longleftrightarrow> n * p \<le> x"
proof
  assume p: "0 < p" and "n \<le> x div p"
  then have "n * p \<le> x div p * p" by (intro mult_right_mono) auto
  also have "\<dots> \<le> x" using p pos_mod_sign [of p x] by (simp add: minus_mod_eq_div_mult [symmetric])
  finally show "n * p \<le> x" .
next
  assume p: "0 < p" and "n * p \<le> x"
  then have "n * p div p \<le> x div p" by (intro zdiv_mono1)
  with p show "n \<le> x div p" by simp
qed

lemma slen_gt: "0 < (p :: int) \<Longrightarrow> (x + p - 1) div p > n \<longleftrightarrow> x > n * p"
  using int_le_div_iff [of p "n + 1" "x + p - 1"] by (auto simp: distrib_right)

lemma whole_sectors_track:
  assumes "0 < vtrack b" "0 \<le> sector" "sector < whole_sectors d b"
  shows "sector - sector mod vtrack b + vtrack b \<le> whole_sectors d b"
proof -
  define v where "v = vtrack b"
  define q where "q = (last_block (media d) + 1) div v"
  have w: "whole_sectors d b = q * v" by (simp add: whole_sectors_def q_def v_def)
  have "\<not> q \<le> sector div v" using int_le_div_iff [of v q sector] assms w by (simp add: v_def)
  then have "(sector div v + 1) * v \<le> q * v" using assms(1) by (intro mult_right_mono) (auto simp: v_def)
  then show ?thesis by (simp add: w v_def [symmetric] minus_mod_eq_div_mult distrib_right)
qed

lemma whole_sectors_le: "0 < vtrack b \<Longrightarrow> whole_sectors d b \<le> last_block (media d) + 1"
  using pos_mod_sign [of "vtrack b" "last_block (media d) + 1"]
  by (simp add: whole_sectors_def minus_mod_eq_div_mult [symmetric])

text \<open>One iteration of the loop.\<close>

lemma rawread_step:
  assumes ok: "disk_ok fw drive d img b (efi s)" and e: "errnum s = ERR_NONE"
    and g: "buf_drive s = drive \<Longrightarrow> buf_geom s = disk_geom d"
    and c: "buf_drive s = drive \<Longrightarrow> sector - sector mod vtrack b = buf_track s \<Longrightarrow>
              cache_ok img b (trackbuf s) (buf_track s)"
    and r: "0 \<le> sector" "0 \<le> off" "off < 2 ^ b" "0 < len" "len < 2 ^ 30"
      "sector < whole_sectors d b"
    and n: "num_sect = vtrack b - sector mod vtrack b" "n = min len (num_sect * 2 ^ b - off)"
  shows "\<exists>t tb lg. rawread_loop fw drive sector off len pos buf s =
      rawread_loop fw drive (s32 (sector + num_sect)) 0 (len - n) (pos + nat n)
        (copy_mem buf pos img (nat (sector * 2 ^ b + off)) (nat n))
        (s\<lparr>read_log := lg, buf_drive := drive, buf_geom := disk_geom d, buf_track := t, trackbuf := tb\<rparr>) \<and>
    t = sector - sector mod vtrack b \<and> (n = len \<longrightarrow> cache_ok img b tb t) \<and>
    (\<not> disk_read_func s \<longrightarrow> lg = read_log s) \<and> 0 < n"
proof -
  from ok have o: "9 \<le> b" "b \<le> 14" "media_sane (media d)" "block_size (media d) = 2 ^ b"
    by (simp_all add: disk_ok_def)
  have p: "0 < vtrack b" "(2 :: int) ^ b \<le> 2 ^ 14" using vtrack_pos [OF o(1,2)] by auto
  define s1 where "s1 = s\<lparr>buf_geom := disk_geom d, buf_drive := drive,
      buf_track := if buf_drive s = drive then buf_track s else - 1\<rparr>"
  have sel: "select_drive drive s = Some s1"
    using select_drive_ok [OF ok g] by (simp add: s1_def)
  have geom: "buf_geom s1 = disk_geom d" "total_sectors (disk_geom d) = last_block (media d) + 1"
    "sector_size (disk_geom d) = 2 ^ b"
    by (simp_all add: s1_def disk_geom_def Let_def o(4))
  have in_disk: "sector < last_block (media d) + 1" using r(6) whole_sectors_le [OF p(1), of d] by simp
  define slen where "slen = (off + len + 2 ^ b - 1) div 2 ^ b"
  have slen0: "0 \<le> slen" "slen \<le> off + len + 2 ^ b - 1"
  proof -
    show nn: "0 \<le> slen" unfolding slen_def using r by (simp add: pos_imp_zdiv_nonneg_iff)
    have "slen * 2 ^ b \<le> off + len + 2 ^ b - 1" using int_le_div_iff [of "2 ^ b" slen "off + len + 2 ^ b - 1"]
      by (simp add: slen_def)
    moreover have "slen * 1 \<le> slen * 2 ^ b" using nn by (intro mult_left_mono) auto
    ultimately show "slen \<le> off + len + 2 ^ b - 1" by simp
  qed
  then have slen: "s32 (u32 (off + len + 2 ^ b - 1) div 2 ^ b) = slen"
    using r p by (simp add: u32_id s32_id slen_def [symmetric])
  have track: "sector - sector mod vtrack b + vtrack b \<le> last_block (media d) + 1"
    using whole_sectors_track [OF p(1) r(1,6)] whole_sectors_le [OF p(1), of d] by simp
  have tpos: "0 \<le> sector - sector mod vtrack b" using r(1) p zmod_le_nonneg_dividend [of sector "vtrack b"] by simp
  have "\<exists>sh tb. fetch_track fw drive sector slen (vtrack b) s1 =
        (sh, s1\<lparr>trackbuf := tb, buf_track := sector - sector mod vtrack b\<rparr>) \<and>
      (sh \<longrightarrow> slen > num_sect) \<and> (slen \<le> num_sect \<longrightarrow> cache_ok img b tb (sector - sector mod vtrack b)) \<and>
      (\<forall>k < nat (num_sect * 2 ^ b).
         tb ((if sh then 0 else nat (sector mod vtrack b * 2 ^ b)) + k) = img (nat (sector * 2 ^ b) + k))"
    using c tpos by (intro fetch_track_ok [OF _ refl r(1) refl n(1) track]) (auto simp: s1_def ok)
  then obtain sh tb where f: "fetch_track fw drive sector slen (vtrack b) s1 =
        (sh, s1\<lparr>trackbuf := tb, buf_track := sector - sector mod vtrack b\<rparr>)"
    "slen \<le> num_sect \<longrightarrow> cache_ok img b tb (sector - sector mod vtrack b)"
    "\<And>k. k < nat (num_sect * 2 ^ b) \<Longrightarrow>
         tb ((if sh then 0 else nat (sector mod vtrack b * 2 ^ b)) + k) = img (nat (sector * 2 ^ b) + k)"
    by blast
  have ns: "0 < num_sect" using n(1) p(1) pos_mod_bound [of "vtrack b" sector] by simp
  have "2 ^ b \<le> num_sect * 2 ^ b" using ns mult_right_mono [of 1 num_sect "2 ^ b"] by simp
  with r(3) have "off < num_sect * 2 ^ b" by linarith
  then have npos: "0 < n" "off + n \<le> num_sect * 2 ^ b" using n(2) r(3,4) by auto
  have neq: "n = (if len > num_sect * 2 ^ b - off then num_sect * 2 ^ b - off else len)"
    using n(2) by auto
  have fits: "n = len \<longrightarrow> slen \<le> num_sect"
    using slen_gt [of "2 ^ b" num_sect "off + len"] n(2) by (auto simp: slen_def)
  define bo where "bo = (if sh then off else sector mod vtrack b * 2 ^ b + off)"
  have cp: "copy_mem buf pos tb (nat bo) (nat n) = copy_mem buf pos img (nat (sector * 2 ^ b + off)) (nat n)"
  proof (rule copy_mem_cong)
    fix k assume "k < nat n"
    then have "nat off + k < nat (num_sect * 2 ^ b)" using npos r(2) by linarith
    from f(3) [OF this] show "tb (nat bo + k) = img (nat (sector * 2 ^ b + off) + k)"
      using r(1,2) p(1) by (simp add: bo_def nat_add_distrib add.assoc split: if_splits)
  qed
  define lg where "lg = (if disk_read_func s then read_log s @ hook_calls sector off n (2 ^ b) else read_log s)"
  define s2 where "s2 = s1\<lparr>trackbuf := tb, buf_track := sector - sector mod vtrack b\<rparr>"
  have s3: "(if disk_read_func s2
             then s2\<lparr>read_log := read_log s2 @ hook_calls sector off n (sector_size (buf_geom s2))\<rparr> else s2) =
      s\<lparr>read_log := lg, buf_drive := drive, buf_geom := disk_geom d,
        buf_track := sector - sector mod vtrack b, trackbuf := tb\<rparr>"
    by (simp add: s2_def s1_def lg_def geom(3))
  have "rawread_loop fw drive sector off len pos buf s =
      rawread_loop fw drive (s32 (sector + num_sect)) 0 (len - n) (pos + nat n)
        (copy_mem buf pos tb (nat bo) (nat n))
        (s\<lparr>read_log := lg, buf_drive := drive, buf_geom := disk_geom d,
           buf_track := sector - sector mod vtrack b, trackbuf := tb\<rparr>)"
    using e r(1,2,4) npos(1) in_disk o p(1)
    by (subst rawread_loop.simps)
      (simp add: sel geom slen sectors_per_vtrack_eq f(1) s2_def [symmetric] n(1) [symmetric] neq [symmetric]
        bo_def [symmetric] s3 Let_def cong: if_cong split del: if_split)
  with cp npos(1) fits f(2) show ?thesis by (auto simp: lg_def)
qed

lemma rawread_loop_ok:
  assumes "disk_ok fw drive d img b (efi s)" "errnum s = ERR_NONE"
    "buf_drive s = drive \<Longrightarrow> buf_geom s = disk_geom d"
    "buf_drive s = drive \<Longrightarrow> sector - sector mod vtrack b = buf_track s \<Longrightarrow>
       cache_ok img b (trackbuf s) (buf_track s)"
    "0 \<le> sector" "0 \<le> off" "off < 2 ^ b" "0 < len" "len < 2 ^ 30"
    "sector * 2 ^ b + off + len \<le> whole_sectors d b * 2 ^ b"
  shows "\<exists>t tb lg. rawread_loop fw drive sector off len pos buf s =
      Some (True, copy_mem buf pos img (nat (sector * 2 ^ b + off)) (nat len),
        s\<lparr>read_log := lg, buf_drive := drive, buf_geom := disk_geom d, buf_track := t, trackbuf := tb\<rparr>) \<and>
    0 \<le> t \<and> t < 2 ^ 31 \<and> cache_ok img b tb t \<and> (\<not> disk_read_func s \<longrightarrow> lg = read_log s)"
  using assms
proof (induction "nat len" arbitrary: sector off len pos buf s rule: less_induct)
  case less
  define num_sect where "num_sect = vtrack b - sector mod vtrack b"
  define n where "n = min len (num_sect * 2 ^ b - off)"
  have p: "0 < vtrack b" "media_sane (media d)"
    using vtrack_pos [of b] less.prems(1) by (auto simp: disk_ok_def)
  have sec: "sector < whole_sectors d b"
  proof -
    have "sector * 2 ^ b < whole_sectors d b * 2 ^ b" using less.prems by linarith
    then show ?thesis by simp
  qed
  obtain t tb lg where st:
    "rawread_loop fw drive sector off len pos buf s =
      rawread_loop fw drive (s32 (sector + num_sect)) 0 (len - n) (pos + nat n)
        (copy_mem buf pos img (nat (sector * 2 ^ b + off)) (nat n))
        (s\<lparr>read_log := lg, buf_drive := drive, buf_geom := disk_geom d, buf_track := t, trackbuf := tb\<rparr>)"
    "t = sector - sector mod vtrack b" "n = len \<longrightarrow> cache_ok img b tb t"
    "\<not> disk_read_func s \<longrightarrow> lg = read_log s" "0 < n"
    using rawread_step [OF less.prems(1-9) sec num_sect_def n_def] by blast
  let ?s' = "s\<lparr>read_log := lg, buf_drive := drive, buf_geom := disk_geom d, buf_track := t, trackbuf := tb\<rparr>"
  show ?case
  proof (cases "n = len")
    case True
    then have "rawread_loop fw drive sector off len pos buf s =
        Some (True, copy_mem buf pos img (nat (sector * 2 ^ b + off)) (nat len), ?s')"
      using st(1) less.prems(2) by (simp add: rawread_loop.simps)
    moreover have "0 \<le> t" "t < 2 ^ 31"
      using st(2) sec whole_sectors_le [OF p(1), of d] p(2) less.prems(5) pos_mod_sign [OF p(1), of sector]
        zmod_le_nonneg_dividend [of sector "vtrack b"] by (auto simp: media_sane_def)
    ultimately show ?thesis using True st(3,4) by blast
  next
    case False
    then have n: "n = num_sect * 2 ^ b - off" "n < len" by (auto simp: n_def)
    have eq: "(sector + num_sect) * 2 ^ b + 0 = sector * 2 ^ b + off + n" using n by (simp add: distrib_right)
    have "(sector + num_sect) * 2 ^ b < whole_sectors d b * 2 ^ b" using n eq less.prems(10) by linarith
    then have lt: "sector + num_sect < whole_sectors d b" by simp
    have ns: "0 < num_sect" using p(1) pos_mod_bound [of "vtrack b" sector] by (simp add: num_sect_def)
    then have "s32 (sector + num_sect) = sector + num_sect"
      using lt whole_sectors_le [OF p(1), of d] p(2) less.prems(5)
      by (intro s32_id) (auto simp: media_sane_def)
    moreover have "(sector + num_sect) mod vtrack b = 0"
      by (simp add: num_sect_def) (metis add.commute diff_add_eq minus_mod_eq_mult_div mod_add_self1 mod_mult_self1_is_0)
    moreover have "sector + num_sect \<noteq> t"
      using st(2) ns pos_mod_sign [OF p(1), of sector] by linarith
    ultimately have sec': "s32 (sector + num_sect) - s32 (sector + num_sect) mod vtrack b \<noteq> t"
      "0 \<le> s32 (sector + num_sect)" "s32 (sector + num_sect) = sector + num_sect"
      using ns less.prems(5) by simp_all
    have "\<exists>t' tb' lg'. rawread_loop fw drive (s32 (sector + num_sect)) 0 (len - n) (pos + nat n)
          (copy_mem buf pos img (nat (sector * 2 ^ b + off)) (nat n)) ?s' =
        Some (True, copy_mem (copy_mem buf pos img (nat (sector * 2 ^ b + off)) (nat n)) (pos + nat n) img
                (nat (s32 (sector + num_sect) * 2 ^ b + 0)) (nat (len - n)),
          ?s'\<lparr>read_log := lg', buf_drive := drive, buf_geom := disk_geom d, buf_track := t', trackbuf := tb'\<rparr>) \<and>
        0 \<le> t' \<and> t' < 2 ^ 31 \<and> cache_ok img b tb' t' \<and> (\<not> disk_read_func ?s' \<longrightarrow> lg' = read_log ?s')"
      using n st(5) less.prems sec' eq by (intro less.hyps) auto
    then obtain t' tb' lg' where rec:
      "rawread_loop fw drive (s32 (sector + num_sect)) 0 (len - n) (pos + nat n)
          (copy_mem buf pos img (nat (sector * 2 ^ b + off)) (nat n)) ?s' =
        Some (True, copy_mem (copy_mem buf pos img (nat (sector * 2 ^ b + off)) (nat n)) (pos + nat n) img
                (nat (s32 (sector + num_sect) * 2 ^ b + 0)) (nat (len - n)),
          ?s'\<lparr>read_log := lg', buf_drive := drive, buf_geom := disk_geom d, buf_track := t', trackbuf := tb'\<rparr>)"
      "0 \<le> t'" "t' < 2 ^ 31" "cache_ok img b tb' t'" "\<not> disk_read_func ?s' \<longrightarrow> lg' = read_log ?s'"
      by blast
    have "nat (s32 (sector + num_sect) * 2 ^ b + 0) = nat (sector * 2 ^ b + off) + nat n"
      using eq sec'(3) st(5) less.prems(5,6) by (simp only: eq sec'(3)) (simp add: nat_add_distrib)
    moreover have "nat n + nat (len - n) = nat len" using st(5) n by simp
    ultimately have "copy_mem (copy_mem buf pos img (nat (sector * 2 ^ b + off)) (nat n)) (pos + nat n) img
                (nat (s32 (sector + num_sect) * 2 ^ b + 0)) (nat (len - n)) =
        copy_mem buf pos img (nat (sector * 2 ^ b + off)) (nat len)"
      using copy_mem_append [of buf pos img "nat (sector * 2 ^ b + off)" "nat n" "nat (len - n)"] by simp
    with st rec show ?thesis by auto
  qed
qed

text \<open>What a read changes: the buffer, its tags and the log.\<close>

definition buffer_step :: "'w dstate \<Rightarrow> 'w dstate \<Rightarrow> bool" where
  "buffer_step s s' \<longleftrightarrow>
     (\<exists>lg dr g t tb. s' = s\<lparr>read_log := lg, buf_drive := dr, buf_geom := g, buf_track := t, trackbuf := tb\<rparr> \<and>
        (\<not> disk_read_func s \<longrightarrow> lg = read_log s))"

lemma buffer_step_refl: "buffer_step s s"
  unfolding buffer_step_def
  by (intro exI [of _ "read_log s"] exI [of _ "buf_drive s"] exI [of _ "buf_geom s"]
      exI [of _ "buf_track s"] exI [of _ "trackbuf s"]) simp

lemma buffer_step_trans:
  assumes "buffer_step s t" "buffer_step t u"
  shows "buffer_step s u"
proof -
  from assms(1) obtain lg dr g tr tb where
    t: "t = s\<lparr>read_log := lg, buf_drive := dr, buf_geom := g, buf_track := tr, trackbuf := tb\<rparr>"
      "\<not> disk_read_func s \<longrightarrow> lg = read_log s" unfolding buffer_step_def by blast
  from assms(2) obtain lg' dr' g' tr' tb' where
    u: "u = t\<lparr>read_log := lg', buf_drive := dr', buf_geom := g', buf_track := tr', trackbuf := tb'\<rparr>"
      "\<not> disk_read_func t \<longrightarrow> lg' = read_log t" unfolding buffer_step_def by blast
  have "u = s\<lparr>read_log := lg', buf_drive := dr', buf_geom := g', buf_track := tr', trackbuf := tb'\<rparr>"
    unfolding u(1) t(1) by simp
  moreover have "\<not> disk_read_func s \<longrightarrow> lg' = read_log s" using u(2) t by simp
  ultimately show ?thesis unfolding buffer_step_def by blast
qed

lemma rawread_ok:
  assumes ok: "disk_ok fw drive d img b (efi s)" and e: "errnum s = ERR_NONE"
    and bo: "buffer_ok drive d img b s"
    and r: "0 \<le> sector" "0 \<le> off" "off < 2 ^ b" "len < 2 ^ 30"
      "sector * 2 ^ b + off + len \<le> whole_sectors d b * 2 ^ b"
  shows "\<exists>s'. rawread fw drive sector off len buf s =
      Some (True, copy_mem buf 0 img (nat (sector * 2 ^ b + off)) (nat len), s') \<and>
    buffer_ok drive d img b s' \<and> buffer_step s s' \<and> (0 < len \<longrightarrow> buf_drive s' = drive)"
proof (cases "0 < len")
  case False
  then show ?thesis using bo buffer_step_refl by (auto simp: rawread_def)
next
  case True
  have g: "buf_drive s = drive \<Longrightarrow> buf_geom s = disk_geom d"
    "buf_drive s = drive \<Longrightarrow> cache_ok img b (trackbuf s) (buf_track s)"
    using bo by (auto simp: buffer_ok_def)
  obtain t tb lg where l: "rawread_loop fw drive sector off len 0 buf s =
      Some (True, copy_mem buf 0 img (nat (sector * 2 ^ b + off)) (nat len),
        s\<lparr>read_log := lg, buf_drive := drive, buf_geom := disk_geom d, buf_track := t, trackbuf := tb\<rparr>)"
    "0 \<le> t" "t < 2 ^ 31" "cache_ok img b tb t" "\<not> disk_read_func s \<longrightarrow> lg = read_log s"
    using rawread_loop_ok [OF ok e g r(1,2,3) True r(4,5)] by blast
  let ?s' = "s\<lparr>read_log := lg, buf_drive := drive, buf_geom := disk_geom d, buf_track := t, trackbuf := tb\<rparr>"
  have "buffer_ok drive d img b ?s'" using l(2-4) by (simp add: buffer_ok_def)
  moreover have "buffer_step s ?s'" unfolding buffer_step_def using l(5) by blast
  moreover have "buf_drive ?s' = drive" by simp
  ultimately show ?thesis using True l(1) unfolding rawread_def by auto
qed

text \<open>
  C2: Correctness of \<^verbatim>\<open>rawread\<close> through the track buffer. On a disk the firmware serves
  (\<open>disk_ok\<close>), with a coherent buffer and no pending error, a read of any length that
  ends within the whole virtual tracks of the medium returns, reports success, stores
  exactly the requested bytes of the medium in the caller's buffer, changes nothing but the
  buffer, its tags and the log, and leaves the buffer coherent.
\<close>

theorem rawread_correct:
  assumes "disk_ok fw drive d img b (efi s)" "errnum s = ERR_NONE" "buffer_ok drive d img b s"
    "0 \<le> sector" "0 \<le> off" "off < 2 ^ b" "len < 2 ^ 30"
    "sector * 2 ^ b + off + len \<le> whole_sectors d b * 2 ^ b"
  shows "\<exists>s'. rawread fw drive sector off len buf s =
      Some (True, copy_mem buf 0 img (nat (sector * 2 ^ b + off)) (nat len), s') \<and>
    buffer_ok drive d img b s' \<and> buffer_step s s' \<and> (0 < len \<longrightarrow> buf_drive s' = drive)"
  using rawread_ok [OF assms] .

section \<open>Reading the open partition\<close>

definition part_img :: "mem \<Rightarrow> nat \<Rightarrow> int \<Rightarrow> mem" where
  "part_img img b start = (\<lambda>k. img (nat (start * 2 ^ b) + k))"

lemma and_sector_mask: "x AND (2 ^ b - 1) = x mod (2 ^ b :: int)"
  using take_bit_eq_mask [of b x] by (simp add: take_bit_eq_mod mask_eq_exp_minus_1)

lemma disk_ok_sector_size:
  "disk_ok fw drive d img b e \<Longrightarrow> get_sector_size e drive = Some (2 ^ b) \<and> get_sector_bits e drive = Some b"
  by (simp add: disk_ok_def get_sector_size_def get_sector_bits_def)

lemma devread_ok:
  assumes ok: "disk_ok fw (current_drive s) d img b (efi s)" and e: "errnum s = ERR_NONE"
    and bo: "buffer_ok (current_drive s) d img b s"
    and part: "0 \<le> part_start s" "part_start s + N \<le> whole_sectors d b" "N \<le> part_length s"
    and r: "0 \<le> sector" "0 \<le> off" "0 < len" "len < 2 ^ 30" "sector * 2 ^ b + off + len \<le> N * 2 ^ b" "off + len \<le> 2 ^ 31"
  shows "\<exists>s'. devread fw sector off len buf s =
      Some (True, copy_mem buf 0 (part_img img b (part_start s)) (nat (sector * 2 ^ b + off)) (nat len), s') \<and>
    buffer_ok (current_drive s) d img b s' \<and> buffer_step s s'"
proof -
  have m: "media_sane (media d)" "9 \<le> b" "b \<le> 14" using ok by (simp_all add: disk_ok_def)
  have W: "whole_sectors d b < 2 ^ 31"
    using whole_sectors_le [of b d] vtrack_pos [OF m(2,3)] m(1) by (auto simp: media_sane_def)
  define q where "q = off div 2 ^ b"
  have off: "off = q * 2 ^ b + off mod 2 ^ b"
    unfolding q_def by (rule div_mult_mod_eq [symmetric])
  have q: "0 \<le> q" "0 \<le> off mod 2 ^ b" "off mod 2 ^ b < 2 ^ b" using r(2) by (simp_all add: q_def pos_imp_zdiv_nonneg_iff)
  have "(sector + (off + len - 1) div 2 ^ b) = (off + len - 1 + sector * 2 ^ b) div 2 ^ b" by simp
  moreover have "\<not> N \<le> (off + len - 1 + sector * 2 ^ b) div 2 ^ b"
    unfolding int_le_div_iff [OF zero_less_power [OF zero_less_numeral]] using r(5) by linarith
  moreover have "0 \<le> (off + len - 1 + sector * 2 ^ b) div 2 ^ b"
    using r by (intro div_int_pos_iff [THEN iffD2]) auto
  ultimately have last: "sector + (off + len - 1) div 2 ^ b < N" "0 \<le> sector + (off + len - 1) div 2 ^ b"
    by linarith+
  then have "u32 (sector + (off + len - 1) div 2 ^ b) < part_length s"
    using part W by (subst u32_id) auto
  moreover have "s32 (off + len - 1) = off + len - 1" using r(2,3,6) by (intro s32_id) auto
  ultimately have chk: "u32 (sector + s32 (off + len - 1) div 2 ^ b) < part_length s" by simp
  have "q \<le> (off + len - 1) div 2 ^ b" unfolding q_def using r(3) by (intro zdiv_mono1) auto
  then have s32: "s32 (part_start s + (sector + q)) = part_start s + (sector + q)"
    using last(1) part(1,2) W r(1) q(1) by (intro s32_id) auto
  have addr: "(part_start s + (sector + q)) * 2 ^ b + off mod 2 ^ b = part_start s * 2 ^ b + (sector * 2 ^ b + off)"
    using off by (simp add: distrib_right)
  have "part_start s * 2 ^ b + N * 2 ^ b \<le> whole_sectors d b * 2 ^ b"
    using part(2) mult_right_mono [of "part_start s + N" "whole_sectors d b" "2 ^ b"] by (simp add: distrib_right)
  then have rng: "(part_start s + (sector + q)) * 2 ^ b + off mod 2 ^ b + len \<le> whole_sectors d b * 2 ^ b"
    using r(5) addr by linarith
  have sec0: "0 \<le> part_start s + (sector + q)" using part(1) r(1) q(1) by simp
  from rawread_ok [OF ok e bo sec0 q(2,3) r(4) rng, of buf] obtain s' where s':
    "rawread fw (current_drive s) (part_start s + (sector + q)) (off mod 2 ^ b) len buf s =
      Some (True, copy_mem buf 0 img (nat (part_start s * 2 ^ b + (sector * 2 ^ b + off))) (nat len), s')"
    "buffer_ok (current_drive s) d img b s'" "buffer_step s s'" unfolding addr by blast
  have "copy_mem buf 0 img (nat (part_start s * 2 ^ b + (sector * 2 ^ b + off))) (nat len) =
      copy_mem buf 0 (part_img img b (part_start s)) (nat (sector * 2 ^ b + off)) (nat len)"
    using part(1) r(1,2) by (intro copy_mem_cong) (simp add: part_img_def nat_add_distrib add.assoc)
  with s' chk r(1) disk_ok_sector_size [OF ok] s32 show ?thesis
    by (simp add: devread_def and_sector_mask q_def [symmetric] Let_def not_le)
qed

text \<open>
  C6: Partition bounds. For a request whose end \<open>off + len\<close> is an \<^verbatim>\<open>int\<close>, \<^verbatim>\<open>devread\<close> decides by the bytes
  asked for: if one of them lies before the partition or behind its last byte, it returns false with
  \<^verbatim>\<open>ERR_OUTSIDE_PART\<close>, and neither the caller's buffer nor any other state changes; otherwise the disk is read,
  at the sector and offset that the start of the partition and the byte offset make.
\<close>

theorem devread_bounds:
  assumes "get_device_from_drive (efi s) (current_drive s) = Some d" "block_size (media d) = 2 ^ b" "b < 32"
    "sector < 2 ^ 31" "0 \<le> off" "0 < len" "off + len \<le> 2 ^ 31"
  shows "devread fw sector off len buf s =
    (if sector < 0 \<or> part_length s * 2 ^ b < sector * 2 ^ b + off + len
     then Some (False, buf, s\<lparr>errnum := ERR_OUTSIDE_PART\<rparr>)
     else rawread fw (current_drive s) (s32 (part_start s + sector + off div 2 ^ b)) (off mod 2 ^ b) len buf s)"
proof -
  have ss: "get_sector_size (efi s) (current_drive s) = Some (2 ^ b)" "get_sector_bits (efi s) (current_drive s) = Some b"
    using assms(1-3) bsf_exp [of b] by (simp_all add: get_sector_size_def get_sector_bits_def)
  have s: "s32 (off + len - 1) = off + len - 1" using assms(5-7) by (intro s32_id) auto
  have chk: "part_length s \<le> u32 (sector + (off + len - 1) div 2 ^ b) \<longleftrightarrow> part_length s * 2 ^ b < sector * 2 ^ b + off + len"
    if "0 \<le> sector"
  proof -
    have "(off + len - 1) div 2 ^ b \<le> off + len - 1" "0 \<le> (off + len - 1) div 2 ^ b"
      using assms(5,6) div_by_1 [of "off + len - 1"] zdiv_mono2 [of "off + len - 1" 1 "2 ^ b"] by (simp_all add: pos_imp_zdiv_nonneg_iff)
    then have "u32 (sector + (off + len - 1) div 2 ^ b) = sector + (off + len - 1) div 2 ^ b"
      using that assms(4,7) by (intro u32_id) auto
    also have "\<dots> = (off + len - 1 + sector * 2 ^ b) div 2 ^ b" by simp
    finally have "part_length s \<le> u32 (sector + (off + len - 1) div 2 ^ b) \<longleftrightarrow>
        part_length s * 2 ^ b \<le> off + len - 1 + sector * 2 ^ b" by (simp only: int_le_div_iff [OF zero_less_power [OF zero_less_numeral]])
    then show ?thesis by linarith
  qed
  show ?thesis
    using chk by (auto simp: devread_def ss s and_sector_mask Let_def add.assoc not_le)
qed

text \<open>
  C5: \<^verbatim>\<open>devread\<close> reads the open partition: a request inside the first \<open>N\<close> sectors of
  the partition, which lie within the whole virtual tracks of the disk, delivers the bytes
  of the partition. The byte offset may span many sectors, as long as the end of the request,
  counted from the sector, is within the range of an \<^verbatim>\<open>int\<close>.
\<close>

theorem devread_correct:
  assumes "disk_ok fw (current_drive s) d img b (efi s)" "errnum s = ERR_NONE"
    "buffer_ok (current_drive s) d img b s"
    "0 \<le> part_start s" "part_start s + N \<le> whole_sectors d b" "N \<le> part_length s"
    "0 \<le> sector" "0 \<le> off" "0 < len" "len < 2 ^ 30" "sector * 2 ^ b + off + len \<le> N * 2 ^ b" "off + len \<le> 2 ^ 31"
  shows "\<exists>s'. devread fw sector off len buf s =
      Some (True, copy_mem buf 0 (part_img img b (part_start s)) (nat (sector * 2 ^ b + off)) (nat len), s') \<and>
    buffer_ok (current_drive s) d img b s' \<and> buffer_step s s'"
  using devread_ok [OF assms] .

section \<open>A concrete disk\<close>

text \<open>Firmware over a byte image, and a state with one hard disk of 2016 sectors of 512 bytes
  whose byte \<open>k\<close> is the number of its sector.\<close>

definition ram_firmware :: "mem firmware" where
  "ram_firmware = \<lparr>fw_read = \<lambda>w i m off n. (EFI_SUCCESS, mem_slice w (nat off) (nat n)),
     fw_write = \<lambda>w i m off n bs. (EFI_SUCCESS, store_list w (nat off) bs),
     fw_locate_handle = \<lambda>w n. (EFI_SUCCESS, 4, [1]), fw_device_path = \<lambda>w h. None,
     fw_block_io = \<lambda>w h. None, fw_disk_io = \<lambda>w h. None\<rparr>"

definition sample_image :: mem where
  "sample_image k = of_nat (k div 512)"

definition sample_efi1 :: "'w \<Rightarrow> 'w efi_state" where
  "sample_efi1 w = (sample_efi w)\<lparr>hd_devices := [sample_disk 1 3 7]\<rparr>"

definition sample_state :: "mem \<Rightarrow> mem dstate" where
  "sample_state w = \<lparr>errnum = ERR_NONE, filepos = 0, filemax = 0, fsmax = MAXINT,
     current_drive = 0x80, current_partition = 0xFFFFFF, current_slice = 0,
     part_start = 0, part_length = 2016, saved_drive = 0x80, saved_partition = 0xFFFFFF,
     bsd_evil_hack = 0, fsys_type = 0, disk_read_hook = False, disk_read_func = False, read_log = [],
     print_possibilities = 0, do_completion = False, unique = 0, unique_string = [], console = [],
     efi = sample_efi1 w, buf_drive = - 1, buf_track = 0,
     buf_geom = \<lparr>cylinders = 0, heads = 0, sectors = 0, total_sectors = 0, sector_size = 0, flags = 0\<rparr>,
     trackbuf = \<lambda>_. 0, scratchbuf = \<lambda>_. 0\<rparr>"

definition disk0 :: efidisk_data where
  "disk0 = sample_disk 1 3 7"

lemma sample_device: "get_device_from_drive (sample_efi1 w) 0x80 = Some disk0"
  by (simp add: sample_efi1_def sample_efi_def get_device_from_drive_def GRUB_INVALID_DRIVE_def disk0_def)

lemma sample_media [simp]: "block_size (media disk0) = 512"
  "last_block (media disk0) = 2015"
  by (simp_all add: disk0_def sample_disk_def Let_def)

lemma ram_disk_image: "disk_image ram_firmware w d w"
  by (simp add: disk_image_def ram_firmware_def)

lemma ram_disk_writable: "disk_writable ram_firmware d"
proof -
  let ?size = "(last_block (media d) + 1) * block_size (media d)"
  have agree: "w k = img k" if "disk_image ram_firmware w d img" "int k < ?size" for w img k
  proof -
    have "mem_slice w (nat (int k)) (nat 1) = mem_slice img (nat (int k)) (nat 1)"
      using that(1) [unfolded disk_image_def ram_firmware_def, rule_format, of "int k" 1] that(2) by simp
    then show ?thesis by (simp add: mem_slice_def)
  qed
  have "disk_image ram_firmware (store_list w off bytes) d (store_list img off bytes)"
    if "disk_image ram_firmware w d img" for w img off bytes
    unfolding disk_image_def using agree [OF that]
    by (auto simp: ram_firmware_def store_list_def intro!: mem_slice_cong)
  then show ?thesis by (auto simp: disk_writable_def ram_firmware_def)
qed

lemma sample_no_ezd: "no_ezd sample_image 9"
proof -
  have "(sec * 512 + (450 + 16 * i)) div 512 = sec" if "i \<le> 3" for sec i :: nat
    using that by simp
  then have "sample_image (sec * 512 + (450 + 16 * i)) = of_nat sec" if "i \<le> 3" for sec i
    using that by (simp add: sample_image_def)
  then have "PC_SLICE_TYPE (\<lambda>k. sample_image (sec * 512 + k)) i = int sec mod 256" if "i \<le> 3" for sec i
    using that by (simp add: PC_SLICE_TYPE_def ld8_def unsigned_of_nat take_bit_eq_mod zmod_int)
  then show ?thesis by (auto simp: no_ezd_def has_ezd_def vtrack_def)
qed

lemma sample_disk_ok: "disk_ok ram_firmware 0x80 disk0 sample_image 9 (sample_efi1 sample_image)"
  using sample_device [of sample_image] ram_disk_image sample_no_ezd
  by (simp add: disk_ok_def media_sane_def) (simp add: sample_efi1_def sample_efi_def)

lemma sample_whole: "whole_sectors disk0 9 = 2016"
  by (simp add: whole_sectors_def vtrack_def)

lemma sample_buffer_ok: "buffer_ok 0x80 disk0 sample_image 9 (sample_state w)"
  by (simp add: buffer_ok_def sample_state_def)

lemma sample_state_simps [simp]:
  "efi (sample_state w) = sample_efi1 w" "errnum (sample_state w) = ERR_NONE"
  "current_drive (sample_state w) = 0x80" "part_start (sample_state w) = 0"
  "part_length (sample_state w) = 2016"
  by (simp_all add: sample_state_def)

theorem rawread_correct_witness:
  "\<exists>s'. rawread ram_firmware 0x80 60 100 30000 (\<lambda>_. 0) (sample_state sample_image) =
     Some (True, copy_mem (\<lambda>_. 0) 0 sample_image 30820 30000, s')"
  using rawread_correct [where fw = ram_firmware and drive = 128 and d = disk0 and img = sample_image and b = 9
      and s = "sample_state sample_image" and sector = 60 and off = 100 and len = 30000 and buf = "\<lambda>_. 0"]
    sample_disk_ok sample_buffer_ok
  by (auto simp: sample_whole)

theorem devread_bounds_witness:
  "devread ram_firmware 2015 0 513 (\<lambda>_. 0) (sample_state sample_image) =
     Some (False, \<lambda>_. 0, (sample_state sample_image)\<lparr>errnum := ERR_OUTSIDE_PART\<rparr>)"
  using devread_bounds [where fw = ram_firmware and s = "sample_state sample_image" and d = disk0 and b = 9
      and sector = 2015 and off = 0 and len = 513 and buf = "\<lambda>_. 0"] sample_device [of sample_image] by simp

theorem devread_correct_witness:
  "\<exists>s'. devread ram_firmware 3 700 5 (\<lambda>_. 0) (sample_state sample_image) =
     Some (True, copy_mem (\<lambda>_. 0) 0 (part_img sample_image 9 0) 2236 5, s')"
  using devread_correct [of ram_firmware "sample_state sample_image" disk0 sample_image 9 2016
      3 700 5 "\<lambda>_. 0"] sample_disk_ok sample_buffer_ok
  by (auto simp: sample_whole)

section \<open>The boot flag\<close>

definition IS_PC_SLICE_TYPE_EXTENDED :: "int \<Rightarrow> bool" where
  "IS_PC_SLICE_TYPE_EXTENDED ty \<longleftrightarrow> ty = 5 \<or> ty = 0xF \<or> ty = 0x85"

text \<open>\<^verbatim>\<open>make_saved_active\<close>. The MBR is read into a 512-byte array of the stack whose former
  contents are the argument \<open>mbr0\<close>; a drive with larger sectors overruns it.\<close>

definition make_saved_active :: "'w firmware \<Rightarrow> mem \<Rightarrow> 'w dstate \<Rightarrow> (bool \<times> 'w dstate) option" where
  "make_saved_active fw mbr0 s =
     (if saved_drive s AND 0x80 \<noteq> 0
      then let part = saved_partition s div 2 ^ 16
           in if part > 3 then Some (False, s\<lparr>errnum := ERR_DEV_VALUES\<rparr>)
              else case get_sector_size (efi s) (saved_drive s) of
                None \<Rightarrow> None
              | Some ss \<Rightarrow>
                  if ss > 512 then None
                  else case rawread fw (saved_drive s) 0 0 ss mbr0 s of
                    None \<Rightarrow> None
                  | Some (ok, mbr, s1) \<Rightarrow>
                      if \<not> ok then Some (False, s1)
                      else if IS_PC_SLICE_TYPE_EXTENDED (PC_SLICE_TYPE mbr (nat part))
                      then Some (False, s1\<lparr>errnum := ERR_DEV_VALUES\<rparr>)
                      else if PC_SLICE_FLAG mbr (nat part) \<noteq> 0x80
                      then rawwrite fw (saved_drive s) 0
                             (mbr(446 := 0, 462 := 0, 478 := 0, 494 := 0, 446 + 16 * nat part := 0x80)) s1
                      else Some (True, s1)
      else Some (False, s\<lparr>errnum := ERR_DEV_VALUES\<rparr>))"

section \<open>Writing through to the medium\<close>

lemma rawwrite_tag_eq:
  assumes "0 \<le> sector" "sector < 2 ^ 31" "- 1 \<le> t" "t < 2 ^ 31"
  shows "u32 (sector - u32 sector mod 63) = u32 t \<longleftrightarrow> sector - sector mod 63 = t"
proof -
  have "0 \<le> sector - sector mod 63" "sector - sector mod 63 < 2 ^ 31"
    using assms zmod_le_nonneg_dividend [of sector 63] pos_mod_sign [of 63 sector] by auto
  then show ?thesis using assms by (simp add: u32_id u32_small)
qed

lemma rawwrite_ok:
  assumes ok: "disk_ok fw drive d img b (efi s)" and wr: "disk_writable fw d"
    and g: "sectors (buf_geom s) = 63" "- 1 \<le> buf_track s" "buf_track s < 2 ^ 31"
    and r: "0 \<le> sector" "sector \<le> last_block (media d)"
  shows "\<exists>sc w'. rawwrite fw drive sector buf s =
      Some (True, s\<lparr>efi := (efi s)\<lparr>world := w'\<rparr>, scratchbuf := sc,
        buf_track := if sector - sector mod 63 = buf_track s then - 1 else buf_track s\<rparr>) \<and>
    (\<forall>k < 2 ^ b. sc k = buf k) \<and>
    disk_image fw w' d (copy_mem img (nat (sector * 2 ^ b)) buf 0 (2 ^ b))"
proof -
  from ok have o: "get_device_from_drive (efi s) drive = Some d" "disk_image fw (world (efi s)) d img"
    "media_sane (media d)" "block_size (media d) = 2 ^ b" "9 \<le> b" "b \<le> 14" "no_ezd img b"
    by (simp_all add: disk_ok_def)
  have sec: "sector < 2 ^ 31" using o(3) r(2) by (simp add: media_sane_def)
  define sc where "sc = (if sector = 0 then copy_mem (scratchbuf s) 0 img 0 (2 ^ b) else scratchbuf s)"
  have rd: "(if sector = 0 then biosdisk fw BIOSDISK_READ drive 0 1 (scratchbuf s) (efi s)
             else (0, scratchbuf s, efi s)) = (0, sc, efi s)"
    using biosdisk_read_ok [OF o(1,2,3), of 0 1 "scratchbuf s"] r o(3,4)
    by (simp add: sc_def media_sane_def nat_power_eq)
  have big: "(512 :: nat) \<le> 2 ^ b" using power_increasing [OF o(5), of "2 :: nat"] by simp
  have ez: "\<not> (sector = 0 \<and> has_ezd sc)"
  proof (cases "sector = 0")
    case True
    have "has_ezd sc = has_ezd (\<lambda>k. img (0 * 2 ^ b + k))"
      using True big by (intro has_ezd_cong) (simp add: sc_def copy_mem_def)
    then show ?thesis
      using o(7) [unfolded no_ezd_def, rule_format, of 0] vtrack_pos [OF o(5,6)] by simp
  qed simp
  define sc2 where "sc2 = copy_mem sc 0 buf 0 (2 ^ b)"
  have ss: "get_sector_size (efi s) drive = Some (2 ^ b)" using disk_ok_sector_size [OF ok] by simp
  obtain w' where w': "biosdisk fw BIOSDISK_WRITE drive sector 1 sc2 (efi s) = (0, sc2, (efi s)\<lparr>world := w'\<rparr>)"
    "disk_image fw w' d (copy_mem img (nat (sector * 2 ^ b)) sc2 0 (2 ^ b))"
    using biosdisk_write_ok [OF o(1,2) wr o(3), of sector 1 sc2] r o(4) by (auto simp: nat_power_eq)
  have "copy_mem img (nat (sector * 2 ^ b)) sc2 0 (2 ^ b) = copy_mem img (nat (sector * 2 ^ b)) buf 0 (2 ^ b)"
    by (rule copy_mem_cong) (simp add: sc2_def copy_mem_def)
  then have img: "disk_image fw w' d (copy_mem img (nat (sector * 2 ^ b)) buf 0 (2 ^ b))" using w'(2) by simp
  have "rawwrite fw drive sector buf s =
      Some (True, s\<lparr>efi := (efi s)\<lparr>world := w'\<rparr>, scratchbuf := sc2,
        buf_track := if sector - sector mod 63 = buf_track s then - 1 else buf_track s\<rparr>)"
    using rawwrite_tag_eq [OF r(1) sec g(2,3)]
    by (simp add: rawwrite_def rd ez ss w'(1) sc2_def [symmetric] g(1) Let_def nat_power_eq)
  moreover have "\<forall>k < 2 ^ b. sc2 k = buf k" by (simp add: sc2_def copy_mem_def)
  ultimately show ?thesis using img by blast
qed

text \<open>The buffer stays right when the written sector is not in the buffered track, or when the
  tag test of \<^verbatim>\<open>rawwrite\<close> hits.\<close>

lemma cache_ok_write:
  assumes "cache_ok img b tb t" "0 \<le> sector" "sector < t \<or> t + vtrack b \<le> sector" "0 < vtrack b"
  shows "cache_ok (copy_mem img (nat (sector * 2 ^ b)) buf 0 (2 ^ b)) b tb t"
proof -
  have "copy_mem img (nat (sector * 2 ^ b)) buf 0 (2 ^ b) (nat (t * 2 ^ b) + k) = img (nat (t * 2 ^ b) + k)"
    if "0 \<le> t" "k < nat (vtrack b * 2 ^ b)" for k
  proof (rule copy_mem_out)
    have nk: "nat (t * 2 ^ b) = nat t * 2 ^ b" "nat (sector * 2 ^ b) = nat sector * 2 ^ b"
      "nat (vtrack b * 2 ^ b) = nat (vtrack b) * 2 ^ b"
      using that(1) assms(2,4) by (simp_all add: nat_sector_bytes)
    from assms(3) show "nat (t * 2 ^ b) + k < nat (sector * 2 ^ b) \<or>
        nat (sector * 2 ^ b) + 2 ^ b \<le> nat (t * 2 ^ b) + k"
    proof
      assume "sector < t"
      then have "(nat sector + 1) * 2 ^ b \<le> nat t * 2 ^ b" using assms(2) by (intro mult_right_mono) auto
      then show ?thesis by (simp add: nk)
    next
      assume "t + vtrack b \<le> sector"
      then have "(nat t + nat (vtrack b)) * 2 ^ b \<le> nat sector * 2 ^ b"
        using that(1) assms(4) by (intro mult_right_mono) auto
      then show ?thesis using that(2) by (simp add: nk distrib_right)
    qed
  qed
  with assms(1) show ?thesis by (simp add: cache_ok_def)
qed

lemma rawwrite_state:
  assumes ok: "disk_ok fw drive d img b (efi s)" and wr: "disk_writable fw d"
    and g: "buf_drive s = drive" "buffer_ok drive d img b s"
    and r: "0 \<le> sector" "sector \<le> last_block (media d)"
    and far: "buf_track s < 0 \<or> sector < buf_track s \<or> buf_track s + vtrack b \<le> sector \<or>
       sector - sector mod 63 = buf_track s"
  shows "\<exists>w sc t. rawwrite fw drive sector buf s =
      Some (True, s\<lparr>efi := (efi s)\<lparr>world := w\<rparr>, scratchbuf := sc, buf_track := t\<rparr>) \<and>
    disk_image fw w d (copy_mem img (nat (sector * 2 ^ b)) buf 0 (2 ^ b)) \<and>
    (\<forall>k < 2 ^ b. sc k = buf k) \<and> t \<in> {buf_track s, - 1} \<and>
    buffer_ok drive d (copy_mem img (nat (sector * 2 ^ b)) buf 0 (2 ^ b)) b
      (s\<lparr>efi := (efi s)\<lparr>world := w\<rparr>, scratchbuf := sc, buf_track := t\<rparr>)"
proof -
  have geom: "buf_geom s = disk_geom d" "cache_ok img b (trackbuf s) (buf_track s)"
    and tag: "- 1 \<le> buf_track s" "buf_track s < 2 ^ 31"
    using g(1,2) by (simp_all add: buffer_ok_def)
  have v: "0 < vtrack b" using ok vtrack_pos [of b] by (simp add: disk_ok_def)
  define t where "t = (if sector - sector mod 63 = buf_track s then - 1 else buf_track s)"
  have "sectors (buf_geom s) = 63" by (simp add: geom disk_geom_def Let_def)
  from rawwrite_ok [OF ok wr this tag r, of buf] obtain sc w where
    w: "rawwrite fw drive sector buf s =
      Some (True, s\<lparr>efi := (efi s)\<lparr>world := w\<rparr>, scratchbuf := sc, buf_track := t\<rparr>)"
    "\<forall>k < 2 ^ b. sc k = buf k"
    "disk_image fw w d (copy_mem img (nat (sector * 2 ^ b)) buf 0 (2 ^ b))" unfolding t_def by blast
  have "cache_ok (copy_mem img (nat (sector * 2 ^ b)) buf 0 (2 ^ b)) b (trackbuf s) t"
    using cache_ok_write [OF geom(2) r(1) _ v, of buf] far by (auto simp: cache_ok_def t_def)
  then have "buffer_ok drive d (copy_mem img (nat (sector * 2 ^ b)) buf 0 (2 ^ b)) b
      (s\<lparr>efi := (efi s)\<lparr>world := w\<rparr>, scratchbuf := sc, buf_track := t\<rparr>)"
    using geom(1) tag by (simp add: buffer_ok_def t_def)
  moreover have "t \<in> {buf_track s, - 1}" by (simp add: t_def)
  ultimately show ?thesis using w by blast
qed

lemma rawwrite_buffer_ok:
  assumes "disk_ok fw drive d img b (efi s)" "disk_writable fw d" "buf_drive s = drive" "buffer_ok drive d img b s"
    "0 \<le> sector" "sector \<le> last_block (media d)"
    "buf_track s < 0 \<or> sector < buf_track s \<or> buf_track s + vtrack b \<le> sector \<or> sector - sector mod 63 = buf_track s"
  shows "\<exists>s'. rawwrite fw drive sector buf s = Some (True, s') \<and>
    disk_image fw (world (efi s')) d (copy_mem img (nat (sector * 2 ^ b)) buf 0 (2 ^ b)) \<and>
    buffer_ok drive d (copy_mem img (nat (sector * 2 ^ b)) buf 0 (2 ^ b)) b s' \<and>
    stage2.truncate s' = stage2.truncate s"
  using rawwrite_state [OF assms, of buf] by (fastforce simp: stage2.defs)

text \<open>
  C20: \<^verbatim>\<open>rawwrite\<close> writes one sector: it succeeds, the medium changes in exactly that sector, and of the state only
  the scratch buffer, which then begins with the sector, and the tag of the track buffer change, the tag at most to -1.
  The track buffer agrees with the new medium, provided the sector is outside the buffered track or the test on the
  tag (which divides by the geometry's 63 sectors) finds it.
\<close>

theorem rawwrite_correct:
  assumes "disk_ok fw drive d img b (efi s)" "disk_writable fw d"
    "buf_drive s = drive" "buffer_ok drive d img b s"
    "0 \<le> sector" "sector \<le> last_block (media d)"
    "buf_track s < 0 \<or> sector < buf_track s \<or> buf_track s + vtrack b \<le> sector \<or>
       sector - sector mod 63 = buf_track s"
  shows "\<exists>w sc t. rawwrite fw drive sector buf s =
      Some (True, s\<lparr>efi := (efi s)\<lparr>world := w\<rparr>, scratchbuf := sc, buf_track := t\<rparr>) \<and>
    disk_image fw w d (copy_mem img (nat (sector * 2 ^ b)) buf 0 (2 ^ b)) \<and>
    (\<forall>k < 2 ^ b. sc k = buf k) \<and> t \<in> {buf_track s, - 1} \<and>
    buffer_ok drive d (copy_mem img (nat (sector * 2 ^ b)) buf 0 (2 ^ b)) b
      (s\<lparr>efi := (efi s)\<lparr>world := w\<rparr>, scratchbuf := sc, buf_track := t\<rparr>)"
  using rawwrite_state [OF assms] .

definition tagged_state :: "int \<Rightarrow> mem \<Rightarrow> mem dstate" where
  "tagged_state t w = (sample_state w)\<lparr>buf_drive := 0x80, buf_geom := disk_geom disk0, buf_track := t,
     trackbuf := \<lambda>k. w (nat (t * 512) + k)\<rparr>"

lemma tagged_state_simps [simp]:
  "efi (tagged_state t w) = sample_efi1 w" "errnum (tagged_state t w) = ERR_NONE"
  "buf_drive (tagged_state t w) = 0x80" "buf_track (tagged_state t w) = t"
  "saved_drive (tagged_state t w) = 0x80"
  by (simp_all add: tagged_state_def) (simp add: sample_state_def)

lemma tagged_buffer_ok: "- 1 \<le> t \<Longrightarrow> t < 2 ^ 31 \<Longrightarrow> buffer_ok 0x80 disk0 w 9 (tagged_state t w)"
  by (simp add: buffer_ok_def tagged_state_def cache_ok_def)

theorem rawwrite_correct_witness:
  "\<exists>w sc t. rawwrite ram_firmware 0x80 7 (\<lambda>_. 1) (tagged_state 0 sample_image) =
      Some (True, (tagged_state 0 sample_image)\<lparr>efi := (sample_efi1 sample_image)\<lparr>world := w\<rparr>, scratchbuf := sc, buf_track := t\<rparr>) \<and>
    disk_image ram_firmware w disk0 (copy_mem sample_image 3584 (\<lambda>_. 1) 0 512) \<and> sc 0 = 1 \<and> t \<in> {0, - 1}"
proof -
  obtain w sc t where "rawwrite ram_firmware 0x80 7 (\<lambda>_. 1) (tagged_state 0 sample_image) =
      Some (True, (tagged_state 0 sample_image)\<lparr>efi := (efi (tagged_state 0 sample_image))\<lparr>world := w\<rparr>, scratchbuf := sc, buf_track := t\<rparr>)"
    "disk_image ram_firmware w disk0 (copy_mem sample_image (nat (7 * 2 ^ 9)) (\<lambda>_. 1) 0 (2 ^ 9))"
    "\<forall>k < 2 ^ 9. sc k = 1" "t \<in> {buf_track (tagged_state 0 sample_image), - 1}"
    "buffer_ok 0x80 disk0 (copy_mem sample_image (nat (7 * 2 ^ 9)) (\<lambda>_. 1) 0 (2 ^ 9)) 9
      ((tagged_state 0 sample_image)\<lparr>efi := (efi (tagged_state 0 sample_image))\<lparr>world := w\<rparr>, scratchbuf := sc, buf_track := t\<rparr>)"
    using rawwrite_correct [where fw = ram_firmware and drive = 128 and d = disk0 and img = sample_image and b = 9
      and s = "tagged_state 0 sample_image" and sector = 7 and buf = "\<lambda>_. 1"] sample_disk_ok ram_disk_writable tagged_buffer_ok
    by auto
  then show ?thesis by (intro exI [of _ w] exI [of _ sc] exI [of _ t]) simp
qed

text \<open>A read of one sector from the buffered track does not reach the firmware.\<close>

lemma rawread_cached:
  assumes "buf_drive s = drive" "errnum s = ERR_NONE" "buf_geom s = disk_geom d" "block_size (media d) = 512"
    "0 \<le> sector" "sector \<le> last_block (media d)" "sector - sector mod 56 = buf_track s" "\<not> disk_read_func s"
  shows "rawread fw drive sector 0 512 out s =
    Some (True, copy_mem out 0 (trackbuf s) (nat (sector mod 56 * 512)) 512, s)"
proof -
  have g: "total_sectors (disk_geom d) = last_block (media d) + 1" "sector_size (disk_geom d) = 512"
    using assms(4) by (simp_all add: disk_geom_def Let_def)
  have b: "bsf 512 = Some 9" using bsf_exp [of 9] by simp
  have v: "sectors_per_vtrack (disk_geom d) 9 = 56" using sectors_per_vtrack_eq [of 9 d] by (simp add: vtrack_def)
  have slen: "s32 (u32 1023 div 512) = 1" by (simp add: s32_def u32_def)
  have sel: "select_drive drive s = Some s" using assms(1) by (simp add: select_drive_def)
  have f: "fetch_track fw drive sector slen 56 s = (False, s)" for slen
    using assms(7) by (simp add: fetch_track_def Let_def)
  have "0 < 56 - sector mod 56" using pos_mod_bound [of 56 sector] by simp
  then have n: "\<not> (56 - sector mod 56) * 512 < 512" by simp
  show ?thesis
    using assms(2,3,5,6,8) n
    by (simp add: rawread_def rawread_loop.simps [of fw drive sector] sel g b v f Let_def)
      (simp add: rawread_loop.simps)
qed

text \<open>
  C22: A stale read. The tag test of \<^verbatim>\<open>rawwrite\<close> rounds the sector down to a multiple of
  the geometry's 63 sectors, while \<^verbatim>\<open>rawread\<close> tags the buffer with multiples of the 56
  sectors that fit it. With 512-byte sectors and the second virtual track buffered, writing
  one of the sectors 56 to 62 succeeds and changes the medium, and a following read of that
  sector reports success and returns what the sector held before the write.
\<close>

theorem rawwrite_leaves_stale_buffer:
  assumes "disk_ok fw drive d img 9 (efi s)" "disk_writable fw d" "errnum s = ERR_NONE"
    "\<not> disk_read_func s" "buf_drive s = drive" "buffer_ok drive d img 9 s" "buf_track s = 56"
    "56 \<le> sector" "sector < 63" "sector \<le> last_block (media d)"
  shows "\<exists>s1 s2. rawwrite fw drive sector buf s = Some (True, s1) \<and>
    disk_image fw (world (efi s1)) d (copy_mem img (nat (sector * 512)) buf 0 512) \<and>
    rawread fw drive sector 0 512 out s1 = Some (True, copy_mem out 0 img (nat (sector * 512)) 512, s2)"
proof -
  have geom: "buf_geom s = disk_geom d" "cache_ok img 9 (trackbuf s) 56"
    using assms(5-7) by (simp_all add: buffer_ok_def)
  have bs: "block_size (media d) = 512" using assms(1) by (simp add: disk_ok_def)
  have m: "sector mod 63 = sector" "sector mod 56 = sector - 56"
    using assms(8,9) mod_pos_pos_trivial [of "sector - 56" 56] by (simp_all add: mod_diff_right_eq)
  have "sectors (buf_geom s) = 63" "0 \<le> sector" using assms(8) by (simp_all add: geom disk_geom_def Let_def)
  then obtain sc w' where w: "rawwrite fw drive sector buf s =
      Some (True, s\<lparr>efi := (efi s)\<lparr>world := w'\<rparr>, scratchbuf := sc, buf_track := 56\<rparr>)"
    "disk_image fw w' d (copy_mem img (nat (sector * 512)) buf 0 512)"
    using rawwrite_ok [OF assms(1,2), of sector buf] assms(7,10) m by auto
  let ?s1 = "s\<lparr>efi := (efi s)\<lparr>world := w'\<rparr>, scratchbuf := sc, buf_track := 56\<rparr>"
  have "rawread fw drive sector 0 512 out ?s1 =
      Some (True, copy_mem out 0 (trackbuf s) (nat (sector mod 56 * 512)) 512, ?s1)"
    using rawread_cached [of ?s1 drive d sector fw out] assms geom(1) bs m by simp
  moreover have "copy_mem out 0 (trackbuf s) (nat (sector mod 56 * 512)) 512 =
      copy_mem out 0 img (nat (sector * 512)) 512"
  proof (rule copy_mem_cong)
    fix k :: nat assume "k < 512"
    moreover have "28672 + (nat (sector * 512 - 28672) + k) = nat (sector * 512) + k" using assms(8) by simp
    ultimately show "trackbuf s (nat (sector mod 56 * 512) + k) = img (nat (sector * 512) + k)"
      using geom(2) assms(8,9) by (simp add: cache_ok_def vtrack_def m add.assoc [symmetric])
  qed
  ultimately show ?thesis using w by auto
qed

theorem rawwrite_leaves_stale_buffer_witness:
  "\<exists>s1 s2. rawwrite ram_firmware 0x80 60 (\<lambda>_. 1) (tagged_state 56 sample_image) = Some (True, s1) \<and>
    rawread ram_firmware 0x80 60 0 512 (\<lambda>_. 0) s1 = Some (True, copy_mem (\<lambda>_. 0) 0 sample_image 30720 512, s2)"
proof -
  have "\<not> disk_read_func (tagged_state 56 sample_image)" by (simp add: tagged_state_def sample_state_def)
  then show ?thesis
    using rawwrite_leaves_stale_buffer [where fw = ram_firmware and drive = 128 and d = disk0
        and img = sample_image and s = "tagged_state 56 sample_image" and sector = 60 and buf = "\<lambda>_. 1"
        and out = "\<lambda>_. 0"] sample_disk_ok ram_disk_writable tagged_buffer_ok
    by auto
qed

definition active_mbr :: "mem \<Rightarrow> nat \<Rightarrow> mem" where
  "active_mbr img p = img(446 := 0, 462 := 0, 478 := 0, 494 := 0, 446 + 16 * p := 0x80)"

lemma copy_active_mbr:
  assumes "p \<le> 3"
  shows "copy_mem img 0 ((copy_mem mbr0 0 img 0 512)(446 := 0, 462 := 0, 478 := 0, 494 := 0, 446 + 16 * p := 0x80)) 0 512
    = active_mbr img p"
  using assms by (intro ext) (auto simp: copy_mem_def active_mbr_def)

text \<open>
  C21: \<^verbatim>\<open>make_saved_active\<close> on a primary, non-extended partition of a hard disk: it
  succeeds; when the partition's flag was already set the medium is unchanged, otherwise the
  medium differs from before in the four flag bytes of the partition table alone, which are
  zero except for the chosen partition's, now 0x80. The track buffer stays coherent.
\<close>

theorem make_saved_active_correct:
  assumes ok: "disk_ok fw (saved_drive s) d img 9 (efi s)" and wr: "disk_writable fw d"
    and e: "errnum s = ERR_NONE" and bo: "buffer_ok (saved_drive s) d img 9 s"
    and hd: "saved_drive s AND 0x80 \<noteq> 0" and p: "saved_partition s div 65536 = int p" "p \<le> 3"
    and ty: "\<not> IS_PC_SLICE_TYPE_EXTENDED (PC_SLICE_TYPE img p)" and w: "1 \<le> whole_sectors d 9"
  shows "\<exists>s' img'. make_saved_active fw mbr0 s = Some (True, s') \<and>
    img' = (if PC_SLICE_FLAG img p = 0x80 then img else active_mbr img p) \<and>
    disk_image fw (world (efi s')) d img' \<and> buffer_ok (saved_drive s) d img' 9 s'"
proof -
  have img: "disk_image fw (world (efi s)) d img" using ok by (simp add: disk_ok_def)
  have ss: "get_sector_size (efi s) (saved_drive s) = Some 512" using disk_ok_sector_size [OF ok] by simp
  obtain s1 where s1: "rawread fw (saved_drive s) 0 0 512 mbr0 s = Some (True, copy_mem mbr0 0 img 0 512, s1)"
    "buffer_ok (saved_drive s) d img 9 s1" "buffer_step s s1" "buf_drive s1 = saved_drive s"
    using rawread_ok [OF ok e bo, of 0 0 512 mbr0] w by auto
  let ?mbr = "copy_mem mbr0 0 img 0 512"
  from s1(3) have st: "efi s1 = efi s" by (auto simp: buffer_step_def)
  have f: "PC_SLICE_TYPE ?mbr p = PC_SLICE_TYPE img p" "PC_SLICE_FLAG ?mbr p = PC_SLICE_FLAG img p"
    using p(2) by (simp_all add: PC_SLICE_TYPE_def PC_SLICE_FLAG_def ld8_def copy_mem_def)
  note unf = make_saved_active_def Let_def hd p(1) ss s1(1) f ty
  show ?thesis
  proof (cases "PC_SLICE_FLAG img p = 0x80")
    case True
    then show ?thesis using s1 st img p(2) by (auto simp: unf)
  next
    case False
    have far: "buf_track s1 < 0 \<or> 0 < buf_track s1 \<or> buf_track s1 + vtrack 9 \<le> 0 \<or> 0 - 0 mod 63 = buf_track s1"
      by auto
    have m: "0 \<le> last_block (media d)" using ok by (simp add: disk_ok_def media_sane_def)
    obtain s' where s': "rawwrite fw (saved_drive s) 0 (?mbr(446 := 0, 462 := 0, 478 := 0, 494 := 0, 446 + 16 * p := 0x80)) s1
        = Some (True, s')" "disk_image fw (world (efi s')) d (active_mbr img p)"
      "buffer_ok (saved_drive s) d (active_mbr img p) 9 s'"
      using rawwrite_buffer_ok [OF _ wr s1(4,2) _ m far, of "?mbr(446 := 0, 462 := 0, 478 := 0, 494 := 0, 446 + 16 * p := 0x80)"]
        ok copy_active_mbr [OF p(2), of img mbr0] by (auto simp: st)
    then show ?thesis using False p(2) by (auto simp: unf)
  qed
qed

theorem make_saved_active_correct_witness:
  "\<exists>s' img'. make_saved_active ram_firmware (\<lambda>_. 0) ((tagged_state 56 sample_image)\<lparr>saved_partition := 0x1FFFF\<rparr>)
       = Some (True, s') \<and> img' = active_mbr sample_image 1 \<and> disk_image ram_firmware (world (efi s')) disk0 img'"
proof -
  let ?s = "(tagged_state 56 sample_image)\<lparr>saved_partition := 0x1FFFF\<rparr>"
  have bo: "buffer_ok (saved_drive ?s) disk0 sample_image 9 ?s"
    using tagged_buffer_ok [of 56 sample_image] by (simp add: buffer_ok_def)
  have f: "PC_SLICE_TYPE sample_image 1 = 0" "PC_SLICE_FLAG sample_image 1 = 0"
    by (simp_all add: PC_SLICE_TYPE_def PC_SLICE_FLAG_def ld8_def sample_image_def)
  have "\<exists>s' img'. make_saved_active ram_firmware (\<lambda>_. 0) ?s = Some (True, s') \<and>
    img' = (if PC_SLICE_FLAG sample_image 1 = 0x80 then sample_image else active_mbr sample_image 1) \<and>
    disk_image ram_firmware (world (efi s')) disk0 img' \<and> buffer_ok (saved_drive ?s) disk0 img' 9 s'"
    using sample_disk_ok f ram_disk_writable bo
    by (intro make_saved_active_correct) (simp_all add: IS_PC_SLICE_TYPE_EXTENDED_def sample_whole)
  then show ?thesis unfolding f by auto
qed

section \<open>The reader that file systems use\<close>

text \<open>A read leaves the variables of stage 2 alone, but for the log.\<close>

definition reads_only :: "'a stage2_scheme \<Rightarrow> 'a stage2_scheme \<Rightarrow> bool" where
  "reads_only s s' \<longleftrightarrow> stage2.truncate s' = (stage2.truncate s)\<lparr>read_log := read_log s'\<rparr> \<and>
     (\<not> disk_read_func s \<longrightarrow> read_log s' = read_log s)"

lemma reads_only_simps:
  assumes "reads_only s s'"
  shows "errnum s' = errnum s" "filepos s' = filepos s" "filemax s' = filemax s" "fsmax s' = fsmax s"
    "current_drive s' = current_drive s" "current_slice s' = current_slice s"
    "part_start s' = part_start s" "part_length s' = part_length s"
    "disk_read_hook s' = disk_read_hook s" "disk_read_func s' = disk_read_func s"
    "print_possibilities s' = print_possibilities s" "current_partition s' = current_partition s"
    "do_completion s' = do_completion s" "unique s' = unique s" "unique_string s' = unique_string s"
    "console s' = console s" "fsys_type s' = fsys_type s" "saved_drive s' = saved_drive s"
    "saved_partition s' = saved_partition s" "bsd_evil_hack s' = bsd_evil_hack s"
  using assms by (auto simp: reads_only_def stage2.defs)

lemma reads_only_refl [simp]: "reads_only s s"
  by (simp add: reads_only_def stage2.defs)

lemma reads_only_trans: "reads_only s t \<Longrightarrow> reads_only t u \<Longrightarrow> reads_only s u"
  by (auto simp: reads_only_def stage2.defs)

text \<open>
  The contract between the sector layer and the file systems. \<open>serves P b N s\<close>: in state
  \<open>s\<close> the open partition holds the bytes \<open>P\<close> in sectors of \<open>2 ^ b\<close> bytes, of which
  the first \<open>N\<close> can be read. The reader delivers them, and what a file system does to the
  variables it owns does not disturb it.
\<close>

locale block_reader =
  fixes rd :: "int \<Rightarrow> int \<Rightarrow> int \<Rightarrow> mem \<Rightarrow> 'a stage2_scheme \<Rightarrow> (bool \<times> mem \<times> 'a stage2_scheme) option"
    and sector_bytes :: "'a stage2_scheme \<Rightarrow> int option"
    and serves :: "mem \<Rightarrow> nat \<Rightarrow> int \<Rightarrow> 'a stage2_scheme \<Rightarrow> bool"
  assumes read_ok: "serves P b N s \<Longrightarrow> errnum s = ERR_NONE \<Longrightarrow> 0 \<le> sector \<Longrightarrow> 0 \<le> off \<Longrightarrow> 0 < len \<Longrightarrow>
      len < 2 ^ 30 \<Longrightarrow> sector * 2 ^ b + off + len \<le> N * 2 ^ b \<Longrightarrow> off + len \<le> 2 ^ 31 \<Longrightarrow>
      \<exists>s'. rd sector off len buf s = Some (True, copy_mem buf 0 P (nat (sector * 2 ^ b + off)) (nat len), s') \<and>
        serves P b N s' \<and> reads_only s s'"
    and size_ok: "serves P b N s \<Longrightarrow> sector_bytes s = Some (2 ^ b) \<and> 9 \<le> b \<and> b \<le> 14 \<and> N < 2 ^ 31"
    and serves_frame: "serves P b N s \<Longrightarrow> stage2.more s' = stage2.more s \<Longrightarrow>
      current_drive s' = current_drive s \<Longrightarrow> part_start s' = part_start s \<Longrightarrow>
      part_length s' = part_length s \<Longrightarrow> serves P b N s'"
begin

text \<open>Reading a range twice gives the same bytes, and adjacent reads give adjacent bytes.\<close>

lemma read_append:
  assumes "serves P b N s" "errnum s = ERR_NONE" "0 \<le> sector" "0 \<le> off" "0 < m" "0 < n" "m + n < 2 ^ 30"
    "sector * 2 ^ b + off + (m + n) \<le> N * 2 ^ b" "off + (m + n) \<le> 2 ^ 31"
  shows "\<exists>s1 s2 x y z. rd sector off m buf s = Some (True, x, s1) \<and>
    rd sector (off + m) n (\<lambda>k. buf (nat m + k)) s1 = Some (True, y, s2) \<and>
    (\<exists>s3. rd sector off (m + n) buf s = Some (True, z, s3)) \<and>
    z = copy_mem x (nat m) y 0 (nat n)"
proof -
  obtain s1 where s1: "rd sector off m buf s = Some (True, copy_mem buf 0 P (nat (sector * 2 ^ b + off)) (nat m), s1)"
    "serves P b N s1" "reads_only s s1"
    using read_ok [OF assms(1-5), of buf] assms(6-9) by auto
  obtain s2 where s2: "rd sector (off + m) n (\<lambda>k. buf (nat m + k)) s1 =
      Some (True, copy_mem (\<lambda>k. buf (nat m + k)) 0 P (nat (sector * 2 ^ b + (off + m))) (nat n), s2)"
    using read_ok [OF s1(2) _ assms(3) _ assms(6), of "off + m"] assms s1(3) by (auto simp: reads_only_simps)
  obtain s3 where s3: "rd sector off (m + n) buf s =
      Some (True, copy_mem buf 0 P (nat (sector * 2 ^ b + off)) (nat (m + n)), s3)"
    using read_ok [OF assms(1-4), of "m + n" buf] assms(5-9) by auto
  have "nat (sector * 2 ^ b + (off + m)) = nat (sector * 2 ^ b + off) + nat m"
    using assms(3-5) by (subst nat_add_distrib [symmetric]) (auto simp: add.assoc)
  then have "copy_mem buf 0 P (nat (sector * 2 ^ b + off)) (nat (m + n)) =
     copy_mem (copy_mem buf 0 P (nat (sector * 2 ^ b + off)) (nat m)) (nat m)
       (copy_mem (\<lambda>k. buf (nat m + k)) 0 P (nat (sector * 2 ^ b + (off + m))) (nat n)) 0 (nat n)"
    using assms(5,6) by (intro ext) (auto simp: copy_mem_def nat_add_distrib)
  with s1(1) s2 s3 show ?thesis by blast
qed

end

definition disk_serves :: "'w firmware \<Rightarrow> mem \<Rightarrow> nat \<Rightarrow> int \<Rightarrow> 'w dstate \<Rightarrow> bool" where
  "disk_serves fw P b N s \<longleftrightarrow>
     (\<exists>d img. disk_ok fw (current_drive s) d img b (efi s) \<and> buffer_ok (current_drive s) d img b s \<and>
        P = part_img img b (part_start s) \<and> 0 \<le> part_start s \<and>
        part_start s + N \<le> whole_sectors d b \<and> N \<le> part_length s)"

lemma buffer_step_reads_only: "buffer_step s s' \<Longrightarrow> reads_only s s'"
  by (auto simp: buffer_step_def reads_only_def stage2.defs)

lemma disk_serves_frame:
  assumes "disk_serves fw P b N s" "stage2.more s' = stage2.more s"
    "current_drive s' = current_drive s" "part_start s' = part_start s" "part_length s' = part_length s"
  shows "disk_serves fw P b N s'"
proof -
  have "efi s' = efi s" "buf_drive s' = buf_drive s" "buf_track s' = buf_track s"
    "buf_geom s' = buf_geom s" "trackbuf s' = trackbuf s"
    using assms(2) by (cases s; cases s'; simp)+
  with assms show ?thesis by (simp add: disk_serves_def buffer_ok_def)
qed

interpretation part: block_reader "devread fw" "\<lambda>s. get_sector_size (efi s) (current_drive s)" "disk_serves fw"
  for fw :: "'w firmware"
proof
  fix P b N s sector off len buf
  assume sv: "disk_serves fw P b N s" and e: "errnum s = ERR_NONE"
    and r: "0 \<le> sector" "0 \<le> off" "0 < len" "len < 2 ^ 30" "sector * 2 ^ b + off + len \<le> N * 2 ^ b" "off + len \<le> 2 ^ 31"
  from sv obtain d img where d: "disk_ok fw (current_drive s) d img b (efi s)" "buffer_ok (current_drive s) d img b s"
    "P = part_img img b (part_start s)" "0 \<le> part_start s" "part_start s + N \<le> whole_sectors d b" "N \<le> part_length s"
    by (auto simp: disk_serves_def)
  from devread_ok [OF d(1) e d(2,4,5,6) r, of buf] obtain s' where s':
    "devread fw sector off len buf s = Some (True, copy_mem buf 0 P (nat (sector * 2 ^ b + off)) (nat len), s')"
    "buffer_ok (current_drive s) d img b s'" "buffer_step s s'" unfolding d(3) by blast
  from s'(3) have "efi s' = efi s" by (auto simp: buffer_step_def)
  with s' d buffer_step_reads_only [OF s'(3)] show "\<exists>s'. devread fw sector off len buf s =
      Some (True, copy_mem buf 0 P (nat (sector * 2 ^ b + off)) (nat len), s') \<and>
      disk_serves fw P b N s' \<and> reads_only s s'"
    by (auto simp: disk_serves_def reads_only_simps)
next
  fix P b N s
  assume "disk_serves fw P b N s"
  then obtain d img where d: "disk_ok fw (current_drive s) d img b (efi s)" "0 \<le> part_start s"
    "part_start s + N \<le> whole_sectors d b" by (auto simp: disk_serves_def)
  then show "get_sector_size (efi s) (current_drive s) = Some (2 ^ b) \<and> 9 \<le> b \<and> b \<le> 14 \<and> N < 2 ^ 31"
    using disk_ok_sector_size [OF d(1)] whole_sectors_le [of b d] vtrack_pos [of b]
    by (auto simp: disk_ok_def media_sane_def)
next
  fix P b N s s'
  assume "disk_serves fw P b N s" "stage2.more s' = stage2.more s" "current_drive s' = current_drive s"
    "part_start s' = part_start s" "part_length s' = part_length s"
  then show "disk_serves fw P b N s'" by (rule disk_serves_frame)
qed

end
