(* ===== verification/Partition.thy ===== *)
theory Partition
  imports Disk_Io
begin

text \<open>
  Partition tables, \<^verbatim>\<open>next_partition\<close> and \<^verbatim>\<open>real_open_partition\<close> of
  \<^verbatim>\<open>stage2/disk_io.c\<close>: an iterator over the PC slices of an MBR and of the chain of
  extended partitions, the BSD partitions inside a slice and the entries of a GPT.

  The variables the iterator receives by pointer are the record \<open>part_iter\<close>. A partition
  number is 24 bits: slice, BSD partition, 0xFF. Results are \<open>None\<close> where the sector layer
  traps. \<^verbatim>\<open>real_open_partition\<close> is modelled for \<^verbatim>\<open>flags == 0\<close> (opening); its loop
  runs for ever on a cyclic chain of extended partitions, so it is given fuel.
\<close>

section \<open>Definitions\<close>

record part_iter =
  it_partition :: int
  it_type :: int
  it_start :: int
  it_len :: int
  it_offset :: int
  it_entry :: int
  it_ext_offset :: int
  it_gpt_offset :: int
  it_gpt_count :: int
  it_gpt_size :: int
  it_buf :: mem

definition NETWORK_DRIVE :: int where
  "NETWORK_DRIVE = 0x20"

definition IS_PC_SLICE_TYPE_BSD_WITH_FS :: "int \<Rightarrow> int \<Rightarrow> bool" where
  "IS_PC_SLICE_TYPE_BSD_WITH_FS ty fs \<longleftrightarrow>
     ty = 0xA5 + 256 * fs \<or> ty = 0xA6 + 256 * fs \<or> ty = 0xA9 + 256 * fs"

definition IS_PC_SLICE_TYPE_BSD :: "int \<Rightarrow> bool" where
  "IS_PC_SLICE_TYPE_BSD ty \<longleftrightarrow> IS_PC_SLICE_TYPE_BSD_WITH_FS ty 0"

definition PC_MBR_CHECK_SIG :: "mem \<Rightarrow> bool" where
  "PC_MBR_CHECK_SIG m \<longleftrightarrow> ld16 m 510 = 0xAA55"

definition BSD_LABEL_CHECK_MAG :: "mem \<Rightarrow> bool" where
  "BSD_LABEL_CHECK_MAG m \<longleftrightarrow> ld32 m 0 = 0x82564557"

definition BSD_LABEL_NPARTS :: "mem \<Rightarrow> int" where
  "BSD_LABEL_NPARTS m = ld16 m 138"

definition BSD_LABEL_DTYPE :: "mem \<Rightarrow> int" where
  "BSD_LABEL_DTYPE m = ld16 m 4"

definition BSD_PART_LENGTH :: "mem \<Rightarrow> nat \<Rightarrow> int" where
  "BSD_PART_LENGTH m p = ld32 m (148 + 16 * p)"

definition BSD_PART_START :: "mem \<Rightarrow> nat \<Rightarrow> int" where
  "BSD_PART_START m p = ld32 m (148 + 4 + 16 * p)"

definition BSD_PART_TYPE :: "mem \<Rightarrow> nat \<Rightarrow> int" where
  "BSD_PART_TYPE m p = ld8 m (148 + 12 + 16 * p)"

text \<open>A sector-sized read into the iterator's buffer.\<close>

definition read_sector ::
    "'w firmware \<Rightarrow> int \<Rightarrow> int \<Rightarrow> part_iter \<Rightarrow> 'w dstate \<Rightarrow> (bool \<times> part_iter \<times> 'w dstate) option" where
  "read_sector fw drive sector it s =
     (case get_sector_size (efi s) drive of
        None \<Rightarrow> None
      | Some ss \<Rightarrow>
          (case rawread fw drive (s32 sector) 0 ss (it_buf it) s of
             None \<Rightarrow> None
           | Some (ok, buf, s') \<Rightarrow> Some (ok, it\<lparr>it_buf := buf\<rparr>, s')))"

text \<open>The first BSD partition at or after \<open>i\<close> with a type, among \<open>k\<close> candidates.\<close>

fun bsd_search :: "mem \<Rightarrow> nat \<Rightarrow> nat \<Rightarrow> nat option" where
  "bsd_search buf i 0 = None"
| "bsd_search buf i (Suc k) = (if BSD_PART_TYPE buf i \<noteq> 0 then Some i else bsd_search buf (Suc i) k)"

definition next_bsd_partition ::
    "'w firmware \<Rightarrow> int \<Rightarrow> part_iter \<Rightarrow> 'w dstate \<Rightarrow> (bool \<times> part_iter \<times> 'w dstate) option" where
  "next_bsd_partition fw drive it0 s0 =
     (let bsd_part_no = (it_partition it0 AND 0xFF00) div 2 ^ 8;
          search = (\<lambda>first it s.
            case bsd_search (it_buf it) first (nat (BSD_LABEL_NPARTS (it_buf it)) - first) of
              None \<Rightarrow> Some (False, it, s\<lparr>errnum := ERR_NO_PART\<rparr>)
            | Some i \<Rightarrow>
                Some (True,
                  it\<lparr>it_type := BSD_PART_TYPE (it_buf it) i * 256 OR (it_type it AND 0xFF),
                     it_start := BSD_PART_START (it_buf it) i, it_len := BSD_PART_LENGTH (it_buf it) i,
                     it_partition := (it_partition it AND 0xFF00FF) OR (int i * 256)\<rparr>,
                  if drive AND 0x80 \<noteq> 0 \<and> BSD_LABEL_DTYPE (it_buf it) = 4
                  then s\<lparr>bsd_evil_hack := 4\<rparr> else s))
      in if bsd_part_no = 0xFF
         then if it_len it0 < 2 then Some (False, it0, s0\<lparr>errnum := ERR_BAD_PART_TABLE\<rparr>)
              else case read_sector fw drive (it_start it0 + 1) it0 s0 of
                     None \<Rightarrow> None
                   | Some (ok, it, s) \<Rightarrow>
                       if \<not> ok then Some (False, it, s)
                       else if \<not> BSD_LABEL_CHECK_MAG (it_buf it)
                       then Some (False, it, s\<lparr>errnum := ERR_BAD_PART_TABLE\<rparr>)
                       else search 0 it s
         else search (nat bsd_part_no + 1) it0 s0)"

text \<open>The loop of \<^verbatim>\<open>next_gpt_slice\<close> over the entries, with the fields of
  \<^verbatim>\<open>grub_gpt_partentry\<close> (\<^verbatim>\<open>type1\<close> at 0, \<^verbatim>\<open>type2\<close> at 8, \<^verbatim>\<open>start\<close> at 32,
  \<^verbatim>\<open>end\<close> at 40); its place is given by \<^verbatim>\<open>GPT_ENTRY_SECTOR\<close> and
  \<^verbatim>\<open>GPT_ENTRY_INDEX\<close>.\<close>

function gpt_search ::
    "'w firmware \<Rightarrow> int \<Rightarrow> part_iter \<Rightarrow> 'w dstate \<Rightarrow> (bool \<times> part_iter \<times> 'w dstate) option" where
  "gpt_search fw drive it s =
     (let it1 = it\<lparr>it_entry := it_entry it + 1\<rparr>
      in if it_entry it1 \<ge> it_gpt_count it1 then Some (False, it1, s\<lparr>errnum := ERR_NO_PART\<rparr>)
         else case (get_sector_bits (efi s) drive, get_sector_size (efi s) drive) of
           (Some bits, Some ss) \<Rightarrow>
             (let pos = s32 (it_entry it1 * it_gpt_size it1 + 1)
              in case rawread fw drive (s32 (it_gpt_offset it1 + (pos AND NOT (ss - 1)) div 2 ^ bits))
                        ((pos AND (ss - 1)) - 1)
                        (it_gpt_size it1) (it_buf it1) s of
                   None \<Rightarrow> None
                 | Some (ok, buf, s') \<Rightarrow>
                     (let it2 = it1\<lparr>it_buf := buf\<rparr>
                      in if \<not> ok then Some (False, it2, s')
                         else if ld64 buf 0 \<noteq> 0 \<and> ld64 buf 8 \<noteq> 0 then Some (True, it2, s')
                         else gpt_search fw drive it2 s'))
         | _ \<Rightarrow> None)"
  by pat_completeness auto
termination
  by (relation "measure (\<lambda>(fw, drive, it, s). nat (it_gpt_count it - it_entry it))") auto

declare gpt_search.simps [simp del]

definition next_gpt_slice ::
    "'w firmware \<Rightarrow> int \<Rightarrow> part_iter \<Rightarrow> 'w dstate \<Rightarrow> (bool \<times> part_iter \<times> 'w dstate) option" where
  "next_gpt_slice fw drive it0 s0 =
     (let no = (it_partition it0 AND 0xFF0000) div 2 ^ 16;
          first = (no = 0xFF);
          pc_slice_no = (if first then - 1 else no);
          it = (if first then it0\<lparr>it_entry := - 1\<rparr> else it0)
      in case gpt_search fw drive it s0 of
           None \<Rightarrow> None
         | Some (ok, it1, s) \<Rightarrow>
             if \<not> ok then Some (False, it1, s)
             else let e = pc_slice_no + 1; buf = it_buf it1
                  in Some (True,
                       it1\<lparr>it_start := u32 (ld64 buf 32), it_len := u32 (ld64 buf 40 - ld64 buf 32 + 1),
                           it_type := 0x83, it_entry := e, it_partition := (e * 2 ^ 16) OR 0xFFFF\<rparr>, s))"

text \<open>The search for an extended partition in a full table.\<close>

fun find_extended :: "mem \<Rightarrow> nat \<Rightarrow> nat \<Rightarrow> nat option" where
  "find_extended buf i 0 = None"
| "find_extended buf i (Suc k) =
     (if IS_PC_SLICE_TYPE_EXTENDED (PC_SLICE_TYPE buf i) then Some i else find_extended buf (Suc i) k)"

text \<open>The part of \<^verbatim>\<open>next_pc_slice\<close> up to the GPT test. \<open>Inl\<close> is a return, \<open>Inr\<close> goes on
  with the next entry of the table in the buffer.\<close>

definition read_table ::
    "'w firmware \<Rightarrow> int \<Rightarrow> part_iter \<Rightarrow> 'w dstate \<Rightarrow>
       ((bool \<times> part_iter \<times> 'w dstate) + (part_iter \<times> 'w dstate)) option" where
  "read_table fw drive it0 s0 =
     (case read_sector fw drive (it_offset it0) it0 s0 of
        None \<Rightarrow> None
      | Some (ok, it, s) \<Rightarrow>
          if \<not> ok then Some (Inl (False, it, s))
          else if \<not> PC_MBR_CHECK_SIG (it_buf it)
          then Some (Inl (False, it, s\<lparr>errnum := ERR_BAD_PART_TABLE\<rparr>))
          else if it_entry it = - 1 \<and> it_offset it = 0 \<and> PC_SLICE_TYPE (it_buf it) 0 = 0xEE
          then case read_sector fw drive 1 it s of
                 None \<Rightarrow> None
               | Some (ok1, it1, s1) \<Rightarrow>
                   if \<not> ok1 then Some (Inl (False, it1, s1))
                   else if ld64 (it_buf it1) 0 = 0x5452415020494645 \<and> ld32 (it_buf it1) 8 = 0x10000
                   then map_option Inl (next_gpt_slice fw drive
                          (it1\<lparr>it_gpt_offset := u32 (ld64 (it_buf it1) 72),
                               it_gpt_count := s32 (ld32 (it_buf it1) 80),
                               it_gpt_size := s32 (ld32 (it_buf it1) 84)\<rparr>) s1)
                   else (case read_sector fw drive (it_offset it1) it1 s1 of
                           None \<Rightarrow> None
                         | Some (ok2, it2, s2) \<Rightarrow>
                             if \<not> ok2 then Some (Inl (False, it2, s2)) else Some (Inr (it2, s2)))
          else Some (Inr (it, s)))"

function next_pc_slice ::
    "'w firmware \<Rightarrow> int \<Rightarrow> part_iter \<Rightarrow> 'w dstate \<Rightarrow> (bool \<times> part_iter \<times> 'w dstate) option" where
  "next_pc_slice fw drive it s =
     (let no = (it_partition it AND 0xFF0000) div 2 ^ 16;
          first = (no = 0xFF);
          pc_slice_no = (if first then - 1 else no);
          it0 = (if first then it\<lparr>it_offset := 0, it_ext_offset := 0, it_entry := - 1\<rparr> else it)
      in case read_table fw drive it0 s of
           None \<Rightarrow> None
         | Some (Inl r) \<Rightarrow> Some r
         | Some (Inr (it1, s1)) \<Rightarrow>
             (let buf = it_buf it1; entry = it_entry it0 + 1;
                  it2 = it1\<lparr>it_gpt_offset := 0, it_entry := entry\<rparr>
              in if entry = 4
                 then case find_extended buf 0 4 of
                        Some i \<Rightarrow>
                          (let off = u32 (it_ext_offset it2 + PC_SLICE_START buf i)
                           in next_pc_slice fw drive
                                (it2\<lparr>it_offset := off,
                                     it_ext_offset := (if it_ext_offset it2 = 0 then off else it_ext_offset it2),
                                     it_entry := - 1\<rparr>) s1)
                      | None \<Rightarrow> Some (False, it2, s1\<lparr>errnum := ERR_NO_PART\<rparr>)
                 else let ty = PC_SLICE_TYPE buf (nat entry);
                          no' = (if pc_slice_no < 4 \<or> (\<not> IS_PC_SLICE_TYPE_EXTENDED ty \<and> ty \<noteq> 0)
                                 then pc_slice_no + 1 else pc_slice_no)
                      in Some (True,
                           it2\<lparr>it_type := ty, it_start := u32 (it_offset it2 + PC_SLICE_START buf (nat entry)),
                               it_len := PC_SLICE_LENGTH buf (nat entry),
                               it_partition := (no' * 2 ^ 16) OR 0xFFFF\<rparr>, s1)))"
  by pat_completeness auto
termination
  by (relation "measure (\<lambda>(fw, drive, it, s). if it_entry it = - 1 then 0 else 1)") (auto split: if_splits)

declare next_pc_slice.simps [simp del]

definition next_partition ::
    "'w firmware \<Rightarrow> int \<Rightarrow> int \<Rightarrow> part_iter \<Rightarrow> 'w dstate \<Rightarrow> (bool \<times> part_iter \<times> 'w dstate) option" where
  "next_partition fw drive dest it s =
     (if current_drive s = NETWORK_DRIVE then Some (False, it, s)
      else if it_partition it \<noteq> 0xFFFFFF \<and> it_gpt_offset it \<noteq> 0 then next_gpt_slice fw drive it s
      else if (it_partition it \<noteq> 0xFFFFFF \<and> IS_PC_SLICE_TYPE_BSD (it_type it AND 0xFF)) \<or> drive AND 0x80 = 0
      then let it1 = (if it_type it = 0 then it\<lparr>it_type := 0xA5\<rparr> else it)
           in case next_bsd_partition fw drive it1 s of
                None \<Rightarrow> None
              | Some (ok, it2, s2) \<Rightarrow>
                  if ok then Some (True, it2, s2)
                  else if dest AND 0xFF00 \<noteq> 0xFF00 \<and>
                          (dest AND 0xFF0000 = 0xFF0000 \<or>
                           dest AND 0xFF0000 = it_partition it2 AND 0xFF0000)
                  then Some (False, it2, s2)
                  else next_pc_slice fw drive it2 (s2\<lparr>errnum := ERR_NONE\<rparr>)
      else next_pc_slice fw drive it s)"

text \<open>\<^verbatim>\<open>sane_partition\<close>: the drive and partition numbers are of the documented form.\<close>

definition sane_partition :: "'w dstate \<Rightarrow> bool \<times> 'w dstate" where
  "sane_partition s =
     (if current_drive s = NETWORK_DRIVE then (True, s)
      else if current_partition s AND 0xFF000000 = 0 \<and>
              (current_drive s AND 0xFFFFFF7F < 128 \<or> current_drive s = cdrom_drive (efi s)) \<and>
              current_partition s AND 0xFF = 0xFF \<and>
              (current_partition s AND 0xFF00 = 0xFF00 \<or> current_partition s AND 0xFF00 < 0x800) \<and>
              (current_partition s div 2 ^ 16 = 0xFF \<or> current_drive s AND 0x80 \<noteq> 0)
      then (True, s)
      else (False, s\<lparr>errnum := ERR_DEV_VALUES\<rparr>))"

text \<open>The inner function \<^verbatim>\<open>next\<close> of \<^verbatim>\<open>real_open_partition\<close>: the iterator's first four
  variables are the globals.\<close>

definition open_next ::
    "'w firmware \<Rightarrow> int \<Rightarrow> part_iter \<Rightarrow> 'w dstate \<Rightarrow> (bool \<times> part_iter \<times> 'w dstate) option" where
  "open_next fw dest it s =
     map_option (\<lambda>(ok, it', s'). (ok, it',
         s'\<lparr>current_partition := it_partition it', current_slice := it_type it',
            part_start := it_start it', part_length := it_len it'\<rparr>))
       (next_partition fw (current_drive s) dest
          (it\<lparr>it_partition := current_partition s, it_type := current_slice s,
              it_start := part_start s, it_len := part_length s\<rparr>) s)"

text \<open>The \<^verbatim>\<open>while (next ())\<close> loop for \<^verbatim>\<open>flags == 0\<close>; \<open>None\<close> also when the fuel runs
  out.\<close>

fun open_loop :: "nat \<Rightarrow> 'w firmware \<Rightarrow> int \<Rightarrow> part_iter \<Rightarrow> 'w dstate \<Rightarrow> (bool \<times> 'w dstate) option" where
  "open_loop 0 fw dest it s = None"
| "open_loop (Suc fuel) fw dest it s =
     (case open_next fw dest it s of
        None \<Rightarrow> None
      | Some (ok, it', s') \<Rightarrow>
          if \<not> ok then Some (False, s')
          else if current_slice s' \<noteq> 0
          then let s'' = s'\<lparr>errnum := ERR_NONE\<rparr>;
                   bsd_part = (current_partition s'' div 2 ^ 8) AND 0xFF
               in if dest = current_partition s'' \<or>
                     (dest div 2 ^ 16 = 0xFF \<and> (dest div 2 ^ 8) AND 0xFF = bsd_part)
                  then Some (True, s'')
                  else open_loop fuel fw dest it' s''
          else open_loop fuel fw dest it' s')"

text \<open>\<^verbatim>\<open>open_partition\<close>, that is \<^verbatim>\<open>real_open_partition (0)\<close>. The argument \<open>it0\<close> holds
  the initial contents of the local variables, which the iterator sets before it reads them.\<close>

definition open_partition ::
    "nat \<Rightarrow> 'w firmware \<Rightarrow> part_iter \<Rightarrow> 'w dstate \<Rightarrow> (bool \<times> 'w dstate) option" where
  "open_partition fuel fw it0 s =
     (if current_drive s = NETWORK_DRIVE then Some (True, s)
      else case sane_partition s of
        (False, s1) \<Rightarrow> Some (False, s1)
      | (True, s1) \<Rightarrow>
          (let s2 = s1\<lparr>bsd_evil_hack := 0, current_slice := 0, part_start := 0\<rparr>
           in case select_drive (current_drive s2) s2 of
                None \<Rightarrow> Some (False, s2\<lparr>errnum := ERR_NO_DISK\<rparr>)
              | Some s3 \<Rightarrow>
                  (let s4 = s3\<lparr>part_length := total_sectors (buf_geom s3)\<rparr>;
                       dest = current_partition s4
                   in if dest = 0xFFFFFF then Some (True, s4)
                      else open_loop fuel fw dest it0 (s4\<lparr>current_partition := 0xFFFFFF\<rparr>))))"

section \<open>Partition numbers\<close>

definition slice_no :: "nat \<Rightarrow> int" where
  "slice_no n = int n * 65536 + 65535"

lemma slice_no_or: "(int n * 65536) OR 65535 = slice_no n"
proof -
  have "push_bit 16 (int n) + mask 16 = push_bit 16 (int n) OR mask 16"
    by (rule disjunctive_add) (simp add: bit_push_bit_iff bit_mask_iff)
  then show ?thesis by (simp add: slice_no_def push_bit_eq_mult mask_eq_exp_minus_1)
qed

lemma slice_of_partition: "(x AND 0xFF0000) div 65536 = (x div 65536) mod (256 :: int)"
proof -
  have "drop_bit 16 (x AND 0xFF0000) = drop_bit 16 x AND drop_bit 16 (0xFF0000 :: int)"
    by (rule drop_bit_and)
  also have "drop_bit 16 (0xFF0000 :: int) = 2 ^ 8 - 1" by (simp add: drop_bit_eq_div)
  finally show ?thesis by (simp only: and_sector_mask drop_bit_eq_div) simp
qed

lemma slice_no_slice: "n < 256 \<Longrightarrow> (slice_no n AND 0xFF0000) div 65536 = int n"
  by (simp add: slice_of_partition slice_no_def)

section \<open>Reading tables\<close>

definition sector_img :: "mem \<Rightarrow> nat \<Rightarrow> int \<Rightarrow> mem" where
  "sector_img img b sector = (\<lambda>k. img (nat (sector * 2 ^ b) + k))"

definition same_sector :: "mem \<Rightarrow> mem \<Rightarrow> bool" where
  "same_sector m m' \<longleftrightarrow> (\<forall>k < 512. m k = m' k)"

lemma same_sector_table:
  assumes "same_sector m m'"
  shows "PC_MBR_CHECK_SIG m = PC_MBR_CHECK_SIG m'"
    and "i \<le> 3 \<Longrightarrow> PC_SLICE_TYPE m i = PC_SLICE_TYPE m' i"
    and "i \<le> 3 \<Longrightarrow> PC_SLICE_START m i = PC_SLICE_START m' i"
    and "i \<le> 3 \<Longrightarrow> PC_SLICE_LENGTH m i = PC_SLICE_LENGTH m' i"
  using assms
  by (simp_all add: same_sector_def PC_MBR_CHECK_SIG_def PC_SLICE_TYPE_def PC_SLICE_START_def
      PC_SLICE_LENGTH_def ld32_def ld16_def ld8_def)



lemma read_sector_ok:
  assumes ok: "disk_ok fw drive d img b (efi s)" and e: "errnum s = ERR_NONE"
    and bo: "buffer_ok drive d img b s" and r: "0 \<le> sector" "sector < whole_sectors d b"
  shows "\<exists>s' buf. read_sector fw drive sector it s = Some (True, it\<lparr>it_buf := buf\<rparr>, s') \<and>
    same_sector buf (sector_img img b sector) \<and> buffer_ok drive d img b s' \<and> buffer_step s s' \<and> buf_drive s' = drive"
proof -
  have m: "media_sane (media d)" "9 \<le> b" "b \<le> 14" using ok by (simp_all add: disk_ok_def)
  have big: "512 \<le> (2 :: int) ^ b" "(2 :: int) ^ b \<le> 2 ^ 14" "0 < vtrack b" using vtrack_pos [OF m(2,3)] by auto
  have s32: "s32 sector = sector"
    using r m(1) whole_sectors_le [OF big(3), of d] by (intro s32_id) (auto simp: media_sane_def)
  have rng: "sector * 2 ^ b + 0 + 2 ^ b \<le> whole_sectors d b * 2 ^ b"
    using r mult_right_mono [of "sector + 1" "whole_sectors d b" "2 ^ b"] by (simp add: distrib_right)
  from rawread_ok [OF ok e bo r(1) _ _ _ rng, of "it_buf it"] big obtain s' where s':
    "rawread fw drive sector 0 (2 ^ b) (it_buf it) s =
      Some (True, copy_mem (it_buf it) 0 img (nat (sector * 2 ^ b)) (nat (2 ^ b)), s')"
    "buffer_ok drive d img b s'" "buffer_step s s'" "buf_drive s' = drive" by auto
  have "same_sector (copy_mem (it_buf it) 0 img (nat (sector * 2 ^ b)) (nat (2 ^ b))) (sector_img img b sector)"
    using big(1) by (auto simp: same_sector_def sector_img_def copy_mem_def)
  with s' disk_ok_sector_size [OF ok] s32 show ?thesis by (auto simp: read_sector_def)
qed


text \<open>A table that is not the protective MBR of a GPT.\<close>

definition pc_table :: "mem \<Rightarrow> int \<Rightarrow> int \<Rightarrow> bool" where
  "pc_table t off entry \<longleftrightarrow> PC_MBR_CHECK_SIG t \<and> \<not> (entry = - 1 \<and> off = 0 \<and> PC_SLICE_TYPE t 0 = 0xEE)"

lemma read_table_ok:
  assumes "disk_ok fw drive d img b (efi s)" "errnum s = ERR_NONE" "buffer_ok drive d img b s"
    "0 \<le> it_offset it" "it_offset it < whole_sectors d b"
    "pc_table (sector_img img b (it_offset it)) (it_offset it) (it_entry it)"
  shows "\<exists>s' buf. read_table fw drive it s = Some (Inr (it\<lparr>it_buf := buf\<rparr>, s')) \<and>
    same_sector buf (sector_img img b (it_offset it)) \<and> buffer_ok drive d img b s' \<and> buffer_step s s' \<and> buf_drive s' = drive"
proof -
  from read_sector_ok [OF assms(1-5), of it] obtain s' buf where s':
    "read_sector fw drive (it_offset it) it s = Some (True, it\<lparr>it_buf := buf\<rparr>, s')"
    "same_sector buf (sector_img img b (it_offset it))" "buffer_ok drive d img b s'" "buffer_step s s'" "buf_drive s' = drive" by blast
  with assms(6) show ?thesis
    by (auto simp: read_table_def pc_table_def same_sector_table)
qed

section \<open>Stepping through a table\<close>

text \<open>The iterator standing on entry \<open>e\<close> of the table \<open>t\<close> at sector \<open>off\<close>, as slice \<open>n\<close>.\<close>

definition at_entry :: "mem \<Rightarrow> int \<Rightarrow> int \<Rightarrow> nat \<Rightarrow> nat \<Rightarrow> part_iter \<Rightarrow> bool" where
  "at_entry t off ext e n it \<longleftrightarrow>
     it_partition it = slice_no n \<and> it_type it = PC_SLICE_TYPE t e \<and>
     it_start it = u32 (off + PC_SLICE_START t e) \<and> it_len it = PC_SLICE_LENGTH t e \<and>
     it_entry it = int e \<and> it_offset it = off \<and> it_ext_offset it = ext \<and> it_gpt_offset it = 0"

definition first_iter :: "part_iter \<Rightarrow> part_iter" where
  "first_iter it = it\<lparr>it_offset := 0, it_ext_offset := 0, it_entry := - 1\<rparr>"

text \<open>Number of the next slice: within the first four every entry counts, later ones only when
  they are neither empty nor extended.\<close>

definition next_no :: "mem \<Rightarrow> nat \<Rightarrow> int \<Rightarrow> nat" where
  "next_no t e no =
     nat (if no < 4 \<or> (\<not> IS_PC_SLICE_TYPE_EXTENDED (PC_SLICE_TYPE t e) \<and> PC_SLICE_TYPE t e \<noteq> 0)
          then no + 1 else no)"

lemma next_pc_slice_entry:
  assumes ok: "disk_ok fw drive d img b (efi s)" "errnum s = ERR_NONE" "buffer_ok drive d img b s"
    and no: "no = (it_partition it AND 0xFF0000) div 65536"
    and it0: "it0 = (if no = 0xFF then first_iter it else it)"
      "no' = (if no = 0xFF then - 1 else no)"
    and off: "off = it_offset it0" "0 \<le> off" "off < whole_sectors d b"
    and t: "t = sector_img img b off" "pc_table t off (it_entry it0)"
    and e: "it_entry it0 = int e - 1" "e \<le> 3" and nn: "- 1 \<le> no'"
  shows "\<exists>it' s'. next_pc_slice fw drive it s = Some (True, it', s') \<and>
    at_entry t off (it_ext_offset it0) e (next_no t e no') it' \<and> same_sector (it_buf it') t \<and> buf_drive s' = drive \<and>
    buffer_ok drive d img b s' \<and> buffer_step s s'"
proof -
  obtain s' buf where r: "read_table fw drive it0 s = Some (Inr (it0\<lparr>it_buf := buf\<rparr>, s'))"
    "same_sector buf t" "buffer_ok drive d img b s'" "buffer_step s s'" "buf_drive s' = drive"
    using read_table_ok [OF ok, of it0] off t by auto
  define it' where "it' = it0\<lparr>it_buf := buf, it_gpt_offset := 0, it_entry := int e,
      it_type := PC_SLICE_TYPE t e, it_start := u32 (off + PC_SLICE_START t e),
      it_len := PC_SLICE_LENGTH t e, it_partition := slice_no (next_no t e no')\<rparr>"
  have f: "PC_SLICE_TYPE buf e = PC_SLICE_TYPE t e" "PC_SLICE_START buf e = PC_SLICE_START t e"
    "PC_SLICE_LENGTH buf e = PC_SLICE_LENGTH t e" using r(2) e(2) by (simp_all add: same_sector_table)
  have sn: "((if no' < 4 \<or> (\<not> IS_PC_SLICE_TYPE_EXTENDED (PC_SLICE_TYPE t e) \<and> PC_SLICE_TYPE t e \<noteq> 0)
          then no' + 1 else no') * 65536) OR 65535 = slice_no (next_no t e no')"
    using slice_no_or [of "next_no t e no'"] nn by (auto simp: next_no_def)
  have "next_pc_slice fw drive it s = Some (True, it', s')"
    using e(2)
    by (subst next_pc_slice.simps)
      (simp add: no [symmetric] it0(2) [symmetric] it0(1) [unfolded first_iter_def, symmetric] r(1) e(1) f sn
        Let_def it'_def off(1) split del: if_split cong: if_cong)
  moreover have "at_entry t off (it_ext_offset it0) e (next_no t e no') it'"
    using off(1) by (simp add: at_entry_def it'_def)
  moreover have "same_sector (it_buf it') t" using r(2) by (simp add: it'_def)
  ultimately show ?thesis using r(3-5) by blast
qed

text \<open>A hard disk iteration that is at entry \<open>e\<close> of the MBR, or at its beginning.\<close>

definition before_primary :: "mem \<Rightarrow> nat \<Rightarrow> part_iter \<Rightarrow> bool" where
  "before_primary t i it \<longleftrightarrow>
     (if i = 0 then it_partition it = 0xFFFFFF
      else at_entry t 0 0 (i - 1) (i - 1) it \<and> \<not> IS_PC_SLICE_TYPE_BSD (PC_SLICE_TYPE t (i - 1)))"

lemma slice_type_byte: "PC_SLICE_TYPE t i AND 0xFF = PC_SLICE_TYPE t i"
  using and_sector_mask [of "PC_SLICE_TYPE t i" 8] ld8_range [of t "446 + 4 + 16 * i"]
  by (simp add: PC_SLICE_TYPE_def)

lemma next_primary:
  assumes ok: "disk_ok fw drive d img b (efi s)" "errnum s = ERR_NONE" "buffer_ok drive d img b s"
    and hd: "drive AND 0x80 \<noteq> 0" "current_drive s \<noteq> NETWORK_DRIVE" "1 \<le> whole_sectors d b"
    and t: "t = sector_img img b 0" "PC_MBR_CHECK_SIG t" "PC_SLICE_TYPE t 0 \<noteq> 0xEE"
    and i: "i \<le> 3" "before_primary t i it"
  shows "\<exists>it' s'. next_partition fw drive dest it s = Some (True, it', s') \<and> at_entry t 0 0 i i it' \<and>
    same_sector (it_buf it') t \<and> buf_drive s' = drive \<and> buffer_ok drive d img b s' \<and> buffer_step s s'"
proof -
  have no: "(it_partition it AND 0xFF0000) div 65536 = (if i = 0 then 0xFF else int i - 1)"
    using i slice_no_slice [of "i - 1"] by (auto simp: before_primary_def at_entry_def)
  have np: "next_partition fw drive dest it s = next_pc_slice fw drive it s"
    using hd i(2) by (auto simp: next_partition_def before_primary_def at_entry_def slice_type_byte split: if_splits)
  have nn: "next_no t i (int i - 1) = i" using i(1) by (simp add: next_no_def)
  have "\<exists>it' s'. next_pc_slice fw drive it s = Some (True, it', s') \<and>
    at_entry t 0 0 i (next_no t i (int i - 1)) it' \<and> same_sector (it_buf it') t \<and> buf_drive s' = drive \<and> buffer_ok drive d img b s' \<and> buffer_step s s'"
  proof (cases "i = 0")
    case True
    then show ?thesis
      using next_pc_slice_entry [of fw drive d img b s 255 it "first_iter it" "- 1" 0 t 0] ok no hd(3) t
      by (simp add: first_iter_def pc_table_def)
  next
    case False
    with i(2) have "it_offset it = 0" "it_ext_offset it = 0" "it_entry it = int i - 1"
      by (auto simp: before_primary_def at_entry_def)
    with False show ?thesis
      using next_pc_slice_entry [of fw drive d img b s "int i - 1" it it "int i - 1" 0 t i] ok no hd(3) t i(1)
      by (simp add: pc_table_def)
  qed
  then show ?thesis unfolding np nn .
qed

text \<open>
  C17: Enumeration of primary partitions. On a hard disk whose first sector carries a valid
  MBR that is not a protective one, \<^verbatim>\<open>next_partition\<close> started on 0xFFFFFF, or standing on
  an entry that is not a BSD slice, returns the next of the four entries with its type,
  first sector, length and number, empty entries included.
\<close>

theorem next_partition_primary:
  assumes "disk_ok fw drive d img b (efi s)" "errnum s = ERR_NONE" "buffer_ok drive d img b s"
    "drive AND 0x80 \<noteq> 0" "current_drive s \<noteq> NETWORK_DRIVE" "1 \<le> whole_sectors d b"
    "t = sector_img img b 0" "PC_MBR_CHECK_SIG t" "PC_SLICE_TYPE t 0 \<noteq> 0xEE"
    "i \<le> 3" "before_primary t i it"
  shows "\<exists>it' s'. next_partition fw drive dest it s = Some (True, it', s') \<and> at_entry t 0 0 i i it' \<and>
    buffer_ok drive d img b s' \<and> buffer_step s s'"
  using next_primary [OF assms] by blast


section \<open>Opening a primary partition\<close>

definition global_iter :: "part_iter \<Rightarrow> 'w dstate \<Rightarrow> part_iter" where
  "global_iter it s = it\<lparr>it_partition := current_partition s, it_type := current_slice s,
     it_start := part_start s, it_len := part_length s\<rparr>"

definition opened :: "mem \<Rightarrow> nat \<Rightarrow> 'w dstate \<Rightarrow> bool" where
  "opened t p s \<longleftrightarrow> current_partition s = slice_no p \<and> current_slice s = PC_SLICE_TYPE t p \<and>
     part_start s = PC_SLICE_START t p \<and> part_length s = PC_SLICE_LENGTH t p"

lemma slice_no_inject [simp]: "slice_no i = slice_no j \<longleftrightarrow> i = j"
  by (simp add: slice_no_def)

lemma slice_no_div: "slice_no p div 65536 = int p"
  by (simp add: slice_no_def)

lemma open_next_primary:
  assumes ok: "disk_ok fw (current_drive s) d img b (efi s)" "errnum s = ERR_NONE" "buffer_ok (current_drive s) d img b s"
    and hd: "current_drive s AND 0x80 \<noteq> 0" "current_drive s \<noteq> NETWORK_DRIVE" "1 \<le> whole_sectors d b"
    and t: "t = sector_img img b 0" "PC_MBR_CHECK_SIG t" "PC_SLICE_TYPE t 0 \<noteq> 0xEE"
    and i: "i \<le> 3" "before_primary t i (global_iter it s)"
  shows "\<exists>it' s'. open_next fw dest it s = Some (True, it', s') \<and> at_entry t 0 0 i i (global_iter it' s') \<and>
    opened t i s' \<and> buffer_ok (current_drive s) d img b s' \<and> efi s' = efi s \<and> errnum s' = ERR_NONE \<and>
    current_drive s' = current_drive s"
proof -
  obtain it' s1 where n: "next_partition fw (current_drive s) dest (global_iter it s) s = Some (True, it', s1)"
    "at_entry t 0 0 i i it'" "buffer_ok (current_drive s) d img b s1" "buffer_step s s1"
    using next_primary [OF ok hd t i] by blast
  let ?s' = "s1\<lparr>current_partition := it_partition it', current_slice := it_type it',
      part_start := it_start it', part_length := it_len it'\<rparr>"
  have "open_next fw dest it s = Some (True, it', ?s')"
    using n(1) by (simp add: open_next_def global_iter_def)
  moreover have "opened t i ?s'"
    using n(2) ld32_range [of t "446 + 8 + 16 * i"] by (simp add: opened_def at_entry_def u32_id PC_SLICE_START_def)
  moreover have "at_entry t 0 0 i i (global_iter it' ?s')" using n(2) by (simp add: at_entry_def global_iter_def)
  moreover have "buffer_ok (current_drive s) d img b ?s'" using n(3) by (simp add: buffer_ok_def)
  moreover have "efi s1 = efi s" "errnum s1 = errnum s" "current_drive s1 = current_drive s"
    using n(4) by (auto simp: buffer_step_def)
  ultimately show ?thesis using ok(2) by auto
qed

lemma open_loop_primary:
  assumes "disk_ok fw (current_drive s) d img b (efi s)" "errnum s = ERR_NONE" "buffer_ok (current_drive s) d img b s"
    and "current_drive s AND 0x80 \<noteq> 0" "current_drive s \<noteq> NETWORK_DRIVE" "1 \<le> whole_sectors d b"
    and t: "t = sector_img img b 0" "PC_MBR_CHECK_SIG t" "PC_SLICE_TYPE t 0 \<noteq> 0xEE"
    and p: "p \<le> 3" "PC_SLICE_TYPE t p \<noteq> 0" "\<forall>j < p. \<not> IS_PC_SLICE_TYPE_BSD (PC_SLICE_TYPE t j)"
    and "i \<le> p" "before_primary t i (global_iter it s)"
  shows "\<exists>s'. open_loop (Suc (p - i) + k) fw (slice_no p) it s = Some (True, s') \<and> opened t p s' \<and>
    errnum s' = ERR_NONE \<and> efi s' = efi s \<and> buffer_ok (current_drive s) d img b s' \<and> current_drive s' = current_drive s"
  using assms
proof (induction "p - i" arbitrary: i it s)
  case 0
  then have ip: "i = p" by simp
  from open_next_primary [OF 0(2-10) _ 0(15), of "slice_no p"] 0(11) ip obtain it' s' where
    "open_next fw (slice_no p) it s = Some (True, it', s')" "opened t p s'"
    "buffer_ok (current_drive s) d img b s'" "efi s' = efi s" "errnum s' = ERR_NONE" "current_drive s' = current_drive s" by auto
  then show ?case
    using p(2) ip by (simp add: opened_def Let_def buffer_ok_def)
next
  case (Suc m)
  then have ip: "i < p" "p - Suc i = m" "Suc i \<le> p" "Suc (p - i) + k = Suc (Suc (p - Suc i) + k)" by auto
  from open_next_primary [OF Suc(3-11) _ Suc(16), of "slice_no p"] Suc(12) ip obtain it' s' where n:
    "open_next fw (slice_no p) it s = Some (True, it', s')" "at_entry t 0 0 i i (global_iter it' s')"
    "opened t i s'" "buffer_ok (current_drive s) d img b s'" "efi s' = efi s" "errnum s' = ERR_NONE"
    "current_drive s' = current_drive s" by auto
  have same: "s'\<lparr>errnum := ERR_NONE\<rparr> = s'" using n(6) by simp
  have "slice_no p div 2 ^ 16 \<noteq> 0xFF" using p(1) by (simp add: slice_no_div)
  then have "open_loop (Suc (Suc (p - Suc i) + k)) fw (slice_no p) it s = open_loop (Suc (p - Suc i) + k) fw (slice_no p) it' s'"
    using n(1,3) ip(1) by (subst open_loop.simps) (simp add: same opened_def Let_def)
  moreover have "before_primary t (Suc i) (global_iter it' s')"
    using n(2) ip(1) p(3) by (simp add: before_primary_def)
  ultimately show ?case
    unfolding ip(4) using Suc(1) [of "Suc i" s' it'] Suc(3-14) n ip by simp
qed

lemma sane_partition_state: "fst (sane_partition s) \<Longrightarrow> sane_partition s = (True, s)"
  by (auto simp: sane_partition_def split: if_splits)

lemma open_primary:
  assumes ok: "disk_ok fw (current_drive s) d img b (efi s)" "errnum s = ERR_NONE" "buffer_ok (current_drive s) d img b s"
    and hd: "current_drive s AND 0x80 \<noteq> 0" "current_drive s \<noteq> NETWORK_DRIVE" "1 \<le> whole_sectors d b"
    and sane: "fst (sane_partition s)"
    and t: "t = sector_img img b 0" "PC_MBR_CHECK_SIG t" "PC_SLICE_TYPE t 0 \<noteq> 0xEE"
    and p: "p \<le> 3" "PC_SLICE_TYPE t p \<noteq> 0" "\<forall>j < p. \<not> IS_PC_SLICE_TYPE_BSD (PC_SLICE_TYPE t j)"
    and cur: "current_partition s = slice_no p" and fuel: "5 \<le> fuel"
  shows "\<exists>s'. open_partition fuel fw it0 s = Some (True, s') \<and> opened t p s' \<and> errnum s' = ERR_NONE \<and>
    efi s' = efi s \<and> buffer_ok (current_drive s) d img b s' \<and> current_drive s' = current_drive s"
proof -
  define s2 where "s2 = s\<lparr>bsd_evil_hack := 0, current_slice := 0, part_start := 0\<rparr>"
  have bo2: "buf_drive s2 = current_drive s \<Longrightarrow> buf_geom s2 = disk_geom d"
    using ok(3) by (simp add: s2_def buffer_ok_def)
  obtain s3 where s3: "select_drive (current_drive s) s2 = Some s3" "efi s3 = efi s" "errnum s3 = ERR_NONE"
    "buffer_ok (current_drive s) d img b s3" "current_drive s3 = current_drive s" "current_partition s3 = slice_no p"
    using select_drive_ok [of fw "current_drive s" d img b s2] ok bo2 cur
    by (simp add: s2_def buffer_ok_def cache_ok_def)
  define s5 where "s5 = s3\<lparr>part_length := total_sectors (buf_geom s3), current_partition := 0xFFFFFF\<rparr>"
  have "slice_no p \<noteq> 0xFFFFFF" using p(1) by (simp add: slice_no_def)
  then have "open_partition fuel fw it0 s = open_loop fuel fw (slice_no p) it0 s5"
    using s3(1,6) hd(2) by (simp add: open_partition_def sane_partition_state [OF sane] s2_def [symmetric] s5_def Let_def)
  moreover have "\<exists>s'. open_loop (Suc (p - 0) + (fuel - Suc p)) fw (slice_no p) it0 s5 = Some (True, s') \<and> opened t p s' \<and>
    errnum s' = ERR_NONE \<and> efi s' = efi s5 \<and> buffer_ok (current_drive s5) d img b s' \<and> current_drive s' = current_drive s5"
    using s3 ok hd t p by (intro open_loop_primary) (simp_all add: s5_def buffer_ok_def before_primary_def global_iter_def)
  moreover have "Suc (p - 0) + (fuel - Suc p) = fuel" using p(1) fuel by simp
  ultimately show ?thesis using s3(2,5) by (simp add: s5_def)
qed

text \<open>
  C16: Opening a primary partition. With well-formed numbers in the current drive and
  partition, a hard disk with a valid MBR that is not protective, no BSD slice before the
  wanted entry and a non-empty wanted entry, \<^verbatim>\<open>open_partition\<close> returns (five rounds of its
  loop are enough) and reports success, with the partition's start, length and type from the
  table; the current partition is the one asked for and the track buffer is coherent.
\<close>

theorem open_partition_primary:
  assumes ok: "disk_ok fw (current_drive s) d img b (efi s)" "errnum s = ERR_NONE" "buffer_ok (current_drive s) d img b s"
    and hd: "current_drive s AND 0x80 \<noteq> 0" "current_drive s \<noteq> NETWORK_DRIVE" "1 \<le> whole_sectors d b"
    and sane: "fst (sane_partition s)"
    and t: "t = sector_img img b 0" "PC_MBR_CHECK_SIG t" "PC_SLICE_TYPE t 0 \<noteq> 0xEE"
    and p: "p \<le> 3" "PC_SLICE_TYPE t p \<noteq> 0" "\<forall>j < p. \<not> IS_PC_SLICE_TYPE_BSD (PC_SLICE_TYPE t j)"
    and cur: "current_partition s = slice_no p"
  shows "\<exists>s'. open_partition 5 fw it0 s = Some (True, s') \<and> opened t p s' \<and> errnum s' = ERR_NONE \<and>
    efi s' = efi s \<and> buffer_ok (current_drive s) d img b s'"
  using open_primary [OF assms order_refl] by blast

section \<open>A partitioned disk\<close>

text \<open>An MBR with a Linux partition at sector 10 and an extended one at sector 100, whose table
  holds a logical partition.\<close>

definition part_disk :: mem where
  "part_disk k =
     (if k = 450 then 0x83 else if k = 454 then 10 else if k = 458 then 50
      else if k = 498 then 5 else if k = 502 then 100 else if k = 506 then 200
      else if k = 510 then 0x55 else if k = 511 then 0xAA
      else if k = 51650 then 0x83 else if k = 51654 then 1 else if k = 51658 then 50
      else if k = 51710 then 0x55 else if k = 51711 then 0xAA else 0)"

lemma part_disk_no_ezd: "no_ezd part_disk 9"
proof -
  have "sec * 512 + (450 + 16 * i) \<noteq> (510 :: nat)" for sec i
  proof
    have "sec * 512 + (450 + 16 * i) = 2 + 16 * (32 * sec + 28 + i)" by simp
    moreover assume "sec * 512 + (450 + 16 * i) = 510"
    ultimately have "2 + 16 * (32 * sec + 28 + i) = 510" by (rule trans [OF sym])
    then have "(2 + 16 * (32 * sec + 28 + i)) mod 16 = 510 mod 16" by (rule arg_cong)
    then show False by (simp only: mod_mult_self2) simp
  qed
  then have "part_disk (sec * 512 + (450 + 16 * i)) \<noteq> 0x55" if "sec < 56" "i \<le> 3" for sec i :: nat
    using that by (simp add: part_disk_def)
  from this [of _ 0] this [of _ 1] this [of _ 2] this [of _ 3] show ?thesis
    by (auto simp: no_ezd_def has_ezd_def PC_SLICE_TYPE_def ld8_def vtrack_def word_uint_eq_iff)
qed

definition part_state :: "mem dstate" where
  "part_state = sample_state part_disk"

lemma part_disk_ok: "disk_ok ram_firmware 0x80 disk0 part_disk 9 (sample_efi1 part_disk)"
  using sample_device [of part_disk] ram_disk_image part_disk_no_ezd
  by (simp add: disk_ok_def media_sane_def) (simp add: sample_efi1_def sample_efi_def)

lemma part_state_simps [simp]:
  "efi part_state = sample_efi1 part_disk" "errnum part_state = ERR_NONE" "current_drive part_state = 0x80"
  by (simp_all add: part_state_def)

lemma part_buffer_ok: "buffer_ok 0x80 disk0 part_disk 9 part_state"
  by (simp add: buffer_ok_def part_state_def sample_state_def)

lemma part_table:
  "PC_MBR_CHECK_SIG (sector_img part_disk 9 0)" "PC_SLICE_TYPE (sector_img part_disk 9 0) 0 = 0x83"
  "PC_SLICE_START (sector_img part_disk 9 0) 0 = 10" "PC_SLICE_LENGTH (sector_img part_disk 9 0) 0 = 50"
  "PC_SLICE_TYPE (sector_img part_disk 9 0) 1 = 0" "PC_SLICE_TYPE (sector_img part_disk 9 0) 2 = 0"
  "PC_SLICE_TYPE (sector_img part_disk 9 0) 3 = 5" "PC_SLICE_START (sector_img part_disk 9 0) 3 = 100"
  "PC_SLICE_LENGTH (sector_img part_disk 9 0) 3 = 200"
  by (simp_all add: PC_MBR_CHECK_SIG_def PC_SLICE_TYPE_def PC_SLICE_START_def PC_SLICE_LENGTH_def
      sector_img_def part_disk_def ld32_def ld16_def ld8_def)


definition iter0 :: part_iter where
  "iter0 = \<lparr>it_partition = 0xFFFFFF, it_type = 0, it_start = 0, it_len = 0, it_offset = 0, it_entry = 0,
     it_ext_offset = 0, it_gpt_offset = 0, it_gpt_count = 0, it_gpt_size = 0, it_buf = \<lambda>_. 0\<rparr>"

theorem next_partition_primary_witness:
  "\<exists>it' s'. next_partition ram_firmware 0x80 0xFFFFFF iter0 part_state = Some (True, it', s') \<and>
     at_entry (sector_img part_disk 9 0) 0 0 0 0 it'"
proof -
  have "\<exists>it' s'. next_partition ram_firmware 0x80 0xFFFFFF iter0 part_state = Some (True, it', s') \<and>
    at_entry (sector_img part_disk 9 0) 0 0 0 0 it' \<and> buffer_ok 0x80 disk0 part_disk 9 s' \<and> buffer_step part_state s'"
    by (rule next_partition_primary)
      (use part_disk_ok part_buffer_ok part_table in \<open>simp_all add: NETWORK_DRIVE_def sample_whole before_primary_def iter0_def\<close>)
  then show ?thesis by blast
qed


theorem open_partition_primary_witness:
  "\<exists>s'. open_partition 5 ram_firmware iter0 (part_state\<lparr>current_partition := 0xFFFF\<rparr>) = Some (True, s') \<and>
     part_start s' = 10 \<and> part_length s' = 50"
proof -
  let ?s = "part_state\<lparr>current_partition := 0xFFFF\<rparr>"
  have bo: "buffer_ok (current_drive ?s) disk0 part_disk 9 ?s" using part_buffer_ok by (simp add: buffer_ok_def)
  have sane: "fst (sane_partition ?s)" by (simp add: sane_partition_def)
  have "\<exists>s'. open_partition 5 ram_firmware iter0 ?s = Some (True, s') \<and> opened (sector_img part_disk 9 0) 0 s' \<and>
    errnum s' = ERR_NONE \<and> efi s' = efi ?s \<and> buffer_ok (current_drive ?s) disk0 part_disk 9 s'"
    by (rule open_partition_primary [OF _ _ bo _ _ _ sane refl])
      (use part_disk_ok part_table in \<open>simp_all add: NETWORK_DRIVE_def sample_whole slice_no_def\<close>)
  then show ?thesis using part_table by (auto simp: opened_def)
qed

section \<open>Hiding a partition\<close>








end
