(* ===== verification/Completion.thy ===== *)
theory Completion
  imports Disk_Io
begin

text \<open>
  \<^verbatim>\<open>print_a_completion\<close> of \<^verbatim>\<open>stage2/disk_io.c\<close>, which the file systems and the
  device-name code call for each candidate: it prints the name, or keeps in
  \<^verbatim>\<open>unique_string\<close> what the candidates have in common. The buffer of
  \<^verbatim>\<open>unique_string\<close> is a C string; output goes to \<open>console\<close>.
\<close>

section \<open>Definition\<close>

text \<open>The stripping loop: the part of \<open>buf\<close> before the first difference.\<close>

fun strip_mismatch :: "cstr \<Rightarrow> cstr \<Rightarrow> cstr" where
  "strip_mismatch buf name =
     (if deref buf \<noteq> 0 \<and> deref buf = deref name
      then deref buf # strip_mismatch (drop 1 buf) (drop 1 name) else [])"

declare strip_mismatch.simps [simp del]

definition print_a_completion :: "cstr \<Rightarrow> 'a stage2_scheme \<Rightarrow> 'a stage2_scheme" where
  "print_a_completion name s =
     (if grub_strcmp name (bytes_of ''.'') = 0 \<or> grub_strcmp name (bytes_of ''..'') = 0 then s
      else let s1 = (if do_completion s
                     then if unique s = 0 then s\<lparr>unique_string := cstring name\<rparr>
                          else s\<lparr>unique_string := strip_mismatch (unique_string s) name\<rparr>
                     else s\<lparr>console := console s @ 32 # cstring name\<rparr>)
           in s1\<lparr>unique := unique s1 + 1\<rparr>)"

section \<open>The common part of the candidates\<close>

lemma strip_mismatch_simps [simp]:
  "strip_mismatch [] name = []"
  "strip_mismatch (c # buf) name = (if c \<noteq> 0 \<and> c = deref name then c # strip_mismatch buf (drop 1 name) else [])"
  by (subst strip_mismatch.simps; simp)+

lemma strip_mismatch_eq: "strip_mismatch buf name = longest_common_prefix (cstring buf) (cstring name)"
proof (induction buf arbitrary: name)
  case (Cons c buf)
  show ?case using Cons.IH [of "drop 1 name"] by (cases name) auto
qed simp

definition is_dot :: "cstr \<Rightarrow> bool" where
  "is_dot name \<longleftrightarrow> cstring name = bytes_of ''.'' \<or> cstring name = bytes_of ''..''"

lemma sign_lex_zero: "sign_lex xs ys = 0 \<longleftrightarrow> xs = ys"
  by (induction xs ys rule: sign_lex.induct) auto

lemma dot_test: "grub_strcmp name (bytes_of ''.'') = 0 \<or> grub_strcmp name (bytes_of ''..'') = 0 \<longleftrightarrow> is_dot name"
proof -
  have "cstring (bytes_of ''.'') = bytes_of ''.''" "cstring (bytes_of ''..'') = bytes_of ''..''" by code_simp+
  then show ?thesis by (simp add: grub_strcmp_eq sign_lex_zero is_dot_def)
qed

lemma prefix_common: "prefix ps (longest_common_prefix xs ys) \<longleftrightarrow> prefix ps xs \<and> prefix ps ys"
  using longest_common_prefix_prefix1 longest_common_prefix_prefix2 longest_common_prefix_max_prefix prefix_order.trans by blast

lemma completion_step:
  "is_dot name \<Longrightarrow> print_a_completion name s = s"
  "\<not> is_dot name \<Longrightarrow> do_completion s \<Longrightarrow> unique s = 0 \<Longrightarrow>
     print_a_completion name s = s\<lparr>unique_string := cstring name, unique := 1\<rparr>"
  "\<not> is_dot name \<Longrightarrow> do_completion s \<Longrightarrow> unique s \<noteq> 0 \<Longrightarrow>
     print_a_completion name s =
       s\<lparr>unique_string := longest_common_prefix (cstring (unique_string s)) (cstring name), unique := unique s + 1\<rparr>"
  unfolding print_a_completion_def dot_test by (simp_all add: strip_mismatch_eq)

lemma completions_from:
  assumes "do_completion s" "0 < unique s" "cstring (unique_string s) = unique_string s"
  shows "\<exists>u. fold print_a_completion names s =
      s\<lparr>unique_string := u, unique := unique s + int (length (filter (\<lambda>n. \<not> is_dot n) names))\<rparr> \<and>
    (\<forall>ps. prefix ps u \<longleftrightarrow> prefix ps (unique_string s) \<and> (\<forall>n \<in> set names. \<not> is_dot n \<longrightarrow> prefix ps (cstring n)))"
  using assms
proof (induction names arbitrary: s)
  case Nil
  show ?case by (intro exI [of _ "unique_string s"]) simp
next
  case (Cons name names)
  show ?case
  proof (cases "is_dot name")
    case True
    then show ?thesis using Cons.IH [OF Cons.prems] by (simp add: completion_step)
  next
    case False
    let ?l = "longest_common_prefix (unique_string s) (cstring name)"
    let ?s = "s\<lparr>unique_string := ?l, unique := unique s + 1\<rparr>"
    have e: "print_a_completion name s = ?s" using False Cons.prems by (simp add: completion_step)
    have "0 \<notin> set ?l"
      using longest_common_prefix_prefix2 [of "unique_string s" "cstring name"] cstring_no_nul [of name]
      by (auto dest: set_mono_prefix)
    then have "cstring (unique_string ?s) = unique_string ?s" by (simp add: cstring_id)
    then obtain u where "fold print_a_completion names ?s =
          ?s\<lparr>unique_string := u, unique := unique ?s + int (length (filter (\<lambda>n. \<not> is_dot n) names))\<rparr>"
        "\<forall>ps. prefix ps u \<longleftrightarrow> prefix ps ?l \<and> (\<forall>n \<in> set names. \<not> is_dot n \<longrightarrow> prefix ps (cstring n))"
      using Cons.IH [of ?s] Cons.prems by auto
    then show ?thesis using False e by (intro exI [of _ u]) (auto simp: prefix_common)
  qed
qed

lemma completions_ok:
  assumes "do_completion s" "unique s = 0" "c \<in> set names" "\<not> is_dot c"
  shows "fold print_a_completion names s =
    s\<lparr>unique_string := Longest_common_prefix (cstring ` {n \<in> set names. \<not> is_dot n}),
      unique := int (length (filter (\<lambda>n. \<not> is_dot n) names))\<rparr>"
  using assms
proof (induction names)
  case (Cons name names)
  show ?case
  proof (cases "is_dot name")
    case True
    then have "{n \<in> set (name # names). \<not> is_dot n} = {n \<in> set names. \<not> is_dot n}" by auto
    then show ?thesis using True Cons by (auto simp: completion_step)
  next
    case False
    let ?s = "s\<lparr>unique_string := cstring name, unique := 1\<rparr>"
    obtain u where u: "fold print_a_completion names ?s =
          ?s\<lparr>unique_string := u, unique := 1 + int (length (filter (\<lambda>n. \<not> is_dot n) names))\<rparr>"
        "\<forall>ps. prefix ps u \<longleftrightarrow> prefix ps (cstring name) \<and> (\<forall>n \<in> set names. \<not> is_dot n \<longrightarrow> prefix ps (cstring n))"
      using completions_from [of ?s names] Cons.prems by auto
    have "Longest_common_prefix (cstring ` {n \<in> set (name # names). \<not> is_dot n}) = u"
    proof (rule Longest_common_prefix_eq)
      show "\<forall>xs \<in> cstring ` {n \<in> set (name # names). \<not> is_dot n}. prefix u xs" using u(2) [rule_format, of u] by auto
      show "\<forall>qs. (\<forall>xs \<in> cstring ` {n \<in> set (name # names). \<not> is_dot n}. prefix qs xs) \<longrightarrow> length qs \<le> length u"
        using u(2) False by (auto intro!: prefix_length_le)
    qed (use False in auto)
    then show ?thesis using False u(1) Cons.prems by (simp add: completion_step add.commute)
  qed
qed simp

text \<open>
  C29: Completion keeps the common part. After the candidates \<open>names\<close> (at least one other than
  "." and ".."), \<^verbatim>\<open>unique\<close> counts the candidates that are not dot entries and
  \<^verbatim>\<open>unique_string\<close> is their longest common prefix; no other variable changes. This is what the code does
  when \<^verbatim>\<open>do_completion\<close> is set, and without it the names are printed; the comment above
  \<^verbatim>\<open>print_a_completion\<close> describes the two cases the other way round.
\<close>

theorem completion_common_prefix:
  assumes "do_completion s" "unique s = 0" "c \<in> set names" "\<not> is_dot c"
  shows "fold print_a_completion names s =
    s\<lparr>unique_string := Longest_common_prefix (cstring ` {n \<in> set names. \<not> is_dot n}),
      unique := int (length (filter (\<lambda>n. \<not> is_dot n) names))\<rparr>"
  using completions_ok [OF assms] .

definition completing :: stage2 where
  "completing = stage2.truncate ((sample_state sample_image)\<lparr>do_completion := True, unique := 0\<rparr>)"

theorem completion_common_prefix_witness:
  "fold print_a_completion (map bytes_of [''.'', ''..'', ''vmlinuz'', ''vmlinux'']) completing =
    completing\<lparr>unique_string := Longest_common_prefix (cstring ` {n \<in> set (map bytes_of [''.'', ''..'', ''vmlinuz'', ''vmlinux'']). \<not> is_dot n}),
      unique := int (length (filter (\<lambda>n. \<not> is_dot n) (map bytes_of [''.'', ''..'', ''vmlinuz'', ''vmlinux''])))\<rparr>"
proof -
  have "\<not> is_dot (bytes_of ''vmlinuz'')" unfolding is_dot_def by code_simp
  moreover have "do_completion completing" "unique completing = 0" by (simp_all add: completing_def stage2.defs)
  ultimately show ?thesis
    by (intro completion_common_prefix [of completing "bytes_of ''vmlinuz''"]) auto
qed

end
