(* ===== verification/Fat.thy ===== *)
theory Fat
  imports Partition Completion
begin

text \<open>
  The FAT file system, \<^verbatim>\<open>stage2/fsys_fat.c\<close>: mounting, reading a file along its cluster
  chain through the FAT cache, and finding a name in a directory tree.

  \<^verbatim>\<open>FAT_SUPER\<close>, \<^verbatim>\<open>FAT_BUF\<close> and \<^verbatim>\<open>NAME_BUF\<close>, which live in the file system buffer,
  are the record \<open>fat_fs\<close>. The functions work over any extension of the record \<open>stage2\<close>
  and take the sector reader (\<^verbatim>\<open>devread\<close>) and \<^verbatim>\<open>get_sector_size\<close> of the current
  drive as arguments; the properties of reading are proved in the locale \<open>block_reader\<close>
  and hold for \<^verbatim>\<open>devread\<close> by its interpretation. A result is \<open>None\<close> where the code
  traps, or where it uses an undefined result of \<^verbatim>\<open>bsfl\<close>.
\<close>

section \<open>Definitions\<close>

type_synonym 'a reader = "int \<Rightarrow> int \<Rightarrow> int \<Rightarrow> mem \<Rightarrow> 'a stage2_scheme \<Rightarrow> (bool \<times> mem \<times> 'a stage2_scheme) option"

record fat_fs =
  fat_offset :: int
  fat_length :: int
  fat_size :: int
  root_offset :: int
  root_max :: int
  data_offset :: int
  num_sectors :: int
  num_clust :: int
  clust_eof_marker :: int
  sects_per_clust :: int
  sectsize_bits :: nat
  clustsize_bits :: nat
  root_cluster :: int
  cached_fat :: int
  file_cluster :: int
  current_cluster_num :: int
  current_cluster :: int
  FAT_BUF :: mem
  NAME_BUF :: mem

definition FAT_CACHE_SIZE :: int where
  "FAT_CACHE_SIZE = 4096"

text \<open>Division of C, towards zero.\<close>

definition cdiv :: "int \<Rightarrow> int \<Rightarrow> int" where
  "cdiv a b = (if a < 0 then - ((- a) div b) else a div b)"

definition IS_PC_SLICE_TYPE_FAT :: "int \<Rightarrow> bool" where
  "IS_PC_SLICE_TYPE_FAT ty \<longleftrightarrow> ty AND NOT 0x10 \<in> {1, 4, 6, 0xe, 0xb, 0xc, 0xde, 0xef}"

subsection \<open>Mounting\<close>

text \<open>The partition types a FAT may be found on.\<close>

definition fat_slice_ok :: "'a stage2_scheme \<Rightarrow> bool" where
  "fat_slice_ok s \<longleftrightarrow> \<not> ((current_drive s AND 0x80 \<noteq> 0 \<or> current_slice s \<noteq> 0) \<and>
     current_slice s \<noteq> 0x83 \<and> current_slice s \<noteq> 0xfd \<and> \<not> IS_PC_SLICE_TYPE_FAT (current_slice s) \<and>
     \<not> IS_PC_SLICE_TYPE_BSD_WITH_FS (current_slice s) 8)"

text \<open>Fields of the boot sector, \<^verbatim>\<open>struct fat_bpb\<close>.\<close>

definition bpb_bytes_per_sect :: "mem \<Rightarrow> int" where "bpb_bytes_per_sect m = ld16 m 11"
definition bpb_sects_per_clust :: "mem \<Rightarrow> int" where "bpb_sects_per_clust m = ld8 m 13"
definition bpb_reserved_sects :: "mem \<Rightarrow> int" where "bpb_reserved_sects m = ld16 m 14"
definition bpb_num_fats :: "mem \<Rightarrow> int" where "bpb_num_fats m = ld8 m 16"
definition bpb_dir_entries :: "mem \<Rightarrow> int" where "bpb_dir_entries m = ld16 m 17"
definition bpb_short_sectors :: "mem \<Rightarrow> int" where "bpb_short_sectors m = ld16 m 19"
definition bpb_media :: "mem \<Rightarrow> int" where "bpb_media m = ld8 m 21"
definition bpb_fat_length :: "mem \<Rightarrow> int" where "bpb_fat_length m = ld16 m 22"
definition bpb_long_sectors :: "mem \<Rightarrow> int" where "bpb_long_sectors m = ld32 m 32"
definition bpb_fat32_length :: "mem \<Rightarrow> int" where "bpb_fat32_length m = ld32 m 36"
definition bpb_flags :: "mem \<Rightarrow> int" where "bpb_flags m = ld16 m 40"
definition bpb_root_cluster :: "mem \<Rightarrow> int" where "bpb_root_cluster m = ld32 m 44"

lemmas bpb_defs = bpb_bytes_per_sect_def bpb_sects_per_clust_def bpb_reserved_sects_def bpb_num_fats_def
  bpb_dir_entries_def bpb_short_sectors_def bpb_media_def bpb_fat_length_def bpb_long_sectors_def
  bpb_fat32_length_def bpb_flags_def bpb_root_cluster_def

text \<open>The layout computed from the boot sector.\<close>

definition fat_layout :: "mem \<Rightarrow> nat \<Rightarrow> nat \<Rightarrow> fat_fs \<Rightarrow> fat_fs" where
  "fat_layout bpb sbits cbits fs =
     (let nsec = s32 (if bpb_short_sectors bpb \<noteq> 0 then bpb_short_sectors bpb else bpb_long_sectors bpb);
          flen = s32 (if bpb_fat_length bpb \<noteq> 0 then bpb_fat_length bpb else bpb_fat32_length bpb);
          foff = bpb_reserved_sects bpb;
          roff = s32 (foff + bpb_num_fats bpb * flen);
          rmax = 32 * bpb_dir_entries bpb;
          doff = s32 (roff + (rmax - 1) div 2 ^ sbits + 1)
      in fs\<lparr>sectsize_bits := sbits, clustsize_bits := sbits + cbits, num_sectors := nsec,
            fat_offset := foff, fat_length := flen, root_offset := roff, root_max := rmax,
            data_offset := doff, num_clust := s32 (2 + cdiv (s32 (nsec - doff)) (bpb_sects_per_clust bpb)),
            sects_per_clust := bpb_sects_per_clust bpb\<rparr>)"

text \<open>FAT32, FAT16 or FAT12; the flag is false where the code gives up.\<close>

definition fat_kind :: "mem \<Rightarrow> fat_fs \<Rightarrow> bool \<times> fat_fs" where
  "fat_kind bpb fs =
     (if bpb_fat_length bpb = 0
      then if bpb_dir_entries bpb \<noteq> 0 then (False, fs)
           else let active_fat = bpb_flags bpb AND 0xf;
                    disabled = bpb_flags bpb AND 0x80 \<noteq> 0
                in if disabled \<and> active_fat \<ge> bpb_num_fats bpb then (False, fs)
                   else (True,
                     fs\<lparr>fat_offset := (if disabled then s32 (fat_offset fs + active_fat * fat_length fs) else fat_offset fs),
                        fat_size := 8, root_cluster := s32 (bpb_root_cluster bpb), clust_eof_marker := 0xffffff8\<rparr>)
      else if root_max fs = 0 then (False, fs)
      else if num_clust fs > 4087
      then (True, fs\<lparr>root_cluster := - 1, fat_size := 4, clust_eof_marker := 0xfff8\<rparr>)
      else (True, fs\<lparr>root_cluster := - 1, fat_size := 3, clust_eof_marker := 0xff8\<rparr>))"

definition fat_sane :: "mem \<Rightarrow> int \<Rightarrow> fat_fs \<Rightarrow> bool" where
  "fat_sane bpb ss fs \<longleftrightarrow> \<not> (bpb_bytes_per_sect bpb \<noteq> 2 ^ sectsize_bits fs \<or> bpb_bytes_per_sect bpb \<noteq> ss \<or>
     bpb_sects_per_clust bpb \<noteq> 2 ^ (clustsize_bits fs - sectsize_bits fs) \<or> num_clust fs \<le> 2 \<or>
     cdiv (s32 (fat_size fs * num_clust fs)) (2 * ss) > fat_length fs)"

definition fat_media_ok :: "mem \<Rightarrow> int \<Rightarrow> fat_fs \<Rightarrow> bool" where
  "fat_media_ok bpb first_fat fs \<longleftrightarrow>
     (let (mask, magic) = (if fat_size fs = 8 then (0x0fffffff, 0x0fffff00)
                           else if fat_size fs = 4 then (0xffff, 0xff00) else (0xfff, 0x0f00))
      in (first_fat AND mask) OR 8 = magic OR bpb_media bpb OR 8)"

definition fat_mount ::
    "'a reader \<Rightarrow> ('a stage2_scheme \<Rightarrow> int option) \<Rightarrow> fat_fs \<Rightarrow> 'a stage2_scheme \<Rightarrow> (bool \<times> fat_fs \<times> 'a stage2_scheme) option"
where
  "fat_mount rd ssz fs s =
     (if \<not> fat_slice_ok s then Some (False, fs, s)
      else case rd 0 0 64 (\<lambda>_. 0) s of
        None \<Rightarrow> None
      | Some (False, _, s1) \<Rightarrow> Some (False, fs, s1)
      | Some (True, bpb, s1) \<Rightarrow>
          (case ssz s1 of
             None \<Rightarrow> None
           | Some ss \<Rightarrow>
               if bpb_sects_per_clust bpb = 0 then Some (False, fs, s1)
               else case (bsf (bpb_bytes_per_sect bpb), bsf (bpb_sects_per_clust bpb)) of
                 (Some sbits, Some cbits) \<Rightarrow>
                   (case fat_kind bpb (fat_layout bpb sbits cbits fs) of
                      (False, fs1) \<Rightarrow> Some (False, fs1, s1)
                    | (True, fs1) \<Rightarrow>
                        if \<not> fat_sane bpb ss fs1 then Some (False, fs1, s1)
                        else case rd (fat_offset fs1) 0 4 (\<lambda>_. 0) s1 of
                          None \<Rightarrow> None
                        | Some (False, _, s2) \<Rightarrow> Some (False, fs1, s2)
                        | Some (True, m, s2) \<Rightarrow>
                            if fat_media_ok bpb (ld32 m 0) fs1
                            then Some (True, fs1\<lparr>cached_fat := - 2 * FAT_CACHE_SIZE\<rparr>, s2)
                            else Some (False, fs1, s2))
               | _ \<Rightarrow> None))"

subsection \<open>Reading\<close>

text \<open>One round of the inner loop of \<^verbatim>\<open>fat_read\<close>: the next cluster of the chain. The loop
  goes on, or the function returns: at the end of the chain, with an error, or because the
  FAT cannot be read.\<close>

datatype chain_step = Chain_Next | Chain_End | Chain_Stop

definition fat_cache_miss :: "fat_fs \<Rightarrow> int \<Rightarrow> bool" where
  "fat_cache_miss fs fat_entry \<longleftrightarrow>
     (let cached_pos = fat_entry - cached_fat fs
      in cached_pos < 0 \<or> cached_pos + fat_size fs > 2 * FAT_CACHE_SIZE)"

definition fat_fill_cache :: "'a reader \<Rightarrow> int \<Rightarrow> int \<Rightarrow> fat_fs \<Rightarrow> 'a stage2_scheme \<Rightarrow> (bool \<times> fat_fs \<times> 'a stage2_scheme) option" where
  "fat_fill_cache rd ss fat_entry fs s =
     (if fat_cache_miss fs fat_entry
      then let fs1 = fs\<lparr>cached_fat := fat_entry AND NOT (2 * ss - 1)\<rparr>
           in case rd (s32 (fat_offset fs1 + cdiv (cached_fat fs1) (2 * ss))) 0 FAT_CACHE_SIZE (FAT_BUF fs1) s of
                None \<Rightarrow> None
              | Some (ok, m, s1) \<Rightarrow> Some (ok, fs1\<lparr>FAT_BUF := m\<rparr>, s1)
      else Some (True, fs, s))"

text \<open>The entry of the chain in the cache; \<^verbatim>\<open>cached_pos\<close> counts half-bytes.\<close>

definition fat_entry_value :: "fat_fs \<Rightarrow> int \<Rightarrow> int" where
  "fat_entry_value fs cached_pos =
     (let v = s32 (ld32 (FAT_BUF fs) (nat (cached_pos div 2)))
      in if fat_size fs = 3 then (if cached_pos AND 1 \<noteq> 0 then v div 2 ^ 4 else v) AND 0xFFF
         else if fat_size fs = 4 then v AND 0xFFFF else v)"

definition fat_next_cluster ::
    "'a reader \<Rightarrow> int \<Rightarrow> fat_fs \<Rightarrow> 'a stage2_scheme \<Rightarrow> (chain_step \<times> fat_fs \<times> 'a stage2_scheme) option" where
  "fat_next_cluster rd ss fs s =
     (let fat_entry = s32 (current_cluster fs * fat_size fs)
      in case fat_fill_cache rd ss fat_entry fs s of
           None \<Rightarrow> None
         | Some (False, fs1, s1) \<Rightarrow> Some (Chain_Stop, fs1, s1)
         | Some (True, fs1, s1) \<Rightarrow>
             (let next_cluster = fat_entry_value fs1 (fat_entry - cached_fat fs1)
              in if next_cluster \<ge> clust_eof_marker fs1 then Some (Chain_End, fs1, s1)
                 else if next_cluster < 2 \<or> next_cluster \<ge> num_clust fs1
                 then Some (Chain_Stop, fs1, s1\<lparr>errnum := ERR_FSYS_CORRUPT\<rparr>)
                 else Some (Chain_Next, fs1\<lparr>current_cluster := next_cluster,
                                            current_cluster_num := current_cluster_num fs1 + 1\<rparr>, s1)))"

lemma fat_next_num:
  assumes "fat_next_cluster rd ss fs s = Some (Chain_Next, fs', s')"
  shows "current_cluster_num fs' = current_cluster_num fs + 1"
proof -
  have "current_cluster_num fs1 = current_cluster_num fs" if "fat_fill_cache rd ss e fs s = Some (ok, fs1, s1)" for e ok fs1 s1
    using that by (auto simp: fat_fill_cache_def Let_def split: if_splits option.splits prod.splits)
  then show ?thesis
    using assms by (auto simp: fat_next_cluster_def Let_def split: if_splits option.splits prod.splits bool.splits)
qed

function fat_follow ::
    "'a reader \<Rightarrow> int \<Rightarrow> int \<Rightarrow> fat_fs \<Rightarrow> 'a stage2_scheme \<Rightarrow> (chain_step \<times> fat_fs \<times> 'a stage2_scheme) option" where
  "fat_follow rd ss logical_clust fs s =
     (if logical_clust > current_cluster_num fs
      then case fat_next_cluster rd ss fs s of
             None \<Rightarrow> None
           | Some (r, fs1, s1) \<Rightarrow> if r = Chain_Next then fat_follow rd ss logical_clust fs1 s1 else Some (r, fs1, s1)
      else Some (Chain_Next, fs, s))"
  by auto
termination
  by (relation "measure (\<lambda>(rd, ss, logical_clust, fs, s). nat (logical_clust - current_cluster_num fs))")
     (auto dest: fat_next_num)

declare fat_follow.simps [simp del]

text \<open>The outer loop; \<open>pos\<close> is how far \<^verbatim>\<open>buf\<close> has been advanced, which is also the value of
  \<^verbatim>\<open>ret\<close>. The result is the return value, the buffer and the state.\<close>

function fat_read_loop ::
    "'a reader \<Rightarrow> int \<Rightarrow> int \<Rightarrow> int \<Rightarrow> int \<Rightarrow> nat \<Rightarrow> mem \<Rightarrow> fat_fs \<Rightarrow> 'a stage2_scheme \<Rightarrow>
       (int \<times> mem \<times> fat_fs \<times> 'a stage2_scheme) option" where
  "fat_read_loop rd ss logical_clust offset len pos buf fs s =
     (if len > 0
      then case fat_follow rd ss logical_clust fs s of
             None \<Rightarrow> None
           | Some (Chain_End, fs1, s1) \<Rightarrow> Some (int pos, buf, fs1, s1)
           | Some (Chain_Stop, fs1, s1) \<Rightarrow> Some (0, buf, fs1, s1)
           | Some (Chain_Next, fs1, s1) \<Rightarrow>
               (let sector = s32 (data_offset fs1 + (current_cluster fs1 - 2) * 2 ^ (clustsize_bits fs1 - sectsize_bits fs1));
                    size1 = 2 ^ clustsize_bits fs1 - offset;
                    size2 = (if size1 > len then len else size1)
                in if size2 \<le> 0 then None
                   else case rd sector offset size2 (\<lambda>k. buf (pos + k)) (s1\<lparr>disk_read_func := disk_read_hook s1\<rparr>) of
                     None \<Rightarrow> None
                   | Some (_, m, s2) \<Rightarrow>
                       fat_read_loop rd ss (logical_clust + 1) 0 (len - size2) (pos + nat size2)
                         (\<lambda>k. if pos \<le> k then m (k - pos) else buf k) fs1
                         (s2\<lparr>disk_read_func := False, filepos := filepos s2 + size2\<rparr>))
      else Some (if errnum s \<noteq> ERR_NONE then 0 else int pos, buf, fs, s))"
  by pat_completeness auto
termination
  by (relation "measure (\<lambda>(rd, ss, logical_clust, offset, len, pos, buf, fs, s). nat len)") auto

declare fat_read_loop.simps [simp del]

definition fat_read ::
    "'a reader \<Rightarrow> ('a stage2_scheme \<Rightarrow> int option) \<Rightarrow> int \<Rightarrow> mem \<Rightarrow> fat_fs \<Rightarrow> 'a stage2_scheme \<Rightarrow>
       (int \<times> mem \<times> fat_fs \<times> 'a stage2_scheme) option" where
  "fat_read rd ssz len buf fs s =
     (case ssz s of
        None \<Rightarrow> None
      | Some ss \<Rightarrow>
          if file_cluster fs < 0
          then let n = root_max fs - filepos s; n = (if n > len then len else n)
               in case rd (root_offset fs) (filepos s) n buf s of
                    None \<Rightarrow> None
                  | Some (False, m, s1) \<Rightarrow> Some (0, m, fs, s1)
                  | Some (True, m, s1) \<Rightarrow> Some (n, m, fs, s1\<lparr>filepos := filepos s1 + n\<rparr>)
          else let logical_clust = filepos s div 2 ^ clustsize_bits fs;
                   offset = filepos s AND (2 ^ clustsize_bits fs - 1);
                   fs1 = (if logical_clust < current_cluster_num fs
                          then fs\<lparr>current_cluster_num := 0, current_cluster := file_cluster fs\<rparr> else fs)
               in fat_read_loop rd ss logical_clust offset len 0 buf fs1 s)"

subsection \<open>Directories\<close>

definition FAT_DIRENTRY_ATTRIB :: "mem \<Rightarrow> int" where
  "FAT_DIRENTRY_ATTRIB e = ld8 e 11"

definition FAT_DIRENTRY_VALID :: "mem \<Rightarrow> bool" where
  "FAT_DIRENTRY_VALID e \<longleftrightarrow> ld8 e 0 \<noteq> 0 \<and> ld8 e 0 \<noteq> 0xE5 \<and> FAT_DIRENTRY_ATTRIB e AND 0xC8 = 0"

definition FAT_DIRENTRY_FIRST_CLUSTER :: "mem \<Rightarrow> int" where
  "FAT_DIRENTRY_FIRST_CLUSTER e = s32 (ld16 e 26 + ld16 e 20 * 2 ^ 16)"

definition FAT_DIRENTRY_FILELENGTH :: "mem \<Rightarrow> int" where
  "FAT_DIRENTRY_FILELENGTH e = ld32 e 28"

definition FAT_LONGDIR_ID :: "mem \<Rightarrow> int" where
  "FAT_LONGDIR_ID e = ld8 e 0"

definition FAT_LONGDIR_ALIASCHECKSUM :: "mem \<Rightarrow> int" where
  "FAT_LONGDIR_ALIASCHECKSUM e = ld8 e 13"

definition longdir_pos :: "nat list" where
  "longdir_pos = [1, 3, 5, 7, 9, 14, 16, 18, 20, 22, 24, 28, 30]"

definition tolower_byte :: "byte \<Rightarrow> byte" where
  "tolower_byte c = word_of_int (grub_tolower (schar c))"

text \<open>The file name buffer as a string (1024 bytes lie between \<^verbatim>\<open>NAME_BUF\<close> and
  \<^verbatim>\<open>FAT_BUF\<close>).\<close>

definition name_string :: "fat_fs \<Rightarrow> cstr" where
  "name_string fs = mem_slice (NAME_BUF fs) 0 1024"

text \<open>A part of a long name: the buffer, the slot and the checksum after the entry.\<close>

definition fat_longname :: "mem \<Rightarrow> int \<Rightarrow> int \<Rightarrow> mem \<Rightarrow> mem \<times> int \<times> int" where
  "fat_longname dir_buf slot alias_checksum filename =
     (let id0 = FAT_LONGDIR_ID dir_buf;
          first = id0 AND 0x40 \<noteq> 0;
          id1 = (if first then id0 AND 0x3f else id0);
          slot1 = (if first then id1 else slot);
          filename1 = (if first then filename(nat (slot1 * 13) := 0) else filename);
          alias1 = (if first then FAT_LONGDIR_ALIASCHECKSUM dir_buf else alias_checksum)
      in if id1 \<noteq> slot1 \<or> slot1 = 0 \<or> alias1 \<noteq> FAT_LONGDIR_ALIASCHECKSUM dir_buf
         then (filename1, slot1, - 1)
         else (fold (\<lambda>i m. m(nat ((slot1 - 1) * 13) + i := dir_buf (longdir_pos ! i))) [0..<13] filename1,
               slot1 - 1, alias1))"

definition fat_checksum :: "mem \<Rightarrow> byte" where
  "fat_checksum dir_buf = fold (\<lambda>i sum. (drop_bit 1 sum OR push_bit 7 sum) + dir_buf i) [0..<11] 0"

text \<open>The loops that copy the two parts of a short name; the result has the position after
  the part.\<close>

fun name_part :: "mem \<Rightarrow> nat \<Rightarrow> mem \<Rightarrow> nat \<Rightarrow> nat \<Rightarrow> mem \<times> nat" where
  "name_part nm d dir_buf i 0 = (nm, d)"
| "name_part nm d dir_buf i (Suc n) =
     (let c = tolower_byte (dir_buf i); nm1 = nm(d := c)
      in if c = 0 \<or> grub_isspace (schar c) then (nm1, d) else name_part nm1 (Suc d) dir_buf (Suc i) n)"

definition fat_shortname :: "mem \<Rightarrow> mem \<Rightarrow> mem" where
  "fat_shortname dir_buf filename =
     (let (nm1, i) = name_part filename 0 dir_buf 0 8;
          nm2 = nm1(i := 46);
          (nm3, k) = name_part nm2 (Suc i) dir_buf 8 3
      in if k = Suc i then nm3(i := 0) else nm3(k := 0))"

text \<open>The loop over the entries of a directory. It returns from the function (with its value,
  and whether the path is repaired), or it finds the entry. A directory whose chain of
  clusters is a cycle without an end mark is read for ever, so the loop has fuel.\<close>

datatype scan_result = Scan_Return bool bool | Scan_Found mem

fun fat_scan ::
    "nat \<Rightarrow> 'a reader \<Rightarrow> ('a stage2_scheme \<Rightarrow> int option) \<Rightarrow> cstr \<Rightarrow> bool \<Rightarrow> int \<Rightarrow> int \<Rightarrow> mem \<Rightarrow> fat_fs \<Rightarrow> 'a stage2_scheme \<Rightarrow>
       (scan_result \<times> int \<times> int \<times> fat_fs \<times> 'a stage2_scheme) option" where
  "fat_scan 0 rd ssz dirname do_possibilities slot alias_checksum dir_buf fs s = None"
| "fat_scan (Suc fuel) rd ssz dirname do_possibilities slot alias_checksum dir_buf fs s =
     (case fat_read rd ssz 32 dir_buf fs s of
        None \<Rightarrow> None
      | Some (n, dir_buf, fs, s) \<Rightarrow>
          if n \<noteq> 32 \<or> dir_buf 0 = 0
          then if errnum s = ERR_NONE
               then if print_possibilities s < 0 then Some (Scan_Return True False, slot, alias_checksum, fs, s)
                    else Some (Scan_Return False True, slot, alias_checksum, fs, s\<lparr>errnum := ERR_FILE_NOT_FOUND\<rparr>)
               else Some (Scan_Return False False, slot, alias_checksum, fs, s)
          else if FAT_DIRENTRY_ATTRIB dir_buf = 0x0F
          then let (nm, slot, alias_checksum) = fat_longname dir_buf slot alias_checksum (NAME_BUF fs)
               in fat_scan fuel rd ssz dirname do_possibilities slot alias_checksum dir_buf (fs\<lparr>NAME_BUF := nm\<rparr>) s
          else if \<not> FAT_DIRENTRY_VALID dir_buf
          then fat_scan fuel rd ssz dirname do_possibilities slot alias_checksum dir_buf fs s
          else
            let complete = (\<lambda>fs s. if subcasestring dirname (name_string fs) \<le> 0
                             then print_a_completion (name_string fs)
                                    (if print_possibilities s > 0 then s\<lparr>print_possibilities := - print_possibilities s\<rparr> else s)
                             else s);
                ends = (alias_checksum \<noteq> - 1 \<and> slot = 0);
                slot1 = (if ends then - 2 else slot);
                long = (ends \<and> uint (fat_checksum dir_buf) = alias_checksum)
            in if long \<and> do_possibilities
               then fat_scan fuel rd ssz dirname do_possibilities slot1 alias_checksum dir_buf fs (complete fs s)
               else if long \<and> subcasestring dirname (name_string fs) = 0
               then Some (Scan_Found dir_buf, slot1, alias_checksum, fs, s)
               else
                 let fs1 = fs\<lparr>NAME_BUF := fat_shortname dir_buf (NAME_BUF fs)\<rparr>
                 in if do_possibilities
                    then fat_scan fuel rd ssz dirname do_possibilities slot1 alias_checksum dir_buf fs1 (complete fs1 s)
                    else if subcasestring dirname (name_string fs1) = 0
                    then Some (Scan_Found dir_buf, slot1, alias_checksum, fs1, s)
                    else fat_scan fuel rd ssz dirname do_possibilities slot1 alias_checksum dir_buf fs1 s)"

text \<open>A component of the path, turned to lower case in place, and the rest of the path.\<close>

fun path_component :: "cstr \<Rightarrow> cstr \<times> cstr" where
  "path_component [] = ([], [])"
| "path_component (c # p) =
     (if c = 0 \<or> grub_isspace (schar c) \<or> c = 47 then ([], c # p)
      else case path_component p of (w, rest) \<Rightarrow> (tolower_byte c # w, rest))"

lemma path_component_length: "path_component p = (w, rest) \<Longrightarrow> length w + length rest = length p"
  by (induction p arbitrary: w rest) (auto split: if_splits prod.splits)

text \<open>The main loop, for the path from \<^verbatim>\<open>dirname\<close> on. The result has the return value and
  the path as it is left in the caller's buffer. A component of a directory that is found
  must be followed by more path, so each round but the last consumes some.\<close>

function fat_dir_loop ::
    "nat \<Rightarrow> 'a reader \<Rightarrow> ('a stage2_scheme \<Rightarrow> int option) \<Rightarrow> int \<Rightarrow> bool \<Rightarrow> int \<Rightarrow> int \<Rightarrow> cstr \<Rightarrow> fat_fs \<Rightarrow> 'a stage2_scheme \<Rightarrow>
       (bool \<times> cstr \<times> fat_fs \<times> 'a stage2_scheme) option" where
  "fat_dir_loop fuel rd ssz attrib do_possibilities slot alias_checksum path fs s =
     (if deref path = 0 \<or> grub_isspace (schar (deref path))
      then if attrib AND 0x10 \<noteq> 0 then Some (False, path, fs, s\<lparr>errnum := ERR_BAD_FILETYPE\<rparr>)
           else Some (True, path, fs, s)
      else let slashes = takeWhile (\<lambda>c. c = 47) path; dirname = dropWhile (\<lambda>c. c = 47) path
           in if attrib AND 0x10 = 0 then Some (False, path, fs, s\<lparr>errnum := ERR_BAD_FILETYPE\<rparr>)
              else let s1 = s\<lparr>filemax := MAXINT\<rparr>;
                       (name, rest) = path_component dirname;
                       do_poss = (do_possibilities \<or> print_possibilities s1 \<noteq> 0 \<and> deref rest \<noteq> 47)
                   in case fat_scan fuel rd ssz name do_poss slot alias_checksum (\<lambda>_. 0) fs s1 of
                        None \<Rightarrow> None
                      | Some (Scan_Return r repaired, slot1, alias1, fs2, s2) \<Rightarrow>
                          Some (r, slashes @ name @ (if repaired then rest else 0 # drop 1 rest), fs2, s2)
                      | Some (Scan_Found e, slot1, alias1, fs2, s2) \<Rightarrow>
                          if length rest < length path
                          then map_option (\<lambda>(r, p, fs, s). (r, slashes @ name @ p, fs, s))
                            (fat_dir_loop fuel rd ssz (FAT_DIRENTRY_ATTRIB e) do_poss slot1 alias1 rest
                              (fs2\<lparr>file_cluster := FAT_DIRENTRY_FIRST_CLUSTER e, current_cluster_num := MAXINT\<rparr>)
                              (s2\<lparr>filemax := s32 (FAT_DIRENTRY_FILELENGTH e), filepos := 0\<rparr>))
                          else None)"
  by pat_completeness auto
termination
  by (relation "measure (\<lambda>(fuel, rd, ssz, attrib, poss, slot, alias, path, fs, s). length path)") auto

declare fat_dir_loop.simps [simp del]

text \<open>The guard on the length always holds: the path is not at its end, so it has a slash or
  a character of the component.\<close>

lemma rest_shorter:
  assumes "deref path \<noteq> 0" "\<not> grub_isspace (schar (deref path))" "path_component (dropWhile (\<lambda>c. c = 47) path) = (name, rest)"
  shows "length rest < length path"
proof -
  obtain c p where c: "path = c # p" using assms(1) by (cases path) auto
  show ?thesis
  proof (cases "c = 47")
    case True
    have "length (dropWhile (\<lambda>c. c = 47) p) \<le> length p" by (rule length_dropWhile_le)
    then show ?thesis using path_component_length [OF assms(3)] True c by simp
  next
    case False
    then have "path_component path = (name, rest)" using assms(3) c by simp
    then have "name \<noteq> []" using assms(1,2) False c by (auto split: prod.splits)
    then show ?thesis using path_component_length [OF \<open>path_component path = (name, rest)\<close>] by (cases name) auto
  qed
qed

definition fat_dir ::
    "nat \<Rightarrow> 'a reader \<Rightarrow> ('a stage2_scheme \<Rightarrow> int option) \<Rightarrow> cstr \<Rightarrow> fat_fs \<Rightarrow> 'a stage2_scheme \<Rightarrow>
       (bool \<times> cstr \<times> fat_fs \<times> 'a stage2_scheme) option" where
  "fat_dir fuel rd ssz dirname fs s =
     fat_dir_loop fuel rd ssz 0x10 False (- 2) (- 1) dirname
       (fs\<lparr>file_cluster := root_cluster fs, current_cluster_num := MAXINT\<rparr>) (s\<lparr>filepos := 0\<rparr>)"

section \<open>The chain of a file\<close>

text \<open>The entry of cluster \<open>c\<close> in the FAT on the partition image \<open>P\<close> with sectors of
  \<open>2 ^ b\<close> bytes: twelve bits, sixteen, or a signed 32-bit number.\<close>

definition fat_value :: "mem \<Rightarrow> nat \<Rightarrow> fat_fs \<Rightarrow> int \<Rightarrow> int" where
  "fat_value P b fs c =
     (let e = c * fat_size fs; a = nat (fat_offset fs * 2 ^ b + e div 2)
      in if fat_size fs = 3 then (if odd e then ld16 P a div 16 else ld16 P a mod 4096)
         else if fat_size fs = 4 then ld16 P a else s32 (ld32 P a))"

fun fat_chain :: "mem \<Rightarrow> nat \<Rightarrow> fat_fs \<Rightarrow> int \<Rightarrow> nat \<Rightarrow> int" where
  "fat_chain P b fs c 0 = c"
| "fat_chain P b fs c (Suc n) = fat_value P b fs (fat_chain P b fs c n)"

definition cluster_ok :: "fat_fs \<Rightarrow> int \<Rightarrow> bool" where
  "cluster_ok fs c \<longleftrightarrow> 2 \<le> c \<and> c < num_clust fs \<and> c < clust_eof_marker fs"

text \<open>A mounted file system whose FAT and clusters lie in the first \<open>N\<close> sectors.\<close>

definition fat_ok :: "nat \<Rightarrow> int \<Rightarrow> fat_fs \<Rightarrow> bool" where
  "fat_ok b N fs \<longleftrightarrow> 9 \<le> b \<and> b \<le> 12 \<and> fat_size fs \<in> {3, 4, 8} \<and> sectsize_bits fs = b \<and>
     b \<le> clustsize_bits fs \<and> clustsize_bits fs \<le> b + 7 \<and> 0 \<le> fat_offset fs \<and> 0 \<le> data_offset fs \<and>
     (fat_size fs = 3 \<longrightarrow> b \<le> 11) \<and> num_clust fs * 8 < 2 ^ 31 \<and> N < 2 ^ 31 \<and>
     fat_offset fs * 2 ^ b + num_clust fs * fat_size fs div 2 + 4096 \<le> N * 2 ^ b \<and>
     data_offset fs + (num_clust fs - 2) * 2 ^ (clustsize_bits fs - b) \<le> N"

definition fat_cached :: "mem \<Rightarrow> nat \<Rightarrow> fat_fs \<Rightarrow> bool" where
  "fat_cached P b fs \<longleftrightarrow> cached_fat fs = - 8192 \<or>
     0 \<le> cached_fat fs \<and> cached_fat fs mod 2 = 0 \<and>
       (\<forall>k < 4096. FAT_BUF fs k = P (nat (fat_offset fs * 2 ^ b + cached_fat fs div 2) + k))"

text \<open>What reading changes in the file system: the cache and the cursor.\<close>

definition same_fs :: "fat_fs \<Rightarrow> fat_fs \<Rightarrow> bool" where
  "same_fs fs fs' \<longleftrightarrow> fat_offset fs' = fat_offset fs \<and> fat_length fs' = fat_length fs \<and> fat_size fs' = fat_size fs \<and>
     root_offset fs' = root_offset fs \<and> root_max fs' = root_max fs \<and> data_offset fs' = data_offset fs \<and>
     num_sectors fs' = num_sectors fs \<and> num_clust fs' = num_clust fs \<and> clust_eof_marker fs' = clust_eof_marker fs \<and>
     sects_per_clust fs' = sects_per_clust fs \<and> sectsize_bits fs' = sectsize_bits fs \<and>
     clustsize_bits fs' = clustsize_bits fs \<and> root_cluster fs' = root_cluster fs \<and>
     file_cluster fs' = file_cluster fs \<and> NAME_BUF fs' = NAME_BUF fs"

lemma same_fs_refl [simp]: "same_fs fs fs"
  by (simp add: same_fs_def)

lemma same_fs_trans: "same_fs a b \<Longrightarrow> same_fs b c \<Longrightarrow> same_fs a c"
  by (simp add: same_fs_def)

lemma same_fs_simps:
  assumes "same_fs fs fs'"
  shows "fat_offset fs' = fat_offset fs" "fat_size fs' = fat_size fs" "data_offset fs' = data_offset fs"
    "num_clust fs' = num_clust fs" "clust_eof_marker fs' = clust_eof_marker fs" "sectsize_bits fs' = sectsize_bits fs"
    "clustsize_bits fs' = clustsize_bits fs" "file_cluster fs' = file_cluster fs" "root_max fs' = root_max fs"
    "root_offset fs' = root_offset fs" "NAME_BUF fs' = NAME_BUF fs"
  using assms by (simp_all add: same_fs_def)

lemma same_fs_layout:
  assumes "same_fs fs fs'"
  shows "fat_ok b N fs' = fat_ok b N fs" "fat_value P b fs' c = fat_value P b fs c"
    "fat_chain P b fs' c n = fat_chain P b fs c n" "cluster_ok fs' c = cluster_ok fs c"
proof -
  show v: "fat_value P b fs' c = fat_value P b fs c" for c unfolding fat_value_def same_fs_simps [OF assms] ..
  show "fat_ok b N fs' = fat_ok b N fs" "cluster_ok fs' c = cluster_ok fs c"
    by (simp_all add: fat_ok_def cluster_ok_def same_fs_simps [OF assms])
  show "fat_chain P b fs' c n = fat_chain P b fs c n" by (induction n) (simp_all add: v)
qed

section \<open>The cache\<close>

lemma s32_mod: "s32 x mod 65536 = x mod 65536"
proof -
  have "s32 x = x + (- ((x + 2 ^ 31) div 2 ^ 32)) * 2 ^ 32"
    by (simp add: s32_def minus_div_mult_eq_mod [symmetric])
  then have "s32 x = x + (- ((x + 2 ^ 31) div 2 ^ 32) * 65536) * 65536" by simp
  then show ?thesis by (simp only: mod_mult_self1)
qed

lemma and_masks: "(x :: int) AND 0xFFFF = x mod 65536" "(x :: int) AND 0xFFF = x mod 4096" "(x :: int) AND 1 = x mod 2"
  using and_sector_mask [of x 16] and_sector_mask [of x 12] and_sector_mask [of x 1] by simp_all


lemma nibble_shift: "(x :: int) div 16 mod 4096 = x mod 65536 div 16"
proof -
  have "x mod 65536 = 16 * (x div 16 mod 4096) + x mod 16" using zmod_zmult2_eq [of 4096 x 16] by simp
  then show ?thesis by (simp add: div_pos_pos_trivial)
qed

lemma ld32_low: "ld32 m a mod 65536 = ld16 m a"
  using ld16_range [of m a] by (simp add: ld32_def)

lemma ld_cong:
  assumes "\<And>k. k < 2 \<Longrightarrow> m (a + k) = m' (a' + k)"
  shows "ld16 m a = ld16 m' a'"
  using assms [of 0] assms [of 1] by (simp add: ld16_def ld8_def)

lemma ld32_cong:
  assumes "\<And>k. k < 4 \<Longrightarrow> m (a + k) = m' (a' + k)"
  shows "ld32 m a = ld32 m' a'"
  using assms [of 0] assms [of 1] assms [of 2] assms [of 3] by (simp add: ld32_def ld16_def ld8_def add.assoc numeral_3_eq_3)

text \<open>A half-byte entry of the cached sectors is the entry on the medium; only its own
  bits are used, so reading past the cache does no harm.\<close>

lemma entry_value_eq:
  assumes "fat_size fs \<in> {3, 4, 8}" "0 \<le> c" "0 \<le> fat_offset fs" "0 \<le> cached_fat fs" "cached_fat fs mod 2 = 0"
    "\<forall>k < 4096. FAT_BUF fs k = P (nat (fat_offset fs * 2 ^ b + cached_fat fs div 2) + k)"
    "cached_fat fs \<le> c * fat_size fs" "c * fat_size fs - cached_fat fs + fat_size fs \<le> 8192"
  shows "fat_entry_value fs (c * fat_size fs - cached_fat fs) = fat_value P b fs c"
proof -
  define e where "e = c * fat_size fs"
  define q where "q = e - cached_fat fs"
  define a where "a = nat (fat_offset fs * 2 ^ b + e div 2)"
  have q: "0 \<le> q" "q + fat_size fs \<le> 8192" "e = cached_fat fs + q" using assms by (simp_all add: q_def e_def)
  obtain h where h: "cached_fat fs = 2 * h" using assms(5) by (metis mult_div_mod_eq add_0_right)
  have ed: "e div 2 = h + q div 2" "odd e = odd q" "cached_fat fs div 2 = h" using q(3) h by auto
  have h0: "0 \<le> h" using assms(4) h by simp
  have an: "a = nat (fat_offset fs * 2 ^ b + h) + nat (q div 2)"
    unfolding a_def ed(1) using q(1) h0 assms(3) by (simp add: nat_add_distrib add.assoc)
  have buf: "FAT_BUF fs (nat (q div 2) + k) = P (a + k)" if "q div 2 + int k < 4096" for k
  proof -
    have "nat (q div 2) + k < 4096" using that q(1) by linarith
    then have "FAT_BUF fs (nat (q div 2) + k) = P (nat (fat_offset fs * 2 ^ b + cached_fat fs div 2) + (nat (q div 2) + k))"
      using assms(6) by blast
    then show ?thesis unfolding ed(3) an by (simp add: add.assoc)
  qed
  define v where "v = ld32 (FAT_BUF fs) (nat (q div 2))"
  have v16: "v mod 65536 = ld16 P a" if "q div 2 + 1 < 4096"
  proof -
    have "ld16 (FAT_BUF fs) (nat (q div 2)) = ld16 P a"
      using that by (intro ld_cong buf) auto
    then show ?thesis by (simp add: v_def ld32_low)
  qed
  consider "fat_size fs = 3" | "fat_size fs = 4" | "fat_size fs = 8" using assms(1) by auto
  then show ?thesis
  proof cases
    case 1
    have m: "q div 2 + 1 < 4096" using q(2) 1 by auto
    have "s32 v div 16 mod 4096 = s32 v mod 65536 div 16" by (rule nibble_shift)
    also have "\<dots> = ld16 P a div 16" using v16 [OF m] s32_mod [of v] by simp
    finally have hi: "s32 v div 16 mod 4096 = ld16 P a div 16" .
    have "s32 v mod 4096 = s32 v mod 65536 mod 4096" by (simp add: mod_mod_cancel)
    also have "\<dots> = ld16 P a mod 4096" using v16 [OF m] s32_mod [of v] by simp
    finally have lo: "s32 v mod 4096 = ld16 P a mod 4096" .
    have par: "(q mod 2 \<noteq> 0) = odd e" using ed(2) by presburger
    show ?thesis
      unfolding fat_entry_value_def fat_value_def Let_def e_def [symmetric] q_def [symmetric] a_def [symmetric]
        v_def [symmetric] and_masks par using 1 hi lo by (cases "odd e") simp_all
  next
    case 2
    have m: "q div 2 + 1 < 4096" using q(2) 2 by auto
    show ?thesis
      unfolding fat_entry_value_def fat_value_def Let_def e_def [symmetric] q_def [symmetric] a_def [symmetric]
        v_def [symmetric] and_masks using 2 v16 [OF m] s32_mod [of v] by simp
  next
    case 3
    have "q mod 2 = 0" using ed(2) 3 by (auto simp: e_def odd_iff_mod_2_eq_one)
    then have "q div 2 + 4 \<le> 4096" using q(2) 3 by auto
    then have "v = ld32 P a" unfolding v_def by (intro ld32_cong buf) auto
    then show ?thesis
      unfolding fat_entry_value_def fat_value_def Let_def e_def [symmetric] q_def [symmetric] a_def [symmetric]
        v_def [symmetric] using 3 by simp
  qed
qed

lemma and_not_low: "(x :: int) AND NOT (2 ^ k - 1) = x - x mod 2 ^ k"
proof -
  have "x AND NOT (mask k) = push_bit k (drop_bit k x)"
    by (rule bit_eqI) (auto simp: bit_and_iff bit_not_iff bit_mask_iff bit_push_bit_iff bit_drop_bit_eq)
  also have "\<dots> = x div 2 ^ k * 2 ^ k" by (simp add: push_bit_eq_mult drop_bit_eq_div)
  finally show ?thesis by (simp add: mask_eq_exp_minus_1 minus_mod_eq_div_mult)
qed

section \<open>Reading through the cache\<close>

context block_reader
begin

lemma fill_cache_ok:
  assumes "serves P b N s" "errnum s = ERR_NONE" "fat_ok b N fs" "fat_cached P b fs" "2 \<le> c" "c < num_clust fs"
  shows "\<exists>fs' s'. fat_fill_cache rd (2 ^ b) (c * fat_size fs) fs s = Some (True, fs', s') \<and>
    serves P b N s' \<and> reads_only s s' \<and> same_fs fs fs' \<and> current_cluster fs' = current_cluster fs \<and>
    current_cluster_num fs' = current_cluster_num fs \<and> fat_cached P b fs' \<and>
    fat_entry_value fs' (c * fat_size fs - cached_fat fs') = fat_value P b fs c"
proof -
  define e where "e = c * fat_size fs"
  have sz: "fat_size fs = 3 \<and> b \<le> 11 \<or> fat_size fs = 4 \<or> fat_size fs = 8" and b: "9 \<le> b" "b \<le> 12" and fo: "0 \<le> fat_offset fs"
    using assms(3) by (auto simp: fat_ok_def)
  have sz3: "fat_size fs \<in> {3, 4, 8}" using sz by auto
  have c0: "0 \<le> c" using assms(5) by simp
  have e0: "0 \<le> e" using assms(5) sz by (auto simp: e_def)
  have room: "fat_offset fs * 2 ^ b + e div 2 + 4096 \<le> N * 2 ^ b" "N < 2 ^ 31"
  proof -
    have "e \<le> num_clust fs * fat_size fs" using assms(6) sz unfolding e_def by (intro mult_right_mono) auto
    then have "e div 2 \<le> num_clust fs * fat_size fs div 2" by (rule zdiv_mono1) simp
    then show "fat_offset fs * 2 ^ b + e div 2 + 4096 \<le> N * 2 ^ b" "N < 2 ^ 31" using assms(3) by (auto simp: fat_ok_def)
  qed
  show ?thesis
  proof (cases "fat_cache_miss fs e")
    case False
    have h: "0 \<le> e - cached_fat fs" "e - cached_fat fs + fat_size fs \<le> 8192"
      using False by (simp_all add: fat_cache_miss_def FAT_CACHE_SIZE_def Let_def)
    then have "cached_fat fs \<noteq> - 8192" using e0 sz by auto
    then have c: "0 \<le> cached_fat fs" "cached_fat fs mod 2 = 0"
        "\<forall>k < 4096. FAT_BUF fs k = P (nat (fat_offset fs * 2 ^ b + cached_fat fs div 2) + k)"
      using assms(4) by (auto simp: fat_cached_def)
    have "fat_entry_value fs (c * fat_size fs - cached_fat fs) = fat_value P b fs c"
      using entry_value_eq [OF sz3 c0 fo c] h by (simp add: e_def)
    then show ?thesis
      using False assms(1,4) unfolding e_def [symmetric] fat_fill_cache_def by (intro exI [of _ fs] exI [of _ s]) simp
  next
    case True
    define d where "d = e div 2 ^ (b + 1)"
    define cf where "cf = d * 2 ^ (b + 1)"
    have cf: "e AND NOT (2 * 2 ^ b - 1) = cf" "0 \<le> cf" "cf \<le> e" "e - cf < 2 ^ (b + 1)" "cf = 2 * (d * 2 ^ b)" "0 \<le> d"
    proof -
      have m: "e - e mod 2 ^ (b + 1) = cf" unfolding cf_def d_def by (rule minus_mod_eq_div_mult)
      then show "e AND NOT (2 * 2 ^ b - 1) = cf" using and_not_low [of e "b + 1"] by simp
      show "0 \<le> d" using e0 by (simp add: d_def pos_imp_zdiv_nonneg_iff)
      then show "0 \<le> cf" by (simp add: cf_def)
      show "cf \<le> e" "e - cf < 2 ^ (b + 1)" using m pos_mod_bound [of "2 ^ (b + 1)" e] pos_mod_sign [of "2 ^ (b + 1)" e] by auto
      show "cf = 2 * (d * 2 ^ b)" by (simp add: cf_def)
    qed
    define sec where "sec = fat_offset fs + d"
    have q: "cdiv cf (2 * 2 ^ b) = d" using cf(2) unfolding cdiv_def cf_def by simp
    have half: "cf div 2 = d * 2 ^ b" using cf(5) by simp
    have "cf div 2 \<le> e div 2" using cf(3) by (rule zdiv_mono1) simp
    then have r: "sec * 2 ^ b + 0 + 4096 \<le> N * 2 ^ b" using room half by (simp add: sec_def distrib_right)
    then have "sec * 2 ^ b \<le> N * 2 ^ b" by linarith
    then have "sec \<le> N" by simp
    then have s32: "s32 sec = sec" using room(2) fo cf(6) by (intro s32_id) (auto simp: sec_def)
    have sec0: "0 \<le> sec" using fo cf(6) by (simp add: sec_def)
    obtain s' where s': "rd sec 0 4096 (FAT_BUF fs) s = Some (True, copy_mem (FAT_BUF fs) 0 P (nat (sec * 2 ^ b + 0)) (nat 4096), s')"
        "serves P b N s'" "reads_only s s'"
      using read_ok [OF assms(1,2) sec0, of 0 4096 "FAT_BUF fs"] r by auto
    define fs' where "fs' = fs\<lparr>cached_fat := cf, FAT_BUF := copy_mem (FAT_BUF fs) 0 P (nat (sec * 2 ^ b)) 4096\<rparr>"
    have f: "fat_fill_cache rd (2 ^ b) e fs s = Some (True, fs', s')"
      using True s'(1) cf(1) q s32 by (simp add: fat_fill_cache_def FAT_CACHE_SIZE_def sec_def fs'_def)
    have sec_b: "sec * 2 ^ b = fat_offset fs' * 2 ^ b + cached_fat fs' div 2"
      using half by (simp add: sec_def fs'_def distrib_right)
    have buf: "\<forall>k < 4096. FAT_BUF fs' k = P (nat (fat_offset fs' * 2 ^ b + cached_fat fs' div 2) + k)"
      unfolding sec_b [symmetric] by (simp add: fs'_def copy_mem_def)
    have even: "cached_fat fs' mod 2 = 0" using cf(5) by (simp add: fs'_def)
    have "e - cf + fat_size fs \<le> 8192"
    proof (cases "b \<le> 11")
      case True
      then have "(2 :: int) ^ (b + 1) \<le> 2 ^ 12" by (intro power_increasing) auto
      then show ?thesis using cf(4) sz by auto
    next
      case False
      then have b12: "b = 12" using b by simp
      then have sz2: "fat_size fs = 4 \<or> fat_size fs = 8" using sz by auto
      have "fat_size fs dvd cf" using cf(5) sz2 b12 by auto
      then have dv: "fat_size fs dvd 8192 - (e - cf)" using sz2 by (auto simp: e_def intro: dvd_diff)
      have "0 < 8192 - (e - cf)" using cf(4) b12 by simp
      then show ?thesis using zdvd_imp_le [OF dv] by simp
    qed
    then have "fat_entry_value fs' (c * fat_size fs' - cached_fat fs') = fat_value P b fs' c"
      using sz3 c0 fo cf(2,3) by (intro entry_value_eq [OF _ _ _ _ even buf]) (simp_all add: fs'_def e_def)
    moreover have same: "same_fs fs fs'" by (simp add: same_fs_def fs'_def)
    ultimately have "fat_entry_value fs' (c * fat_size fs - cached_fat fs') = fat_value P b fs c"
      using same_fs_layout(2) [OF same] same_fs_simps(2) [OF same] by simp
    moreover have "fat_cached P b fs'" using buf even cf(2) by (simp add: fat_cached_def fs'_def)
    ultimately show ?thesis
      using f s' unfolding e_def [symmetric] by (intro exI [of _ fs'] exI [of _ s']) (simp add: same_fs_def fs'_def)
  qed
qed


text \<open>One step along the chain: the next cluster, the end, or a corrupt entry.\<close>

lemma next_cluster_ok:
  assumes "serves P b N s" "errnum s = ERR_NONE" "fat_ok b N fs" "fat_cached P b fs"
    "2 \<le> current_cluster fs" "current_cluster fs < num_clust fs" "v = fat_value P b fs (current_cluster fs)"
  shows "\<exists>fs' s'. serves P b N s' \<and> reads_only s s' \<and> same_fs fs fs' \<and> fat_cached P b fs' \<and>
    fat_next_cluster rd (2 ^ b) fs s =
      (if v \<ge> clust_eof_marker fs then Some (Chain_End, fs', s')
       else if v < 2 \<or> v \<ge> num_clust fs then Some (Chain_Stop, fs', s'\<lparr>errnum := ERR_FSYS_CORRUPT\<rparr>)
       else Some (Chain_Next, fs'\<lparr>current_cluster := v, current_cluster_num := current_cluster_num fs + 1\<rparr>, s'))"
proof -
  let ?c = "current_cluster fs"
  obtain fs' s' where f: "fat_fill_cache rd (2 ^ b) (?c * fat_size fs) fs s = Some (True, fs', s')" "serves P b N s'" "reads_only s s'"
      "same_fs fs fs'" "current_cluster_num fs' = current_cluster_num fs" "fat_cached P b fs'"
      "fat_entry_value fs' (?c * fat_size fs - cached_fat fs') = v"
    using fill_cache_ok [OF assms(1-6)] assms(7) by blast
  have "num_clust fs * 8 < 2 ^ 31" "fat_size fs \<in> {3, 4, 8}" using assms(3) by (auto simp: fat_ok_def)
  then have "s32 (?c * fat_size fs) = ?c * fat_size fs" using assms(5,6) by (intro s32_id) auto
  then show ?thesis
    using f by (intro exI [of _ fs'] exI [of _ s'])
      (simp add: fat_next_cluster_def same_fs_simps [OF f(4)])
qed

lemma follow_ok:
  assumes "serves P b N s" "errnum s = ERR_NONE" "fat_ok b N fs" "fat_cached P b fs"
    "current_cluster_num fs = int m" "current_cluster fs = fat_chain P b fs c m" "m \<le> n"
    "\<And>i. m \<le> i \<Longrightarrow> i \<le> n \<Longrightarrow> cluster_ok fs (fat_chain P b fs c i)"
  shows "\<exists>fs' s'. fat_follow rd (2 ^ b) (int n) fs s = Some (Chain_Next, fs', s') \<and>
    serves P b N s' \<and> reads_only s s' \<and> same_fs fs fs' \<and> fat_cached P b fs' \<and>
    current_cluster_num fs' = int n \<and> current_cluster fs' = fat_chain P b fs c n"
  using assms
proof (induction "n - m" arbitrary: m fs s)
  case 0
  then have "m = n" by simp
  with 0 show ?case by (subst fat_follow.simps) auto
next
  case (Suc k)
  let ?v = "fat_chain P b fs c (Suc m)"
  have mn: "m < n" using Suc.hyps(2) by simp
  have ok: "cluster_ok fs (fat_chain P b fs c m)" "cluster_ok fs ?v"
    using Suc.prems(8) [of m] Suc.prems(8) [of "Suc m"] mn by simp_all
  obtain fs1 s1 where f: "serves P b N s1" "reads_only s s1" "same_fs fs fs1" "fat_cached P b fs1"
      "fat_next_cluster rd (2 ^ b) fs s =
        Some (Chain_Next, fs1\<lparr>current_cluster := ?v, current_cluster_num := current_cluster_num fs + 1\<rparr>, s1)"
    using next_cluster_ok [OF Suc.prems(1-4) _ _ refl] ok Suc.prems(6) by (auto simp: cluster_ok_def)
  define fs2 where "fs2 = fs1\<lparr>current_cluster := ?v, current_cluster_num := int m + 1\<rparr>"
  have same: "same_fs fs fs2" using f(3) by (simp add: same_fs_def fs2_def)
  have cached: "fat_cached P b fs2" using f(4) by (simp add: fat_cached_def fs2_def)
  have cur: "current_cluster fs2 = fat_chain P b fs2 c (Suc m)" "current_cluster_num fs2 = int (Suc m)"
    by (simp_all add: same_fs_layout [OF same]) (simp_all add: fs2_def)
  have "\<exists>fs' s'. fat_follow rd (2 ^ b) (int n) fs2 s1 = Some (Chain_Next, fs', s') \<and>
      serves P b N s' \<and> reads_only s1 s' \<and> same_fs fs2 fs' \<and> fat_cached P b fs' \<and>
      current_cluster_num fs' = int n \<and> current_cluster fs' = fat_chain P b fs2 c n"
    using Suc.hyps(2) Suc.prems(2,3,8) f(1) reads_only_simps(1) [OF f(2)] cached mn cur
    by (intro Suc.hyps(1) [of "Suc m"]) (simp_all add: same_fs_layout [OF same] del: fat_chain.simps)
  then show ?case
    using f(5) Suc.prems(5) mn reads_only_trans [OF f(2)] same_fs_trans [OF same]
    by (subst fat_follow.simps) (auto simp: same_fs_layout [OF same] fs2_def [symmetric] simp del: fat_chain.simps)
qed

end

section \<open>Reading a file\<close>

text \<open>Byte \<open>q\<close> of the file whose chain starts at cluster \<open>c\<close>.\<close>

definition clust_bytes :: "fat_fs \<Rightarrow> nat" where
  "clust_bytes fs = 2 ^ clustsize_bits fs"

definition cluster_addr :: "nat \<Rightarrow> fat_fs \<Rightarrow> int \<Rightarrow> int" where
  "cluster_addr b fs cl = (data_offset fs + (cl - 2) * 2 ^ (clustsize_bits fs - b)) * 2 ^ b"

definition file_byte :: "mem \<Rightarrow> nat \<Rightarrow> fat_fs \<Rightarrow> int \<Rightarrow> nat \<Rightarrow> byte" where
  "file_byte P b fs c q = P (nat (cluster_addr b fs (fat_chain P b fs c (q div clust_bytes fs)) + int (q mod clust_bytes fs)))"

text \<open>The first \<open>n\<close> bytes of the file lie in good clusters.\<close>

definition chain_ok :: "mem \<Rightarrow> nat \<Rightarrow> fat_fs \<Rightarrow> int \<Rightarrow> nat \<Rightarrow> bool" where
  "chain_ok P b fs c n \<longleftrightarrow> (\<forall>i. i * clust_bytes fs < n \<longrightarrow> cluster_ok fs (fat_chain P b fs c i))"

definition cursor_ok :: "mem \<Rightarrow> nat \<Rightarrow> fat_fs \<Rightarrow> int \<Rightarrow> nat \<Rightarrow> bool" where
  "cursor_ok P b fs c q \<longleftrightarrow> (\<exists>m. current_cluster_num fs = int m \<and> current_cluster fs = fat_chain P b fs c m \<and>
     m * clust_bytes fs \<le> q)"

text \<open>What reading a file changes in the variables of stage 2.\<close>

definition file_step :: "'a stage2_scheme \<Rightarrow> 'a stage2_scheme \<Rightarrow> bool" where
  "file_step s s' \<longleftrightarrow> stage2.truncate s' = (stage2.truncate s)\<lparr>read_log := read_log s', filepos := filepos s',
     disk_read_func := disk_read_func s'\<rparr>"

lemma file_step_refl [simp]: "file_step s s"
  by (simp add: file_step_def stage2.defs)

lemma file_step_trans: "file_step s t \<Longrightarrow> file_step t u \<Longrightarrow> file_step s u"
  by (auto simp: file_step_def stage2.defs)

lemma file_step_reads: "reads_only s s' \<Longrightarrow> file_step s s'"
  by (auto simp: file_step_def reads_only_def stage2.defs)

lemma file_step_update:
  "file_step s (s\<lparr>disk_read_func := x\<rparr>)" "file_step s (s\<lparr>disk_read_func := x, filepos := y\<rparr>)"
  by (auto simp: file_step_def stage2.defs)

lemma file_step_simps:
  assumes "file_step s s'"
  shows "errnum s' = errnum s" "filemax s' = filemax s" "fsmax s' = fsmax s" "current_drive s' = current_drive s"
    "part_start s' = part_start s" "part_length s' = part_length s" "disk_read_hook s' = disk_read_hook s"
    "print_possibilities s' = print_possibilities s"
  using assms by (auto simp: file_step_def stage2.defs)

lemma same_file:
  assumes "same_fs fs fs'"
  shows "clust_bytes fs' = clust_bytes fs" "cluster_addr b fs' cl = cluster_addr b fs cl"
    "file_byte P b fs' c q = file_byte P b fs c q" "chain_ok P b fs' c n = chain_ok P b fs c n"
proof -
  show c: "clust_bytes fs' = clust_bytes fs" "cluster_addr b fs' cl = cluster_addr b fs cl" for cl
    by (simp_all add: clust_bytes_def cluster_addr_def same_fs_simps [OF assms])
  show "file_byte P b fs' c q = file_byte P b fs c q" "chain_ok P b fs' c n = chain_ok P b fs c n"
    by (simp_all add: file_byte_def chain_ok_def c same_fs_layout [OF assms])
qed

text \<open>Where a cluster lies.\<close>

lemma cluster_place:
  assumes "fat_ok b N fs" "cluster_ok fs cl"
  shows "0 \<le> data_offset fs + (cl - 2) * 2 ^ (clustsize_bits fs - b)"
    "data_offset fs + (cl - 2) * 2 ^ (clustsize_bits fs - b) < 2 ^ 31"
    "cluster_addr b fs cl + int (clust_bytes fs) \<le> N * 2 ^ b"
proof -
  define w where "w = (2 :: int) ^ (clustsize_bits fs - b)"
  define sec where "sec = data_offset fs + (cl - 2) * w"
  have w: "0 < w" "w * 2 ^ b = 2 ^ clustsize_bits fs"
    using assms(1) by (auto simp: w_def fat_ok_def simp flip: power_add)
  have "(cl - 1) * w \<le> (num_clust fs - 2) * w"
    using assms(2) w(1) by (intro mult_right_mono) (auto simp: cluster_ok_def)
  moreover have "(cl - 2) * w + w = (cl - 1) * w" by (simp add: algebra_simps)
  ultimately have s: "sec + w \<le> N" using assms(1) by (simp add: fat_ok_def w_def [symmetric] sec_def)
  have "0 \<le> (cl - 2) * w" using assms(2) w(1) by (auto simp: cluster_ok_def)
  then show "0 \<le> data_offset fs + (cl - 2) * 2 ^ (clustsize_bits fs - b)"
    using assms(1) by (simp add: fat_ok_def w_def)
  show "data_offset fs + (cl - 2) * 2 ^ (clustsize_bits fs - b) < 2 ^ 31"
    using s w(1) assms(1) unfolding w_def [symmetric] sec_def [symmetric] by (simp add: fat_ok_def)
  have "(sec + w) * 2 ^ b \<le> N * 2 ^ b" using s by (intro mult_right_mono) auto
  then show "cluster_addr b fs cl + int (clust_bytes fs) \<le> N * 2 ^ b"
    unfolding cluster_addr_def w_def [symmetric] sec_def [symmetric] clust_bytes_def using w(2) by (simp add: distrib_right)
qed

context block_reader
begin

lemma read_loop_ok:
  assumes "serves P b N s" "errnum s = ERR_NONE" "fat_ok b N fs" "fat_cached P b fs" "cursor_ok P b fs c q"
    "chain_ok P b fs c (q + len)" "len = 0 \<or> q mod clust_bytes fs = off \<and> cl = q div clust_bytes fs"
  shows "\<exists>buf' fs' s'. fat_read_loop rd (2 ^ b) (int cl) (int off) (int len) pos buf fs s = Some (int (pos + len), buf', fs', s') \<and>
    (\<forall>k. buf' k = (if pos \<le> k \<and> k < pos + len then file_byte P b fs c (q + (k - pos)) else buf k)) \<and>
    serves P b N s' \<and> file_step s s' \<and> filepos s' = filepos s + int len \<and> same_fs fs fs' \<and> fat_cached P b fs' \<and>
    cursor_ok P b fs' c (q + len)"
  using assms
proof (induction len arbitrary: q off cl pos buf fs s rule: less_induct)
  case (less len)
  show ?case
  proof (cases "len = 0")
    case True
    then show ?thesis
      using less.prems by (intro exI [of _ buf] exI [of _ fs] exI [of _ s]) (subst fat_read_loop.simps, auto)
  next
    case False
    define cs where "cs = clust_bytes fs"
    have cs: "0 < cs" "cs = 2 ^ clustsize_bits fs" by (simp_all add: cs_def clust_bytes_def)
    have off: "off = q mod cs" "cl = q div cs" using less.prems(7) False by (auto simp: cs_def)
    then have off_lt: "off < cs" and q: "q = cl * cs + off" using cs(1) by (simp_all add: mult.commute)
    obtain m where m: "current_cluster_num fs = int m" "current_cluster fs = fat_chain P b fs c m" "m * cs \<le> q"
      using less.prems(5) by (auto simp: cursor_ok_def cs_def)
    have mcl: "m \<le> cl" using m(3) cs(1) unfolding off by (simp add: less_eq_div_iff_mult_less_eq)
    have cok: "cluster_ok fs (fat_chain P b fs c i)" if "i \<le> cl" for i
    proof -
      have "i * cs \<le> cl * cs" using that by (intro mult_right_mono) auto
      then have "i * cs < q + len" using q False by linarith
      then show ?thesis using less.prems(6) by (auto simp: chain_ok_def cs_def)
    qed
    obtain fs1 s1 where f: "fat_follow rd (2 ^ b) (int cl) fs s = Some (Chain_Next, fs1, s1)" "serves P b N s1" "reads_only s s1"
        "same_fs fs fs1" "fat_cached P b fs1" "current_cluster_num fs1 = int cl" "current_cluster fs1 = fat_chain P b fs c cl"
      using follow_ok [OF less.prems(1-4) m(1,2) mcl cok] by blast
    define cu where "cu = fat_chain P b fs c cl"
    note place = cluster_place [OF less.prems(3) cok [OF order_refl], folded cu_def]
    define sec where "sec = data_offset fs + (cu - 2) * 2 ^ (clustsize_bits fs - b)"
    have secb: "sec * 2 ^ b = cluster_addr b fs cu" by (simp add: sec_def cluster_addr_def)
    define n where "n = min len (cs - off)"
    have n: "0 < n" "n \<le> len" "off + n \<le> cs" using False off_lt by (auto simp: n_def)
    have csb: "int cs < 2 ^ 30"
    proof -
      have "clustsize_bits fs \<le> 19" using less.prems(3) by (auto simp: fat_ok_def)
      then have "(2 :: int) ^ clustsize_bits fs \<le> 2 ^ 19" by (intro power_increasing) auto
      then show ?thesis using cs(2) by simp
    qed
    let ?s1 = "s1\<lparr>disk_read_func := disk_read_hook s1\<rparr>"
    have sv: "serves P b N ?s1" using f(2) by (rule serves_frame) auto
    have e1: "errnum ?s1 = ERR_NONE" using less.prems(2) reads_only_simps(1) [OF f(3)] by simp
    have r: "sec * 2 ^ b + int off + int n \<le> N * 2 ^ b"
      using place(3) n(3) unfolding secb cs_def by linarith
    have end31: "int off + int n \<le> 2 ^ 31" using n(3) csb by simp
    obtain s2 where s2: "rd sec (int off) (int n) (\<lambda>k. buf (pos + k)) ?s1 =
          Some (True, copy_mem (\<lambda>k. buf (pos + k)) 0 P (nat (sec * 2 ^ b + int off)) n, s2)"
        "serves P b N s2" "reads_only ?s1 s2"
      using read_ok [OF sv e1, of sec "int off" "int n" "\<lambda>k. buf (pos + k)"] place(1) n csb off_lt r end31
      by (auto simp: sec_def)
    let ?s2 = "s2\<lparr>disk_read_func := False, filepos := filepos s2 + int n\<rparr>"
    define buf2 where "buf2 = (\<lambda>k. if pos \<le> k then copy_mem (\<lambda>k. buf (pos + k)) 0 P (nat (sec * 2 ^ b + int off)) n (k - pos) else buf k)"
    have sec31: "s32 sec = sec" using place(1,2) by (intro s32_id) (auto simp: sec_def)
    have step: "fat_read_loop rd (2 ^ b) (int cl) (int off) (int len) pos buf fs s =
        fat_read_loop rd (2 ^ b) (int cl + 1) 0 (int len - int n) (pos + n) buf2 fs1 ?s2"
    proof -
      have "(if 2 ^ clustsize_bits fs1 - int off > int len then int len else 2 ^ clustsize_bits fs1 - int off) = int n"
      proof -
        have ic: "2 ^ clustsize_bits fs1 = int cs" using cs(2) same_fs_simps(7) [OF f(4)] by simp
        show ?thesis unfolding ic n_def using off_lt by (auto simp: of_nat_diff min_def)
      qed
      moreover have "s32 (data_offset fs1 + (current_cluster fs1 - 2) * 2 ^ (clustsize_bits fs1 - sectsize_bits fs1)) = sec"
        using sec31 less.prems(3) by (simp add: same_fs_simps [OF f(4)] f(7) cu_def [symmetric] sec_def fat_ok_def)
      ultimately show ?thesis
        using False f(1) s2(1) n
        by (subst fat_read_loop.simps) (simp add: Let_def buf2_def split del: if_split)
    qed
    have fb: "P (nat (sec * 2 ^ b + int off) + j) = file_byte P b fs c (q + j)" if "j < n" for j
    proof -
      have d: "(q + j) div cs = cl" "(q + j) mod cs = off + j"
        using that n(3) cs(1) unfolding q by (simp_all add: add.assoc)
      have "0 \<le> sec * 2 ^ b" using place(1) by (simp add: sec_def)
      then have "nat (sec * 2 ^ b + int off) + j = nat (sec * 2 ^ b + int (off + j))" by (simp add: nat_add_distrib)
      then show ?thesis unfolding file_byte_def cs_def [symmetric] d cu_def [symmetric] secb by simp
    qed
    have fstep: "file_step s ?s2"
      using file_step_trans [OF file_step_trans [OF file_step_trans [OF file_step_reads [OF f(3)] file_step_update(1)]
          file_step_reads [OF s2(3)]] file_step_update(2)] .
    have pos2: "filepos ?s2 = filepos s + int n" using reads_only_simps(2) [OF f(3)] reads_only_simps(2) [OF s2(3)] by simp
    have sv2: "serves P b N ?s2" using s2(2) by (rule serves_frame) auto
    have cur: "cursor_ok P b fs1 c (q + n)"
      unfolding cursor_ok_def same_file [OF f(4)] same_fs_layout [OF f(4)] f(6,7) using q by (intro exI [of _ cl]) (simp add: cs_def)
    have nxt: "len - n = 0 \<or> (q + n) mod cs = 0 \<and> cl + 1 = (q + n) div cs"
    proof (cases "n = len")
      case False
      then have "n = cs - off" using n_def by auto
      then have "q + n = (cl + 1) * cs" using q off_lt by (simp add: add_mult_distrib)
      then show ?thesis using cs(1) by simp
    qed simp
    have "\<exists>buf' fs' s'. fat_read_loop rd (2 ^ b) (int (cl + 1)) (int 0) (int (len - n)) (pos + n) buf2 fs1 ?s2 =
          Some (int ((pos + n) + (len - n)), buf', fs', s') \<and>
        (\<forall>k. buf' k = (if pos + n \<le> k \<and> k < (pos + n) + (len - n) then file_byte P b fs1 c ((q + n) + (k - (pos + n))) else buf2 k)) \<and>
        serves P b N s' \<and> file_step ?s2 s' \<and> filepos s' = filepos ?s2 + int (len - n) \<and> same_fs fs1 fs' \<and> fat_cached P b fs' \<and>
        cursor_ok P b fs' c ((q + n) + (len - n))"
    proof (rule less.IH)
      show "len - n < len" using n by simp
      show "errnum ?s2 = ERR_NONE" using file_step_simps(1) [OF fstep] less.prems(2) by simp
      show "fat_ok b N fs1" using less.prems(3) same_fs_layout(1) [OF f(4)] by simp
      show "chain_ok P b fs1 c (q + n + (len - n))" using less.prems(6) n(2) by (simp add: same_file [OF f(4)])
      show "len - n = 0 \<or> (q + n) mod clust_bytes fs1 = 0 \<and> cl + 1 = (q + n) div clust_bytes fs1"
        using nxt by (simp add: same_file [OF f(4)] cs_def)
    qed (use sv2 f(5) cur in auto)
    then obtain buf' fs' s' where ih: "fat_read_loop rd (2 ^ b) (int (cl + 1)) (int 0) (int (len - n)) (pos + n) buf2 fs1 ?s2 =
          Some (int (pos + len), buf', fs', s')"
        "\<forall>k. buf' k = (if pos + n \<le> k \<and> k < pos + len then file_byte P b fs c (q + (k - pos)) else buf2 k)"
        "serves P b N s'" "file_step ?s2 s'" "filepos s' = filepos s + int len" "same_fs fs1 fs'" "fat_cached P b fs'"
        "cursor_ok P b fs' c (q + len)"
      using n(2) pos2 by (auto simp: same_file [OF f(4)] of_nat_diff)
    have "buf' k = (if pos \<le> k \<and> k < pos + len then file_byte P b fs c (q + (k - pos)) else buf k)" for k
      using ih(2) n fb [of "k - pos"] by (auto simp: buf2_def copy_mem_def)
    then show ?thesis
      using ih(1) n(2) unfolding step
      using ih(3-) file_step_trans [OF fstep ih(4)] same_fs_trans [OF f(4) ih(6)] by (auto simp: of_nat_diff add.commute)
  qed
qed

end

text \<open>The cursor: reset, or at some cluster of the chain.\<close>

definition fat_cursor :: "mem \<Rightarrow> nat \<Rightarrow> fat_fs \<Rightarrow> bool" where
  "fat_cursor P b fs \<longleftrightarrow> current_cluster_num fs = MAXINT \<or>
     (\<exists>m. current_cluster_num fs = int m \<and> current_cluster fs = fat_chain P b fs (file_cluster fs) m)"

context block_reader
begin

lemma start_cursor:
  assumes "fat_ok b N fs" "fat_cursor P b fs" "q < 2 ^ 31 - 1"
    "fs1 = (if int (q div clust_bytes fs) < current_cluster_num fs
            then fs\<lparr>current_cluster_num := 0, current_cluster := file_cluster fs\<rparr> else fs)"
  shows "same_fs fs fs1 \<and> cursor_ok P b fs1 (file_cluster fs) q \<and> (fat_cached P b fs \<longrightarrow> fat_cached P b fs1)"
proof -
  have same: "same_fs fs fs1" by (simp add: assms(4) same_fs_def)
  have "0 < clust_bytes fs" by (simp add: clust_bytes_def)
  have lt: "int (q div clust_bytes fs) < MAXINT"
    using le_less_trans [OF div_le_dividend assms(3), of "clust_bytes fs"] by (simp add: MAXINT_def)
  show ?thesis
  proof (cases "int (q div clust_bytes fs) < current_cluster_num fs")
    case True
    then have "fs1 = fs\<lparr>current_cluster_num := 0, current_cluster := file_cluster fs\<rparr>" using assms(4) by simp
    then show ?thesis using same by (auto simp: cursor_ok_def fat_cached_def intro!: exI [of _ 0])
  next
    case False
    then obtain m where m: "current_cluster_num fs = int m" "current_cluster fs = fat_chain P b fs (file_cluster fs) m"
      using assms(2) lt by (auto simp: fat_cursor_def)
    have "m \<le> q div clust_bytes fs" using False m(1) by simp
    then have "m * clust_bytes fs \<le> q" using \<open>0 < clust_bytes fs\<close> by (simp add: less_eq_div_iff_mult_less_eq)
    then show ?thesis using False assms(4) m same by (auto simp: cursor_ok_def)
  qed
qed

lemma fat_read_ok:
  assumes "serves P b N s" "errnum s = ERR_NONE" "fat_ok b N fs" "fat_cached P b fs" "fat_cursor P b fs"
    "0 \<le> file_cluster fs" "filepos s = int q" "q + len < 2 ^ 31 - 1" "chain_ok P b fs (file_cluster fs) (q + len)"
  shows "\<exists>buf' fs' s'. fat_read rd sector_bytes (int len) buf fs s = Some (int len, buf', fs', s') \<and>
    (\<forall>k. buf' k = (if k < len then file_byte P b fs (file_cluster fs) (q + k) else buf k)) \<and>
    serves P b N s' \<and> file_step s s' \<and> filepos s' = int (q + len) \<and> same_fs fs fs' \<and>
    fat_cached P b fs' \<and> fat_cursor P b fs'"
proof -
  define cs where "cs = clust_bytes fs"
  have cs: "0 < cs" "int cs = 2 ^ clustsize_bits fs" by (simp_all add: cs_def clust_bytes_def)
  define fs1 where "fs1 = (if int (q div cs) < current_cluster_num fs
      then fs\<lparr>current_cluster_num := 0, current_cluster := file_cluster fs\<rparr> else fs)"
  have st: "same_fs fs fs1" "cursor_ok P b fs1 (file_cluster fs) q" "fat_cached P b fs1"
    using start_cursor [OF assms(3,5) _ fs1_def [unfolded cs_def]] assms(4,8) by auto
  have d: "filepos s div 2 ^ clustsize_bits fs = int (q div cs)" "filepos s AND (2 ^ clustsize_bits fs - 1) = int (q mod cs)"
    unfolding assms(7) and_sector_mask by (simp_all add: zdiv_int zmod_int cs(2))
  have e: "fat_read rd sector_bytes (int len) buf fs s =
      fat_read_loop rd (2 ^ b) (int (q div cs)) (int (q mod cs)) (int len) 0 buf fs1 s"
    using size_ok [OF assms(1)] assms(6) unfolding fat_read_def d fs1_def by (simp add: Let_def)
  have "\<exists>buf' fs' s'. fat_read_loop rd (2 ^ b) (int (q div cs)) (int (q mod cs)) (int len) 0 buf fs1 s =
        Some (int (0 + len), buf', fs', s') \<and>
      (\<forall>k. buf' k = (if 0 \<le> k \<and> k < 0 + len then file_byte P b fs1 (file_cluster fs) (q + (k - 0)) else buf k)) \<and>
      serves P b N s' \<and> file_step s s' \<and> filepos s' = filepos s + int len \<and> same_fs fs1 fs' \<and> fat_cached P b fs' \<and>
      cursor_ok P b fs' (file_cluster fs) (q + len)"
    using assms(1-3,9) st
    by (intro read_loop_ok) (auto simp: same_fs_layout [OF st(1)] same_file [OF st(1)] cs_def)
  then obtain buf' fs' s' where r: "fat_read_loop rd (2 ^ b) (int (q div cs)) (int (q mod cs)) (int len) 0 buf fs1 s =
        Some (int len, buf', fs', s')"
      "\<forall>k. buf' k = (if k < len then file_byte P b fs (file_cluster fs) (q + k) else buf k)"
      "serves P b N s'" "file_step s s'" "filepos s' = int (q + len)" "same_fs fs1 fs'" "fat_cached P b fs'"
      "cursor_ok P b fs' (file_cluster fs) (q + len)"
    using assms(7) by (auto simp: same_file [OF st(1)])
  have "fat_cursor P b fs'"
    using r(8) same_fs_simps(8) [OF same_fs_trans [OF st(1) r(6)]] by (auto simp: cursor_ok_def fat_cursor_def)
  then show ?thesis using e r same_fs_trans [OF st(1) r(6)] by auto
qed

text \<open>A chain that ends or goes astray after cluster \<open>n\<close>.\<close>

lemma follow_stop:
  assumes "serves P b N s" "errnum s = ERR_NONE" "fat_ok b N fs" "fat_cached P b fs"
    "current_cluster_num fs = int m" "current_cluster fs = fat_chain P b fs c m" "m \<le> n" "n < t"
    "\<And>i. m \<le> i \<Longrightarrow> i \<le> n \<Longrightarrow> cluster_ok fs (fat_chain P b fs c i)" "\<not> cluster_ok fs (fat_chain P b fs c (Suc n))"
  shows "\<exists>fs' s'. serves P b N s' \<and> reads_only s s' \<and> same_fs fs fs' \<and> fat_cached P b fs' \<and>
    fat_follow rd (2 ^ b) (int t) fs s =
      (if fat_chain P b fs c (Suc n) \<ge> clust_eof_marker fs then Some (Chain_End, fs', s')
       else Some (Chain_Stop, fs', s'\<lparr>errnum := ERR_FSYS_CORRUPT\<rparr>))"
  using assms
proof (induction "n - m" arbitrary: m fs s)
  case 0
  then have m: "m = n" by simp
  have ok: "cluster_ok fs (fat_chain P b fs c n)" using 0 m by auto
  obtain fs1 s1 where f: "serves P b N s1" "reads_only s s1" "same_fs fs fs1" "fat_cached P b fs1"
      "fat_next_cluster rd (2 ^ b) fs s =
        (if fat_chain P b fs c (Suc n) \<ge> clust_eof_marker fs then Some (Chain_End, fs1, s1)
         else Some (Chain_Stop, fs1, s1\<lparr>errnum := ERR_FSYS_CORRUPT\<rparr>))"
    using next_cluster_ok [OF 0(2-5) _ _ refl] ok 0(7,11) m by (auto simp: cluster_ok_def split: if_splits)
  then show ?case using 0(6,9) m by (subst fat_follow.simps) auto
next
  case (Suc k)
  let ?v = "fat_chain P b fs c (Suc m)"
  have mn: "m < n" using Suc.hyps(2) by simp
  have ok: "cluster_ok fs (fat_chain P b fs c m)" "cluster_ok fs ?v"
    using Suc.prems(9) [of m] Suc.prems(9) [of "Suc m"] mn by simp_all
  obtain fs1 s1 where f: "serves P b N s1" "reads_only s s1" "same_fs fs fs1" "fat_cached P b fs1"
      "fat_next_cluster rd (2 ^ b) fs s =
        Some (Chain_Next, fs1\<lparr>current_cluster := ?v, current_cluster_num := current_cluster_num fs + 1\<rparr>, s1)"
    using next_cluster_ok [OF Suc.prems(1-4) _ _ refl] ok Suc.prems(6) by (auto simp: cluster_ok_def)
  define fs2 where "fs2 = fs1\<lparr>current_cluster := ?v, current_cluster_num := int m + 1\<rparr>"
  have same: "same_fs fs fs2" using f(3) by (simp add: same_fs_def fs2_def)
  have cached: "fat_cached P b fs2" using f(4) by (simp add: fat_cached_def fs2_def)
  have cur: "current_cluster fs2 = fat_chain P b fs2 c (Suc m)" "current_cluster_num fs2 = int (Suc m)"
    by (simp_all add: same_fs_layout [OF same]) (simp_all add: fs2_def)
  have "\<exists>fs' s'. serves P b N s' \<and> reads_only s1 s' \<and> same_fs fs2 fs' \<and> fat_cached P b fs' \<and>
      fat_follow rd (2 ^ b) (int t) fs2 s1 =
        (if fat_chain P b fs2 c (Suc n) \<ge> clust_eof_marker fs2 then Some (Chain_End, fs', s')
         else Some (Chain_Stop, fs', s'\<lparr>errnum := ERR_FSYS_CORRUPT\<rparr>))"
    using Suc.hyps(2) Suc.prems(2,3,8-10) f(1) reads_only_simps(1) [OF f(2)] cached mn cur
    by (intro Suc.hyps(1) [of "Suc m"]) (simp_all add: same_fs_layout [OF same] del: fat_chain.simps)
  then obtain fs' s' where r: "serves P b N s'" "reads_only s1 s'" "same_fs fs2 fs'" "fat_cached P b fs'"
      "fat_follow rd (2 ^ b) (int t) fs2 s1 =
        (if fat_chain P b fs c (Suc n) \<ge> clust_eof_marker fs then Some (Chain_End, fs', s')
         else Some (Chain_Stop, fs', s'\<lparr>errnum := ERR_FSYS_CORRUPT\<rparr>))"
    unfolding same_fs_layout(3) [OF same] same_fs_simps(5) [OF same] by blast
  have "fat_follow rd (2 ^ b) (int t) fs s = fat_follow rd (2 ^ b) (int t) fs2 s1"
    using f(5) Suc.prems(5,8) mn by (subst fat_follow.simps) (simp add: fs2_def)
  then show ?case
    using r reads_only_trans [OF f(2) r(2)] same_fs_trans [OF same r(3)] by (intro exI [of _ fs'] exI [of _ s']) simp
qed

lemma fat_read_stop:
  assumes "serves P b N s" "errnum s = ERR_NONE" "fat_ok b N fs" "fat_cached P b fs" "fat_cursor P b fs"
    "current_cluster_num fs = MAXINT" "0 \<le> file_cluster fs" "filepos s = int q" "q < 2 ^ 31 - 1" "0 < len"
    "n < q div clust_bytes fs" "\<And>i. i \<le> n \<Longrightarrow> cluster_ok fs (fat_chain P b fs (file_cluster fs) i)"
    "\<not> cluster_ok fs (fat_chain P b fs (file_cluster fs) (Suc n))"
  shows "\<exists>fs' s'. fat_read rd sector_bytes (int len) buf fs s = Some (0, buf, fs', s') \<and>
    errnum s' = (if fat_chain P b fs (file_cluster fs) (Suc n) \<ge> clust_eof_marker fs then ERR_NONE else ERR_FSYS_CORRUPT)"
proof -
  define cs where "cs = clust_bytes fs"
  have cs: "0 < cs" "int cs = 2 ^ clustsize_bits fs" by (simp_all add: cs_def clust_bytes_def)
  define fs1 where "fs1 = fs\<lparr>current_cluster_num := 0, current_cluster := file_cluster fs\<rparr>"
  have same: "same_fs fs fs1" by (simp add: fs1_def same_fs_def)
  have f1: "fat_cached P b fs1" "current_cluster_num fs1 = int 0" "current_cluster fs1 = fat_chain P b fs1 (file_cluster fs) 0"
    using assms(4) by (simp_all add: fs1_def fat_cached_def)
  have lt: "int (q div cs) < current_cluster_num fs"
    using le_less_trans [OF div_le_dividend assms(9), of cs] assms(6) by (simp add: MAXINT_def)
  have d: "filepos s div 2 ^ clustsize_bits fs = int (q div cs)" "filepos s AND (2 ^ clustsize_bits fs - 1) = int (q mod cs)"
    unfolding assms(8) and_sector_mask by (simp_all add: zdiv_int zmod_int cs(2))
  have e: "fat_read rd sector_bytes (int len) buf fs s =
      fat_read_loop rd (2 ^ b) (int (q div cs)) (int (q mod cs)) (int len) 0 buf fs1 s"
    using size_ok [OF assms(1)] assms(7) lt unfolding fat_read_def d fs1_def by (simp add: Let_def)
  have "\<exists>fs' s'. serves P b N s' \<and> reads_only s s' \<and> same_fs fs1 fs' \<and> fat_cached P b fs' \<and>
      fat_follow rd (2 ^ b) (int (q div cs)) fs1 s =
        (if fat_chain P b fs1 (file_cluster fs) (Suc n) \<ge> clust_eof_marker fs1 then Some (Chain_End, fs', s')
         else Some (Chain_Stop, fs', s'\<lparr>errnum := ERR_FSYS_CORRUPT\<rparr>))"
    using assms(1-3,11-13) f1
    by (intro follow_stop [of _ _ _ _ _ 0]) (auto simp: same_fs_layout [OF same] cs_def simp del: fat_chain.simps(2))
  then obtain fs' s' where f: "reads_only s s'" "fat_follow rd (2 ^ b) (int (q div cs)) fs1 s =
      (if fat_chain P b fs (file_cluster fs) (Suc n) \<ge> clust_eof_marker fs then Some (Chain_End, fs', s')
       else Some (Chain_Stop, fs', s'\<lparr>errnum := ERR_FSYS_CORRUPT\<rparr>))"
    unfolding same_fs_layout(3) [OF same] same_fs_simps(5) [OF same] by blast
  then show ?thesis
    using assms(2,10) reads_only_simps(1) [OF f(1)]
    unfolding e by (subst fat_read_loop.simps) auto
qed

end

section \<open>Reading a file of a FAT partition\<close>

text \<open>C30: Reading \<open>len\<close> bytes at \<open>filepos\<close> of a file whose cluster chain is good up to there
  gives exactly the bytes of the file: byte \<open>q\<close> of the file is the byte \<open>q mod clust_bytes\<close> of
  the \<open>q div clust_bytes\<close>-th cluster of the chain, wherever the cursor and the FAT cache were.
  The position advances by \<open>len\<close> and the cursor and the cache stay consistent.\<close>

theorem fat_read_correct:
  fixes s :: "'w dstate"
  assumes "disk_serves fw P b N s" "errnum s = ERR_NONE" "fat_ok b N fs" "fat_cached P b fs" "fat_cursor P b fs"
    "0 \<le> file_cluster fs" "filepos s = int q" "q + len < 2 ^ 31 - 1" "chain_ok P b fs (file_cluster fs) (q + len)"
  shows "\<exists>buf' fs' s'. fat_read (devread fw) (\<lambda>s. get_sector_size (efi s) (current_drive s)) (int len) buf fs s =
      Some (int len, buf', fs', s') \<and>
    (\<forall>k. buf' k = (if k < len then file_byte P b fs (file_cluster fs) (q + k) else buf k)) \<and>
    disk_serves fw P b N s' \<and> file_step s s' \<and> filepos s' = int (q + len) \<and> same_fs fs fs' \<and>
    fat_cached P b fs' \<and> fat_cursor P b fs'"
  using part.fat_read_ok [OF assms] .

text \<open>C31: Reading past the end of a chain gives no byte and no error; reading past a FAT entry
  that is neither a cluster nor an end marker gives no byte and the error
  \<open>ERR_FSYS_CORRUPT\<close>. In both cases \<^verbatim>\<open>fat_read\<close> returns.\<close>

theorem fat_read_past_chain:
  fixes s :: "'w dstate"
  assumes "disk_serves fw P b N s" "errnum s = ERR_NONE" "fat_ok b N fs" "fat_cached P b fs" "fat_cursor P b fs"
    "current_cluster_num fs = MAXINT" "0 \<le> file_cluster fs" "filepos s = int q" "q < 2 ^ 31 - 1" "0 < len"
    "n < q div clust_bytes fs" "\<And>i. i \<le> n \<Longrightarrow> cluster_ok fs (fat_chain P b fs (file_cluster fs) i)"
    "\<not> cluster_ok fs (fat_chain P b fs (file_cluster fs) (Suc n))"
  shows "\<exists>fs' s'. fat_read (devread fw) (\<lambda>s. get_sector_size (efi s) (current_drive s)) (int len) buf fs s =
      Some (0, buf, fs', s') \<and>
    errnum s' = (if fat_chain P b fs (file_cluster fs) (Suc n) \<ge> clust_eof_marker fs then ERR_NONE else ERR_FSYS_CORRUPT)"
  using part.fat_read_stop [OF assms(1-11) assms(12,13)] .

text \<open>A FAT12 partition with a file of two clusters, 2 and 3.\<close>

definition fat_disk :: mem where
  "fat_disk k = (if k = 512 then 0xF8 else if k = 513 \<or> k = 514 then 0xFF else if k = 515 then 3
     else if k = 516 then 0xF0 else if k = 517 then 0xFF else if 2048 \<le> k then of_nat (k mod 7) else 0)"

definition fat_sample :: fat_fs where
  "fat_sample = \<lparr>fat_offset = 1, fat_length = 1, fat_size = 3, root_offset = 2, root_max = 512, data_offset = 4,
     num_sectors = 2016, num_clust = 100, clust_eof_marker = 0xff8, sects_per_clust = 1, sectsize_bits = 9,
     clustsize_bits = 9, root_cluster = - 1, cached_fat = - 8192, file_cluster = 2, current_cluster_num = MAXINT,
     current_cluster = 0, FAT_BUF = \<lambda>_. 0, NAME_BUF = \<lambda>_. 0\<rparr>"

lemma fat_disk_no_ezd: "no_ezd fat_disk 9"
proof -
  have "of_nat (k mod 7) \<noteq> (0x55 :: byte)" for k
  proof -
    have "k mod 7 < 7" by simp
    then have "k mod 7 \<in> {0, 1, 2, 3, 4, 5, 6}" by auto
    then show ?thesis by (elim insertE emptyE; simp)
  qed
  then have "fat_disk k \<noteq> 0x55" for k by (simp add: fat_disk_def)
  then show ?thesis
    by (auto simp: no_ezd_def has_ezd_def PC_SLICE_TYPE_def ld8_def vtrack_def word_uint_eq_iff)
qed

lemma fat_disk_ok: "disk_ok ram_firmware 0x80 disk0 fat_disk 9 (sample_efi1 fat_disk)"
  using sample_device [of fat_disk] ram_disk_image fat_disk_no_ezd
  by (simp add: disk_ok_def media_sane_def) (simp add: sample_efi1_def sample_efi_def)

lemma fat_sample_serves:
  "disk_serves ram_firmware fat_disk 9 2016 ((sample_state fat_disk)\<lparr>filepos := p\<rparr>)"
  unfolding disk_serves_def
  by (intro exI [of _ disk0] exI [of _ fat_disk])
     (auto simp: fat_disk_ok sample_whole part_img_def buffer_ok_def, simp_all add: sample_state_def)

lemma fat_sample_chain:
  "fat_value fat_disk 9 fat_sample 2 = 3" "fat_value fat_disk 9 fat_sample 3 = 0xFFF"
  by (simp_all add: fat_value_def fat_sample_def fat_disk_def ld16_def ld8_def)

lemma fat_sample_ok:
  "fat_ok 9 2016 fat_sample" "fat_cached P 9 fat_sample" "fat_cursor P 9 fat_sample" "file_cluster fat_sample = 2"
  "current_cluster_num fat_sample = MAXINT" "clust_bytes fat_sample = 512"
  "cluster_ok fat_sample 2" "cluster_ok fat_sample 3" "\<not> cluster_ok fat_sample 0xFFF"
  by (simp_all add: fat_ok_def fat_cached_def fat_cursor_def fat_sample_def cluster_ok_def clust_bytes_def)

theorem fat_read_correct_witness:
  "\<exists>buf' fs' s'. fat_read (devread ram_firmware) (\<lambda>s. get_sector_size (efi s) (current_drive s)) 600 (\<lambda>_. 0) fat_sample
       ((sample_state fat_disk)\<lparr>filepos := 100\<rparr>) = Some (600, buf', fs', s') \<and>
     buf' 0 = fat_disk 2148 \<and> buf' 599 = fat_disk 2747"
proof -
  have c: "i = 0 \<or> i = 1" if "128 * i < (175 :: nat)" for i using that by auto
  have "chain_ok fat_disk 9 fat_sample (file_cluster fat_sample) (100 + 600)"
    using fat_sample_ok fat_sample_chain by (auto simp: chain_ok_def dest!: c)
  then have "\<exists>buf' fs' s'. fat_read (devread ram_firmware) (\<lambda>s. get_sector_size (efi s) (current_drive s)) (int 600)
      (\<lambda>_. 0) fat_sample ((sample_state fat_disk)\<lparr>filepos := 100\<rparr>) = Some (int 600, buf', fs', s') \<and>
    (\<forall>k. buf' k = (if k < 600 then file_byte fat_disk 9 fat_sample (file_cluster fat_sample) (100 + k) else 0)) \<and>
    disk_serves ram_firmware fat_disk 9 2016 s' \<and> file_step ((sample_state fat_disk)\<lparr>filepos := 100\<rparr>) s' \<and>
    filepos s' = int (100 + 600) \<and> same_fs fat_sample fs' \<and> fat_cached fat_disk 9 fs' \<and> fat_cursor fat_disk 9 fs'"
    using fat_sample_ok by (intro fat_read_correct fat_sample_serves) simp_all
  moreover have "file_byte fat_disk 9 fat_sample 2 100 = fat_disk 2148" "file_byte fat_disk 9 fat_sample 2 699 = fat_disk 2747"
    using fat_sample_ok fat_sample_chain by (simp_all add: file_byte_def cluster_addr_def) (simp_all add: fat_sample_def)
  ultimately show ?thesis using fat_sample_ok(4) by fastforce
qed

theorem fat_read_past_chain_witness:
  "\<exists>fs' s'. fat_read (devread ram_firmware) (\<lambda>s. get_sector_size (efi s) (current_drive s)) 10 (\<lambda>_. 0) fat_sample
       ((sample_state fat_disk)\<lparr>filepos := 1100\<rparr>) = Some (0, \<lambda>_. 0, fs', s') \<and> errnum s' = ERR_NONE"
proof -
  have e: "0xFFF \<ge> clust_eof_marker fat_sample" by (simp add: fat_sample_def)
  have "\<exists>fs' s'. fat_read (devread ram_firmware) (\<lambda>s. get_sector_size (efi s) (current_drive s)) (int 10) (\<lambda>_. 0) fat_sample
       ((sample_state fat_disk)\<lparr>filepos := 1100\<rparr>) = Some (0, \<lambda>_. 0, fs', s') \<and>
     errnum s' = (if fat_chain fat_disk 9 fat_sample (file_cluster fat_sample) (Suc 1) \<ge> clust_eof_marker fat_sample
       then ERR_NONE else ERR_FSYS_CORRUPT)"
  proof (rule fat_read_past_chain [OF fat_sample_serves, where q = 1100])
    show "cluster_ok fat_sample (fat_chain fat_disk 9 fat_sample (file_cluster fat_sample) i)" if "i \<le> 1" for i
      using that fat_sample_ok fat_sample_chain by (auto simp: le_Suc_eq)
  qed (use fat_sample_ok fat_sample_chain in simp_all)
  then show ?thesis using e fat_sample_ok fat_sample_chain by simp
qed

end
