(* ===== verification/Ext2.thy ===== *)
theory Ext2
  imports Fat
begin

text \<open>
  The file systems ext2, ext3 and ext4, \<^verbatim>\<open>stage2/fsys_ext2fs.c\<close>: mounting, the two ways to map a block of a
  file to a block of the file system (indirect blocks and extents), reading, reading an inode, and the search
  in a directory. Paths and symbolic links, which read through the file layer, are in \<open>Ext2_File\<close>.

  The state is the buffer \<^verbatim>\<open>FSYS_BUF\<close> with its parts \<^verbatim>\<open>SUPERBLOCK\<close>, \<^verbatim>\<open>GROUP_DESC\<close>, \<^verbatim>\<open>INODE\<close>,
  \<^verbatim>\<open>DATABLOCK1\<close> and \<^verbatim>\<open>DATABLOCK2\<close>, which are offsets into it and overlap as they do in the
  code, and the two variables that say what the data blocks hold. As in \<open>Fat\<close> the sector reader
  and \<^verbatim>\<open>get_sector_size\<close> are arguments, and \<open>None\<close> is a trap (a division by zero, an undefined
  result of \<^verbatim>\<open>bsfl\<close>, a store behind \<^verbatim>\<open>FSYS_BUF\<close>) or a loop that does not end.
\<close>

section \<open>Definitions\<close>

record ext_fs =
  FSYS_BUF :: mem
  mapblock1 :: int
  mapblock2 :: int

definition FSYS_BUFLEN :: int where
  "FSYS_BUFLEN = 0x8000"

text \<open>Shifts with a variable count, which the processor takes modulo 32.\<close>

definition shl1 :: "nat \<Rightarrow> int" where
  "shl1 n = s32 (2 ^ (n mod 32))"

definition sar :: "int \<Rightarrow> nat \<Rightarrow> int" where
  "sar x n = x div 2 ^ (n mod 32)"

subsection \<open>The superblock, group descriptors and inodes\<close>

definition s_first_data_block :: "mem \<Rightarrow> int" where "s_first_data_block m = ld32 m 20"
definition s_log_block_size :: "mem \<Rightarrow> int" where "s_log_block_size m = ld32 m 24"
definition s_inodes_per_group :: "mem \<Rightarrow> int" where "s_inodes_per_group m = ld32 m 40"
definition s_magic :: "mem \<Rightarrow> int" where "s_magic m = ld16 m 56"
definition s_inode_size :: "mem \<Rightarrow> int" where "s_inode_size m = ld16 m 88"
definition s_feature_incompat :: "mem \<Rightarrow> int" where "s_feature_incompat m = ld32 m 96"
definition s_desc_size :: "mem \<Rightarrow> int" where "s_desc_size m = ld16 m 254"

lemmas super_defs = s_first_data_block_def s_log_block_size_def s_inodes_per_group_def s_magic_def s_inode_size_def
  s_feature_incompat_def s_desc_size_def

definition EXT2_BLOCK_SIZE_BITS :: "mem \<Rightarrow> nat" where
  "EXT2_BLOCK_SIZE_BITS m = nat (u32 (s_log_block_size m + 10))"

definition EXT2_BLOCK_SIZE :: "mem \<Rightarrow> int" where
  "EXT2_BLOCK_SIZE m = shl1 (EXT2_BLOCK_SIZE_BITS m)"

definition EXT2_ADDR_PER_BLOCK :: "mem \<Rightarrow> int" where
  "EXT2_ADDR_PER_BLOCK m = u32 (EXT2_BLOCK_SIZE m) div 4"

definition EXT2_DESC_SIZE :: "mem \<Rightarrow> int" where
  "EXT2_DESC_SIZE m = (if s_feature_incompat m AND 0x80 \<noteq> 0 then s_desc_size m else 32)"

text \<open>The parts of \<^verbatim>\<open>FSYS_BUF\<close>; an inode has 156 bytes.\<close>

definition GROUP_DESC :: nat where "GROUP_DESC = 1024"
definition INODE :: "mem \<Rightarrow> nat" where "INODE m = GROUP_DESC + nat (EXT2_BLOCK_SIZE m)"
definition DATABLOCK1 :: "mem \<Rightarrow> nat" where "DATABLOCK1 m = INODE m + 156"
definition DATABLOCK2 :: "mem \<Rightarrow> nat" where "DATABLOCK2 m = DATABLOCK1 m + nat (EXT2_BLOCK_SIZE m)"

text \<open>Fields of an inode at \<open>m\<close>, \<^verbatim>\<open>struct ext2_inode\<close>.\<close>

definition i_mode :: "mem \<Rightarrow> int" where "i_mode m = ld16 m 0"
definition i_size :: "mem \<Rightarrow> int" where "i_size m = ld32 m 4"
definition i_blocks :: "mem \<Rightarrow> int" where "i_blocks m = ld32 m 28"
definition i_flags :: "mem \<Rightarrow> int" where "i_flags m = ld32 m 32"
definition i_block :: "mem \<Rightarrow> nat \<Rightarrow> int" where "i_block m j = ld32 m (40 + 4 * j)"
definition i_file_acl :: "mem \<Rightarrow> int" where "i_file_acl m = ld32 m 104"
definition i_size_high :: "mem \<Rightarrow> int" where "i_size_high m = ld32 m 108"

lemmas inode_defs = i_mode_def i_size_def i_blocks_def i_flags_def i_block_def i_file_acl_def i_size_high_def

definition S_ISLNK :: "int \<Rightarrow> bool" where "S_ISLNK mode \<longleftrightarrow> mode AND 0xF000 = 0xA000"
definition S_ISREG :: "int \<Rightarrow> bool" where "S_ISREG mode \<longleftrightarrow> mode AND 0xF000 = 0x8000"
definition S_ISDIR :: "int \<Rightarrow> bool" where "S_ISDIR mode \<longleftrightarrow> mode AND 0xF000 = 0x4000"

text \<open>The memory from the inode on.\<close>

definition at_inode :: "ext_fs \<Rightarrow> mem" where
  "at_inode fs = (\<lambda>k. FSYS_BUF fs (INODE (FSYS_BUF fs) + k))"

subsection \<open>Mounting\<close>

definition ext2_slice_ok :: "'a stage2_scheme \<Rightarrow> bool" where
  "ext2_slice_ok s \<longleftrightarrow> \<not> ((current_drive s AND 0x80 \<noteq> 0 \<or> current_slice s \<noteq> 0) \<and> current_slice s \<noteq> 0x83 \<and>
     current_slice s \<noteq> 0xfd \<and> \<not> IS_PC_SLICE_TYPE_BSD_WITH_FS (current_slice s) 17 \<and>
     \<not> IS_PC_SLICE_TYPE_BSD_WITH_FS (current_slice s) 10)"

definition ext2fs_mount ::
    "'a reader \<Rightarrow> ('a stage2_scheme \<Rightarrow> int option) \<Rightarrow> ext_fs \<Rightarrow> 'a stage2_scheme \<Rightarrow> (bool \<times> ext_fs \<times> 'a stage2_scheme) option"
where
  "ext2fs_mount rd ssz fs s =
     (if \<not> ext2_slice_ok s then Some (False, fs, s)
      else case ssz s of
        None \<Rightarrow> None
      | Some ss \<Rightarrow>
          if part_length s < u32 (1024 div ss + 1024 div ss) then Some (False, fs, s)
          else case rd (1024 div ss) (1024 mod ss) 1024 (FSYS_BUF fs) s of
            None \<Rightarrow> None
          | Some (ok, m, s1) \<Rightarrow> Some (ok \<and> s_magic m = 0xEF53, fs\<lparr>FSYS_BUF := m\<rparr>, s1))"

subsection \<open>Mapping blocks\<close>

definition ext2_rdfsb ::
    "'a reader \<Rightarrow> ('a stage2_scheme \<Rightarrow> int option) \<Rightarrow> int \<Rightarrow> nat \<Rightarrow> ext_fs \<Rightarrow> 'a stage2_scheme \<Rightarrow>
       (bool \<times> ext_fs \<times> 'a stage2_scheme) option" where
  "ext2_rdfsb rd ssz fsblock buffer fs s =
     (let bs = EXT2_BLOCK_SIZE (FSYS_BUF fs)
      in case ssz s of
           None \<Rightarrow> None
         | Some ss \<Rightarrow>
             if bs \<le> 0 \<or> int buffer + bs > FSYS_BUFLEN then None
             else case rd (s32 (s32 fsblock * (bs div ss))) 0 bs (\<lambda>k. FSYS_BUF fs (buffer + k)) s of
                    None \<Rightarrow> None
                  | Some (ok, m, s1) \<Rightarrow>
                      Some (ok, fs\<lparr>FSYS_BUF := (\<lambda>k. if buffer \<le> k then m (k - buffer) else FSYS_BUF fs k)\<rparr>, s1))"

text \<open>The branches of the mapping functions that a block must be read for.\<close>

definition or_corrupt ::
    "(bool \<times> ext_fs \<times> 'a stage2_scheme) option \<Rightarrow> (ext_fs \<Rightarrow> 'a stage2_scheme \<Rightarrow> (int \<times> ext_fs \<times> 'a stage2_scheme) option) \<Rightarrow>
       (int \<times> ext_fs \<times> 'a stage2_scheme) option" where
  "or_corrupt r f =
     (case r of
        None \<Rightarrow> None
      | Some (ok, fs, s) \<Rightarrow> if ok then f fs s else Some (- 1, fs, s\<lparr>errnum := ERR_FSYS_CORRUPT\<rparr>))"

definition load_block1 ::
    "'a reader \<Rightarrow> ('a stage2_scheme \<Rightarrow> int option) \<Rightarrow> int \<Rightarrow> nat \<Rightarrow> ext_fs \<Rightarrow> 'a stage2_scheme \<Rightarrow>
       (ext_fs \<Rightarrow> 'a stage2_scheme \<Rightarrow> (int \<times> ext_fs \<times> 'a stage2_scheme) option) \<Rightarrow> (int \<times> ext_fs \<times> 'a stage2_scheme) option" where
  "load_block1 rd ssz level j fs s f =
     or_corrupt (if mapblock1 fs \<noteq> level then ext2_rdfsb rd ssz (i_block (at_inode fs) j) (DATABLOCK1 (FSYS_BUF fs)) fs s
                 else Some (True, fs, s))
       (\<lambda>fs1 s1. f (fs1\<lparr>mapblock1 := level\<rparr>) s1)"

text \<open>Entry \<open>i\<close> of a table of block numbers in a data block.\<close>

definition data1 :: "ext_fs \<Rightarrow> int \<Rightarrow> int" where
  "data1 fs i = ld32 (FSYS_BUF fs) (DATABLOCK1 (FSYS_BUF fs) + 4 * nat i)"

definition data2 :: "ext_fs \<Rightarrow> int \<Rightarrow> int" where
  "data2 fs i = ld32 (FSYS_BUF fs) (DATABLOCK2 (FSYS_BUF fs) + 4 * nat i)"

definition ext2fs_block_map ::
    "'a reader \<Rightarrow> ('a stage2_scheme \<Rightarrow> int option) \<Rightarrow> int \<Rightarrow> ext_fs \<Rightarrow> 'a stage2_scheme \<Rightarrow> (int \<times> ext_fs \<times> 'a stage2_scheme) option" where
  "ext2fs_block_map rd ssz logical_block fs s =
     (let apb = EXT2_ADDR_PER_BLOCK (FSYS_BUF fs);
          into2 = (\<lambda>b fs s. ext2_rdfsb rd ssz b (DATABLOCK2 (FSYS_BUF fs)) fs s);
          n1 = logical_block - 12; n2 = n1 - apb
      in if logical_block < 0 then None
         else if logical_block < 12 then Some (s32 (i_block (at_inode fs) (nat logical_block)), fs, s)
         else if n1 < apb then load_block1 rd ssz 1 12 fs s (\<lambda>fs s. Some (s32 (data1 fs n1), fs, s))
         else case bsf apb of
           None \<Rightarrow> None
         | Some bits \<Rightarrow>
             let n3 = n2 - shl1 (bits * 2)
             in if n2 < shl1 (bits * 2)
                then load_block1 rd ssz 2 13 fs s (\<lambda>fs s.
                  let bnum = s32 (data1 fs (sar n2 bits))
                  in or_corrupt (if bnum \<noteq> mapblock2 fs then into2 bnum fs s else Some (True, fs, s))
                       (\<lambda>fs s. Some (s32 (data2 fs (n2 AND (apb - 1))), fs\<lparr>mapblock2 := bnum\<rparr>, s)))
                else load_block1 rd ssz 3 14 (fs\<lparr>mapblock2 := - 1\<rparr>) s (\<lambda>fs s.
                  or_corrupt (into2 (data1 fs (sar n3 (bits * 2))) fs s) (\<lambda>fs s.
                    or_corrupt (into2 (data2 fs (sar n3 bits AND (apb - 1))) fs s)
                      (\<lambda>fs s. Some (s32 (data2 fs (n3 AND (apb - 1))), fs, s)))))"

text \<open>The header of an extent node at \<open>m\<close>, and its entries: \<^verbatim>\<open>struct ext4_extent_idx\<close> and
  \<^verbatim>\<open>struct ext4_extent\<close>.\<close>

definition eh_magic :: "mem \<Rightarrow> int" where "eh_magic m = ld16 m 0"
definition eh_entries :: "mem \<Rightarrow> int" where "eh_entries m = ld16 m 2"
definition eh_depth :: "mem \<Rightarrow> int" where "eh_depth m = ld16 m 6"
definition ei_block :: "mem \<Rightarrow> nat \<Rightarrow> int" where "ei_block m i = ld32 m (12 + 12 * i)"
definition ei_leaf_lo :: "mem \<Rightarrow> nat \<Rightarrow> int" where "ei_leaf_lo m i = ld32 m (16 + 12 * i)"
definition ei_leaf_hi :: "mem \<Rightarrow> nat \<Rightarrow> int" where "ei_leaf_hi m i = ld16 m (20 + 12 * i)"
definition ee_block :: "mem \<Rightarrow> nat \<Rightarrow> int" where "ee_block m i = ld32 m (12 + 12 * i)"
definition ee_len :: "mem \<Rightarrow> nat \<Rightarrow> int" where "ee_len m i = ld16 m (16 + 12 * i)"
definition ee_start_hi :: "mem \<Rightarrow> nat \<Rightarrow> int" where "ee_start_hi m i = ld16 m (18 + 12 * i)"
definition ee_start_lo :: "mem \<Rightarrow> nat \<Rightarrow> int" where "ee_start_lo m i = ld32 m (20 + 12 * i)"

lemmas extent_defs = eh_magic_def eh_entries_def eh_depth_def ei_block_def ei_leaf_lo_def ei_leaf_hi_def ee_block_def
  ee_len_def ee_start_hi_def ee_start_lo_def

text \<open>The binary search over the entries \<open>l\<close> to \<open>r\<close>.\<close>

function ext_search :: "(nat \<Rightarrow> int) \<Rightarrow> int \<Rightarrow> int \<Rightarrow> int \<Rightarrow> nat" where
  "ext_search key logical_block l r =
     (if l \<le> r
      then let m = l + (r - l) div 2
           in if logical_block < key (nat m) then ext_search key logical_block l (m - 1)
              else ext_search key logical_block (m + 1) r
      else nat (l - 1))"
  by auto
termination
  by (relation "measure (\<lambda>(key, b, l, r). nat (r - l + 1))") auto

declare ext_search.simps [simp del]

definition ext4_ext_binsearch_idx :: "mem \<Rightarrow> int \<Rightarrow> nat" where
  "ext4_ext_binsearch_idx eh logical_block = ext_search (ei_block eh) (u32 logical_block) 1 (eh_entries eh - 1)"

definition ext4_ext_binsearch :: "mem \<Rightarrow> int \<Rightarrow> nat" where
  "ext4_ext_binsearch eh logical_block = ext_search (ee_block eh) (u32 logical_block) 1 (eh_entries eh - 1)"

text \<open>The way down to the leaf; \<open>eh\<close> is the offset of the node in the buffer. A cycle of index
  blocks is followed for ever.\<close>

definition ext4_leaf :: "mem \<Rightarrow> int \<Rightarrow> 'a stage2_scheme \<Rightarrow> int \<times> 'a stage2_scheme" where
  "ext4_leaf node logical_block s =
     (let ex = ext4_ext_binsearch node logical_block
      in if ee_start_hi node ex \<noteq> 0 then (- 1, s\<lparr>errnum := ERR_FILELENGTH\<rparr>)
         else if u32 (ee_block node ex + ee_len node ex) < u32 logical_block then (- 1, s\<lparr>errnum := ERR_FSYS_CORRUPT\<rparr>)
         else (s32 (ee_start_lo node ex + logical_block - ee_block node ex), s))"

partial_function (option) ext4_descend ::
    "'a reader \<Rightarrow> ('a stage2_scheme \<Rightarrow> int option) \<Rightarrow> nat \<Rightarrow> int \<Rightarrow> ext_fs \<Rightarrow> 'a stage2_scheme \<Rightarrow>
       (int \<times> ext_fs \<times> 'a stage2_scheme) option" where
  "ext4_descend rd ssz eh logical_block fs s =
     (let node = (\<lambda>k. FSYS_BUF fs (eh + k))
      in if eh_depth node \<noteq> 0
         then if eh_magic node \<noteq> 0xf30a then Some (- 1, fs, s\<lparr>errnum := ERR_FSYS_CORRUPT\<rparr>)
              else let ei = ext4_ext_binsearch_idx node logical_block
                   in if ei_leaf_hi node ei \<noteq> 0 then Some (- 1, fs, s\<lparr>errnum := ERR_FILELENGTH\<rparr>)
                      else case ext2_rdfsb rd ssz (ei_leaf_lo node ei) (DATABLOCK1 (FSYS_BUF fs)) fs s of
                             None \<Rightarrow> None
                           | Some (ok, fs1, s1) \<Rightarrow>
                               if ok then ext4_descend rd ssz (DATABLOCK1 (FSYS_BUF fs)) logical_block fs1 s1
                               else Some (- 1, fs1, s1\<lparr>errnum := ERR_FSYS_CORRUPT\<rparr>)
         else let (r, s1) = ext4_leaf node logical_block s in Some (r, fs, s1))"

definition ext4fs_block_map ::
    "'a reader \<Rightarrow> ('a stage2_scheme \<Rightarrow> int option) \<Rightarrow> int \<Rightarrow> ext_fs \<Rightarrow> 'a stage2_scheme \<Rightarrow> (int \<times> ext_fs \<times> 'a stage2_scheme) option" where
  "ext4fs_block_map rd ssz logical_block fs s =
     (let eh = INODE (FSYS_BUF fs) + 40
      in if eh_magic (\<lambda>k. FSYS_BUF fs (eh + k)) \<noteq> 0xf30a then Some (- 1, fs, s\<lparr>errnum := ERR_FSYS_CORRUPT\<rparr>)
         else ext4_descend rd ssz eh logical_block fs s)"

text \<open>The choice between them, made by the inode when the file system has extents.\<close>

definition uses_extents :: "ext_fs \<Rightarrow> bool" where
  "uses_extents fs \<longleftrightarrow> s_feature_incompat (FSYS_BUF fs) AND 0x40 \<noteq> 0 \<and> i_flags (at_inode fs) AND 0x80000 \<noteq> 0"

definition ext2_bmap ::
    "'a reader \<Rightarrow> ('a stage2_scheme \<Rightarrow> int option) \<Rightarrow> int \<Rightarrow> ext_fs \<Rightarrow> 'a stage2_scheme \<Rightarrow> (int \<times> ext_fs \<times> 'a stage2_scheme) option" where
  "ext2_bmap rd ssz logical_block fs s =
     (if uses_extents fs then ext4fs_block_map rd ssz logical_block fs s else ext2fs_block_map rd ssz logical_block fs s)"

subsection \<open>Reading\<close>

function ext2_read_loop ::
    "'a reader \<Rightarrow> ('a stage2_scheme \<Rightarrow> int option) \<Rightarrow> int \<Rightarrow> nat \<Rightarrow> mem \<Rightarrow> ext_fs \<Rightarrow> 'a stage2_scheme \<Rightarrow>
       (int \<times> mem \<times> ext_fs \<times> 'a stage2_scheme) option" where
  "ext2_read_loop rd ssz len pos buf fs s =
     (let result = (\<lambda>fs s. Some (if errnum s \<noteq> ERR_NONE then 0 else int pos, buf, fs, s))
      in if len > 0
         then case ext2_bmap rd ssz (sar (filepos s) (EXT2_BLOCK_SIZE_BITS (FSYS_BUF fs))) fs s of
                None \<Rightarrow> None
              | Some (fsmap, fs1, s1) \<Rightarrow>
                  if fsmap < 0 then result fs1 s1
                  else let bs = EXT2_BLOCK_SIZE (FSYS_BUF fs1);
                           offset = filepos s AND (bs - 1);
                           size = (if bs - offset > len then len else bs - offset)
                       in if size \<le> 0 then None
                          else if fsmap = 0
                          then ext2_read_loop rd ssz (len - size) (pos + nat size)
                                 (\<lambda>k. if pos \<le> k \<and> k < pos + nat size then 0 else buf k) fs1
                                 (s1\<lparr>filepos := filepos s1 + size\<rparr>)
                          else case ssz s1 of
                            None \<Rightarrow> None
                          | Some ss \<Rightarrow>
                              (case rd (s32 (fsmap * (bs div ss))) offset size (\<lambda>k. buf (pos + k))
                                       (s1\<lparr>disk_read_func := disk_read_hook s1\<rparr>) of
                                 None \<Rightarrow> None
                               | Some (_, m, s2) \<Rightarrow>
                                   ext2_read_loop rd ssz (len - size) (pos + nat size)
                                     (\<lambda>k. if pos \<le> k then m (k - pos) else buf k) fs1
                                     (s2\<lparr>disk_read_func := False, filepos := filepos s2 + size\<rparr>))
         else result fs s)"
  by pat_completeness auto
termination
  by (relation "measure (\<lambda>(rd, ssz, len, pos, buf, fs, s). nat len)") auto

declare ext2_read_loop.simps [simp del]

definition ext2fs_read ::
    "'a reader \<Rightarrow> ('a stage2_scheme \<Rightarrow> int option) \<Rightarrow> int \<Rightarrow> mem \<Rightarrow> ext_fs \<Rightarrow> 'a stage2_scheme \<Rightarrow>
       (int \<times> mem \<times> ext_fs \<times> 'a stage2_scheme) option" where
  "ext2fs_read rd ssz len buf fs s = ext2_read_loop rd ssz len 0 buf fs s"

subsection \<open>Inodes and directories\<close>

text \<open>Reading an inode: done, or \<^verbatim>\<open>ext2fs_dir\<close> returns 0, or it returns -1.\<close>

datatype inode_result = Inode_Read | Inode_Failed | Inode_64bit

definition ext2_get_inode ::
    "'a reader \<Rightarrow> ('a stage2_scheme \<Rightarrow> int option) \<Rightarrow> int \<Rightarrow> ext_fs \<Rightarrow> 'a stage2_scheme \<Rightarrow>
       (inode_result \<times> ext_fs \<times> 'a stage2_scheme) option" where
  "ext2_get_inode rd ssz current_ino fs s =
     (let sb = FSYS_BUF fs; bs = EXT2_BLOCK_SIZE sb; ipg = s_inodes_per_group sb; ds = EXT2_DESC_SIZE sb; is = s_inode_size sb
      in if ipg = 0 \<or> ds = 0 then None
         else case bsf (bs div ds) of
           None \<Rightarrow> None
         | Some dbits \<Rightarrow>
             let group_id = s32 (u32 (current_ino - 1) div ipg);
                 desc = group_id AND (bs div ds - 1)
             in case ext2_rdfsb rd ssz (1 + group_id div 2 ^ dbits + s_first_data_block sb) GROUP_DESC fs s of
                  None \<Rightarrow> None
                | Some (False, fs1, s1) \<Rightarrow> Some (Inode_Failed, fs1, s1)
                | Some (True, fs1, s1) \<Rightarrow>
                    let gdp = GROUP_DESC + nat (desc * ds)
                    in if s_feature_incompat sb AND 0x80 \<noteq> 0 \<and> ld32 (FSYS_BUF fs1) (gdp + 40) = 0
                       then Some (Inode_64bit, fs1, s1\<lparr>errnum := ERR_FILELENGTH\<rparr>)
                       else if is = 0 then None
                       else case bsf (bs div is) of
                         None \<Rightarrow> None
                       | Some ibits \<Rightarrow>
                           (case ext2_rdfsb rd ssz (ld32 (FSYS_BUF fs1) (gdp + 8) + u32 (current_ino - 1) mod ipg div 2 ^ ibits)
                                   (INODE sb) fs1 s1 of
                              None \<Rightarrow> None
                            | Some (False, fs2, s2) \<Rightarrow> Some (Inode_Failed, fs2, s2)
                            | Some (True, fs2, s2) \<Rightarrow>
                                let raw_inode = INODE sb + nat (((current_ino - 1) AND (bs div is - 1)) * is)
                                in Some (Inode_Read,
                                     \<lparr>FSYS_BUF = copy_mem (FSYS_BUF fs2) (INODE sb) (FSYS_BUF fs2) raw_inode 156,
                                      mapblock1 = - 1, mapblock2 = - 1\<rparr>, s2)))"

text \<open>The search for a name in the directory in \<^verbatim>\<open>INODE\<close>. It returns from \<^verbatim>\<open>ext2fs_dir\<close> (with its
  value, and whether the path is repaired), or it finds the number of an inode. An entry with the
  length zero is read for ever.\<close>

datatype ext2_found = Dir_Return bool bool | Dir_Entry int

definition dir_completion :: "cstr \<Rightarrow> byte \<Rightarrow> cstr \<Rightarrow> 'a stage2_scheme \<Rightarrow> 'a stage2_scheme" where
  "dir_completion dirname ch entry s =
     (if print_possibilities s \<noteq> 0 \<and> ch \<noteq> 47 \<and> (deref dirname = 0 \<or> substring dirname entry \<le> 0)
      then print_a_completion entry
             (if print_possibilities s > 0 then s\<lparr>print_possibilities := - print_possibilities s\<rparr> else s)
      else s)"

partial_function (option) ext2_scan ::
    "'a reader \<Rightarrow> ('a stage2_scheme \<Rightarrow> int option) \<Rightarrow> cstr \<Rightarrow> byte \<Rightarrow> int \<Rightarrow> ext_fs \<Rightarrow> 'a stage2_scheme \<Rightarrow>
       (ext2_found \<times> ext_fs \<times> 'a stage2_scheme) option" where
  "ext2_scan rd ssz dirname ch loc fs s =
     (if u32 loc \<ge> i_size (at_inode fs)
      then if print_possibilities s < 0 then Some (Dir_Return True False, fs, s)
           else Some (Dir_Return False True, fs, s\<lparr>errnum := ERR_FILE_NOT_FOUND\<rparr>)
      else case ext2_bmap rd ssz (sar loc (EXT2_BLOCK_SIZE_BITS (FSYS_BUF fs))) fs s of
        None \<Rightarrow> None
      | Some (fsmap, fs1, s1) \<Rightarrow>
          if fsmap < 0 then Some (Dir_Return False True, fs1\<lparr>mapblock2 := - 1\<rparr>, s1)
          else case ext2_rdfsb rd ssz fsmap (DATABLOCK2 (FSYS_BUF fs1)) (fs1\<lparr>mapblock2 := - 1\<rparr>) s1 of
            None \<Rightarrow> None
          | Some (ok, fs2, s2) \<Rightarrow>
              if \<not> ok then Some (Dir_Return False True, fs2, s2\<lparr>errnum := ERR_FSYS_CORRUPT\<rparr>)
              else let m = FSYS_BUF fs2;
                       dp = DATABLOCK2 m + nat (loc AND (EXT2_BLOCK_SIZE m - 1));
                       loc1 = s32 (loc + ld16 m (dp + 4));
                       entry = mem_slice m (dp + 8) (nat (ld8 m (dp + 6)));
                       s3 = dir_completion dirname ch entry s2
                   in if ld32 m dp = 0 then ext2_scan rd ssz dirname ch loc1 fs2 s2
                      else if substring dirname entry \<noteq> 0 \<or> (print_possibilities s3 \<noteq> 0 \<and> ch \<noteq> 47)
                      then ext2_scan rd ssz dirname ch loc1 fs2 s3
                      else Some (Dir_Entry (s32 (ld32 m dp)), fs2, s3))"

section \<open>The layout of the buffer\<close>

text \<open>A superblock with blocks of \<open>2 ^ k\<close> bytes, not smaller than a sector, for which the buffer is large
  enough; \<open>N\<close> sectors of \<open>2 ^ b\<close> bytes can be read.\<close>

definition ext_layout :: "nat \<Rightarrow> nat \<Rightarrow> mem \<Rightarrow> bool" where
  "ext_layout b k m \<longleftrightarrow> b \<le> k \<and> 10 \<le> k \<and> k \<le> 13 \<and> s_log_block_size m = int k - 10"

definition blk_good :: "nat \<Rightarrow> int \<Rightarrow> nat \<Rightarrow> int \<Rightarrow> bool" where
  "blk_good b N k m \<longleftrightarrow> 0 \<le> m \<and> (m + 1) * 2 ^ k \<le> N * 2 ^ b"

lemma layout_sizes:
  assumes "ext_layout b k m"
  shows "EXT2_BLOCK_SIZE_BITS m = k" "EXT2_BLOCK_SIZE m = 2 ^ k" "EXT2_ADDR_PER_BLOCK m = 2 ^ (k - 2)"
    "INODE m = 1024 + 2 ^ k" "DATABLOCK1 m = 1180 + 2 ^ k" "DATABLOCK2 m = 1180 + 2 * 2 ^ k"
    "DATABLOCK2 m + 2 ^ k \<le> 32768"
proof -
  have k: "k \<in> {10, 11, 12, 13}" using assms by (auto simp: ext_layout_def)
  have l: "s_log_block_size m = int k - 10" using assms by (simp add: ext_layout_def)
  show "EXT2_BLOCK_SIZE_BITS m = k" using k by (auto simp: EXT2_BLOCK_SIZE_BITS_def l u32_def)
  then show bs: "EXT2_BLOCK_SIZE m = 2 ^ k" using k by (auto simp: EXT2_BLOCK_SIZE_def shl1_def s32_def)
  show "EXT2_ADDR_PER_BLOCK m = 2 ^ (k - 2)" using k by (auto simp: EXT2_ADDR_PER_BLOCK_def bs u32_def)
  have n: "nat ((2 :: int) ^ k) = 2 ^ k" by (simp add: nat_power_eq)
  show "INODE m = 1024 + 2 ^ k" "DATABLOCK1 m = 1180 + 2 ^ k" "DATABLOCK2 m = 1180 + 2 * 2 ^ k"
    by (simp_all add: INODE_def GROUP_DESC_def DATABLOCK1_def DATABLOCK2_def bs n)
  then show "DATABLOCK2 m + 2 ^ k \<le> 32768" using k by auto
qed

text \<open>Reading a block into the buffer.\<close>

definition put_block :: "mem \<Rightarrow> nat \<Rightarrow> int \<Rightarrow> nat \<Rightarrow> ext_fs \<Rightarrow> ext_fs" where
  "put_block P k m buffer fs = fs\<lparr>FSYS_BUF := copy_mem (FSYS_BUF fs) buffer P (nat m * 2 ^ k) (2 ^ k)\<rparr>"

definition holds :: "mem \<Rightarrow> nat \<Rightarrow> int \<Rightarrow> nat \<Rightarrow> ext_fs \<Rightarrow> bool" where
  "holds P k m buffer fs \<longleftrightarrow> (\<forall>j < 2 ^ k. FSYS_BUF fs (buffer + j) = P (nat m * 2 ^ k + j))"

lemma put_block_simps [simp]:
  "mapblock1 (put_block P k m buffer fs) = mapblock1 fs" "mapblock2 (put_block P k m buffer fs) = mapblock2 fs"
  by (simp_all add: put_block_def)

lemma put_block_holds: "holds P k m buffer (put_block P k m buffer fs)"
  by (simp add: holds_def put_block_def copy_mem_def)

lemma put_block_other:
  assumes "buffer + 2 ^ k \<le> buffer' \<or> buffer' + 2 ^ k \<le> buffer"
  shows "holds P k m' buffer' (put_block P k m buffer fs) = holds P k m' buffer' fs"
proof -
  have "FSYS_BUF (put_block P k m buffer fs) (buffer' + j) = FSYS_BUF fs (buffer' + j)" if "j < 2 ^ k" for j
    unfolding put_block_def using that assms by (simp, intro copy_mem_out) linarith
  then show ?thesis by (simp add: holds_def)
qed

lemma blk_good_lt:
  assumes "blk_good b N k m" "b \<le> k" "N < 2 ^ 31"
  shows "m * 2 ^ (k - b) < 2 ^ 31" "m < 2 ^ 31" "m * 2 ^ (k - b) * 2 ^ b = m * 2 ^ k"
proof -
  have e: "(2 :: int) ^ k = 2 ^ (k - b) * 2 ^ b" using assms(2) by (simp flip: power_add)
  show "m * 2 ^ (k - b) * 2 ^ b = m * 2 ^ k" by (simp add: e)
  have "(m + 1) * 2 ^ (k - b) * 2 ^ b \<le> N * 2 ^ b" using assms(1) by (simp add: blk_good_def e)
  then have "(m + 1) * 2 ^ (k - b) \<le> N" by simp
  moreover have "m * 2 ^ (k - b) < (m + 1) * 2 ^ (k - b)" by simp
  ultimately show lt: "m * 2 ^ (k - b) < 2 ^ 31" using assms(3) by linarith
  have "m * 1 \<le> m * 2 ^ (k - b)" using assms(1) by (intro mult_left_mono) (auto simp: blk_good_def)
  then show "m < 2 ^ 31" using lt by simp
qed

context block_reader
begin

lemma rdfsb_ok:
  assumes "serves P b N s" "errnum s = ERR_NONE" "ext_layout b k (FSYS_BUF fs)" "blk_good b N k m" "buffer + 2 ^ k \<le> 32768"
  shows "\<exists>s'. ext2_rdfsb rd sector_bytes m buffer fs s = Some (True, put_block P k m buffer fs, s') \<and> serves P b N s' \<and> reads_only s s'"
proof -
  note sz = layout_sizes [OF assms(3)]
  have b: "b \<le> k" "sector_bytes s = Some (2 ^ b)" "N < 2 ^ 31" "k \<le> 13"
    using assms(3) size_ok [OF assms(1)] by (auto simp: ext_layout_def)
  note m = blk_good_lt [OF assms(4) b(1,3)]
  have m0: "0 \<le> m" using assms(4) by (simp add: blk_good_def)
  have d: "(2 :: int) ^ k div 2 ^ b = 2 ^ (k - b)" using b(1) by (simp add: power_diff)
  have pos: "0 \<le> m * 2 ^ (k - b)" using m0 by simp
  have s1: "s32 m = m" by (rule s32_id) (use m0 m(2) in auto)
  have s2: "s32 (m * 2 ^ (k - b)) = m * 2 ^ (k - b)" by (rule s32_id) (use pos m(1) in auto)
  have "(2 :: int) ^ k \<le> 2 ^ 13" using b(4) by (intro power_increasing) auto
  then have k30: "(2 :: int) ^ k < 2 ^ 30" by simp
  have nm: "nat (m * 2 ^ k) = nat m * 2 ^ k" using m0 by (simp add: nat_mult_distrib nat_power_eq)
  obtain s' where r: "rd (m * 2 ^ (k - b)) 0 (2 ^ k) (\<lambda>j. FSYS_BUF fs (buffer + j)) s =
        Some (True, copy_mem (\<lambda>j. FSYS_BUF fs (buffer + j)) 0 P (nat m * 2 ^ k) (2 ^ k), s')"
      "serves P b N s'" "reads_only s s'"
    using read_ok [OF assms(1,2), of "m * 2 ^ (k - b)" 0 "2 ^ k" "\<lambda>j. FSYS_BUF fs (buffer + j)"] pos k30 assms(4)
    by (auto simp: m(3) blk_good_def nm nat_power_eq distrib_right)
  have fb: "(\<lambda>j. if buffer \<le> j then copy_mem (\<lambda>j. FSYS_BUF fs (buffer + j)) 0 P (nat m * 2 ^ k) (2 ^ k) (j - buffer) else FSYS_BUF fs j) =
      copy_mem (FSYS_BUF fs) buffer P (nat m * 2 ^ k) (2 ^ k)"
    by (rule ext) (auto simp: copy_mem_def)
  have "int buffer + 2 ^ k \<le> 32768" using assms(5) by (metis of_nat_add of_nat_le_iff of_nat_numeral of_nat_power)
  then show ?thesis
    using r by (simp add: ext2_rdfsb_def Let_def sz b(2) d s1 s2 FSYS_BUFLEN_def put_block_def not_le fb)
qed

end

section \<open>Indirect blocks\<close>

text \<open>Entry \<open>i\<close> of the block of numbers \<open>m\<close> on the partition; the block that byte range \<open>lb\<close> of a file is
  in, after the blocks of numbers on the way to it.\<close>

definition blk_entry :: "mem \<Rightarrow> nat \<Rightarrow> int \<Rightarrow> nat \<Rightarrow> int" where
  "blk_entry P k m i = ld32 P (nat m * 2 ^ k + 4 * i)"

definition ext2_path :: "mem \<Rightarrow> nat \<Rightarrow> mem \<Rightarrow> nat \<Rightarrow> int list \<times> int" where
  "ext2_path P k I lb =
     (let n = 2 ^ (k - 2); l1 = lb - 12; l2 = l1 - n; l3 = l2 - n * n
      in if lb < 12 then ([], i_block I lb)
         else if l1 < n then ([i_block I 12], blk_entry P k (i_block I 12) l1)
         else if l2 < n * n
         then let m = blk_entry P k (i_block I 13) (l2 div n) in ([i_block I 13, m], blk_entry P k m (l2 mod n))
         else let m = blk_entry P k (i_block I 14) (l3 div (n * n)); m' = blk_entry P k m (l3 div n mod n)
              in ([i_block I 14, m, m'], blk_entry P k m' (l3 mod n)))"

text \<open>What reading a file leaves: the superblock, the group descriptor and the inode.\<close>

definition same_inode :: "nat \<Rightarrow> ext_fs \<Rightarrow> ext_fs \<Rightarrow> bool" where
  "same_inode k fs fs' \<longleftrightarrow> (\<forall>j < 1180 + 2 ^ k. FSYS_BUF fs' j = FSYS_BUF fs j)"

lemma same_inode_refl [simp]: "same_inode k fs fs"
  by (simp add: same_inode_def)

lemma same_inode_trans: "same_inode k x y \<Longrightarrow> same_inode k y z \<Longrightarrow> same_inode k x z"
  by (simp add: same_inode_def)

lemma ld16_upto:
  assumes "\<And>j. j < n \<Longrightarrow> m j = m' j" "a + 2 \<le> n"
  shows "ld16 m a = ld16 m' a"
  using assms by (auto simp: ld16_def ld8_def)

lemma ld32_upto:
  assumes "\<And>j. j < n \<Longrightarrow> m j = m' j" "a + 4 \<le> n"
  shows "ld32 m a = ld32 m' a"
  using assms ld16_upto [of n m m' a] ld16_upto [of n m m' "a + 2"] by (auto simp: ld32_def)

lemma same_super:
  assumes "\<And>j. j < 1024 \<Longrightarrow> m' j = m j"
  shows "s_log_block_size m' = s_log_block_size m" "s_feature_incompat m' = s_feature_incompat m"
    "s_inodes_per_group m' = s_inodes_per_group m" "s_inode_size m' = s_inode_size m" "s_desc_size m' = s_desc_size m"
    "s_first_data_block m' = s_first_data_block m" "s_magic m' = s_magic m"
  unfolding super_defs using assms by (auto intro!: ld32_upto [of 1024] ld16_upto [of 1024])

lemma same_inode_simps:
  assumes "same_inode k fs fs'" "ext_layout b k (FSYS_BUF fs)"
  shows "ext_layout b k (FSYS_BUF fs')" "s_feature_incompat (FSYS_BUF fs') = s_feature_incompat (FSYS_BUF fs)"
    "j < 156 \<Longrightarrow> at_inode fs' j = at_inode fs j" "uses_extents fs' = uses_extents fs"
proof -
  have e: "FSYS_BUF fs' j = FSYS_BUF fs j" if "j < 1180 + 2 ^ k" for j using assms(1) that by (simp add: same_inode_def)
  note s = same_super [of "FSYS_BUF fs'" "FSYS_BUF fs", OF e]
  show l: "ext_layout b k (FSYS_BUF fs')" using assms(2) s(1) by (simp add: ext_layout_def)
  show f: "s_feature_incompat (FSYS_BUF fs') = s_feature_incompat (FSYS_BUF fs)" by (rule s(2)) simp
  have i: "at_inode fs' j = at_inode fs j" if "j < 156" for j
    using e [of "1024 + 2 ^ k + j"] that by (simp add: at_inode_def layout_sizes(4) [OF l] layout_sizes(4) [OF assms(2)])
  then show "j < 156 \<Longrightarrow> at_inode fs' j = at_inode fs j" .
  have "i_flags (at_inode fs') = i_flags (at_inode fs)" unfolding i_flags_def by (rule ld32_upto [of 156]) (auto intro: i)
  then show "uses_extents fs' = uses_extents fs" by (simp add: uses_extents_def f)
qed

lemma put_block_same: "1180 + 2 ^ k \<le> buffer \<Longrightarrow> same_inode k fs (put_block P k m buffer fs)"
  by (auto simp: same_inode_def put_block_def copy_mem_def)

lemma i_block_same:
  assumes "\<And>j. j < 100 \<Longrightarrow> I j = I' j" "j < 15"
  shows "i_block I j = i_block I' j"
  unfolding i_block_def by (rule ld32_upto [of 100]) (use assms in auto)

lemma ext2_path_same:
  assumes "\<And>j. j < 100 \<Longrightarrow> I j = I' j"
  shows "ext2_path P k I lb = ext2_path P k I' lb"
  by (simp add: ext2_path_def i_block_same [OF assms] Let_def)

text \<open>What the two variables say of the data blocks.\<close>

definition ext_cached :: "mem \<Rightarrow> nat \<Rightarrow> ext_fs \<Rightarrow> bool" where
  "ext_cached P k fs \<longleftrightarrow>
     (let db1 = 1180 + 2 ^ k; db2 = 1180 + 2 * 2 ^ k; I = at_inode fs
      in (mapblock1 fs = 1 \<longrightarrow> holds P k (i_block I 12) db1 fs) \<and> (mapblock1 fs = 2 \<longrightarrow> holds P k (i_block I 13) db1 fs) \<and>
         (mapblock1 fs = 3 \<longrightarrow> holds P k (i_block I 14) db1 fs) \<and> (mapblock2 fs \<noteq> - 1 \<longrightarrow> holds P k (mapblock2 fs) db2 fs))"

lemma holds_entry:
  assumes "holds P k m buffer fs" "4 * i + 4 \<le> (2 :: nat) ^ k"
  shows "ld32 (FSYS_BUF fs) (buffer + 4 * i) = blk_entry P k m i"
  unfolding blk_entry_def by (rule ld32_cong) (use assms in \<open>simp add: holds_def add.assoc\<close>)

lemma entry_fits: "2 \<le> k \<Longrightarrow> i < 2 ^ (k - 2) \<Longrightarrow> 4 * i + 4 \<le> (2 :: nat) ^ k"
proof -
  assume a: "2 \<le> k" "i < 2 ^ (k - 2)"
  have "(2 :: nat) ^ k = 4 * 2 ^ (k - 2)" using a(1) by (metis power2_eq_square le_add_diff_inverse power_add numeral_Bit0 mult_2 numeral_One one_add_one)
  then show ?thesis using a(2) by simp
qed

lemma put_block_inode:
  assumes "ext_layout b k (FSYS_BUF fs)" "1180 + 2 ^ k \<le> buffer" "j < 15"
  shows "i_block (at_inode (put_block P k m buffer fs)) j = i_block (at_inode fs) j"
  by (rule i_block_same) (use same_inode_simps(3) [OF put_block_same [OF assms(2)] assms(1)] assms(3) in auto)

context block_reader
begin

lemma load_block1_ok:
  assumes "serves P b N s" "errnum s = ERR_NONE" "ext_layout b k (FSYS_BUF fs)" "ext_cached P k fs"
    "(level, j) \<in> {(1, 12), (2, 13), (3, 14)}" "blk_good b N k (i_block (at_inode fs) j)"
  shows "\<exists>fs' s'. (\<forall>f. load_block1 rd sector_bytes level j fs s f = f fs' s') \<and> serves P b N s' \<and> reads_only s s' \<and>
    same_inode k fs fs' \<and> ext_cached P k fs' \<and> mapblock1 fs' = level \<and> mapblock2 fs' = mapblock2 fs \<and>
    holds P k (i_block (at_inode fs) j) (1180 + 2 ^ k) fs'"
proof (cases "mapblock1 fs = level")
  case True
  have e: "fs\<lparr>mapblock1 := level\<rparr> = fs" using True by simp
  have l: "\<forall>f. load_block1 rd sector_bytes level j fs s f = f fs s" by (simp add: load_block1_def or_corrupt_def True e)
  have "holds P k (i_block (at_inode fs) j) (1180 + 2 ^ k) fs" using True assms(4,5) by (auto simp: ext_cached_def Let_def)
  then show ?thesis using l True assms(1,4) by (intro exI [of _ fs] exI [of _ s]) simp
next
  case False
  let ?m = "i_block (at_inode fs) j" and ?db1 = "1180 + 2 ^ k" and ?db2 = "1180 + 2 * 2 ^ k"
  note sz = layout_sizes [OF assms(3)]
  obtain s' where r: "ext2_rdfsb rd sector_bytes ?m ?db1 fs s = Some (True, put_block P k ?m ?db1 fs, s')"
      "serves P b N s'" "reads_only s s'"
    using rdfsb_ok [OF assms(1-3,6), of ?db1] sz(6,7) by auto
  define fs1 where "fs1 = (put_block P k ?m ?db1 fs)\<lparr>mapblock1 := level\<rparr>"
  let ?fs = fs1
  have fs1: "FSYS_BUF fs1 = FSYS_BUF (put_block P k ?m ?db1 fs)" "mapblock1 fs1 = level" "mapblock2 fs1 = mapblock2 fs"
    by (simp_all add: fs1_def)
  have same: "same_inode k fs ?fs" using put_block_same [of k ?db1 fs P ?m] by (simp add: same_inode_def fs1)
  have h1: "holds P k ?m ?db1 ?fs" using put_block_holds by (simp add: holds_def fs1)
  have ib: "i_block (at_inode ?fs) j' = i_block (at_inode fs) j'" if "j' < 15" for j'
    by (rule i_block_same) (use same_inode_simps(3) [OF same assms(3)] that in auto)
  have h2: "holds P k m' ?db2 ?fs = holds P k m' ?db2 fs" for m'
    using put_block_other [of ?db1 k ?db2 P m' ?m fs] by (simp add: holds_def fs1)
  have c: "ext_cached P k ?fs"
    using assms(4) h1 assms(5) unfolding ext_cached_def Let_def fs1(2,3) h2
    by (elim insertE emptyE) (simp_all add: ib)
  have l: "\<forall>f. load_block1 rd sector_bytes level j fs s f = f ?fs s'" by (simp add: load_block1_def or_corrupt_def sz(5) r(1) False fs1_def)
  show ?thesis by (intro exI [of _ ?fs] exI [of _ s'] conjI l r(2,3) same c h1 fs1(2,3))
qed

lemma into2_ok:
  assumes "serves P b N s" "errnum s = ERR_NONE" "ext_layout b k (FSYS_BUF fs)" "ext_cached P k fs" "blk_good b N k m"
  shows "\<exists>fs' s'. ext2_rdfsb rd sector_bytes m (DATABLOCK2 (FSYS_BUF fs)) fs s = Some (True, fs', s') \<and>
    serves P b N s' \<and> reads_only s s' \<and> same_inode k fs fs' \<and> (x = m \<or> x = - 1 \<longrightarrow> ext_cached P k (fs'\<lparr>mapblock2 := x\<rparr>)) \<and>
    mapblock1 fs' = mapblock1 fs \<and> mapblock2 fs' = mapblock2 fs \<and> holds P k m (1180 + 2 * 2 ^ k) fs'"
proof -
  let ?db1 = "1180 + 2 ^ k" and ?db2 = "1180 + 2 * 2 ^ k"
  let ?fs = "put_block P k m ?db2 fs"
  note sz = layout_sizes [OF assms(3)]
  have ib: "i_block (at_inode (?fs\<lparr>mapblock2 := x\<rparr>)) j = i_block (at_inode fs) j" if "j < 15" for j
    using put_block_inode [OF assms(3) _ that, of ?db2 P m] by (simp add: at_inode_def)
  have h1: "holds P k m' ?db1 (?fs\<lparr>mapblock2 := x\<rparr>) = holds P k m' ?db1 fs" for m'
    using put_block_other [of ?db2 k ?db1 P m' m fs] by (simp add: holds_def)
  have h2: "holds P k m ?db2 (?fs\<lparr>mapblock2 := x\<rparr>)" using put_block_holds [of P k m ?db2 fs] by (simp add: holds_def)
  have "ext_cached P k (?fs\<lparr>mapblock2 := x\<rparr>)" if "x = m \<or> x = - 1"
    using assms(4) that h2 by (auto simp: ext_cached_def Let_def ib h1)
  then show ?thesis
    using rdfsb_ok [OF assms(1-3,5), of ?db2] put_block_same [of k ?db2 fs P m] put_block_holds sz(6,7) by auto
qed

end

text \<open>The numbers of the mapping functions.\<close>

lemma map_numbers:
  assumes "10 \<le> k" "k \<le> (13 :: nat)"
  shows "bsf (int (2 ^ (k - 2))) = Some (k - 2)" "shl1 ((k - 2) * 2) = int (2 ^ (k - 2) * 2 ^ (k - 2))"
    "sar (int x) (k - 2) = int (x div 2 ^ (k - 2))" "sar (int x) ((k - 2) * 2) = int (x div (2 ^ (k - 2) * 2 ^ (k - 2)))"
    "int x AND (int (2 ^ (k - 2)) - 1) = int (x mod 2 ^ (k - 2))" "sar (int x) k = int (x div 2 ^ k)"
proof -
  have k: "k \<in> {10, 11, 12, 13}" using assms by auto
  show "bsf (int (2 ^ (k - 2))) = Some (k - 2)" using assms by simp
  show "shl1 ((k - 2) * 2) = int (2 ^ (k - 2) * 2 ^ (k - 2))" using k by (auto simp: shl1_def s32_def)
  have m: "(k - 2) mod 32 = k - 2" "(k - 2) * 2 mod 32 = (k - 2) * 2" "k mod 32 = k" using assms by simp_all
  show "sar (int x) (k - 2) = int (x div 2 ^ (k - 2))" by (simp add: sar_def m zdiv_int)
  have "(2 :: int) ^ ((k - 2) * 2) = 2 ^ (k - 2) * 2 ^ (k - 2)" by (simp add: mult_2_right power_add)
  then show "sar (int x) ((k - 2) * 2) = int (x div (2 ^ (k - 2) * 2 ^ (k - 2)))" unfolding sar_def m by (simp add: zdiv_int)
  show "int x AND (int (2 ^ (k - 2)) - 1) = int (x mod 2 ^ (k - 2))" by (simp add: and_sector_mask zmod_int)
  show "sar (int x) k = int (x div 2 ^ k)" by (simp add: sar_def m zdiv_int)
qed

lemma s32_num: "0 \<le> m \<Longrightarrow> m < 2 ^ 31 \<Longrightarrow> s32 m = m"
  by (rule s32_id) auto

lemma map_bounds:
  assumes "10 \<le> k" "k \<le> (13 :: nat)" "lb < 2 ^ (31 - k)" "n = (2 :: nat) ^ (k - 2)"
  shows "lb < n * n * n" "lb < 2 ^ 31" "4 \<le> n"
proof -
  have k: "k \<in> {10, 11, 12, 13}" using assms by auto
  show "lb < n * n * n" "lb < 2 ^ 31" "4 \<le> n" using k assms(3,4) by auto
qed

context block_reader
begin

lemma block_map_ok:
  assumes "serves P b N s" "errnum s = ERR_NONE" "ext_layout b k (FSYS_BUF fs)" "ext_cached P k fs"
    "ext2_path P k (at_inode fs) lb = (ps, r)" "\<forall>m \<in> set ps. blk_good b N k m" "0 \<le> r" "r < 2 ^ 31" "lb < 2 ^ (31 - k)"
  shows "\<exists>fs' s'. ext2fs_block_map rd sector_bytes (int lb) fs s = Some (r, fs', s') \<and> serves P b N s' \<and> reads_only s s' \<and>
    same_inode k fs fs' \<and> ext_cached P k fs'"
proof -
  have k: "10 \<le> k" "k \<le> 13" "b \<le> k" using assms(3) by (auto simp: ext_layout_def)
  note sz = layout_sizes [OF assms(3)]
  define n where "n = (2 :: nat) ^ (k - 2)"
  note num = map_numbers [OF k(1,2), folded n_def]
  note bd = map_bounds [OF k(1,2) assms(9) n_def]
  have N: "N < 2 ^ 31" using size_ok [OF assms(1)] by simp
  have apb: "EXT2_ADDR_PER_BLOCK (FSYS_BUF fs) = int n" by (simp add: sz(3) n_def)
  have fits: "4 * i + 4 \<le> (2 :: nat) ^ k" if "i < n" for i using entry_fits [of k i] k that by (simp add: n_def)
  let ?I = "at_inode fs" and ?n = "int n"
  have d1: "data1 fs' (int i) = blk_entry P k m i" if "ext_layout b k (FSYS_BUF fs')" "holds P k m (1180 + 2 ^ k) fs'" "i < n" for fs' i m
    using holds_entry [OF that(2) fits [OF that(3)]] by (simp add: data1_def layout_sizes(5) [OF that(1)])
  have d2: "data2 fs' (int i) = blk_entry P k m i" if "ext_layout b k (FSYS_BUF fs')" "holds P k m (1180 + 2 * 2 ^ k) fs'" "i < n" for fs' i m
    using holds_entry [OF that(2) fits [OF that(3)]] by (simp add: data2_def layout_sizes(6) [OF that(1)])
  consider (direct) "lb < 12" | (one) "12 \<le> lb" "lb - 12 < n" | (two) "12 \<le> lb" "n \<le> lb - 12" "lb - 12 - n < n * n"
    | (three) "12 \<le> lb" "n \<le> lb - 12" "n * n \<le> lb - 12 - n" by linarith
  then show ?thesis
  proof cases
    case direct
    then have "r = i_block ?I lb" using assms(5) by (simp add: ext2_path_def Let_def)
    then show ?thesis
      using direct assms by (intro exI [of _ fs] exI [of _ s]) (simp add: ext2fs_block_map_def Let_def s32_num)
  next
    case one
    define l1 where "l1 = lb - 12"
    have l1: "int lb - 12 = int l1" "l1 < n" using one by (simp_all add: l1_def of_nat_diff)
    have p: "ps = [i_block ?I 12]" "r = blk_entry P k (i_block ?I 12) l1"
      using assms(5) one by (simp_all add: ext2_path_def Let_def n_def [symmetric] l1_def)
    obtain fs' s' where f: "\<And>f. load_block1 rd sector_bytes 1 12 fs s f = f fs' s'" "serves P b N s'" "reads_only s s'"
        "same_inode k fs fs'" "ext_cached P k fs'" "holds P k (i_block ?I 12) (1180 + 2 ^ k) fs'"
      using load_block1_ok [OF assms(1-4), of 1 12] assms(6) p(1) by auto
    have "ext2fs_block_map rd sector_bytes (int lb) fs s = Some (s32 (data1 fs' (int l1)), fs', s')"
      using one l1 unfolding ext2fs_block_map_def Let_def apb l1(1) f(1) by simp
    then show ?thesis
      using f(2-5) d1 [OF same_inode_simps(1) [OF f(4) assms(3)] f(6) l1(2)] p(2) assms(7,8) by (auto simp: s32_num)
  next
    case two
    define l2 where "l2 = lb - 12 - n"
    have "int lb - 12 - int n = int l2" "l2 < n * n" "\<not> int lb - 12 < int n"
      using two by (simp_all add: l2_def of_nat_diff)
    moreover from this(2) have "int l2 < int (n * n)" by (simp only: of_nat_less_iff)
    ultimately have l2: "int lb - 12 - int n = int l2" "l2 < n * n" "\<not> int lb - 12 < int n" "int l2 < int (n * n)" .
    define m where "m = blk_entry P k (i_block ?I 13) (l2 div n)"
    have p: "ps = [i_block ?I 13, m]" "r = blk_entry P k m (l2 mod n)"
      using assms(5) two by (auto simp: ext2_path_def Let_def n_def [symmetric] l2_def m_def)
    have m: "blk_good b N k m" "blk_good b N k (i_block ?I 13)" using assms(6) p(1) by simp_all
    have i: "l2 div n < n" "l2 mod n < n" using l2(2) bd(3) by (simp_all add: less_mult_imp_div_less)
    obtain fs1 s1 where f: "\<And>f. load_block1 rd sector_bytes 2 13 fs s f = f fs1 s1" "serves P b N s1" "reads_only s s1"
        "same_inode k fs fs1" "ext_cached P k fs1" "mapblock1 fs1 = 2" "holds P k (i_block ?I 13) (1180 + 2 ^ k) fs1"
      using load_block1_ok [OF assms(1-4), of 2 13] m(2) by auto
    note lay1 = same_inode_simps(1) [OF f(4) assms(3)]
    have m31: "s32 m = m" using blk_good_lt(2) [OF m(1) k(3) N] m(1) by (intro s32_num) (auto simp: blk_good_def)
    have e1: "errnum s1 = ERR_NONE" using reads_only_simps(1) [OF f(3)] assms(2) by simp
    have step: "ext2fs_block_map rd sector_bytes (int lb) fs s =
        or_corrupt (if m \<noteq> mapblock2 fs1 then ext2_rdfsb rd sector_bytes m (DATABLOCK2 (FSYS_BUF fs1)) fs1 s1 else Some (True, fs1, s1))
          (\<lambda>fs s. Some (s32 (data2 fs (int (l2 mod n))), fs\<lparr>mapblock2 := m\<rparr>, s))"
      using two(1) l2(2-4) d1 [OF lay1 f(7) i(1)]
      unfolding ext2fs_block_map_def Let_def apb l2(1) num(1) f(1) option.case num(2)
      by (simp add: num m31 m_def [symmetric])
    show ?thesis
    proof (cases "m = mapblock2 fs1")
      case True
      have e: "fs1\<lparr>mapblock2 := m\<rparr> = fs1" using True by simp
      have "holds P k m (1180 + 2 * 2 ^ k) fs1"
        using f(5) True m(1) by (auto simp: ext_cached_def Let_def blk_good_def)
      then have "ext2fs_block_map rd sector_bytes (int lb) fs s = Some (r, fs1, s1)"
        unfolding step using d2 [OF lay1 _ i(2)] p(2) assms(7,8) by (simp add: or_corrupt_def True [symmetric] e s32_num)
      then show ?thesis using f by blast
    next
      case False
      obtain fs2 s2 where g: "ext2_rdfsb rd sector_bytes m (DATABLOCK2 (FSYS_BUF fs1)) fs1 s1 = Some (True, fs2, s2)"
          "serves P b N s2" "reads_only s1 s2" "same_inode k fs1 fs2" "ext_cached P k (fs2\<lparr>mapblock2 := m\<rparr>)" "holds P k m (1180 + 2 * 2 ^ k) fs2"
        using into2_ok [OF f(2) e1 lay1 f(5) m(1), of m] by blast
      have "ext2fs_block_map rd sector_bytes (int lb) fs s = Some (r, fs2\<lparr>mapblock2 := m\<rparr>, s2)"
        unfolding step using False g(1) d2 [OF same_inode_simps(1) [OF g(4) lay1] g(6) i(2)] p(2) assms(7,8) by (simp add: or_corrupt_def s32_num)
      moreover have "same_inode k fs (fs2\<lparr>mapblock2 := m\<rparr>)" using same_inode_trans [OF f(4) g(4)] by (simp add: same_inode_def)
      ultimately show ?thesis using g reads_only_trans [OF f(3) g(3)] by blast
    qed
  next
    case three
    define l3 where "l3 = lb - 12 - n - n * n"
    have "12 + n + n * n \<le> lb" using three by linarith
    then have "int (12 + n + n * n) \<le> int lb" by (simp only: of_nat_le_iff)
    then have le: "12 + int n + int (n * n) \<le> int lb" by simp
    have "int l3 = int lb - 12 - int n - int (n * n)" using three by (simp add: l3_def of_nat_diff)
    moreover have "\<not> int lb - 12 - int n < int (n * n)" "\<not> int lb - 12 < int n" using le by linarith+
    moreover have "l3 < n * n * n" using bd(1) unfolding l3_def by linarith
    ultimately have l3: "int lb - 12 - int n - int (n * n) = int l3" "l3 < n * n * n" "\<not> int lb - 12 - int n < int (n * n)" "\<not> int lb - 12 < int n"
      by simp_all
    define m where "m = blk_entry P k (i_block ?I 14) (l3 div (n * n))"
    define m' where "m' = blk_entry P k m (l3 div n mod n)"
    have p: "ps = [i_block ?I 14, m, m']" "r = blk_entry P k m' (l3 mod n)"
      using assms(5) three by (auto simp: ext2_path_def Let_def n_def [symmetric] l3_def m_def m'_def)
    have m: "blk_good b N k m" "blk_good b N k m'" "blk_good b N k (i_block ?I 14)" using assms(6) p(1) by simp_all
    have i: "l3 div (n * n) < n" "l3 div n mod n < n" "l3 mod n < n" using l3(2) bd(3) by (simp_all add: less_mult_imp_div_less mult.assoc)
    let ?fs = "fs\<lparr>mapblock2 := - 1\<rparr>"
    have lay0: "ext_layout b k (FSYS_BUF ?fs)" using assms(3) by simp
    have c0: "ext_cached P k ?fs" using assms(4) by (auto simp: ext_cached_def Let_def at_inode_def holds_def)
    have I0: "at_inode ?fs = ?I" by (simp add: at_inode_def)
    obtain fs1 s1 where f: "\<And>f. load_block1 rd sector_bytes 3 14 ?fs s f = f fs1 s1" "serves P b N s1" "reads_only s s1"
        "same_inode k ?fs fs1" "ext_cached P k fs1" "mapblock2 fs1 = - 1" "holds P k (i_block ?I 14) (1180 + 2 ^ k) fs1"
      using load_block1_ok [OF assms(1,2) lay0 c0, of 3 14] m(3) unfolding I0 by auto
    note lay1 = same_inode_simps(1) [OF f(4) lay0]
    have e1: "errnum s1 = ERR_NONE" using reads_only_simps(1) [OF f(3)] assms(2) by simp
    obtain fs2 s2 where g: "ext2_rdfsb rd sector_bytes m (DATABLOCK2 (FSYS_BUF fs1)) fs1 s1 = Some (True, fs2, s2)"
        "serves P b N s2" "reads_only s1 s2" "same_inode k fs1 fs2" "ext_cached P k (fs2\<lparr>mapblock2 := - 1\<rparr>)" "mapblock2 fs2 = mapblock2 fs1"
        "holds P k m (1180 + 2 * 2 ^ k) fs2"
      using into2_ok [OF f(2) e1 lay1 f(5) m(1), of "- 1"] by blast
    have fs2: "fs2\<lparr>mapblock2 := - 1\<rparr> = fs2" using g(6) f(6) by simp
    note lay2 = same_inode_simps(1) [OF g(4) lay1]
    have e2: "errnum s2 = ERR_NONE" using reads_only_simps(1) [OF g(3)] e1 by simp
    obtain fs3 s3 where h: "ext2_rdfsb rd sector_bytes m' (DATABLOCK2 (FSYS_BUF fs2)) fs2 s2 = Some (True, fs3, s3)"
        "serves P b N s3" "reads_only s2 s3" "same_inode k fs2 fs3" "ext_cached P k (fs3\<lparr>mapblock2 := - 1\<rparr>)" "mapblock2 fs3 = mapblock2 fs2"
        "holds P k m' (1180 + 2 * 2 ^ k) fs3"
      using into2_ok [OF g(2) e2 lay2 _ m(2), of "- 1"] g(5) unfolding fs2 by blast
    have fs3: "fs3\<lparr>mapblock2 := - 1\<rparr> = fs3" using h(6) g(6) f(6) by simp
    have "ext2fs_block_map rd sector_bytes (int lb) fs s =
        or_corrupt (ext2_rdfsb rd sector_bytes (data1 fs1 (sar (int l3) ((k - 2) * 2))) (DATABLOCK2 (FSYS_BUF fs1)) fs1 s1) (\<lambda>fs s.
          or_corrupt (ext2_rdfsb rd sector_bytes (data2 fs (sar (int l3) (k - 2) AND (int n - 1))) (DATABLOCK2 (FSYS_BUF fs)) fs s)
            (\<lambda>fs s. Some (s32 (data2 fs (int l3 AND (int n - 1))), fs, s)))"
      using three(1) l3(2-4) unfolding ext2fs_block_map_def Let_def apb num(1) f(1) option.case num(2) l3(1) by (simp add: num)
    also have "\<dots> = Some (r, fs3, s3)"
      using g(1) h(1) d1 [OF lay1 f(7) i(1)] d2 [OF lay2 g(7) i(2)] d2 [OF same_inode_simps(1) [OF h(4) lay2] h(7) i(3)] p(2) assms(7,8)
      by (simp add: num or_corrupt_def m_def [symmetric] m'_def [symmetric] s32_num)
    finally have "ext2fs_block_map rd sector_bytes (int lb) fs s = Some (r, fs3, s3)" .
    moreover have "same_inode k fs fs3" using same_inode_trans [OF same_inode_trans [OF f(4) g(4)] h(4)] by (simp add: same_inode_def)
    ultimately show ?thesis using h(2,5) fs3 reads_only_trans [OF reads_only_trans [OF f(3) g(3)] h(3)] by auto
  qed
qed

end

section \<open>Extents\<close>

text \<open>The binary search keeps the entry before \<open>l\<close> at or below the block, and the entry behind \<open>r\<close> above it.\<close>

lemma ext_search_place:
  assumes "1 \<le> l" "l \<le> r + 1" "l = 1 \<or> key (nat (l - 1)) \<le> lb" "r = e \<or> lb < key (nat (r + 1))" "r \<le> e"
  shows "int (ext_search key lb l r) \<le> e \<and> (ext_search key lb l r = 0 \<or> key (ext_search key lb l r) \<le> lb) \<and>
    (int (ext_search key lb l r) = e \<or> lb < key (Suc (ext_search key lb l r)))"
  using assms
proof (induction key lb l r rule: ext_search.induct)
  case (1 key lb l r)
  show ?case
  proof (cases "l \<le> r")
    case True
    define m where "m = l + (r - l) div 2"
    have m: "l \<le> m" "m \<le> r" using True by (simp_all add: m_def)
    show ?thesis
    proof (cases "lb < key (nat m)")
      case True
      then show ?thesis
        using 1(1) [OF \<open>l \<le> r\<close> m_def] 1(3-) m \<open>l \<le> r\<close> by (subst (1 2 3 4 5) ext_search.simps) (simp add: Let_def m_def [symmetric])
    next
      case False
      then show ?thesis
        using 1(2) [OF \<open>l \<le> r\<close> m_def] 1(3-) m \<open>l \<le> r\<close> by (subst (1 2 3 4 5) ext_search.simps) (simp add: Let_def m_def [symmetric])
    qed
  next
    case False
    then have "r = l - 1" using 1(4) by simp
    then show ?thesis using 1(3-) by (subst (1 2 3 4 5) ext_search.simps) (auto simp: Suc_nat_eq_nat_zadd1)
  qed
qed

text \<open>The reference: the entries are looked through one after the other, as long as they begin at or below
  the block.\<close>

definition linear_search :: "(nat \<Rightarrow> int) \<Rightarrow> nat \<Rightarrow> int \<Rightarrow> nat" where
  "linear_search key n lb = length (takeWhile (\<lambda>i. key i \<le> lb) [1..<n])"

definition ascending :: "(nat \<Rightarrow> int) \<Rightarrow> nat \<Rightarrow> bool" where
  "ascending key n \<longleftrightarrow> (\<forall>i. Suc i < n \<longrightarrow> key i < key (Suc i))"

lemma ascendingD: "ascending key n \<Longrightarrow> i < j \<Longrightarrow> j < n \<Longrightarrow> key i < key j"
proof (induction j)
  case (Suc j)
  then show ?case by (cases "i = j") (auto simp: ascending_def less_Suc_eq)
qed simp

lemma linear_search_unique:
  assumes "ascending key n" "i < n" "i = 0 \<or> key i \<le> lb" "Suc i = n \<or> lb < key (Suc i)"
  shows "linear_search key n lb = i"
proof -
  have le: "key j \<le> lb" if "1 \<le> j" "j \<le> i" for j
    using assms(2,3) that ascendingD [OF assms(1), of j i] by (cases "j = i") auto
  have "[1..<n] = [1..<Suc i] @ [Suc i..<n]" using assms(2) by (metis le_add1 plus_1_eq_Suc less_eq_Suc_le upt_add_eq_append le_Suc_ex)
  moreover have "takeWhile (\<lambda>i. key i \<le> lb) ([1..<Suc i] @ [Suc i..<n]) = [1..<Suc i] @ takeWhile (\<lambda>i. key i \<le> lb) [Suc i..<n]"
    by (rule takeWhile_append2) (use le in auto)
  moreover have "takeWhile (\<lambda>i. key i \<le> lb) [Suc i..<n] = []"
    using assms(4) by (cases "Suc i < n") (auto simp: upt_conv_Cons)
  ultimately show ?thesis by (simp add: linear_search_def)
qed

lemma ext_search_linear:
  assumes "ascending key n" "0 < n"
  shows "ext_search key lb 1 (int n - 1) = linear_search key n lb"
proof -
  define i where "i = ext_search key lb 1 (int n - 1)"
  have i: "int i \<le> int n - 1 \<and> (i = 0 \<or> key i \<le> lb) \<and> (int i = int n - 1 \<or> lb < key (Suc i))"
    unfolding i_def by (rule ext_search_place) (use assms(2) in auto)
  then have "linear_search key n lb = i"
    by (intro linear_search_unique [OF assms(1)]) (auto simp: of_nat_diff)
  then show ?thesis by (simp add: i_def)
qed

text \<open>The tree of extents: block \<open>lb\<close> of the file is block \<open>r\<close> of the file system. The node is \<open>m\<close>, with
  room for \<open>cap\<close> bytes.\<close>

definition ext_node_ok :: "nat \<Rightarrow> mem \<Rightarrow> bool" where
  "ext_node_ok cap m \<longleftrightarrow> 0 < eh_entries m \<and> 12 + 12 * eh_entries m \<le> int cap \<and> ascending (ee_block m) (nat (eh_entries m))"

inductive ext4_maps :: "mem \<Rightarrow> nat \<Rightarrow> int \<Rightarrow> nat \<Rightarrow> nat \<Rightarrow> mem \<Rightarrow> nat \<Rightarrow> int \<Rightarrow> bool" for P b N k where
  leaf: "ext_node_ok cap m \<Longrightarrow> eh_depth m = 0 \<Longrightarrow> i = linear_search (ee_block m) (nat (eh_entries m)) (int lb) \<Longrightarrow>
     ee_block m i \<le> int lb \<Longrightarrow> int lb < ee_block m i + ee_len m i \<Longrightarrow> ee_start_hi m i = 0 \<Longrightarrow>
     r = ee_start_lo m i + (int lb - ee_block m i) \<Longrightarrow> ext4_maps P b N k cap m lb r"
| node: "ext_node_ok cap m \<Longrightarrow> eh_depth m \<noteq> 0 \<Longrightarrow> eh_magic m = 0xf30a \<Longrightarrow>
     i = linear_search (ei_block m) (nat (eh_entries m)) (int lb) \<Longrightarrow> ei_leaf_hi m i = 0 \<Longrightarrow> blk_good b N k (ei_leaf_lo m i) \<Longrightarrow>
     ext4_maps P b N k (2 ^ k) (\<lambda>j. P (nat (ei_leaf_lo m i) * 2 ^ k + j)) lb r \<Longrightarrow> ext4_maps P b N k cap m lb r"

text \<open>A node is what its bytes are.\<close>

lemma eh_same:
  assumes "\<And>j. j < cap \<Longrightarrow> m j = m' j" "12 \<le> cap"
  shows "eh_magic m' = eh_magic m" "eh_entries m' = eh_entries m" "eh_depth m' = eh_depth m"
  unfolding extent_defs by (rule ld16_upto [of cap]; use assms in auto)+

lemma ee_same:
  assumes "\<And>j. j < cap \<Longrightarrow> m j = m' j" "24 + 12 * i \<le> cap"
  shows "ee_block m' i = ee_block m i" "ee_len m' i = ee_len m i" "ee_start_hi m' i = ee_start_hi m i"
    "ee_start_lo m' i = ee_start_lo m i" "ei_block m' i = ei_block m i" "ei_leaf_lo m' i = ei_leaf_lo m i" "ei_leaf_hi m' i = ei_leaf_hi m i"
  unfolding extent_defs
  by ((rule ld32_upto [of cap] | rule ld16_upto [of cap]); use assms in auto)+

lemma linear_search_lt: "0 < n \<Longrightarrow> linear_search key n lb < n"
  using length_takeWhile_le [of "\<lambda>i. key i \<le> lb" "[1..<n]"] by (simp add: linear_search_def)

lemma linear_search_cong:
  assumes "\<And>i. i < n \<Longrightarrow> key i = key' i"
  shows "linear_search key n lb = linear_search key' n lb"
proof -
  have "takeWhile (\<lambda>i. key i \<le> lb) [1..<n] = takeWhile (\<lambda>i. key' i \<le> lb) [1..<n]"
    by (rule takeWhile_cong) (use assms in auto)
  then show ?thesis by (simp add: linear_search_def)
qed

lemma ext_node_same:
  assumes "ext_node_ok cap m" "\<And>j. j < cap \<Longrightarrow> m j = m' j"
  shows "ext_node_ok cap m'" "eh_entries m' = eh_entries m" "eh_magic m' = eh_magic m" "eh_depth m' = eh_depth m"
    "linear_search (ee_block m') (nat (eh_entries m)) lb = linear_search (ee_block m) (nat (eh_entries m)) lb"
proof -
  have c: "12 + 12 * nat (eh_entries m) \<le> cap" "0 < eh_entries m" using assms(1) by (auto simp: ext_node_ok_def)
  show e: "eh_entries m' = eh_entries m" "eh_magic m' = eh_magic m" "eh_depth m' = eh_depth m"
    using eh_same [OF assms(2)] c(1) by auto
  have key: "ee_block m' i = ee_block m i" if "i < nat (eh_entries m)" for i
    by (rule ee_same(1) [OF assms(2)]) (use that c in auto)
  show "ext_node_ok cap m'" using assms(1) key unfolding ext_node_ok_def ascending_def e(1) by (auto simp: less_Suc_eq)
  show "linear_search (ee_block m') (nat (eh_entries m)) lb = linear_search (ee_block m) (nat (eh_entries m)) lb"
    by (rule linear_search_cong) (use key in auto)
qed

lemma ei_ee_block: "ei_block = ee_block"
  by (intro ext) (simp add: ei_block_def ee_block_def)

lemma ext4_maps_same:
  assumes "ext4_maps P b N k cap m lb r" "\<And>j. j < cap \<Longrightarrow> m j = m' j"
  shows "ext4_maps P b N k cap m' lb r"
proof -
  have e: "24 + 12 * linear_search (ee_block m) (nat (eh_entries m)) (int lb) \<le> cap" if "ext_node_ok cap m"
    using that linear_search_lt [of "nat (eh_entries m)" "ee_block m" "int lb"] by (auto simp: ext_node_ok_def)
  note nd = ext_node_same [OF _ assms(2)]
  show ?thesis
    using assms(1)
  proof cases
    case (leaf i)
    note s = ee_same [OF assms(2) e [OF leaf(1)]]
    show ?thesis
      by (rule ext4_maps.leaf [where i = i]) (use leaf s nd [OF leaf(1)] in simp_all)
  next
    case (node i)
    note s = ee_same [OF assms(2) e [OF node(1)]]
    show ?thesis
      by (rule ext4_maps.node [where i = i]) (use node s nd [OF node(1)] in \<open>simp_all add: ei_ee_block\<close>)
  qed
qed

section \<open>Mapping a block of a file\<close>

definition ext_maps :: "mem \<Rightarrow> nat \<Rightarrow> int \<Rightarrow> nat \<Rightarrow> bool \<Rightarrow> mem \<Rightarrow> nat \<Rightarrow> int \<Rightarrow> bool" where
  "ext_maps P b N k ext I lb r \<longleftrightarrow> (r = 0 \<or> blk_good b N k r) \<and>
     (if ext then eh_magic (\<lambda>j. I (40 + j)) = 0xf30a \<and> ext4_maps P b N k 60 (\<lambda>j. I (40 + j)) lb r
      else \<exists>ps. ext2_path P k I lb = (ps, r) \<and> (\<forall>m \<in> set ps. 0 < m \<and> blk_good b N k m))"

lemma ext_maps_same:
  assumes "ext_maps P b N k ext I lb r" "\<And>j. j < 100 \<Longrightarrow> I j = I' j"
  shows "ext_maps P b N k ext I' lb r"
proof -
  have p: "ext2_path P k I' lb = ext2_path P k I lb" by (rule ext2_path_same) (use assms(2) in auto)
  have e: "I (40 + j) = I' (40 + j)" if "j < 60" for j using assms(2) that by simp
  have "eh_magic (\<lambda>j. I' (40 + j)) = eh_magic (\<lambda>j. I (40 + j))" by (rule eh_same [of 60]) (use e in auto)
  moreover have "ext4_maps P b N k 60 (\<lambda>j. I' (40 + j)) lb r" if "ext4_maps P b N k 60 (\<lambda>j. I (40 + j)) lb r"
    by (rule ext4_maps_same [OF that]) (use e in auto)
  ultimately show ?thesis using assms(1) p by (auto simp: ext_maps_def split: if_splits)
qed

text \<open>The state of an open inode.\<close>

definition ext_ready :: "mem \<Rightarrow> nat \<Rightarrow> ext_fs \<Rightarrow> bool" where
  "ext_ready P k fs \<longleftrightarrow> (if uses_extents fs then mapblock1 fs = - 1 \<and> mapblock2 fs = - 1 else ext_cached P k fs)"

context block_reader
begin

lemma descend_ok:
  assumes "ext4_maps P b N k cap m lb r" "\<And>j. j < cap \<Longrightarrow> FSYS_BUF fs (eh + j) = m j" "serves P b N s" "errnum s = ERR_NONE"
    "ext_layout b k (FSYS_BUF fs)" "lb < 2 ^ 31" "0 \<le> r" "r < 2 ^ 31"
  shows "\<exists>fs' s'. ext4_descend rd sector_bytes eh (int lb) fs s = Some (r, fs', s') \<and> serves P b N s' \<and> reads_only s s' \<and>
    same_inode k fs fs' \<and> mapblock1 fs' = mapblock1 fs \<and> mapblock2 fs' = mapblock2 fs"
  using assms
proof (induction arbitrary: fs eh s rule: ext4_maps.induct)
  case (leaf cap m i lb r)
  define node where "node = (\<lambda>j. FSYS_BUF fs (eh + j))"
  have nm: "m j = node j" if "j < cap" for j using leaf.prems(1) that by (simp add: node_def)
  note nd = ext_node_same [of cap m node, OF leaf.hyps(1) nm]
  have c: "0 < eh_entries m" "12 + 12 * eh_entries m \<le> int cap" "ascending (ee_block node) (nat (eh_entries node))"
    using leaf.hyps(1) nd(1) by (auto simp: ext_node_ok_def)
  have lt: "i < nat (eh_entries m)" using linear_search_lt [of "nat (eh_entries m)"] c(1) leaf.hyps(3) by simp
  have s: "ee_block node i = ee_block m i" "ee_len node i = ee_len m i" "ee_start_hi node i = ee_start_hi m i"
    "ee_start_lo node i = ee_start_lo m i"
    using ee_same [of cap m node i, OF nm] lt c(2) by simp_all
  have u: "u32 (int lb) = int lb" by (rule u32_id) (use leaf.prems(5) in auto)
  have "ext4_ext_binsearch node (int lb) = i"
    using ext_search_linear [OF c(3), of "int lb"] c(1) nd(2,5) leaf.hyps(3) by (simp add: ext4_ext_binsearch_def u)
  moreover have "u32 (ee_block m i + ee_len m i) = ee_block m i + ee_len m i"
    using leaf.hyps(4) leaf.prems(5) ld32_range(1) [of m "12 + 12 * i"] ld16_range [of m "16 + 12 * i"]
    by (intro u32_id) (auto simp: ee_block_def ee_len_def)
  moreover have "s32 (ee_start_lo m i + int lb - ee_block m i) = r"
  proof -
    have "ee_start_lo m i + int lb - ee_block m i = r" using leaf.hyps(7) by simp
    then show ?thesis using s32_num [OF leaf.prems(6,7)] by simp
  qed
  ultimately have "ext4_leaf node (int lb) s = (r, s)"
    using leaf.hyps s by (simp add: ext4_leaf_def Let_def u)
  then have "ext4_descend rd sector_bytes eh (int lb) fs s = Some (r, fs, s)"
    using leaf.hyps(2) nd(4) by (subst ext4_descend.simps) (simp add: Let_def node_def)
  then show ?case using leaf.prems(2) by auto
next
  case (node cap m i lb r)
  define nd where "nd = (\<lambda>j. FSYS_BUF fs (eh + j))"
  have nm: "m j = nd j" if "j < cap" for j using node.prems(1) that by (simp add: nd_def)
  note eq = ext_node_same [of cap m nd, OF node.hyps(1) nm]
  have c: "0 < eh_entries m" "12 + 12 * eh_entries m \<le> int cap" "ascending (ee_block nd) (nat (eh_entries nd))"
    using node.hyps(1) eq(1) by (auto simp: ext_node_ok_def)
  have lt: "i < nat (eh_entries m)" using linear_search_lt [of "nat (eh_entries m)"] c(1) node.hyps(4) by simp
  have s: "ei_leaf_lo nd i = ei_leaf_lo m i" "ei_leaf_hi nd i = ei_leaf_hi m i"
    using ee_same [of cap m nd i, OF nm] lt c(2) by simp_all
  have u: "u32 (int lb) = int lb" by (rule u32_id) (use node.prems(5) in auto)
  have i: "ext4_ext_binsearch_idx nd (int lb) = i"
    using ext_search_linear [OF c(3), of "int lb"] c(1) eq(2,5) node.hyps(4) by (simp add: ext4_ext_binsearch_idx_def u ei_ee_block)
  let ?m = "ei_leaf_lo m i" and ?db1 = "1180 + 2 ^ k"
  define fs1 where "fs1 = put_block P k ?m ?db1 fs"
  note sz = layout_sizes [OF node.prems(4)]
  obtain s1 where r: "ext2_rdfsb rd sector_bytes ?m ?db1 fs s = Some (True, fs1, s1)" "serves P b N s1" "reads_only s s1"
    using rdfsb_ok [OF node.prems(2-4) node.hyps(6), of ?db1] sz(6,7) unfolding fs1_def by auto
  have same: "same_inode k fs fs1" unfolding fs1_def by (rule put_block_same) simp
  have h: "FSYS_BUF fs1 (?db1 + j) = P (nat ?m * 2 ^ k + j)" if "j < 2 ^ k" for j
    using put_block_holds [of P k ?m ?db1 fs] that by (simp add: holds_def fs1_def)
  have e1: "errnum s1 = ERR_NONE" using reads_only_simps(1) [OF r(3)] node.prems(3) by simp
  obtain fs' s' where ih: "ext4_descend rd sector_bytes ?db1 (int lb) fs1 s1 = Some (r, fs', s')" "serves P b N s'" "reads_only s1 s'"
      "same_inode k fs1 fs'" "mapblock1 fs' = mapblock1 fs1" "mapblock2 fs' = mapblock2 fs1"
    using node.IH [OF h r(2) e1 same_inode_simps(1) [OF same node.prems(4)] node.prems(5-7)] by blast
  have "ext4_descend rd sector_bytes eh (int lb) fs s = ext4_descend rd sector_bytes ?db1 (int lb) fs1 s1"
    using node.hyps eq(3,4) i s r(1) by (subst ext4_descend.simps) (simp add: Let_def nd_def [symmetric] sz(5))
  then show ?case
    using ih same_inode_trans [OF same ih(4)] reads_only_trans [OF r(3) ih(3)] by (auto simp: fs1_def)
qed

lemma ext2_bmap_ok:
  assumes "serves P b N s" "errnum s = ERR_NONE" "ext_layout b k (FSYS_BUF fs)" "ext_ready P k fs"
    "ext_maps P b N k (uses_extents fs) (at_inode fs) lb r" "lb < 2 ^ (31 - k)"
  shows "\<exists>fs' s'. ext2_bmap rd sector_bytes (int lb) fs s = Some (r, fs', s') \<and> serves P b N s' \<and> reads_only s s' \<and>
    same_inode k fs fs' \<and> ext_ready P k fs'"
proof -
  have k: "b \<le> k" "10 \<le> k" "k \<le> 13" using assms(3) by (auto simp: ext_layout_def)
  have N: "N < 2 ^ 31" using size_ok [OF assms(1)] by simp
  have r: "0 \<le> r" "r < 2 ^ 31" using assms(5) blk_good_lt(2) [OF _ k(1) N] by (auto simp: ext_maps_def blk_good_def)
  have lb: "lb < 2 ^ 31" using map_bounds(2) [OF k(2,3) assms(6) refl] .
  show ?thesis
  proof (cases "uses_extents fs")
    case True
    let ?eh = "INODE (FSYS_BUF fs) + 40"
    have m: "eh_magic (\<lambda>j. FSYS_BUF fs (?eh + j)) = 0xf30a" "ext4_maps P b N k 60 (\<lambda>j. FSYS_BUF fs (?eh + j)) lb r"
      using assms(5) True by (simp_all add: ext_maps_def at_inode_def add.assoc)
    obtain fs' s' where d: "ext4_descend rd sector_bytes ?eh (int lb) fs s = Some (r, fs', s')" "serves P b N s'" "reads_only s s'"
        "same_inode k fs fs'" "mapblock1 fs' = mapblock1 fs" "mapblock2 fs' = mapblock2 fs"
      using descend_ok [OF m(2) refl assms(1-3) lb r] by blast
    then show ?thesis
      using m(1) True assms(4) same_inode_simps(4) [OF d(4) assms(3)]
      by (auto simp: ext2_bmap_def ext4fs_block_map_def Let_def ext_ready_def)
  next
    case False
    then obtain ps where p: "ext2_path P k (at_inode fs) lb = (ps, r)" "\<forall>m \<in> set ps. blk_good b N k m"
      using assms(5) by (auto simp: ext_maps_def)
    have c: "ext_cached P k fs" using assms(4) False by (simp add: ext_ready_def)
    obtain fs' s' where d: "ext2fs_block_map rd sector_bytes (int lb) fs s = Some (r, fs', s')" "serves P b N s'" "reads_only s s'"
        "same_inode k fs fs'" "ext_cached P k fs'"
      using block_map_ok [OF assms(1-3) c p r assms(6)] by blast
    then show ?thesis
      using False same_inode_simps(4) [OF d(4) assms(3)] by (auto simp: ext2_bmap_def ext_ready_def)
  qed
qed

end

section \<open>Reading a file\<close>

text \<open>The file of an inode has the contents \<open>data\<close>, of which \<open>F\<close> bytes count; a block that is not there (number 0)
  is full of zeros.\<close>

definition ext_file :: "mem \<Rightarrow> nat \<Rightarrow> int \<Rightarrow> nat \<Rightarrow> bool \<Rightarrow> mem \<Rightarrow> mem \<Rightarrow> nat \<Rightarrow> bool" where
  "ext_file P b N k ext I data F \<longleftrightarrow>
     (\<forall>lb. lb * 2 ^ k < F \<longrightarrow> (\<exists>r. ext_maps P b N k ext I lb r \<and>
        (\<forall>j < 2 ^ k. data (lb * 2 ^ k + j) = (if r = 0 then 0 else P (nat r * 2 ^ k + j)))))"

lemma ext_file_same:
  assumes "ext_file P b N k ext I data F" "\<And>j. j < 100 \<Longrightarrow> I j = I' j"
  shows "ext_file P b N k ext I' data F"
proof -
  have "ext_maps P b N k ext I' lb r" if "ext_maps P b N k ext I lb r" for lb r
    using that by (rule ext_maps_same) (rule assms(2))
  then show ?thesis using assms(1) unfolding ext_file_def by blast
qed

lemma same_inode_file:
  assumes "same_inode k fs fs'" "ext_layout b k (FSYS_BUF fs)" "ext_file P b N k (uses_extents fs) (at_inode fs) data F"
  shows "ext_file P b N k (uses_extents fs') (at_inode fs') data F"
  unfolding same_inode_simps(4) [OF assms(1,2)]
  by (rule ext_file_same [OF assms(3)]) (use same_inode_simps(3) [OF assms(1,2)] in auto)

lemma block_of_pos:
  assumes "q < F" "F \<le> (2 :: nat) ^ 31" "k \<le> 31"
  shows "q div 2 ^ k * 2 ^ k < F" "q div 2 ^ k < 2 ^ (31 - k)"
proof -
  have "q div 2 ^ k * 2 ^ k \<le> q" by simp
  then show "q div 2 ^ k * 2 ^ k < F" using assms(1) by linarith
  have "(2 :: nat) ^ 31 = 2 ^ (31 - k) * 2 ^ k" using assms(3) by (simp flip: power_add)
  then show "q div 2 ^ k < 2 ^ (31 - k)" using assms(1,2) by (simp add: less_mult_imp_div_less)
qed

context block_reader
begin

text \<open>One round of the loop, for the part of the request in one block.\<close>

lemma ext_read_round:
  assumes "serves P b N s" "errnum s = ERR_NONE" "ext_layout b k (FSYS_BUF fs)" "ext_ready P k fs"
    "ext_file P b N k (uses_extents fs) (at_inode fs) data F" "filepos s = int q" "q + len \<le> F" "F \<le> 2 ^ 31" "0 < len"
    "n = min len (2 ^ k - q mod 2 ^ k)"
  shows "\<exists>buf1 fs1 s1. ext2_read_loop rd sector_bytes (int len) pos buf fs s =
      ext2_read_loop rd sector_bytes (int (len - n)) (pos + n) buf1 fs1 s1 \<and>
    (\<forall>i. buf1 i = (if pos \<le> i \<and> i < pos + n then data (q + (i - pos)) else buf i)) \<and>
    serves P b N s1 \<and> file_step s s1 \<and> filepos s1 = int (q + n) \<and> same_inode k fs fs1 \<and> ext_ready P k fs1"
proof -
  note sz = layout_sizes [OF assms(3)]
  have k: "b \<le> k" "10 \<le> k" "k \<le> 13" using assms(3) by (auto simp: ext_layout_def)
  note num = map_numbers [OF k(2,3)]
  define lb where "lb = q div 2 ^ k"
  define off where "off = q mod 2 ^ k"
  have off: "off < 2 ^ k" "q = lb * 2 ^ k + off" unfolding off_def lb_def by (simp_all only: div_mult_mod_eq) simp
  have q: "q < F" using assms(7,9) by linarith
  note place = block_of_pos [OF q assms(8), of k, folded lb_def]
  obtain r where r: "ext_maps P b N k (uses_extents fs) (at_inode fs) lb r"
      "\<And>j. j < 2 ^ k \<Longrightarrow> data (lb * 2 ^ k + j) = (if r = 0 then 0 else P (nat r * 2 ^ k + j))"
    using assms(5) place(1) k by (auto simp: ext_file_def)
  obtain fs1 s1 where f: "ext2_bmap rd sector_bytes (int lb) fs s = Some (r, fs1, s1)" "serves P b N s1" "reads_only s s1"
      "same_inode k fs fs1" "ext_ready P k fs1"
    using ext2_bmap_ok [OF assms(1-4) r(1)] place(2) k by auto
  note sz1 = layout_sizes [OF same_inode_simps(1) [OF f(4) assms(3)]]
  have n: "0 < n" "n \<le> len" "off + n \<le> 2 ^ k" using assms(9,10) off(1) unfolding off_def [symmetric] by auto
  have d: "data (q + j) = (if r = 0 then 0 else P (nat r * 2 ^ k + (off + j)))" if "j < n" for j
    using r(2) [of "off + j"] that n(3) off(2) by (simp add: add.assoc)
  have an: "int q AND (2 ^ k - 1) = int off" unfolding and_sector_mask by (simp add: off_def zmod_int)
  have size: "(if 2 ^ k - int off > int len then int len else 2 ^ k - int off) = int n"
  proof -
    have p: "2 ^ k - int off = int (2 ^ k - off)" using off(1) by (simp add: of_nat_diff)
    show ?thesis using assms(10) unfolding off_def [symmetric] p by auto
  qed
  have unroll: "ext2_read_loop rd sector_bytes (int len) pos buf fs s =
      (if r < 0 then Some (if errnum s1 \<noteq> ERR_NONE then 0 else int pos, buf, fs1, s1)
       else if int n \<le> 0 then None
       else if r = 0
       then ext2_read_loop rd sector_bytes (int len - int n) (pos + nat (int n)) (\<lambda>i. if pos \<le> i \<and> i < pos + nat (int n) then 0 else buf i)
              fs1 (s1\<lparr>filepos := filepos s1 + int n\<rparr>)
       else case sector_bytes s1 of
         None \<Rightarrow> None
       | Some ss \<Rightarrow>
           (case rd (s32 (r * (2 ^ k div ss))) (int off) (int n) (\<lambda>j. buf (pos + j)) (s1\<lparr>disk_read_func := disk_read_hook s1\<rparr>) of
              None \<Rightarrow> None
            | Some (_, m, s2) \<Rightarrow>
                ext2_read_loop rd sector_bytes (int len - int n) (pos + nat (int n)) (\<lambda>i. if pos \<le> i then m (i - pos) else buf i) fs1
                  (s2\<lparr>disk_read_func := False, filepos := filepos s2 + int n\<rparr>)))"
    by (subst ext2_read_loop.simps, unfold Let_def assms(6) sz(1,2) num(6) lb_def [symmetric] f(1),
        unfold option.case prod.case sz1(2) an size) (use assms(9) in simp)
  have pos1: "filepos s1 = int q" using reads_only_simps(2) [OF f(3)] assms(6) by simp
  show ?thesis
  proof (cases "r = 0")
    case True
    let ?s = "s1\<lparr>filepos := filepos s1 + int n\<rparr>" and ?buf = "\<lambda>i. if pos \<le> i \<and> i < pos + n then 0 else buf i"
    have "ext2_read_loop rd sector_bytes (int len) pos buf fs s = ext2_read_loop rd sector_bytes (int (len - n)) (pos + n) ?buf fs1 ?s"
      unfolding unroll using n True by (simp add: of_nat_diff)
    moreover have "serves P b N ?s" using f(2) by (rule serves_frame) auto
    moreover have "file_step s ?s" using file_step_reads [OF f(3)] by (auto simp: file_step_def stage2.defs)
    moreover have "data (q + (i - pos)) = 0" if "pos \<le> i" "i < pos + n" for i using d [of "i - pos"] that True by simp
    ultimately show ?thesis
      using f(4,5) pos1 by (intro exI [of _ ?buf] exI [of _ fs1] exI [of _ ?s]) (simp add: True)
  next
    case False
    have g: "blk_good b N k r" using r(1) False by (simp add: ext_maps_def)
    have N: "N < 2 ^ 31" using size_ok [OF assms(1)] by simp
    note lt = blk_good_lt [OF g k(1) N]
    have r0: "0 < r" using g False by (simp add: blk_good_def)
    have dv: "(2 :: int) ^ k div 2 ^ b = 2 ^ (k - b)" using k(1) by (simp add: power_diff)
    have s32: "s32 (r * 2 ^ (k - b)) = r * 2 ^ (k - b)" using lt(1) r0 by (intro s32_num) auto
    let ?s1 = "s1\<lparr>disk_read_func := disk_read_hook s1\<rparr>"
    have sv: "serves P b N ?s1" using f(2) by (rule serves_frame) auto
    have e1: "errnum ?s1 = ERR_NONE" using reads_only_simps(1) [OF f(3)] assms(2) by simp
    have ss: "sector_bytes s1 = Some (2 ^ b)" using size_ok [OF f(2)] by simp
    have "off + n \<le> 2 ^ 13" using n(3) k(3) power_increasing [of k 13 "2 :: nat"] by simp
    then have n30: "int n < 2 ^ 30" "int off + int n \<le> 2 ^ 31" by simp_all
    have "int (off + n) \<le> int (2 ^ k)" using n(3) by (simp only: of_nat_le_iff)
    then have "r * 2 ^ (k - b) * 2 ^ b + int off + int n \<le> N * 2 ^ b" using g by (simp add: lt(3) blk_good_def distrib_right)
    moreover have "nat (r * 2 ^ (k - b) * 2 ^ b + int off) = nat r * 2 ^ k + off"
      using r0 by (simp add: lt(3) nat_add_distrib nat_mult_distrib nat_power_eq)
    ultimately obtain s2 where s2: "rd (r * 2 ^ (k - b)) (int off) (int n) (\<lambda>j. buf (pos + j)) ?s1 =
          Some (True, copy_mem (\<lambda>j. buf (pos + j)) 0 P (nat r * 2 ^ k + off) n, s2)" "serves P b N s2" "reads_only ?s1 s2"
      using read_ok [OF sv e1, of "r * 2 ^ (k - b)" "int off" "int n" "\<lambda>j. buf (pos + j)"] r0 n(1) n30 by auto
    let ?s = "s2\<lparr>disk_read_func := False, filepos := filepos s2 + int n\<rparr>"
    define buf1 where "buf1 = (\<lambda>i. if pos \<le> i then copy_mem (\<lambda>j. buf (pos + j)) 0 P (nat r * 2 ^ k + off) n (i - pos) else buf i)"
    have "ext2_read_loop rd sector_bytes (int len) pos buf fs s = ext2_read_loop rd sector_bytes (int (len - n)) (pos + n) buf1 fs1 ?s"
      unfolding unroll using n r0 s2(1) ss by (simp add: of_nat_diff dv s32 buf1_def)
    moreover have "\<forall>i. buf1 i = (if pos \<le> i \<and> i < pos + n then data (q + (i - pos)) else buf i)"
    proof (intro allI)
      fix i
      show "buf1 i = (if pos \<le> i \<and> i < pos + n then data (q + (i - pos)) else buf i)"
      proof (cases "pos \<le> i")
        case True
        then obtain j where "i = pos + j" using le_Suc_ex by blast
        then show ?thesis using d [of j] r0 by (auto simp: buf1_def copy_mem_def add.assoc)
      qed (simp add: buf1_def)
    qed
    moreover have "serves P b N ?s" using s2(2) by (rule serves_frame) auto
    moreover have "file_step s ?s"
      using file_step_trans [OF file_step_trans [OF file_step_trans [OF file_step_reads [OF f(3)] file_step_update(1)]
          file_step_reads [OF s2(3)]] file_step_update(2)] .
    moreover have "filepos ?s = int (q + n)" using reads_only_simps(2) [OF s2(3)] pos1 by simp
    ultimately show ?thesis using f(4,5) by blast
  qed
qed

lemma ext_read_loop_ok:
  assumes "serves P b N s" "errnum s = ERR_NONE" "ext_layout b k (FSYS_BUF fs)" "ext_ready P k fs"
    "ext_file P b N k (uses_extents fs) (at_inode fs) data F" "filepos s = int q" "q + len \<le> F" "F \<le> 2 ^ 31"
  shows "\<exists>buf' fs' s'. ext2_read_loop rd sector_bytes (int len) pos buf fs s = Some (int (pos + len), buf', fs', s') \<and>
    (\<forall>i. buf' i = (if pos \<le> i \<and> i < pos + len then data (q + (i - pos)) else buf i)) \<and>
    serves P b N s' \<and> file_step s s' \<and> filepos s' = int (q + len) \<and> same_inode k fs fs' \<and> ext_ready P k fs'"
  using assms
proof (induction len arbitrary: q pos buf fs s rule: less_induct)
  case (less len)
  show ?case
  proof (cases "len = 0")
    case True
    then show ?thesis
      using less.prems by (intro exI [of _ buf] exI [of _ fs] exI [of _ s]) (subst ext2_read_loop.simps, auto simp: Let_def)
  next
    case False
    define n where "n = min len (2 ^ k - q mod 2 ^ k)"
    have n: "0 < n" "n \<le> len" using False by (auto simp: n_def)
    obtain buf1 fs1 s1 where r: "ext2_read_loop rd sector_bytes (int len) pos buf fs s =
          ext2_read_loop rd sector_bytes (int (len - n)) (pos + n) buf1 fs1 s1"
        "\<forall>i. buf1 i = (if pos \<le> i \<and> i < pos + n then data (q + (i - pos)) else buf i)"
        "serves P b N s1" "file_step s s1" "filepos s1 = int (q + n)" "same_inode k fs fs1" "ext_ready P k fs1"
      using ext_read_round [OF less.prems _ n_def, of pos buf] False by blast
    have "\<exists>buf' fs' s'. ext2_read_loop rd sector_bytes (int (len - n)) (pos + n) buf1 fs1 s1 =
          Some (int (pos + n + (len - n)), buf', fs', s') \<and>
        (\<forall>i. buf' i = (if pos + n \<le> i \<and> i < pos + n + (len - n) then data (q + n + (i - (pos + n))) else buf1 i)) \<and>
        serves P b N s' \<and> file_step s1 s' \<and> filepos s' = int (q + n + (len - n)) \<and> same_inode k fs1 fs' \<and> ext_ready P k fs'"
    proof (rule less.IH)
      show "len - n < len" using n by simp
      show "errnum s1 = ERR_NONE" using file_step_simps(1) [OF r(4)] less.prems(2) by simp
      show "ext_layout b k (FSYS_BUF fs1)" by (rule same_inode_simps(1) [OF r(6) less.prems(3)])
      show "ext_file P b N k (uses_extents fs1) (at_inode fs1) data F" by (rule same_inode_file [OF r(6) less.prems(3,5)])
      show "q + n + (len - n) \<le> F" using less.prems(7) n by simp
    qed (use r less.prems in auto)
    then obtain buf' fs' s' where ih: "ext2_read_loop rd sector_bytes (int (len - n)) (pos + n) buf1 fs1 s1 =
          Some (int (pos + len), buf', fs', s')"
        "\<forall>i. buf' i = (if pos + n \<le> i \<and> i < pos + len then data (q + n + (i - (pos + n))) else buf1 i)"
        "serves P b N s'" "file_step s1 s'" "filepos s' = int (q + len)" "same_inode k fs1 fs'" "ext_ready P k fs'"
      using n(2) by auto
    have "buf' i = (if pos \<le> i \<and> i < pos + len then data (q + (i - pos)) else buf i)" for i
      using ih(2) r(2) n by auto
    then show ?thesis
      using ih r(1) file_step_trans [OF r(4) ih(4)] same_inode_trans [OF r(6) ih(6)] by auto
  qed
qed

end

section \<open>Inodes\<close>

text \<open>Inode number \<open>ino\<close> of the file system whose superblock is \<open>sb\<close> has the bytes \<open>I\<close>: the group
  descriptors of 32 bytes follow the block of the superblock, and the inodes of a group lie in its table one
  after the other.\<close>

definition inode_table :: "mem \<Rightarrow> nat \<Rightarrow> mem \<Rightarrow> int \<Rightarrow> int" where
  "inode_table P k sb g =
     ld32 P (nat (1 + g div 2 ^ (k - 5) + s_first_data_block sb) * 2 ^ k + nat (g mod 2 ^ (k - 5)) * 32 + 8)"

definition ext_inode_at :: "mem \<Rightarrow> nat \<Rightarrow> int \<Rightarrow> nat \<Rightarrow> mem \<Rightarrow> int \<Rightarrow> mem \<Rightarrow> bool" where
  "ext_inode_at P b N k sb ino I \<longleftrightarrow>
     (let ipg = s_inodes_per_group sb; is = s_inode_size sb; g = (ino - 1) div ipg; i = (ino - 1) mod ipg; t = inode_table P k sb g
      in 1 \<le> ino \<and> ino < 2 ^ 31 \<and> 0 < ipg \<and> 128 \<le> is \<and> (\<exists>n. is * 2 ^ n = 2 ^ k) \<and> 2 ^ k div is dvd ipg \<and>
         s_feature_incompat sb AND 0x80 = 0 \<and> blk_good b N k (1 + g div 2 ^ (k - 5) + s_first_data_block sb) \<and>
         blk_good b N k (t + i div (2 ^ k div is)) \<and> (\<forall>j < 128. I j = P (nat (t * 2 ^ k + i * is) + j)))"

lemma ext_inode_same:
  assumes "\<And>j. j < 1024 \<Longrightarrow> sb' j = sb j"
  shows "ext_inode_at P b N k sb' ino I = ext_inode_at P b N k sb ino I"
  by (simp add: ext_inode_at_def inode_table_def same_super [OF assms])

text \<open>An inode in its table, as block and offset.\<close>

lemma inode_place:
  assumes "is * 2 ^ n = (2 :: int) ^ k" "0 < is" "0 \<le> t" "0 \<le> i"
  shows "2 ^ k div is = 2 ^ n" "nat (t * 2 ^ k + i * is) = nat (t + i div 2 ^ n) * 2 ^ k + nat (i mod 2 ^ n * is)"
    "i mod 2 ^ n * is + is \<le> 2 ^ k" "n \<le> k"
proof -
  show "2 ^ k div is = 2 ^ n" using assms(1,2) by (metis nonzero_mult_div_cancel_left less_irrefl)
  have e: "t * 2 ^ k + i * is = (t + i div 2 ^ n) * 2 ^ k + i mod 2 ^ n * is"
  proof -
    have "i * is = (i div 2 ^ n * 2 ^ n + i mod 2 ^ n) * is" by (simp only: div_mult_mod_eq)
    also have "\<dots> = i div 2 ^ n * (is * 2 ^ n) + i mod 2 ^ n * is" by (simp only: distrib_left distrib_right mult_ac)
    finally show ?thesis using assms(1) by (simp add: distrib_right)
  qed
  have "0 \<le> t + i div 2 ^ n" "0 \<le> i mod 2 ^ n * is" using assms by (simp_all add: pos_imp_zdiv_nonneg_iff)
  then show "nat (t * 2 ^ k + i * is) = nat (t + i div 2 ^ n) * 2 ^ k + nat (i mod 2 ^ n * is)"
    unfolding e by (simp add: nat_add_distrib nat_mult_distrib nat_power_eq)
  have "(i mod 2 ^ n + 1) * is \<le> 2 ^ n * is" using assms(2) by (intro mult_right_mono) (auto simp: add1_zle_eq)
  then show "i mod 2 ^ n * is + is \<le> 2 ^ k" using assms(1) by (simp add: distrib_left distrib_right mult.commute)
  have "(2 :: int) ^ n \<le> is * 2 ^ n" using assms(2) by (simp add: mult_le_cancel_right1)
  then have "(2 :: int) ^ n \<le> 2 ^ k" using assms(1) by simp
  then show "n \<le> k" by simp
qed

context block_reader
begin

lemma get_inode_ok:
  assumes "serves P b N s" "errnum s = ERR_NONE" "ext_layout b k (FSYS_BUF fs)" "ext_inode_at P b N k (FSYS_BUF fs) ino I"
  shows "\<exists>fs' s'. ext2_get_inode rd sector_bytes ino fs s = Some (Inode_Read, fs', s') \<and> serves P b N s' \<and> reads_only s s' \<and>
    (\<forall>j < 1024. FSYS_BUF fs' j = FSYS_BUF fs j) \<and> (\<forall>j < 128. at_inode fs' j = I j) \<and> mapblock1 fs' = - 1 \<and> mapblock2 fs' = - 1"
proof -
  let ?sb = "FSYS_BUF fs"
  have k: "10 \<le> k" "k \<le> 13" using assms(3) by (auto simp: ext_layout_def)
  note sz = layout_sizes [OF assms(3)]
  define ipg where "ipg = s_inodes_per_group ?sb"
  define isz where "isz = s_inode_size ?sb"
  define g where "g = (ino - 1) div ipg"
  define i where "i = (ino - 1) mod ipg"
  define gdt where "gdt = 1 + g div 2 ^ (k - 5) + s_first_data_block ?sb"
  define t where "t = inode_table P k ?sb g"
  obtain n where a: "1 \<le> ino" "ino < 2 ^ 31" "0 < ipg" "128 \<le> isz" "isz * 2 ^ n = 2 ^ k" "2 ^ k div isz dvd ipg"
      "s_feature_incompat ?sb AND 0x80 = 0" "blk_good b N k gdt" "blk_good b N k (t + i div (2 ^ k div isz))"
      "\<And>j. j < 128 \<Longrightarrow> I j = P (nat (t * 2 ^ k + i * isz) + j)"
    using assms(4) unfolding ext_inode_at_def Let_def ipg_def isz_def g_def i_def gdt_def t_def by blast
  have t0: "0 \<le> t" by (simp add: t_def inode_table_def ld32_range)
  have i0: "0 \<le> i" using a(3) by (simp add: i_def)
  note place = inode_place [OF a(5) _ t0 i0]
  have isz: "0 < isz" using a(4) by simp
  define per where "per = (2 :: int) ^ n"
  note place = place [OF isz, folded per_def]
  have u: "u32 (ino - 1) = ino - 1" by (rule u32_id) (use a in auto)
  have g0: "0 \<le> g" using a(1,3) by (simp add: g_def pos_imp_zdiv_nonneg_iff)
  have "g * 1 \<le> g * ipg" using g0 a(3) by (intro mult_left_mono) auto
  moreover have "g * ipg \<le> ino - 1" using pos_mod_sign [OF a(3), of "ino - 1"] by (simp add: g_def minus_mod_eq_div_mult [symmetric])
  ultimately have g: "s32 g = g" "0 \<le> g" using a(2) g0 by (simp_all add: s32_num)
  have ds: "EXT2_DESC_SIZE ?sb = 32" using a(7) by (simp add: EXT2_DESC_SIZE_def)
  have k5: "k = (k - 5) + 5" using k by simp
  have dp: "(2 :: int) ^ k div 32 = 2 ^ (k - 5)" "(2 :: nat) ^ k = 2 ^ (k - 5) * 32"
    by (subst k5, simp only: power_add, simp)+
  have b1: "bsf (2 ^ (k - 5)) = Some (k - 5)" "bsf per = Some n" using k place(4) by (simp_all add: per_def)
  have ad: "g AND (2 ^ (k - 5) - 1) = g mod 2 ^ (k - 5)" "(ino - 1) AND (per - 1) = (ino - 1) mod per"
    by (simp_all add: and_sector_mask per_def)
  have "per dvd ipg" using a(6) place(1) by simp
  then have im: "(ino - 1) mod per = i mod per" by (simp add: i_def mod_mod_cancel)
  define fs1 where "fs1 = put_block P k gdt 1024 fs"
  have "1024 + 2 ^ k \<le> (32768 :: nat)" using sz(6,7) by simp
  then obtain s1 where r1: "ext2_rdfsb rd sector_bytes gdt 1024 fs s = Some (True, fs1, s1)" "serves P b N s1" "reads_only s s1"
    using rdfsb_ok [OF assms(1-3) a(8), of 1024] unfolding fs1_def by blast
  have e1: "errnum s1 = ERR_NONE" using reads_only_simps(1) [OF r1(3)] assms(2) by simp
  have fs1: "FSYS_BUF fs1 j = ?sb j" if "j < 1024" for j using that by (simp add: fs1_def put_block_def copy_mem_def)
  have lay1: "ext_layout b k (FSYS_BUF fs1)" using assms(3) same_super(1) [of "FSYS_BUF fs1" ?sb, OF fs1] by (simp add: ext_layout_def)
  define x where "x = nat (g mod 2 ^ (k - 5)) * 32 + 8"
  have x: "x + 4 \<le> 2 ^ k"
  proof -
    have "nat (g mod 2 ^ (k - 5)) < 2 ^ (k - 5)" by (simp add: nat_less_iff)
    then have "nat (g mod 2 ^ (k - 5)) + 1 \<le> 2 ^ (k - 5)" by linarith
    then have "(nat (g mod 2 ^ (k - 5)) + 1) * 32 \<le> 2 ^ (k - 5) * 32" by (rule mult_right_mono) simp
    then show ?thesis unfolding x_def dp(2) by simp
  qed
  have "ld32 (FSYS_BUF fs1) (1024 + x) = ld32 P (nat gdt * 2 ^ k + x)"
    by (rule ld32_cong) (use put_block_holds [of P k gdt 1024 fs] x in \<open>simp add: holds_def fs1_def add.assoc\<close>)
  moreover have "GROUP_DESC + nat (g mod 2 ^ (k - 5) * 32) + 8 = 1024 + x" by (simp add: GROUP_DESC_def x_def nat_mult_distrib)
  ultimately have tab: "ld32 (FSYS_BUF fs1) (GROUP_DESC + nat (g mod 2 ^ (k - 5) * 32) + 8) = t"
    by (simp add: t_def inode_table_def gdt_def x_def add.assoc)
  define blk where "blk = t + i div per"
  have blk: "blk_good b N k blk" using a(9) place(1) by (simp add: blk_def)
  let ?ia = "1024 + 2 ^ k"
  define fs2 where "fs2 = put_block P k blk ?ia fs1"
  obtain s2 where r2: "ext2_rdfsb rd sector_bytes blk ?ia fs1 s1 = Some (True, fs2, s2)" "serves P b N s2" "reads_only s1 s2"
    using rdfsb_ok [OF r1(2) e1 lay1 blk, of ?ia] sz(6,7) unfolding fs2_def by auto
  define off where "off = nat (i mod per * isz)"
  have off: "off + 128 \<le> 2 ^ k"
  proof -
    have o: "int off = i mod per * isz" using isz by (simp add: off_def per_def)
    have "int off + 128 \<le> 2 ^ k" using place(3) a(4) by (simp add: o)
    then show ?thesis by (metis of_nat_add of_nat_le_iff of_nat_numeral of_nat_power)
  qed
  define fs3 where "fs3 = \<lparr>FSYS_BUF = copy_mem (FSYS_BUF fs2) ?ia (FSYS_BUF fs2) (?ia + off) 156, mapblock1 = - 1, mapblock2 = - 1\<rparr>"
  have "ext2_get_inode rd sector_bytes ino fs s = Some (Inode_Read, fs3, s2)"
    unfolding ext2_get_inode_def Let_def
    using a(3,4,7) r1(1) r2(1)
    by (simp add: sz ipg_def [symmetric] isz_def [symmetric] u g_def [symmetric] i_def [symmetric] g ds dp(1) b1 per_def [symmetric] ad gdt_def [symmetric]
        GROUP_DESC_def [symmetric] tab place(1) blk_def [symmetric] im off_def [symmetric] fs3_def)
  moreover have "FSYS_BUF fs3 j = ?sb j" if "j < 1024" for j
    using that fs1 by (simp add: fs3_def fs2_def put_block_def copy_mem_def)
  moreover have "at_inode fs3 j = I j" if "j < 128" for j
  proof -
    have l: "ext_layout b k (FSYS_BUF fs3)"
      using assms(3) same_super(1) [of "FSYS_BUF fs3" ?sb] calculation(2) by (simp add: ext_layout_def)
    have "at_inode fs3 j = FSYS_BUF fs2 (?ia + (off + j))" using that by (simp add: at_inode_def layout_sizes(4) [OF l]) (simp add: fs3_def copy_mem_def add.assoc)
    also have "\<dots> = P (nat blk * 2 ^ k + (off + j))"
      using put_block_holds [of P k blk ?ia fs1] off that by (simp add: holds_def fs2_def)
    also have "\<dots> = I j" using a(10) [OF that] place(2) by (simp add: blk_def off_def add.assoc)
    finally show ?thesis .
  qed
  ultimately show ?thesis using r2(2) reads_only_trans [OF r1(3) r2(3)] by (auto simp: fs3_def)
qed

end

section \<open>Directories\<close>

text \<open>A directory with the contents \<open>D\<close>: a list of entries with an inode number, a length and a name each, none
  across two blocks. The search for \<open>name\<close> from \<open>loc\<close> on has the result \<open>r\<close>.\<close>

definition de_inode :: "mem \<Rightarrow> nat \<Rightarrow> int" where "de_inode D loc = ld32 D loc"
definition de_rec_len :: "mem \<Rightarrow> nat \<Rightarrow> nat" where "de_rec_len D loc = nat (ld16 D (loc + 4))"
definition de_name :: "mem \<Rightarrow> nat \<Rightarrow> cstr" where "de_name D loc = mem_slice D (loc + 8) (nat (ld8 D (loc + 6)))"

definition de_ok :: "nat \<Rightarrow> mem \<Rightarrow> nat \<Rightarrow> bool" where
  "de_ok k D loc \<longleftrightarrow> loc mod 2 ^ k + 8 + (if de_inode D loc = 0 then 0 else length (de_name D loc)) \<le> 2 ^ k"

inductive dir_search :: "nat \<Rightarrow> mem \<Rightarrow> nat \<Rightarrow> cstr \<Rightarrow> nat \<Rightarrow> int option \<Rightarrow> bool" for k D F name where
  dir_end: "F \<le> loc \<Longrightarrow> dir_search k D F name loc None"
| dir_found: "loc < F \<Longrightarrow> de_ok k D loc \<Longrightarrow> 0 < de_inode D loc \<Longrightarrow> de_inode D loc < 2 ^ 31 \<Longrightarrow>
     cstring (de_name D loc) = name \<Longrightarrow> dir_search k D F name loc (Some (de_inode D loc))"
| dir_skip: "loc < F \<Longrightarrow> de_ok k D loc \<Longrightarrow> de_inode D loc = 0 \<or> cstring (de_name D loc) \<noteq> name \<Longrightarrow> 0 < de_rec_len D loc \<Longrightarrow>
     dir_search k D F name (loc + de_rec_len D loc) r \<Longrightarrow> dir_search k D F name loc r"

lemma substring_zero: "substring a b = 0 \<longleftrightarrow> cstring a = cstring b"
  by (auto simp: substring_eq)

lemma no_completion [simp]: "print_possibilities s = 0 \<Longrightarrow> dir_completion dirname ch entry s = s"
  by (simp add: dir_completion_def)

lemma ext_ready_drop2: "ext_ready P k fs \<Longrightarrow> ext_ready P k (fs\<lparr>mapblock2 := - 1\<rparr>)"
  by (auto simp: ext_ready_def uses_extents_def at_inode_def ext_cached_def Let_def holds_def split: if_splits)

text \<open>Reading a block into the second data block when nothing is remembered of it.\<close>

lemma put_block2_ready:
  assumes "ext_ready P k fs" "mapblock2 fs = - 1" "ext_layout b k (FSYS_BUF fs)"
  shows "ext_ready P k (put_block P k m (1180 + 2 * 2 ^ k) fs)"
proof -
  let ?fs = "put_block P k m (1180 + 2 * 2 ^ k) fs"
  have same: "same_inode k fs ?fs" by (rule put_block_same) simp
  have h1: "holds P k m' (1180 + 2 ^ k) ?fs = holds P k m' (1180 + 2 ^ k) fs" for m' by (rule put_block_other) simp
  have ib: "i_block (at_inode ?fs) j = i_block (at_inode fs) j" if "j < 15" for j
    by (rule put_block_inode [OF assms(3) _ that]) simp
  have ux: "uses_extents ?fs = uses_extents fs" by (rule same_inode_simps(4) [OF same assms(3)])
  show ?thesis using assms(1,2) by (auto simp: ext_ready_def ux ext_cached_def Let_def h1 ib split: if_splits)
qed

context block_reader
begin

text \<open>One round of the search: the entry at \<open>loc\<close> is in the second data block.\<close>

lemma scan_round:
  assumes "serves P b N s" "errnum s = ERR_NONE" "ext_layout b k (FSYS_BUF fs)" "ext_ready P k fs"
    "ext_file P b N k (uses_extents fs) (at_inode fs) D F" "i_size (at_inode fs) = int F" "F \<le> 2 ^ 30"
    "print_possibilities s = 0" "loc < F" "de_ok k D loc" "0 < de_inode D loc \<or> 0 < de_rec_len D loc" "cstring name = name"
  shows "\<exists>fs' s'. ext2_scan rd sector_bytes name ch (int loc) fs s =
      (if de_inode D loc = 0 \<or> cstring (de_name D loc) \<noteq> name
       then ext2_scan rd sector_bytes name ch (int (loc + de_rec_len D loc)) fs' s'
       else Some (Dir_Entry (s32 (de_inode D loc)), fs', s')) \<and>
    serves P b N s' \<and> reads_only s s' \<and> same_inode k fs fs' \<and> ext_ready P k fs'"
proof -
  note sz = layout_sizes [OF assms(3)]
  have k: "b \<le> k" "10 \<le> k" "k \<le> 13" using assms(3) by (auto simp: ext_layout_def)
  note num = map_numbers [OF k(2,3)]
  define lb where "lb = loc div 2 ^ k"
  define off where "off = loc mod 2 ^ k"
  have loc: "loc = lb * 2 ^ k + off" unfolding off_def lb_def by (simp only: div_mult_mod_eq)
  have offk: "off + 8 \<le> 2 ^ k" using assms(10) unfolding de_ok_def off_def by linarith
  have "F \<le> 2 ^ 31" using assms(7) by simp
  then have place: "lb * 2 ^ k < F" "lb < 2 ^ (31 - k)" using block_of_pos [OF assms(9), of k, folded lb_def] k(3) by auto
  obtain r where r: "ext_maps P b N k (uses_extents fs) (at_inode fs) lb r"
      "\<And>j. j < 2 ^ k \<Longrightarrow> D (lb * 2 ^ k + j) = (if r = 0 then 0 else P (nat r * 2 ^ k + j))"
    using assms(5) place(1) by (auto simp: ext_file_def)
  have "r \<noteq> 0"
  proof
    assume "r = 0"
    then have z: "D (loc + j) = 0" if "j < 8" for j using r(2) [of "off + j"] that offk by (simp add: loc add.assoc)
    have "ld32 D loc = ld32 (\<lambda>_. 0) 0" by (rule ld32_cong) (simp add: z)
    moreover have "ld16 D (loc + 4) = ld16 (\<lambda>_. 0) 0" by (rule ld_cong) (simp add: z add.assoc)
    moreover have "ld32 (\<lambda>_. 0) 0 = 0" "ld16 (\<lambda>_. 0) 0 = 0" by (simp_all add: ld32_def ld16_def ld8_def)
    ultimately show False using assms(11) by (simp add: de_inode_def de_rec_len_def)
  qed
  then have g: "blk_good b N k r" "0 < r" using r(1) by (auto simp: ext_maps_def blk_good_def)
  obtain fs1 s1 where f: "ext2_bmap rd sector_bytes (int lb) fs s = Some (r, fs1, s1)" "serves P b N s1" "reads_only s s1"
      "same_inode k fs fs1" "ext_ready P k fs1"
    using ext2_bmap_ok [OF assms(1-4) r(1) place(2)] by blast
  let ?fs1 = "fs1\<lparr>mapblock2 := - 1\<rparr>" and ?db2 = "1180 + 2 * 2 ^ k"
  have lay1: "ext_layout b k (FSYS_BUF ?fs1)" using same_inode_simps(1) [OF f(4) assms(3)] by simp
  define fs2 where "fs2 = put_block P k r ?db2 ?fs1"
  have e1: "errnum s1 = ERR_NONE" using reads_only_simps(1) [OF f(3)] assms(2) by simp
  obtain s2 where q: "ext2_rdfsb rd sector_bytes r ?db2 ?fs1 s1 = Some (True, fs2, s2)" "serves P b N s2" "reads_only s1 s2"
    using rdfsb_ok [OF f(2) e1 lay1 g(1), of ?db2] sz(6,7) unfolding fs2_def by auto
  have same: "same_inode k fs fs2"
    using same_inode_trans [OF f(4)] put_block_same [of k ?db2 ?fs1 P r] by (simp add: same_inode_def fs2_def)
  note lay2 = same_inode_simps(1) [OF same assms(3)]
  note sz2 = layout_sizes [OF lay2]
  let ?m = "FSYS_BUF fs2" and ?dp = "?db2 + off"
  have m: "?m (?dp + j) = D (loc + j)" if "off + j < 2 ^ k" for j
    using put_block_holds [of P k r ?db2 ?fs1] r(2) [OF that] that g(2) by (simp add: holds_def fs2_def loc add.assoc)
  have ino: "ld32 ?m ?dp = de_inode D loc" unfolding de_inode_def by (rule ld32_cong) (use m offk in auto)
  have rec: "ld16 ?m (?dp + 4) = int (de_rec_len D loc)"
  proof -
    have "ld16 ?m (?dp + 4) = ld16 D (loc + 4)"      by (rule ld_cong) (use m [of "4 + j" for j] offk in \<open>simp add: ac_simps\<close>)
    then show ?thesis by (simp add: de_rec_len_def ld16_range)
  qed
  have nl: "ld8 ?m (?dp + 6) = ld8 D (loc + 6)" using m [of 6] offk by (simp add: ld8_def)
  have name: "mem_slice ?m (?dp + 8) (nat (ld8 ?m (?dp + 6))) = de_name D loc" if "de_inode D loc \<noteq> 0"
  proof -
    have "off + 8 + length (de_name D loc) \<le> 2 ^ k" using assms(10) that by (simp add: de_ok_def off_def)
    then have "?m (?dp + 8 + j) = D (loc + 8 + j)" if "j < length (de_name D loc)" for j
      using m [of "8 + j"] that by (simp add: add.assoc)
    then show ?thesis unfolding nl by (intro nth_equalityI) (simp_all add: de_name_def)
  qed
  have an: "int loc AND (2 ^ k - 1) = int off" unfolding and_sector_mask by (simp add: off_def zmod_int)
  have ul: "u32 (int loc) = int loc" by (rule u32_id) (use assms(7,9) in auto)
  have "ld16 D (loc + 4) < 65536" using ld16_range(2) [of D "loc + 4"] by simp
  then have sl: "s32 (int loc + int (de_rec_len D loc)) = int loc + int (de_rec_len D loc)"
    using assms(7,9) by (intro s32_num) (auto simp: de_rec_len_def nat_less_iff)
  have pp: "print_possibilities s2 = 0" using reads_only_simps(11) [OF f(3)] reads_only_simps(11) [OF q(3)] assms(8) by simp
  have sub: "(substring name (de_name D loc) \<noteq> 0) = (cstring (de_name D loc) \<noteq> name)"
    using assms(12) by (auto simp: substring_zero)
  have step: "ext2_scan rd sector_bytes name ch (int loc) fs s =
      (if de_inode D loc = 0 then ext2_scan rd sector_bytes name ch (int (loc + de_rec_len D loc)) fs2 s2
       else if substring name (de_name D loc) \<noteq> 0 then ext2_scan rd sector_bytes name ch (int (loc + de_rec_len D loc)) fs2 s2
       else Some (Dir_Entry (s32 (de_inode D loc)), fs2, s2))"
    using assms(9) g(2) pp name
    by (subst ext2_scan.simps, unfold Let_def ul assms(6) sz(1) num(6) lb_def [symmetric] f(1), unfold option.case prod.case,
        unfold layout_sizes(6) [OF lay1, simplified] q(1), unfold option.case prod.case,
        unfold sz2(2,6) an nat_int ino rec sl) simp
  have rdy: "ext_ready P k fs2" unfolding fs2_def by (rule put_block2_ready [OF ext_ready_drop2 [OF f(5)] _ lay1]) simp
  show ?thesis
    unfolding step sub using q(2) reads_only_trans [OF f(3) q(3)] same rdy
    by (intro exI [of _ fs2] exI [of _ s2]) auto
qed

lemma scan_ok:
  assumes "dir_search k D F name loc r" "serves P b N s" "errnum s = ERR_NONE" "ext_layout b k (FSYS_BUF fs)" "ext_ready P k fs"
    "ext_file P b N k (uses_extents fs) (at_inode fs) D F" "i_size (at_inode fs) = int F" "F \<le> 2 ^ 30"
    "print_possibilities s = 0" "cstring name = name" "loc < 2 ^ 31"
  shows "\<exists>fs' s'. ext2_scan rd sector_bytes name ch (int loc) fs s =
      (case r of Some ino \<Rightarrow> Some (Dir_Entry ino, fs', s')
       | None \<Rightarrow> Some (Dir_Return False True, fs', s'\<lparr>errnum := ERR_FILE_NOT_FOUND\<rparr>)) \<and>
    serves P b N s' \<and> reads_only s s' \<and> same_inode k fs fs' \<and> ext_ready P k fs'"
  using assms
proof (induction arbitrary: fs s rule: dir_search.induct)
  case (dir_end loc)
  have "u32 (int loc) = int loc" by (rule u32_id) (use dir_end.prems in auto)
  then have "ext2_scan rd sector_bytes name ch (int loc) fs s = Some (Dir_Return False True, fs, s\<lparr>errnum := ERR_FILE_NOT_FOUND\<rparr>)"
    using dir_end by (subst ext2_scan.simps) simp
  then show ?case using dir_end.prems by (intro exI [of _ fs] exI [of _ s]) simp
next
  case (dir_found loc)
  have "s32 (de_inode D loc) = de_inode D loc" by (rule s32_num) (use dir_found.hyps in auto)
  then show ?case
    using scan_round [OF dir_found.prems(1-8) dir_found.hyps(1,2) _ dir_found.prems(9), of ch] dir_found.hyps(3,5) by auto
next
  case (dir_skip loc r)
  obtain fs1 s1 where f: "ext2_scan rd sector_bytes name ch (int loc) fs s =
        ext2_scan rd sector_bytes name ch (int (loc + de_rec_len D loc)) fs1 s1"
      "serves P b N s1" "reads_only s s1" "same_inode k fs fs1" "ext_ready P k fs1"
    using scan_round [OF dir_skip.prems(1-8) dir_skip.hyps(1,2) _ dir_skip.prems(9), of ch] dir_skip.hyps(3,4) by auto
  have "i_size (at_inode fs1) = i_size (at_inode fs)"
    unfolding i_size_def by (rule ld32_upto [of 156]) (use same_inode_simps(3) [OF f(4) dir_skip.prems(3)] in auto)
  moreover have "ld16 D (loc + 4) < 65536" using ld16_range(2) [of D "loc + 4"] by simp
  then have "loc + de_rec_len D loc < 2 ^ 31" using dir_skip.hyps(1) dir_skip.prems(7) by (auto simp: de_rec_len_def nat_less_iff)
  ultimately obtain fs' s' where ih: "ext2_scan rd sector_bytes name ch (int (loc + de_rec_len D loc)) fs1 s1 =
        (case r of Some ino \<Rightarrow> Some (Dir_Entry ino, fs', s')
         | None \<Rightarrow> Some (Dir_Return False True, fs', s'\<lparr>errnum := ERR_FILE_NOT_FOUND\<rparr>))"
      "serves P b N s'" "reads_only s1 s'" "same_inode k fs1 fs'" "ext_ready P k fs'"
    using dir_skip.IH [OF f(2) _ same_inode_simps(1) [OF f(4) dir_skip.prems(3)] f(5) same_inode_file [OF f(4) dir_skip.prems(3,5)]]
      dir_skip.prems reads_only_simps(1,11) [OF f(3)] by auto
  then show ?case using f(1) reads_only_trans [OF f(3) ih(3)] same_inode_trans [OF f(4) ih(4)] by auto
qed

end

section \<open>Properties of the mapping\<close>

text \<open>C40: The search in an extent node. For entries in ascending order both binary searches find the entry that looking through
  the node one by one finds: the last one that begins at or below the block, or the first one.\<close>

theorem ext4_binsearch_linear:
  assumes "ascending (ee_block eh) n" "eh_entries eh = int n" "0 < n" "0 \<le> lb" "lb < 2 ^ 31"
  shows "ext4_ext_binsearch eh lb = linear_search (ee_block eh) n lb \<and> ext4_ext_binsearch_idx eh lb = linear_search (ee_block eh) n lb \<and>
    (\<forall>j < n. j \<noteq> 0 \<longrightarrow> (ee_block eh j \<le> lb \<longleftrightarrow> j \<le> linear_search (ee_block eh) n lb))"
proof -
  have u: "u32 lb = lb" by (rule u32_id) (use assms in auto)
  define i where "i = ext_search (ee_block eh) lb 1 (int n - 1)"
  have i: "int i \<le> int n - 1 \<and> (i = 0 \<or> ee_block eh i \<le> lb) \<and> (int i = int n - 1 \<or> lb < ee_block eh (Suc i))"
    unfolding i_def by (rule ext_search_place) (use assms(3) in auto)
  have l: "linear_search (ee_block eh) n lb = i" using ext_search_linear [OF assms(1,3), of lb] by (simp add: i_def)
  have "ee_block eh j \<le> lb \<longleftrightarrow> j \<le> i" if "j < n" "j \<noteq> 0" for j
  proof
    assume "j \<le> i"
    then show "ee_block eh j \<le> lb" using i that ascendingD [OF assms(1), of j i] by (cases "j = i") auto
  next
    assume le: "ee_block eh j \<le> lb"
    show "j \<le> i"
    proof (rule ccontr)
      assume "\<not> j \<le> i"
      then have "lb < ee_block eh (Suc i)" "Suc i \<le> j" using i that by auto
      then show False using le ascendingD [OF assms(1), of "Suc i" j] that by (cases "j = Suc i") auto
    qed
  qed
  then show ?thesis using l by (simp add: ext4_ext_binsearch_def ext4_ext_binsearch_idx_def ei_ee_block assms(2) u i_def [symmetric])
qed

definition sample_node :: mem where
  "sample_node k = (if k = 2 then 3 else if k = 24 then 8 else if k = 36 then 20 else 0)"

theorem ext4_binsearch_linear_witness:
  "ext4_ext_binsearch sample_node 10 = 1 \<and> linear_search (ee_block sample_node) 3 10 = 1"
proof -
  have b: "ee_block sample_node 0 = 0" "ee_block sample_node 1 = 8" "ee_block sample_node 2 = 20" "eh_entries sample_node = 3"
    by (simp_all add: ee_block_def eh_entries_def sample_node_def ld32_def ld16_def ld8_def)
  have "ascending (ee_block sample_node) 3"
    unfolding ascending_def using b by (auto simp: less_Suc_eq numeral_3_eq_3 numeral_2_eq_2)
  from ext4_binsearch_linear [OF this, of 10] b
  have "ext4_ext_binsearch sample_node 10 = linear_search (ee_block sample_node) 3 10" by simp
  moreover have "linear_search (ee_block sample_node) 3 10 = 1"
    using b by (simp add: linear_search_def upt_rec numeral_3_eq_3 numeral_2_eq_2)
  ultimately show ?thesis by simp
qed

text \<open>The test for the end of an extent lets the first block behind it pass, which is then mapped to the block of the
  file system behind the extent.\<close>

lemma extent_end_mapped:
  assumes "ext_node_ok cap m" "i = linear_search (ee_block m) (nat (eh_entries m)) (int lb)"
    "int lb = ee_block m i + ee_len m i" "ee_start_hi m i = 0" "lb < 2 ^ 31" "ee_start_lo m i + ee_len m i < 2 ^ 31"
  shows "ext4_leaf m (int lb) s = (ee_start_lo m i + ee_len m i, s)"
proof -
  have n: "0 < eh_entries m" "ascending (ee_block m) (nat (eh_entries m))" using assms(1) by (auto simp: ext_node_ok_def)
  have u: "u32 (int lb) = int lb" by (rule u32_id) (use assms(5) in auto)
  have "ext4_ext_binsearch m (int lb) = i"
    using ext_search_linear [OF n(2), of "int lb"] n(1) assms(2) by (simp add: ext4_ext_binsearch_def u)
  moreover have "0 \<le> ee_start_lo m i + ee_len m i" by (simp add: ee_start_lo_def ee_len_def ld32_range ld16_range)
  then have "s32 (ee_start_lo m i + int lb - ee_block m i) = ee_start_lo m i + ee_len m i"
    using assms(3,6) s32_num [of "ee_start_lo m i + ee_len m i"] by (simp add: add.assoc)
  ultimately show ?thesis using assms(3,4) u by (simp add: ext4_leaf_def Let_def)
qed

text \<open>A block of numbers that is not there (number 0) is not taken for zeros: block 0 of the file system is read instead.\<close>

lemma missing_indirect_block:
  assumes "i_block I 12 = 0" "10 \<le> k"
  shows "ext2_path P k I 12 = ([0], ld32 P 0)"
  using assms by (simp add: ext2_path_def Let_def blk_entry_def)

text \<open>Mounting leaves the superblock in the buffer.\<close>

context block_reader
begin

lemma mount_ok:
  assumes "serves P b N s" "errnum s = ERR_NONE" "ext2_slice_ok s" "N \<le> part_length s" "2048 \<le> N * 2 ^ b"
  shows "\<exists>fs' s'. ext2fs_mount rd sector_bytes fs s = Some (s_magic (\<lambda>j. P (1024 + j)) = 0xEF53, fs', s') \<and>
    (\<forall>j < 1024. FSYS_BUF fs' j = P (1024 + j)) \<and> serves P b N s' \<and> reads_only s s'"
proof -
  have b: "sector_bytes s = Some (2 ^ b)" "9 \<le> b" using size_ok [OF assms(1)] by auto
  have d: "(1024 :: int) div 2 ^ b * 2 ^ b + 1024 mod 2 ^ b = 1024" by (rule div_mult_mod_eq)
  have q: "(1024 :: int) div 2 ^ b \<le> 2"
  proof -
    have "(512 :: int) \<le> 2 ^ b" using power_increasing [of 9 b "2 :: int"] b(2) by simp
    then have "(1024 :: int) div 2 ^ b \<le> 1024 div 512" by (intro zdiv_mono2) auto
    then show ?thesis by simp
  qed
  have q0: "0 \<le> (1024 :: int) div 2 ^ b" by (simp add: pos_imp_zdiv_nonneg_iff)
  then have "u32 (1024 div 2 ^ b + 1024 div 2 ^ b) = 1024 div 2 ^ b + 1024 div 2 ^ b" using q by (intro u32_id) auto
  moreover have "(1024 :: int) div 2 ^ b * 2 ^ b \<le> 1024" using d pos_mod_sign [of "2 ^ b" "1024 :: int", OF zero_less_power [OF zero_less_numeral]] by linarith
  then have "(1024 div 2 ^ b + 1024 div 2 ^ b) * 2 ^ b \<le> N * 2 ^ b" unfolding distrib_right using assms(5) by linarith
  then have "1024 div 2 ^ b + 1024 div 2 ^ b \<le> N" by (rule mult_right_le_imp_le) simp
  ultimately have u: "u32 (1024 div 2 ^ b + 1024 div 2 ^ b) \<le> N" by simp
  obtain s' where r: "rd (1024 div 2 ^ b) (1024 mod 2 ^ b) 1024 (FSYS_BUF fs) s =
        Some (True, copy_mem (FSYS_BUF fs) 0 P 1024 1024, s')" "serves P b N s'" "reads_only s s'"
    using read_ok [OF assms(1,2) q0, of "1024 mod 2 ^ b" 1024 "FSYS_BUF fs"] assms(5) d
      zmod_le_nonneg_dividend [of 1024 "2 ^ b :: int"] by (auto simp: add.assoc)
  have "s_magic (copy_mem (FSYS_BUF fs) 0 P 1024 1024) = s_magic (\<lambda>j. P (1024 + j))"
    by (rule same_super) (simp add: copy_mem_def)
  then show ?thesis
    using assms(3,4) u r unfolding ext2fs_mount_def b(1) by (auto simp: copy_mem_def)
qed

end

end
