(* ===== verification/Device_Name.thy ===== *)
theory Device_Name
  imports Partition
begin

text \<open>
  Device names, \<^verbatim>\<open>set_device\<close> of \<^verbatim>\<open>stage2/disk_io.c\<close>: a name such as
  \<^verbatim>\<open>(hd0,1,a)\<close> is parsed into the current drive and partition. The function returns the
  rest of the string (or null) and may complete a lone \<^verbatim>\<open>(h\<close> to \<^verbatim>\<open>(hd\<close> in the
  caller's buffer; the three variables used for completion are the record \<open>choice\<close>.
\<close>

section \<open>Definitions\<close>

record choice =
  incomplete :: bool
  disk_choice :: bool
  part_choice :: nat

text \<open>\<^verbatim>\<open>PART_UNSPECIFIED\<close>, \<^verbatim>\<open>PART_DISK\<close>, \<^verbatim>\<open>PART_CHOSEN\<close> are 0, 1, 2.\<close>

definition is_drive_letter :: "bool \<Rightarrow> 'w dstate \<Rightarrow> byte \<Rightarrow> bool" where
  "is_drive_letter network_ready s ch \<longleftrightarrow> ch = 102 \<or> ch = 104 \<or> (ch = 110 \<and> network_ready) \<or>
     (ch = 99 \<and> cdrom_drive (efi s) \<noteq> GRUB_INVALID_DRIVE)"

text \<open>The drive part: the letters and the number. The result is the rest of the string.\<close>

definition parse_drive :: "bool \<Rightarrow> cstr \<Rightarrow> choice \<Rightarrow> 'w dstate \<Rightarrow> cstr \<times> choice \<times> 'w dstate" where
  "parse_drive network_ready device c s =
     (let ch = deref device;
          letter = is_drive_letter network_ready s ch;
          device1 = (if letter then drop 2 device else device);
          s1 = (if letter \<and> deref (drop 1 device) \<noteq> 100 then s\<lparr>errnum := ERR_NUMBER_PARSING\<rparr> else s)
      in if ch = 110 \<and> network_ready then (device1, c, s1\<lparr>current_drive := NETWORK_DRIVE\<rparr>)
         else if ch = 99 \<and> cdrom_drive (efi s1) \<noteq> GRUB_INVALID_DRIVE
         then (device1, c, s1\<lparr>current_drive := cdrom_drive (efi s1)\<rparr>)
         else let (device2, s2) =
                    (case safe_parse_maxint device1 of
                       Inl e \<Rightarrow> (device1, s1\<lparr>errnum := e\<rparr>)
                     | Inr (n, rest) \<Rightarrow> (rest, s1\<lparr>current_drive := n\<rparr>));
                  s3 = (if ch = 104 then s2\<lparr>current_drive := u32 (current_drive s2 + 0x80)\<rparr> else s2)
              in (device2, c\<lparr>disk_choice := False\<rparr>, s3))"

definition is_bsd_letter :: "byte \<Rightarrow> bool" where
  "is_bsd_letter ch \<longleftrightarrow> 97 \<le> schar ch \<and> schar ch \<le> 104"

text \<open>The partition part, after the comma. \<open>None\<close> is the return with
  \<^verbatim>\<open>ERR_DEV_FORMAT\<close> already set in the state.\<close>

definition parse_part :: "cstr \<Rightarrow> choice \<Rightarrow> 'w dstate \<Rightarrow> cstr option \<times> choice \<times> 'w dstate" where
  "parse_part device c s =
     (if 48 \<le> schar (deref device) \<and> schar (deref device) \<le> 57
      then let c1 = c\<lparr>part_choice := part_choice c + 1\<rparr>; s1 = s\<lparr>current_partition := 0\<rparr>
           in if current_drive s1 AND 0x80 = 0 then (None, c1, s1\<lparr>errnum := ERR_DEV_FORMAT\<rparr>)
              else case safe_parse_maxint device of
                Inl e \<Rightarrow> (None, c1, s1\<lparr>errnum := ERR_DEV_FORMAT\<rparr>)
              | Inr (n, rest) \<Rightarrow>
                  if n > 254 then (None, c1, s1\<lparr>current_partition := n, errnum := ERR_DEV_FORMAT\<rparr>)
                  else let p = u32 (n * 2 ^ 16 + 0xFFFF);
                           rest1 = (if deref rest = 44 then drop 1 rest else rest)
                       in if is_bsd_letter (deref rest1)
                          then (Some (drop 1 rest1), c1,
                                s1\<lparr>current_partition := ((schar (deref rest1) - 97) * 2 ^ 8) OR (p AND 0xFF00FF)\<rparr>)
                          else (Some rest1, c1, s1\<lparr>current_partition := p\<rparr>)
      else if is_bsd_letter (deref device)
      then let c1 = c\<lparr>part_choice := part_choice c + 1\<rparr>
           in (Some (drop 1 device), c1,
               s\<lparr>current_partition := ((schar (deref device) - 97) * 2 ^ 8) OR 0xFF00FF\<rparr>)
      else (Some device, c, s))"

text \<open>The end of the function: the sanity check and the closing parenthesis.\<close>

definition finish_device :: "bool \<Rightarrow> cstr \<Rightarrow> cstr \<Rightarrow> choice \<Rightarrow> 'w dstate \<Rightarrow> cstr option \<times> cstr \<times> choice \<times> 'w dstate" where
  "finish_device result device full c s =
     (case sane_partition s of
        (False, s1) \<Rightarrow> (None, full, c, s1)
      | (True, s1) \<Rightarrow>
          if result then (Some (drop 1 device), full, c, s1)
          else (None, full, if deref device = 0 then c\<lparr>incomplete := True\<rparr> else c, s1\<lparr>errnum := ERR_DEV_FORMAT\<rparr>))"

definition parse_rest :: "cstr \<Rightarrow> cstr \<Rightarrow> choice \<Rightarrow> 'w dstate \<Rightarrow> cstr option \<times> cstr \<times> choice \<times> 'w dstate" where
  "parse_rest device full c s =
     (if errnum s \<noteq> ERR_NONE then (None, full, c, s)
      else if deref device = 41 then finish_device True device full (c\<lparr>part_choice := 2\<rparr>) s
      else if deref device = 44
      then case parse_part (drop 1 device)
                  (c\<lparr>disk_choice := False, part_choice := part_choice c + 1\<rparr>) s of
             (None, c1, s1) \<Rightarrow> (None, full, c1, s1)
           | (Some rest, c1, s1) \<Rightarrow>
               if deref rest = 41
               then if part_choice c1 = 1
                    then finish_device True rest full (c1\<lparr>part_choice := 2\<rparr>)
                           (s1\<lparr>current_partition := saved_partition s1\<rparr>)
                    else finish_device True rest full c1 s1
               else finish_device False rest full c1 s1
      else finish_device False device full c s)"

definition set_device :: "bool \<Rightarrow> cstr \<Rightarrow> 'w dstate \<Rightarrow> cstr option \<times> cstr \<times> choice \<times> 'w dstate" where
  "set_device network_ready device s0 =
     (let c = \<lparr>incomplete = False, disk_choice = True, part_choice = 0\<rparr>;
          s = s0\<lparr>current_drive := saved_drive s0, current_partition := 0xFFFFFF\<rparr>
      in if deref device = 40 \<and> deref (drop 1 device) = 0 then (Some (drop 1 device), device, c, s)
         else if deref device = 40
         then let dev = drop 1 device; ch = deref dev
              in if ch \<noteq> 44 \<and> ch \<noteq> 41
                 then if is_drive_letter network_ready s ch \<and> deref (drop 1 dev) = 0
                      then (Some [], [40, ch, 100], c, s)
                      else if is_drive_letter network_ready s ch \<and> deref (drop 1 dev) = 100 \<and> deref (drop 2 dev) = 0
                      then (Some (drop 2 dev), device, c, s)
                      else let (dev1, c1, s1) = parse_drive network_ready dev c s
                           in parse_rest dev1 device c1 s1
                 else parse_rest dev device c s
         else finish_device False device device c s)"

section \<open>Sane numbers\<close>

lemma and_push_bit: "(x :: int) AND push_bit k m = push_bit k (drop_bit k x AND m)"
  by (rule bit_eqI) (auto simp: bit_and_iff bit_push_bit_iff bit_drop_bit_eq)

lemma and_FF_at: "(x :: int) AND (255 * 2 ^ k) = (x div 2 ^ k) mod 256 * 2 ^ k"
  using and_push_bit [of x k 255] and_sector_mask [of "x div 2 ^ k" 8]
  by (simp add: push_bit_eq_mult drop_bit_eq_div)

lemma and_hi_mask: "0 \<le> x \<Longrightarrow> x < 256 \<Longrightarrow> (x :: int) AND 0xFFFFFF7F = x mod 128"
proof -
  assume "0 \<le> x" "x < 256"
  then have "x AND 0xFF = x" using and_sector_mask [of x 8] by simp
  then have "x AND 0xFFFFFF7F = x AND (0xFF AND 0xFFFFFF7F)" by (metis and.assoc)
  also have "\<dots> = x AND (2 ^ 7 - 1)" by simp
  finally show ?thesis by (simp only: and_sector_mask) simp
qed

lemma sane_partition_ok:
  assumes "0 \<le> p" "p < 2 ^ 24" "p mod 256 = 255" "(p div 256) mod 256 = 255 \<or> (p div 256) mod 256 < 8"
    "0 \<le> current_drive s" "current_drive s < 256" "p div 65536 = 255 \<or> current_drive s AND 0x80 \<noteq> 0"
    "current_partition s = p"
  shows "sane_partition s = (True, s)"
proof -
  have "p AND 0xFF000000 = 0" using assms(1,2) and_FF_at [of p 24] by (simp add: div_pos_pos_trivial)
  moreover have "p AND 0xFF = 0xFF" using assms(3) and_sector_mask [of p 8] by simp
  moreover have "p AND 0xFF00 = 0xFF00 \<or> p AND 0xFF00 < 0x800"
    using assms(4) and_FF_at [of p 8] by auto
  moreover have "current_drive s AND 0xFFFFFF7F < 128" using and_hi_mask [OF assms(5,6)] by simp
  ultimately show ?thesis using assms(7,8) by (auto simp: sane_partition_def)
qed

section \<open>Printed names parse back\<close>

lemma decimal_head:
  assumes "0 \<le> n" "n \<le> MAXINT"
  shows "48 \<le> schar (deref (convert_to_ascii CHR ''d'' n @ rest)) \<and>
    schar (deref (convert_to_ascii CHR ''d'' n @ rest)) \<le> 57"
proof -
  let ?ds = "rev (ascii_digits 10 n)"
  have ds: "?ds \<noteq> []" "\<forall>c \<in> set ?ds. is_digit 10 c" using ascii_digits_digits [of 10 n] assms(1) by auto
  then obtain c cs where c: "?ds = c # cs" by (cases ?ds) auto
  with ds(2) have "is_digit 10 c" by (metis list.set_intros(1))
  then have "48 \<le> uint c" "uint c \<le> 57" by (auto simp: is_digit_uint split: if_splits)
  then show ?thesis using c assms by (simp add: convert_to_ascii_nonneg schar_eq)
qed

lemma not_digit_punct: "\<not> is_digit 10 44" "\<not> is_digit 10 41"
  by (simp_all add: is_digit_uint)

lemma parse_drive_hd:
  assumes "0 \<le> n" "n < 127" "c0 = 44 \<or> c0 = 41"
  shows "parse_drive nr (104 # 100 # convert_to_ascii CHR ''d'' n @ c0 # rest) c s =
    (c0 # rest, c\<lparr>disk_choice := False\<rparr>, s\<lparr>current_drive := 0x80 + n\<rparr>)"
proof -
  have "\<not> is_digit 10 c0" "c0 \<noteq> 120" "c0 \<noteq> 88" using assms(3) not_digit_punct by auto
  then have "safe_parse_maxint (convert_to_ascii CHR ''d'' n @ c0 # rest) = Inr (n, c0 # rest)"
    using assms by (intro parse_print_decimal) (auto simp: MAXINT_def)
  moreover have "(104 :: byte) \<noteq> 110" "(104 :: byte) \<noteq> 99" by code_simp+
  ultimately show ?thesis
    using assms(1,2) by (simp add: parse_drive_def is_drive_letter_def Let_def u32_id add.commute)
qed

text \<open>A BSD letter, with its comma, or nothing.\<close>

definition bsd_suffix :: "nat option \<Rightarrow> byte list" where
  "bsd_suffix k = (case k of None \<Rightarrow> [] | Some i \<Rightarrow> [44, 97 + of_nat i])"

definition part_number :: "nat \<Rightarrow> nat option \<Rightarrow> int" where
  "part_number m k = int m * 65536 + (case k of None \<Rightarrow> 255 | Some i \<Rightarrow> int i) * 256 + 255"

lemma or_add_byte: "(int i * 256) OR (int m * 65536 + 255) = int m * 65536 + int i * 256 + 255" if "i < 256"
proof -
  have "push_bit 8 (int i) + (push_bit 16 (int m) + mask 8) = push_bit 8 (int i) OR (push_bit 16 (int m) + mask 8)"
  proof (rule disjunctive_add)
    fix n
    have "push_bit 16 (int m) + mask 8 = push_bit 16 (int m) OR mask 8"
      by (rule disjunctive_add) (auto simp: bit_push_bit_iff bit_mask_iff)
    moreover have "\<not> bit (int i) n" if "8 \<le> n" for n
    proof -
      have "int i < 2 ^ 8" using \<open>i < 256\<close> by simp
      also have "(2 :: int) ^ 8 \<le> 2 ^ n" using that by (intro power_increasing) auto
      finally have "int i < 2 ^ n" .
      then show ?thesis by (simp add: bit_iff_odd div_pos_pos_trivial)
    qed
    ultimately show "\<not> bit (push_bit 8 (int i)) n \<or> \<not> bit (push_bit 16 (int m) + mask 8) n"
      by (auto simp: bit_or_iff bit_push_bit_iff bit_mask_iff)
  qed
  then show ?thesis by (simp add: push_bit_eq_mult mask_eq_exp_minus_1)
qed

lemma or_low_byte: "(int m * 65536) OR 255 = int m * 65536 + 255"
proof -
  have "push_bit 16 (int m) + mask 8 = push_bit 16 (int m) OR mask 8"
    by (rule disjunctive_add) (auto simp: bit_push_bit_iff bit_mask_iff)
  then show ?thesis by (simp add: push_bit_eq_mult mask_eq_exp_minus_1)
qed

lemma slice_no_and: "m < 256 \<Longrightarrow> slice_no m AND 0xFF00FF = int m * 65536 + 255"
proof -
  assume m: "m < 256"
  have "slice_no m AND (0xFF0000 OR 0xFF) = (slice_no m AND 0xFF0000) OR (slice_no m AND 0xFF)"
    by (rule bit.conj_disj_distrib)
  also have "slice_no m AND 0xFF0000 = int m * 65536"
    using and_FF_at [of "slice_no m" 16] m by (simp add: slice_no_div)
  also have "slice_no m AND 0xFF = 255"
  proof -
    have "slice_no m = 255 + 256 * (int m * 256 + 255)" by (simp add: slice_no_def)
    then have "slice_no m mod 256 = 255" by (simp only: mod_mult_self2) simp
    then show ?thesis using and_sector_mask [of "slice_no m" 8] by simp
  qed
  also have "(int m * 65536) OR 255 = int m * 65536 + 255"
    by (rule or_low_byte)
  finally show ?thesis by simp
qed


lemma part_number_cases:
  "m \<le> 254 \<Longrightarrow> part_number m None = slice_no m"
  "m \<le> 254 \<Longrightarrow> i < 8 \<Longrightarrow> (int i * 256) OR (slice_no m AND 0xFF00FF) = part_number m (Some i)"
  by (simp add: part_number_def slice_no_def) (simp add: part_number_def slice_no_and or_add_byte)

lemma parse_part_ok:
  assumes "m \<le> 254" "\<forall>i. k = Some i \<longrightarrow> i < 8" "current_drive s AND 0x80 \<noteq> 0"
  shows "parse_part (convert_to_ascii CHR ''d'' (int m) @ bsd_suffix k @ 41 # rest) c s =
    (Some (41 # rest), c\<lparr>part_choice := part_choice c + 1\<rparr>, s\<lparr>current_partition := part_number m k\<rparr>)"
proof -
  let ?tail = "bsd_suffix k @ 41 # rest"
  have h: "48 \<le> schar (deref (convert_to_ascii CHR ''d'' (int m) @ ?tail))"
    "schar (deref (convert_to_ascii CHR ''d'' (int m) @ ?tail)) \<le> 57"
    using decimal_head [of "int m" ?tail] assms(1) by (auto simp: MAXINT_def)
  have "deref ?tail = 44 \<or> deref ?tail = 41" by (cases k) (simp_all add: bsd_suffix_def)
  then have "safe_parse_maxint (convert_to_ascii CHR ''d'' (int m) @ ?tail) = Inr (int m, ?tail)"
    using assms(1) not_digit_punct by (intro parse_print_decimal) (auto simp: MAXINT_def)
  moreover have "u32 (int m * 65536 + 65535) = slice_no m"
    using assms(1) by (simp add: slice_no_def u32_id)
  moreover have "\<not> is_bsd_letter 41" "(41 :: byte) \<noteq> 44" by code_simp+
  moreover have "is_bsd_letter (97 + of_nat i) \<and> schar (97 + of_nat i) - 97 = int i" if "i < 8" for i
  proof -
    have "i \<in> {0, 1, 2, 3, 4, 5, 6, 7}" using that by auto
    then show ?thesis by (auto simp: is_bsd_letter_def)
  qed
  ultimately show ?thesis
    using h assms part_number_cases [OF assms(1)]
    by (cases k) (auto simp: parse_part_def bsd_suffix_def Let_def)
qed


lemma part_number_sane:
  assumes "m \<le> 254" "\<forall>i. k = Some i \<longrightarrow> i < 8"
  shows "0 \<le> part_number m k" "part_number m k < 2 ^ 24" "part_number m k mod 256 = 255"
    "(part_number m k div 256) mod 256 = 255 \<or> (part_number m k div 256) mod 256 < 8"
proof -
  define q where "q = (case k of None \<Rightarrow> 255 | Some i \<Rightarrow> int i)"
  have q: "0 \<le> q" "q < 256" "q = 255 \<or> q < 8" using assms(2) by (auto simp: q_def split: option.splits)
  have p: "part_number m k = 255 + 256 * (q + 256 * int m)" by (simp add: part_number_def q_def split: option.splits)
  have d: "part_number m k div 256 = q + 256 * int m" unfolding p by (subst div_mult_self2) auto
  show "0 \<le> part_number m k" "part_number m k < 2 ^ 24" using q assms(1) by (auto simp: p)
  show "part_number m k mod 256 = 255" unfolding p by (simp only: mod_mult_self2) simp
  show "(part_number m k div 256) mod 256 = 255 \<or> (part_number m k div 256) mod 256 < 8"
    using q unfolding d by simp
qed

definition device_name :: "nat \<Rightarrow> nat \<Rightarrow> nat option \<Rightarrow> cstr" where
  "device_name n m k = bytes_of ''(hd'' @ convert_to_ascii CHR ''d'' (int n) @ bytes_of '','' @
     convert_to_ascii CHR ''d'' (int m) @ bsd_suffix k @ bytes_of '')''"

text \<open>
  C19: Device names parse back. The name \<^verbatim>\<open>(hd<n>,<m>)\<close> or \<^verbatim>\<open>(hd<n>,<m>,<letter>)\<close> with
  printed decimal numbers, followed by any text, makes \<^verbatim>\<open>set_device\<close> return that text,
  with the current drive 0x80 + n and the partition number whose bytes are the slice, the BSD
  letter (0xFF without one) and 0xFF; no error is raised and nothing else changes.
\<close>

theorem set_device_roundtrip:
  assumes "n < 127" "m \<le> 254" "\<forall>i. k = Some i \<longrightarrow> i < 8" "errnum s = ERR_NONE"
  shows "\<exists>c. set_device nr (device_name n m k @ rest) s =
    (Some rest, device_name n m k @ rest, c,
     s\<lparr>current_drive := 0x80 + int n, current_partition := part_number m k\<rparr>)"
proof -
  let ?num = "convert_to_ascii CHR ''d'' (int n)"
  let ?tail = "convert_to_ascii CHR ''d'' (int m) @ bsd_suffix k @ 41 # rest"
  have dn: "device_name n m k @ rest = 40 # 104 # 100 # ?num @ 44 # ?tail"
    by (simp add: device_name_def bytes_of_def)
  define c0 where "c0 = \<lparr>incomplete = False, disk_choice = True, part_choice = 0\<rparr>"
  define s1 where "s1 = s\<lparr>current_drive := saved_drive s, current_partition := 0xFFFFFF\<rparr>"
  define s2 where "s2 = s1\<lparr>current_drive := 0x80 + int n\<rparr>"
  have pd: "parse_drive nr (104 # 100 # ?num @ 44 # ?tail) c0 s1 = (44 # ?tail, c0\<lparr>disk_choice := False\<rparr>, s2)"
    using assms(1) by (subst parse_drive_hd) (auto simp: s2_def)
  define c1 where "c1 = c0\<lparr>disk_choice := False, part_choice := 1\<rparr>"
  have pp: "parse_part ?tail c1 s2 = (Some (41 # rest), c1\<lparr>part_choice := 2\<rparr>, s2\<lparr>current_partition := part_number m k\<rparr>)"
    using parse_part_ok [OF assms(2,3), of s2 rest c1] hd_bit [of n] assms(1) by (simp add: s2_def c1_def)
  define s3 where "s3 = s2\<lparr>current_partition := part_number m k\<rparr>"
  have sane: "sane_partition s3 = (True, s3)"
    using part_number_sane [OF assms(2,3)] assms(1) hd_bit [of n]
    by (intro sane_partition_ok) (auto simp: s3_def s2_def)
  have ne: "(104 :: byte) \<noteq> 44" "(104 :: byte) \<noteq> 41" "(44 :: byte) \<noteq> 41" "(100 :: byte) \<noteq> 0"
    by code_simp+
  have "deref (?num @ 44 # ?tail) \<noteq> 0"
    using decimal_head [of "int n" "44 # ?tail"] assms(1) by (auto simp: MAXINT_def)
  then have "set_device nr (device_name n m k @ rest) s = parse_rest (44 # ?tail) (device_name n m k @ rest) (c0\<lparr>disk_choice := False\<rparr>) s2"
    unfolding dn set_device_def using ne pd by (simp add: c0_def [symmetric] s1_def [symmetric] Let_def)
  also have "\<dots> = (Some rest, device_name n m k @ rest, c1\<lparr>part_choice := 2\<rparr>, s3)"
  proof -
    have e: "errnum s2 = ERR_NONE" using assms(4) by (simp add: s2_def s1_def)
    have c: "c0\<lparr>disk_choice := False, part_choice := 1\<rparr> = c1" "part_choice c0 = 0"
      by (simp_all add: c1_def c0_def)
    show ?thesis
      using ne pp [folded s3_def] sane
      by (simp add: parse_rest_def finish_device_def e c [unfolded One_nat_def])
  qed
  finally show ?thesis by (simp add: s3_def s2_def s1_def)
qed

theorem set_device_roundtrip_witness:
  "\<exists>c. set_device False (device_name 0 3 (Some 1) @ bytes_of ''/boot'') (sample_state sample_image) =
    (Some (bytes_of ''/boot''), device_name 0 3 (Some 1) @ bytes_of ''/boot'', c,
     (sample_state sample_image)\<lparr>current_drive := 0x80, current_partition := part_number 3 (Some 1)\<rparr>)"
  using set_device_roundtrip [of 0 3 "Some 1" "sample_state sample_image" False "bytes_of ''/boot''"] by simp

end
