(* ===== verification/Block_File.thy ===== *)
theory Block_File
  imports Fat
begin

text \<open>
  Block files, the part of \<^verbatim>\<open>grub_open\<close> and \<^verbatim>\<open>grub_read\<close> (\<^verbatim>\<open>stage2/disk_io.c\<close>) for
  file names that are block lists such as \<^verbatim>\<open>0+1,5+20\<close>. The block list area of the file
  system buffer (\<^verbatim>\<open>BLK_CUR_FILEPOS\<close>, \<^verbatim>\<open>BLK_CUR_BLKLIST\<close>, \<^verbatim>\<open>BLK_CUR_BLKNUM\<close> and the
  list itself) is the record \<open>blk_area\<close>; an address in the list is the number of its
  eight-byte entry, counted from \<^verbatim>\<open>BLK_BLKLIST_START\<close>.

  Reading is proved to deliver the concatenated sectors of the list, from any cursor; a printed
  block list is proved to parse back.
\<close>

section \<open>Definitions\<close>

record blk_area =
  BLK_CUR_FILEPOS :: int
  BLK_CUR_BLKLIST :: nat
  BLK_CUR_BLKNUM :: int
  BLK_BLKSTART :: "nat \<Rightarrow> int"
  BLK_BLKLENGTH :: "nat \<Rightarrow> int"

text \<open>The entries from \<^verbatim>\<open>FSYS_BUF + 12\<close> in steps of 8 below \<^verbatim>\<open>FSYS_BUF + 0x7FF9\<close>.\<close>

definition BLK_MAX :: nat where
  "BLK_MAX = 4094"

subsection \<open>Opening\<close>

definition ends_list :: "byte \<Rightarrow> bool" where
  "ends_list c \<longleftrightarrow> c = 0 \<or> c = 47 \<or> grub_isspace (schar c)"

text \<open>The loop of \<^verbatim>\<open>grub_open\<close> over a block list. The result is the position in the name, the
  number of entries stored, the error if any, \<^verbatim>\<open>filemax\<close>, whether \<^verbatim>\<open>fsys_type\<close> was set to
  \<^verbatim>\<open>NUM_FSYS\<close>, and the area. Each round passes a plus sign, so the name gets shorter.\<close>

function blk_parse :: "int \<Rightarrow> cstr \<Rightarrow> nat \<Rightarrow> int \<Rightarrow> bool \<Rightarrow> blk_area \<Rightarrow>
    cstr \<times> nat \<times> grub_error \<times> int \<times> bool \<times> blk_area" where
  "blk_parse ss ptr i fmax remount blk =
     (if \<not> i < BLK_MAX then (ptr, i, ERR_NONE, fmax, remount, blk)
      else let (tmp, ptr1) = (case safe_parse_maxint ptr of Inl e \<Rightarrow> (0, ptr) | Inr (n, rest) \<Rightarrow> (n, rest))
           in if deref ptr1 \<noteq> 43
              then if \<not> ends_list (deref ptr1) \<or> tmp = 0 \<or> tmp > fmax
                   then (ptr1, i, ERR_BAD_FILENAME, fmax, remount, blk)
                   else (ptr1, i, ERR_NONE, tmp, remount, blk)
              else let blk1 = blk\<lparr>BLK_BLKSTART := (BLK_BLKSTART blk)(i := tmp)\<rparr>; ptr2 = drop 1 ptr1
                   in case safe_parse_maxint ptr2 of
                        Inl e \<Rightarrow> (ptr2, i, ERR_BAD_FILENAME, fmax, True, blk1)
                      | Inr (n, ptr3) \<Rightarrow>
                          if n = 0 \<or> \<not> (ends_list (deref ptr3) \<or> deref ptr3 = 44)
                          then (ptr3, i, ERR_BAD_FILENAME, fmax, True, blk1)
                          else let blk2 = blk1\<lparr>BLK_BLKLENGTH := (BLK_BLKLENGTH blk1)(i := n)\<rparr>;
                                   fmax1 = s32 (fmax + s32 (n * ss))
                               in if deref ptr3 \<noteq> 44 then (ptr3, Suc i, ERR_NONE, fmax1, True, blk2)
                                  else blk_parse ss (drop 1 ptr3) (Suc i) fmax1 True blk2)"
  by pat_completeness auto
termination
  by (relation "measure (\<lambda>(ss, ptr, i, fmax, remount, blk). BLK_MAX - i)") auto

declare blk_parse.simps [simp del]

subsection \<open>Reading\<close>

text \<open>The loop that runs \<^verbatim>\<open>BLK_CUR_FILEPOS\<close> up to \<^verbatim>\<open>filepos\<close>. With a sector size that is
  not positive it need not end. The cursor passes \<^verbatim>\<open>filepos\<close> by less than a sector, so its
  sum is not cut to 32 bits here.\<close>

function blk_seek :: "int \<Rightarrow> int \<Rightarrow> blk_area \<Rightarrow> blk_area option" where
  "blk_seek ss pos blk =
     (if pos > BLK_CUR_FILEPOS blk
      then if ss \<le> 0 then None
           else if pos - (BLK_CUR_FILEPOS blk AND NOT (ss - 1)) \<ge> ss
           then let blk1 = blk\<lparr>BLK_CUR_FILEPOS := BLK_CUR_FILEPOS blk + ss, BLK_CUR_BLKNUM := BLK_CUR_BLKNUM blk + 1\<rparr>
                in blk_seek ss pos
                     (if BLK_CUR_BLKNUM blk1 \<ge> BLK_BLKLENGTH blk1 (BLK_CUR_BLKLIST blk1)
                      then blk1\<lparr>BLK_CUR_BLKLIST := BLK_CUR_BLKLIST blk1 + 1, BLK_CUR_BLKNUM := 0\<rparr> else blk1)
           else blk_seek ss pos (blk\<lparr>BLK_CUR_FILEPOS := pos\<rparr>)
      else Some blk)"
  by auto
termination
  by (relation "measure (\<lambda>(ss, pos, blk). nat (pos - BLK_CUR_FILEPOS blk))") auto

declare blk_seek.simps [simp del]

text \<open>The read loop; \<open>pos\<close> is how far \<^verbatim>\<open>buf\<close> has been advanced, which is also \<^verbatim>\<open>ret\<close>. A
  cursor outside the list, where no progress is made, gives \<open>None\<close>.\<close>

function blk_read_loop ::
    "'a reader \<Rightarrow> int \<Rightarrow> int \<Rightarrow> nat \<Rightarrow> mem \<Rightarrow> blk_area \<Rightarrow> 'a stage2_scheme \<Rightarrow>
       (int \<times> mem \<times> blk_area \<times> 'a stage2_scheme) option" where
  "blk_read_loop rd ss len pos buf blk s =
     (if len \<noteq> 0 \<and> errnum s = ERR_NONE
      then let blk1 = (if filepos s < BLK_CUR_FILEPOS blk
                       then blk\<lparr>BLK_CUR_FILEPOS := 0, BLK_CUR_BLKLIST := 0, BLK_CUR_BLKNUM := 0\<rparr> else blk)
           in case blk_seek ss (filepos s) blk1 of
                None \<Rightarrow> None
              | Some blk2 \<Rightarrow>
                  (let off = filepos s AND (ss - 1);
                       size1 = s32 ((BLK_BLKLENGTH blk2 (BLK_CUR_BLKLIST blk2) - BLK_CUR_BLKNUM blk2) * ss - off);
                       size2 = (if size1 > len then len else size1)
                   in if size2 \<le> 0 then None
                      else case rd (s32 (BLK_BLKSTART blk2 (BLK_CUR_BLKLIST blk2) + BLK_CUR_BLKNUM blk2)) off size2
                                  (\<lambda>k. buf (pos + k)) (s\<lparr>disk_read_func := disk_read_hook s\<rparr>) of
                        None \<Rightarrow> None
                      | Some (_, m, s1) \<Rightarrow>
                          blk_read_loop rd ss (len - size2) (pos + nat size2)
                            (\<lambda>k. if pos \<le> k then m (k - pos) else buf k) blk2
                            (s1\<lparr>disk_read_func := False, filepos := filepos s1 + size2\<rparr>))
      else Some (if errnum s \<noteq> ERR_NONE then 0 else int pos, buf, blk, s))"
  by pat_completeness auto
termination
  by (relation "measure (\<lambda>(rd, ss, len, pos, buf, blk, s). nat len)") (auto split: if_splits)

declare blk_read_loop.simps [simp del]

section \<open>The sectors of a block list\<close>

type_synonym blk_list = "(int \<times> int) list"

definition blk_sectors :: "blk_list \<Rightarrow> int list" where
  "blk_sectors bl = concat (map (\<lambda>(a, n). map (\<lambda>i. a + int i) [0..<nat n]) bl)"

definition blk_before :: "blk_list \<Rightarrow> nat \<Rightarrow> nat" where
  "blk_before bl l = length (blk_sectors (take l bl))"

text \<open>Byte \<open>q\<close> of a block file on the partition image \<open>P\<close>.\<close>

definition blk_byte :: "mem \<Rightarrow> nat \<Rightarrow> blk_list \<Rightarrow> nat \<Rightarrow> byte" where
  "blk_byte P b bl q = P (nat (blk_sectors bl ! (q div 2 ^ b) * 2 ^ b) + q mod 2 ^ b)"

definition blk_size :: "nat \<Rightarrow> blk_list \<Rightarrow> nat" where
  "blk_size b bl = length (blk_sectors bl) * 2 ^ b"

text \<open>The area holds the list, whose extents lie in the first \<open>N\<close> sectors.\<close>

definition blk_ok :: "int \<Rightarrow> blk_list \<Rightarrow> blk_area \<Rightarrow> bool" where
  "blk_ok N bl blk \<longleftrightarrow> (\<forall>i < length bl. BLK_BLKSTART blk i = fst (bl ! i) \<and> BLK_BLKLENGTH blk i = snd (bl ! i) \<and>
     0 \<le> fst (bl ! i) \<and> 0 < snd (bl ! i) \<and> fst (bl ! i) + snd (bl ! i) \<le> N)"

text \<open>The cursor's entry and block number are those of the \<open>k\<close>-th sector.\<close>

definition blk_at :: "blk_list \<Rightarrow> nat \<Rightarrow> blk_area \<Rightarrow> bool" where
  "blk_at bl k blk \<longleftrightarrow> BLK_CUR_BLKLIST blk < length bl \<and> 0 \<le> BLK_CUR_BLKNUM blk \<and>
     BLK_CUR_BLKNUM blk < snd (bl ! BLK_CUR_BLKLIST blk) \<and> k = blk_before bl (BLK_CUR_BLKLIST blk) + nat (BLK_CUR_BLKNUM blk)"

definition blk_cursor :: "nat \<Rightarrow> blk_list \<Rightarrow> blk_area \<Rightarrow> bool" where
  "blk_cursor b bl blk \<longleftrightarrow> (\<exists>c. BLK_CUR_FILEPOS blk = int c \<and> blk_at bl (c div 2 ^ b) blk)"

lemma blk_sectors_append: "blk_sectors (xs @ ys) = blk_sectors xs @ blk_sectors ys"
  by (simp add: blk_sectors_def)

lemma blk_sectors_Cons: "blk_sectors ((a, n) # bl) = map (\<lambda>i. a + int i) [0..<nat n] @ blk_sectors bl"
  by (simp add: blk_sectors_def)

lemma blk_before_0 [simp]: "blk_before bl 0 = 0"
  by (simp add: blk_before_def blk_sectors_def)

lemma blk_before_Suc: "l < length bl \<Longrightarrow> blk_before bl (Suc l) = blk_before bl l + nat (snd (bl ! l))"
  by (cases "bl ! l") (simp add: blk_before_def take_Suc_conv_app_nth blk_sectors_append blk_sectors_Cons, simp add: blk_sectors_def)

lemma blk_before_all: "length bl \<le> l \<Longrightarrow> blk_before bl l = length (blk_sectors bl)"
  by (simp add: blk_before_def)

lemma blk_at_nth:
  assumes "blk_at bl k blk" "j < nat (snd (bl ! BLK_CUR_BLKLIST blk) - BLK_CUR_BLKNUM blk)"
  shows "blk_sectors bl ! (k + j) = fst (bl ! BLK_CUR_BLKLIST blk) + BLK_CUR_BLKNUM blk + int j"
    "k + j < length (blk_sectors bl)"
proof -
  let ?l = "BLK_CUR_BLKLIST blk" and ?n = "BLK_CUR_BLKNUM blk"
  obtain a m where am: "bl ! ?l = (a, m)" by (cases "bl ! ?l")
  have k: "?l < length bl" "0 \<le> ?n" "?n < m" "k = blk_before bl ?l + nat ?n"
    using assms(1) am by (auto simp: blk_at_def)
  have s: "blk_sectors bl = blk_sectors (take ?l bl) @ map (\<lambda>i. a + int i) [0..<nat m] @ blk_sectors (drop (Suc ?l) bl)"
    using id_take_nth_drop [OF k(1)] am by (metis blk_sectors_append blk_sectors_Cons)
  have j: "nat ?n + j < nat m" using assms(2) k(2,3) am by auto
  show "blk_sectors bl ! (k + j) = fst (bl ! ?l) + ?n + int j"
    using j k(2) am unfolding s k(4) blk_before_def by (simp add: nth_append add.assoc)
  show "k + j < length (blk_sectors bl)"
    using j unfolding s k(4) blk_before_def by simp
qed

text \<open>One sector on.\<close>

lemma blk_at_step:
  assumes "blk_ok N bl blk" "blk_at bl k blk" "k + 1 < length (blk_sectors bl)"
  shows "blk_at bl (k + 1)
    (if BLK_CUR_BLKNUM blk + 1 \<ge> BLK_BLKLENGTH blk (BLK_CUR_BLKLIST blk)
     then blk\<lparr>BLK_CUR_FILEPOS := p, BLK_CUR_BLKLIST := BLK_CUR_BLKLIST blk + 1, BLK_CUR_BLKNUM := 0\<rparr>
     else blk\<lparr>BLK_CUR_FILEPOS := p, BLK_CUR_BLKNUM := BLK_CUR_BLKNUM blk + 1\<rparr>)"
proof -
  let ?l = "BLK_CUR_BLKLIST blk" and ?n = "BLK_CUR_BLKNUM blk"
  have k: "?l < length bl" "0 \<le> ?n" "?n < snd (bl ! ?l)" "k = blk_before bl ?l + nat ?n"
    using assms(2) by (auto simp: blk_at_def)
  have len: "BLK_BLKLENGTH blk ?l = snd (bl ! ?l)" using assms(1) k(1) by (simp add: blk_ok_def)
  show ?thesis
  proof (cases "?n + 1 \<ge> snd (bl ! ?l)")
    case True
    then have e: "k + 1 = blk_before bl (Suc ?l)" using k blk_before_Suc [OF k(1)] by simp
    then have "Suc ?l < length bl" using assms(3) blk_before_all [of bl "Suc ?l"] by (cases "Suc ?l < length bl") auto
    then show ?thesis using True e len assms(1) by (simp add: blk_at_def blk_ok_def)
  next
    case False
    then show ?thesis using k len by (simp add: blk_at_def)
  qed
qed

text \<open>What the cursor loop keeps.\<close>

definition same_list :: "blk_area \<Rightarrow> blk_area \<Rightarrow> bool" where
  "same_list x y \<longleftrightarrow> BLK_BLKSTART y = BLK_BLKSTART x \<and> BLK_BLKLENGTH y = BLK_BLKLENGTH x"

lemma same_list_ok: "same_list x y \<Longrightarrow> blk_ok N bl y = blk_ok N bl x"
  by (simp add: same_list_def blk_ok_def)

lemma seek_ok:
  assumes "blk_ok N bl blk" "BLK_CUR_FILEPOS blk = int c" "blk_at bl (c div 2 ^ b) blk"
    "c div 2 ^ b \<le> q div 2 ^ b" "q < blk_size b bl"
  shows "\<exists>blk' c'. blk_seek (2 ^ b) (int q) blk = Some blk' \<and> same_list blk blk' \<and> BLK_CUR_FILEPOS blk' = int c' \<and>
    c' div 2 ^ b = q div 2 ^ b \<and> blk_at bl (q div 2 ^ b) blk'"
  using assms
proof (induction "q - c" arbitrary: c blk rule: less_induct)
  case less
  let ?ss = "2 ^ b :: nat"
  have floor: "int c AND NOT (2 ^ b - 1) = int (c div ?ss * ?ss)"
    by (simp add: and_not_low minus_mod_eq_div_mult zdiv_int)
  show ?case
  proof (cases "c < q")
    case False
    then have "c div ?ss = q div ?ss" using less.prems(4) div_le_mono [of q c ?ss] by simp
    then show ?thesis
      using False less.prems by (intro exI [of _ blk] exI [of _ c]) (subst blk_seek.simps, simp add: same_list_def)
  next
    case True
    show ?thesis
    proof (cases "c div ?ss < q div ?ss")
      case lt: True
      define blk1 where "blk1 = (if BLK_CUR_BLKNUM blk + 1 \<ge> BLK_BLKLENGTH blk (BLK_CUR_BLKLIST blk)
        then blk\<lparr>BLK_CUR_FILEPOS := int (c + ?ss), BLK_CUR_BLKLIST := BLK_CUR_BLKLIST blk + 1, BLK_CUR_BLKNUM := 0\<rparr>
        else blk\<lparr>BLK_CUR_FILEPOS := int (c + ?ss), BLK_CUR_BLKNUM := BLK_CUR_BLKNUM blk + 1\<rparr>)"
      have q: "q div ?ss < length (blk_sectors bl)"
        using less.prems(5) by (simp add: blk_size_def div_less_iff_less_mult)
      have a: "blk_at bl (c div ?ss + 1) blk1"
        unfolding blk1_def using less.prems(1,3) lt q by (intro blk_at_step) auto
      have s: "same_list blk blk1" by (simp add: blk1_def same_list_def)
      have "(c div ?ss + 1) * ?ss \<le> q div ?ss * ?ss" using lt by (intro mult_right_mono) auto
      also have "\<dots> \<le> q" by simp
      finally have "int (c div ?ss * ?ss + ?ss) \<le> int q" unfolding of_nat_le_iff by simp
      then have big: "int q - int (c div ?ss * ?ss) \<ge> 2 ^ b" by simp
      have e: "blk_seek (2 ^ b) (int q) blk = blk_seek (2 ^ b) (int q) blk1"
        using True big less.prems(2) unfolding floor [symmetric]
        by (subst blk_seek.simps) (auto simp: blk1_def Let_def)
      have "\<exists>blk' c'. blk_seek (2 ^ b) (int q) blk1 = Some blk' \<and> same_list blk1 blk' \<and> BLK_CUR_FILEPOS blk' = int c' \<and>
          c' div ?ss = q div ?ss \<and> blk_at bl (q div ?ss) blk'"
      proof (rule less.hyps)
        have d: "(c + ?ss) div ?ss = c div ?ss + 1" using div_add_self2 [of ?ss c] by simp
        show "q - (c + ?ss) < q - c" using True by (intro diff_less_mono2) auto
        show "blk_ok N bl blk1" using less.prems(1) same_list_ok [OF s] by simp
        show "BLK_CUR_FILEPOS blk1 = int (c + ?ss)" by (simp add: blk1_def)
        show "blk_at bl ((c + ?ss) div ?ss) blk1" unfolding d by (rule a)
        show "(c + ?ss) div ?ss \<le> q div ?ss" unfolding d using lt by simp
      qed (rule less.prems(5))
      then show ?thesis using e s by (auto simp: same_list_def)
    next
      case False
      then have eq: "c div ?ss = q div ?ss" using less.prems(4) by simp
      have "q - q div ?ss * ?ss < ?ss" by (simp add: minus_div_mult_eq_mod)
      then have small: "\<not> int q - int (c div ?ss * ?ss) \<ge> 2 ^ b"
        using eq by (simp add: not_le) (metis (mono_tags, lifting) less_imp_of_nat_less of_nat_diff div_times_less_eq_dividend of_nat_power of_nat_numeral of_nat_mult)
      have "blk_seek (2 ^ b) (int q) (blk\<lparr>BLK_CUR_FILEPOS := int q\<rparr>) = Some (blk\<lparr>BLK_CUR_FILEPOS := int q\<rparr>)"
        by (subst blk_seek.simps) simp
      then have "blk_seek (2 ^ b) (int q) blk = Some (blk\<lparr>BLK_CUR_FILEPOS := int q\<rparr>)"
        using True small less.prems(2) unfolding floor [symmetric] by (subst blk_seek.simps) simp
      then show ?thesis
        using less.prems(3) eq by (intro exI [of _ "blk\<lparr>BLK_CUR_FILEPOS := int q\<rparr>"] exI [of _ q]) (simp add: same_list_def blk_at_def)
    qed
  qed
qed


context block_reader
begin

lemma blk_read_ok:
  assumes "serves P b N s" "errnum s = ERR_NONE" "blk_ok N bl blk" "blk_cursor b bl blk" "bl \<noteq> []"
    "filepos s = int q" "q + len \<le> blk_size b bl" "blk_size b bl < 2 ^ 30"
  shows "\<exists>buf' blk' s'. blk_read_loop rd (2 ^ b) (int len) pos buf blk s = Some (int (pos + len), buf', blk', s') \<and>
    (\<forall>k. buf' k = (if pos \<le> k \<and> k < pos + len then blk_byte P b bl (q + (k - pos)) else buf k)) \<and>
    serves P b N s' \<and> file_step s s' \<and> filepos s' = int (q + len) \<and> same_list blk blk' \<and> blk_cursor b bl blk'"
  using assms
proof (induction len arbitrary: q pos buf blk s rule: less_induct)
  case (less len)
  show ?case
  proof (cases "len = 0")
    case True
    then show ?thesis
      using less.prems by (intro exI [of _ buf] exI [of _ blk] exI [of _ s]) (subst blk_read_loop.simps, auto simp: same_list_def)
  next
    case False
    let ?ss = "2 ^ b :: nat"
    define blk1 where "blk1 = (if int q < BLK_CUR_FILEPOS blk
      then blk\<lparr>BLK_CUR_FILEPOS := 0, BLK_CUR_BLKLIST := 0, BLK_CUR_BLKNUM := 0\<rparr> else blk)"
    have s1: "same_list blk blk1" by (simp add: blk1_def same_list_def)
    have "\<exists>c. BLK_CUR_FILEPOS blk1 = int c \<and> blk_at bl (c div ?ss) blk1 \<and> c div ?ss \<le> q div ?ss"
    proof (cases "int q < BLK_CUR_FILEPOS blk")
      case True
      then show ?thesis
        using less.prems(3,5) by (intro exI [of _ 0]) (auto simp: blk1_def blk_at_def blk_ok_def)
    next
      case False
      then show ?thesis using less.prems(4,6) by (auto simp: blk1_def blk_cursor_def not_less intro!: div_le_mono)
    qed
    then obtain c where c: "BLK_CUR_FILEPOS blk1 = int c" "blk_at bl (c div ?ss) blk1" "c div ?ss \<le> q div ?ss" by blast
    have ql: "q < blk_size b bl" using False less.prems(7) by simp
    obtain blk2 c2 where b2: "blk_seek (2 ^ b) (int q) blk1 = Some blk2" "same_list blk1 blk2" "BLK_CUR_FILEPOS blk2 = int c2"
        "c2 div ?ss = q div ?ss" "blk_at bl (q div ?ss) blk2"
      using seek_ok [OF _ c ql, of N] less.prems(3) same_list_ok [OF s1] by blast
    have ok2: "blk_ok N bl blk2" using less.prems(3) same_list_ok [OF s1] same_list_ok [OF b2(2)] by simp
    let ?l = "BLK_CUR_BLKLIST blk2" and ?n = "BLK_CUR_BLKNUM blk2"
    have l: "?l < length bl" "0 \<le> ?n" "?n < snd (bl ! ?l)" using b2(5) by (auto simp: blk_at_def)
    have ll: "BLK_BLKSTART blk2 ?l = fst (bl ! ?l)" "BLK_BLKLENGTH blk2 ?l = snd (bl ! ?l)" "0 \<le> fst (bl ! ?l)"
      "fst (bl ! ?l) + snd (bl ! ?l) \<le> N" using ok2 l(1) by (auto simp: blk_ok_def)
    define off where "off = q mod ?ss"
    define m where "m = nat (snd (bl ! ?l) - ?n)"
    have m: "0 < m" "int m = snd (bl ! ?l) - ?n" using l by (auto simp: m_def)
    have off: "off < ?ss" by (simp add: off_def)
    have "?ss * 1 \<le> ?ss * m" using m(1) by (intro mult_left_mono) auto
    then have "?ss \<le> m * ?ss" by (simp only: mult.commute [of m] mult_1_right)
    then have room: "off < m * ?ss" using off by linarith
    define n where "n = min len (m * ?ss - off)"
    have n: "0 < n" "n \<le> len" "off + n \<le> m * ?ss" using False room by (auto simp: n_def)
    define sec where "sec = fst (bl ! ?l) + ?n"
    have sec: "0 \<le> sec" "sec + int m \<le> N" "sec < 2 ^ 31" "s32 sec = sec"
    proof -
      show "0 \<le> sec" "sec + int m \<le> N" using ll l m by (auto simp: sec_def)
      then show "sec < 2 ^ 31" using m size_ok [OF less.prems(1)] by linarith
      then show "s32 sec = sec" using \<open>0 \<le> sec\<close> by (intro s32_id) auto
    qed
    have msz: "m * ?ss < 2 ^ 30"
    proof -
      have "q div ?ss + (m - 1) < length (blk_sectors bl)" using blk_at_nth(2) [OF b2(5), of "m - 1"] m(1) by (simp add: m_def)
      then have "m \<le> length (blk_sectors bl)" using m(1) by linarith
      then have "m * ?ss \<le> blk_size b bl" unfolding blk_size_def by (intro mult_right_mono) auto
      then show ?thesis using less.prems(8) by linarith
    qed
    let ?s = "s\<lparr>disk_read_func := disk_read_hook s\<rparr>"
    have sv: "serves P b N ?s" using less.prems(1) by (rule serves_frame) auto
    have "(sec + int m) * 2 ^ b \<le> N * 2 ^ b" using sec(2) by (intro mult_right_mono) auto
    then have r: "sec * 2 ^ b + int off + int n \<le> N * 2 ^ b"
      using n(3) of_nat_mono [OF n(3), where 'a = int] by (simp add: distrib_right)
    have "n < 2 ^ 30" using n(3) msz by linarith
    then have "int n < 2 ^ 30" by simp
    moreover have "off + n \<le> 2 ^ 31" using le_less_trans [OF n(3) msz] by simp
    then have "int off + int n \<le> 2 ^ 31" by simp
    ultimately obtain s2 where s2: "rd sec (int off) (int n) (\<lambda>k. buf (pos + k)) ?s =
          Some (True, copy_mem (\<lambda>k. buf (pos + k)) 0 P (nat (sec * 2 ^ b + int off)) n, s2)"
        "serves P b N s2" "reads_only ?s s2"
      using read_ok [OF sv, of sec "int off" "int n" "\<lambda>k. buf (pos + k)"] sec(1) n r less.prems(2) by auto
    let ?s2 = "s2\<lparr>disk_read_func := False, filepos := filepos s2 + int n\<rparr>"
    define buf2 where "buf2 = (\<lambda>k. if pos \<le> k then copy_mem (\<lambda>k. buf (pos + k)) 0 P (nat (sec * 2 ^ b + int off)) n (k - pos) else buf k)"
    have step: "blk_read_loop rd (2 ^ b) (int len) pos buf blk s =
        blk_read_loop rd (2 ^ b) (int len - int n) (pos + n) buf2 blk2 ?s2"
    proof -
      have o: "int q AND (2 ^ b - 1) = int off" unfolding and_sector_mask by (simp add: off_def zmod_int)
      have "s32 ((snd (bl ! ?l) - ?n) * 2 ^ b - int off) = int (m * ?ss - off)"
      proof -
        have "(snd (bl ! ?l) - ?n) * 2 ^ b - int off = int (m * ?ss - off)"
          using room m(2) by (simp add: of_nat_diff less_imp_le)
        moreover have "int (m * ?ss - off) < 2 ^ 31" using msz by (simp only: of_nat_less_numeral_power_cancel_iff) simp
        ultimately show ?thesis by (subst s32_id) auto
      qed
      then have "(if s32 ((snd (bl ! ?l) - ?n) * 2 ^ b - int off) > int len then int len
          else s32 ((snd (bl ! ?l) - ?n) * 2 ^ b - int off)) = int n"
        unfolding n_def by auto
      then show ?thesis
        using False less.prems(2) b2(1) s2(1) n sec(4) ll
        by (subst blk_read_loop.simps)
           (simp add: Let_def less.prems(6) blk1_def [symmetric] o sec_def [symmetric] buf2_def split del: if_split)
    qed
    have fb: "P (nat (sec * 2 ^ b + int off) + j) = blk_byte P b bl (q + j)" if "j < n" for j
    proof -
      define i where "i = (off + j) div ?ss"
      have "off + j < m * ?ss" using that n(3) by linarith
      then have i: "i < m" by (simp add: i_def div_less_iff_less_mult)
      have qq: "q + j = (off + j) + q div ?ss * ?ss" using mod_div_mult_eq [of q ?ss] by (simp add: off_def)
      have d: "(q + j) div ?ss = q div ?ss + i" "(q + j) mod ?ss = (off + j) mod ?ss"
        unfolding i_def by (subst qq, simp)+
      have "blk_sectors bl ! (q div ?ss + i) = sec + int i" using blk_at_nth(1) [OF b2(5)] i by (simp add: m_def sec_def)
      then have "blk_byte P b bl (q + j) = P (nat ((sec + int i) * 2 ^ b) + (off + j) mod ?ss)"
        unfolding blk_byte_def d by simp
      moreover have "nat ((sec + int i) * 2 ^ b) + (off + j) mod ?ss = nat (sec * 2 ^ b + int off) + j"
      proof -
        have "int i * 2 ^ b + int ((off + j) mod ?ss) = int off + int j"
        proof -
          have "int (i * ?ss + (off + j) mod ?ss) = int (off + j)" unfolding i_def div_mult_mod_eq ..
          then show ?thesis by simp
        qed
        moreover have "0 \<le> sec * 2 ^ b" "0 \<le> (sec + int i) * 2 ^ b" using sec(1) by simp_all
        ultimately show ?thesis by (simp add: distrib_right flip: of_nat_eq_iff [where 'a = int])
      qed
      ultimately show ?thesis by simp
    qed
    have fstep: "file_step s ?s2"
      using file_step_trans [OF file_step_trans [OF file_step_update(1) file_step_reads [OF s2(3)]] file_step_update(2)] .
    have "\<exists>buf' blk' s'. blk_read_loop rd (2 ^ b) (int (len - n)) (pos + n) buf2 blk2 ?s2 =
          Some (int ((pos + n) + (len - n)), buf', blk', s') \<and>
        (\<forall>k. buf' k = (if pos + n \<le> k \<and> k < (pos + n) + (len - n) then blk_byte P b bl ((q + n) + (k - (pos + n))) else buf2 k)) \<and>
        serves P b N s' \<and> file_step ?s2 s' \<and> filepos s' = int ((q + n) + (len - n)) \<and> same_list blk2 blk' \<and> blk_cursor b bl blk'"
    proof (rule less.IH)
      show "len - n < len" using n by simp
      show "serves P b N ?s2" using s2(2) by (rule serves_frame) auto
      show "errnum ?s2 = ERR_NONE" using file_step_simps(1) [OF fstep] less.prems(2) by simp
      show "blk_cursor b bl blk2" using b2 by (auto simp: blk_cursor_def)
      show "filepos ?s2 = int (q + n)" using less.prems(6) reads_only_simps(2) [OF s2(3)] by simp
    qed (use ok2 n less.prems in auto)
    then obtain buf' blk' s' where ih: "blk_read_loop rd (2 ^ b) (int len - int n) (pos + n) buf2 blk2 ?s2 =
          Some (int (pos + len), buf', blk', s')"
        "\<forall>k. buf' k = (if pos + n \<le> k \<and> k < pos + len then blk_byte P b bl (q + (k - pos)) else buf2 k)"
        "serves P b N s'" "file_step ?s2 s'" "filepos s' = int (q + len)" "same_list blk2 blk'" "blk_cursor b bl blk'"
      using n(2) by (auto simp: of_nat_diff)
    have "buf' k = (if pos \<le> k \<and> k < pos + len then blk_byte P b bl (q + (k - pos)) else buf k)" for k
      using ih(2) n fb [of "k - pos"] by (auto simp: buf2_def copy_mem_def)
    then show ?thesis
      using ih(1) unfolding step
      using ih(3-) file_step_trans [OF fstep ih(4)] s1 b2(2) by (auto simp: same_list_def)
  qed
qed

end

section \<open>A printed block list parses back\<close>

fun print_blocks :: "blk_list \<Rightarrow> cstr" where
  "print_blocks [] = []"
| "print_blocks ((a, n) # bl) = convert_to_ascii CHR ''d'' a @ 43 # convert_to_ascii CHR ''d'' n @
     (if bl = [] then [] else 44 # print_blocks bl)"

fun blk_store :: "nat \<Rightarrow> blk_list \<Rightarrow> blk_area \<Rightarrow> blk_area" where
  "blk_store i [] blk = blk"
| "blk_store i ((a, n) # bl) blk =
     blk_store (Suc i) bl (blk\<lparr>BLK_BLKSTART := (BLK_BLKSTART blk)(i := a), BLK_BLKLENGTH := (BLK_BLKLENGTH blk)(i := n)\<rparr>)"

lemma blk_store_below:
  "j < i \<Longrightarrow> BLK_BLKSTART (blk_store i bl blk) j = BLK_BLKSTART blk j \<and> BLK_BLKLENGTH (blk_store i bl blk) j = BLK_BLKLENGTH blk j"
  by (induction i bl blk rule: blk_store.induct) auto

lemma blk_store_nth:
  "k < length bl \<Longrightarrow> BLK_BLKSTART (blk_store i bl blk) (i + k) = fst (bl ! k) \<and> BLK_BLKLENGTH (blk_store i bl blk) (i + k) = snd (bl ! k)"
proof (induction i bl blk arbitrary: k rule: blk_store.induct)
  case (2 i a n bl blk)
  show ?case
  proof (cases k)
    case 0
    then show ?thesis by (simp add: blk_store_below)
  next
    case (Suc k')
    then show ?thesis using 2 by simp
  qed
qed simp

lemma ends_list_delims:
  assumes "ends_list c"
  shows "\<not> is_digit 10 c" "c \<noteq> 43" "c \<noteq> 44"
  using assms by (auto simp: ends_list_def grub_isspace_def is_digit_uint schar_eq split: if_splits)

lemma not_digit_list: "\<not> is_digit 10 43" "\<not> is_digit 10 44"
  by (simp_all add: is_digit_uint)

lemma blk_parse_print:
  assumes "bl \<noteq> []" "i + length bl \<le> BLK_MAX" "\<forall>(a, n) \<in> set bl. 0 \<le> a \<and> a \<le> MAXINT \<and> 0 < n" "ends_list (deref rest)"
    "0 \<le> fmax" "0 < ss" "fmax + (\<Sum>x\<leftarrow>bl. snd x) * ss < 2 ^ 31"
  shows "blk_parse ss (print_blocks bl @ rest) i fmax rm blk =
    (rest, i + length bl, ERR_NONE, fmax + (\<Sum>x\<leftarrow>bl. snd x) * ss, True, blk_store i bl blk)"
  using assms
proof (induction bl arbitrary: i fmax rm blk)
  case (Cons x bl)
  obtain a n where x: "x = (a, n)" by (cases x)
  have an: "0 \<le> a" "a \<le> MAXINT" "0 < n" using Cons.prems(3) x by auto
  have rest_pos: "0 \<le> (\<Sum>x\<leftarrow>bl. snd x) * ss"
    using Cons.prems(3,6) by (intro mult_nonneg_nonneg sum_list_nonneg) (auto simp: less_imp_le)
  define ns where "ns = n * ss"
  have "n * 1 \<le> ns" unfolding ns_def using an(3) Cons.prems(6) by (intro mult_left_mono) auto
  moreover have sum: "fmax + n * ss + (\<Sum>x\<leftarrow>bl. snd x) * ss < 2 ^ 31" using Cons.prems(7) x by (simp add: algebra_simps)
  ultimately have nb: "n \<le> MAXINT" "n * ss < 2 ^ 31" "fmax + n * ss < 2 ^ 31" "0 \<le> n * ss"
    using rest_pos Cons.prems(5) an(3) unfolding ns_def [symmetric] MAXINT_def by simp_all
  have w: "s32 (fmax + s32 (n * ss)) = fmax + n * ss" using nb Cons.prems(5) by (simp add: s32_id)
  let ?tail = "(if bl = [] then [] else 44 # print_blocks bl) @ rest"
  have p1: "safe_parse_maxint (convert_to_ascii CHR ''d'' a @ 43 # convert_to_ascii CHR ''d'' n @ ?tail) =
      Inr (a, 43 # convert_to_ascii CHR ''d'' n @ ?tail)"
    using an not_digit_list by (intro parse_print_decimal) auto
  have p2: "safe_parse_maxint (convert_to_ascii CHR ''d'' n @ ?tail) = Inr (n, ?tail)"
    using an nb(1) not_digit_list ends_list_delims [OF Cons.prems(4)] by (intro parse_print_decimal) auto
  show ?case
  proof (cases "bl = []")
    case True
    then show ?thesis
      using p1 p2 x w an Cons.prems(2,4) ends_list_delims [OF Cons.prems(4)]
      by (subst blk_parse.simps) (simp add: Let_def)
  next
    case False
    let ?blk = "blk\<lparr>BLK_BLKSTART := (BLK_BLKSTART blk)(i := a), BLK_BLKLENGTH := (BLK_BLKLENGTH blk)(i := n)\<rparr>"
    have "blk_parse ss (print_blocks (x # bl) @ rest) i fmax rm blk = blk_parse ss (print_blocks bl @ rest) (Suc i) (fmax + n * ss) True ?blk"
      using p1 p2 x w an False Cons.prems(2) by (subst blk_parse.simps) (simp add: Let_def)
    also have "\<dots> = (rest, Suc i + length bl, ERR_NONE, fmax + n * ss + (\<Sum>x\<leftarrow>bl. snd x) * ss, True, blk_store (Suc i) bl ?blk)"
      using Cons.prems sum nb(4) False by (intro Cons.IH) auto
    finally show ?thesis using x by (simp add: algebra_simps)
  qed
qed simp

end
