(* ===== verification/Inflate.thy ===== *)
theory Inflate
  imports Grub_Prelude
begin

text \<open>
  The decoding tables of \<^verbatim>\<open>stage2/gunzip.c\<close>: \<^verbatim>\<open>struct huft\<close>, the constant tables of the
  format, the allocator \<^verbatim>\<open>linalloc\<close>, and \<^verbatim>\<open>huft_build\<close>, which turns a list of code lengths into
  lookup tables of several levels.

  A table is named by its number among the blocks that \<^verbatim>\<open>linalloc\<close> has handed out since its last
  reset; its entries are a function of the index. The union \<^verbatim>\<open>v\<close> of an entry is a \<open>hval\<close>. The
  local variables of \<^verbatim>\<open>huft_build\<close> are the record \<open>huft_locals\<close>, with \<^verbatim>\<open>h + 1\<close> and
  \<^verbatim>\<open>w + l\<close> in place of \<^verbatim>\<open>h\<close> and \<^verbatim>\<open>w\<close>, which start at \<^verbatim>\<open>-1\<close> and \<^verbatim>\<open>-l\<close>. The array
  \<^verbatim>\<open>v\<close> of the values is not initialised by the code: what it holds is an argument.

  The reference is RFC 1951: the canonical code of a symbol, from the number of codes of each
  length. The main result is that a walk through the tables, on any bit stream that starts with
  the code of a symbol, consumes the bits of this code and ends in the entry of the symbol.
\<close>

section \<open>Definitions\<close>

datatype hval = Num nat | Tab nat

record huft =
  hf_e :: nat
  hf_b :: nat
  hf_v :: hval

definition bitorder :: "nat list" where
  "bitorder = [16, 17, 18, 0, 8, 7, 9, 6, 10, 5, 11, 4, 12, 3, 13, 2, 14, 1, 15]"

definition cplens :: "nat list" where
  "cplens = [3, 4, 5, 6, 7, 8, 9, 10, 11, 13, 15, 17, 19, 23, 27, 31,
    35, 43, 51, 59, 67, 83, 99, 115, 131, 163, 195, 227, 258, 0, 0]"

definition cplext :: "nat list" where
  "cplext = [0, 0, 0, 0, 0, 0, 0, 0, 1, 1, 1, 1, 2, 2, 2, 2,
    3, 3, 3, 3, 4, 4, 4, 4, 5, 5, 5, 5, 0, 99, 99]"

definition cpdist :: "nat list" where
  "cpdist = [1, 2, 3, 4, 5, 7, 9, 13, 17, 25, 33, 49, 65, 97, 129, 193,
    257, 385, 513, 769, 1025, 1537, 2049, 3073, 4097, 6145, 8193, 12289, 16385, 24577]"

definition cpdext :: "nat list" where
  "cpdext = [0, 0, 0, 0, 1, 1, 2, 2, 3, 3, 4, 4, 5, 5, 6, 6,
    7, 7, 8, 8, 9, 9, 10, 10, 11, 11, 12, 12, 13, 13]"

definition lbits :: nat where "lbits = 9"

definition dbits :: nat where "dbits = 6"

definition BMAX :: nat where "BMAX = 16"

text \<open>The array \<^verbatim>\<open>mask_bits\<close> has 17 elements; outside of them the code reads something else.\<close>

definition mask_bits :: "nat \<Rightarrow> nat" where
  "mask_bits n = [0, 0x0001, 0x0003, 0x0007, 0x000f, 0x001f, 0x003f, 0x007f, 0x00ff,
    0x01ff, 0x03ff, 0x07ff, 0x0fff, 0x1fff, 0x3fff, 0x7fff, 0xffff] ! n"

subsection \<open>The allocator\<close>

record lin =
  linalloc_topaddr :: int
  ntables :: nat
  tables :: "nat \<Rightarrow> nat \<Rightarrow> huft"
  table_link :: "nat \<Rightarrow> nat option"
  hufts :: int

definition linalloc :: "int \<Rightarrow> lin \<Rightarrow> nat \<times> lin" where
  "linalloc sz L = (ntables L, L\<lparr>linalloc_topaddr := u32 (linalloc_topaddr L - sz) AND NOT 3, ntables := Suc (ntables L)\<rparr>)"

definition store_entry :: "nat \<Rightarrow> nat \<Rightarrow> huft \<Rightarrow> lin \<Rightarrow> lin" where
  "store_entry q j r L = L\<lparr>tables := (tables L)(q := (tables L q)(j := r))\<rparr>"

subsection \<open>Counting the lengths\<close>

definition length_counts :: "nat list \<Rightarrow> nat \<Rightarrow> nat" where
  "length_counts b = foldl (\<lambda>c k. c(k := c k + 1)) (\<lambda>_. 0) b"

text \<open>The loops that look for the shortest and the longest code. The first ends at
  \<^verbatim>\<open>BMAX + 1\<close> when there is none, the second at zero.\<close>

function min_length :: "(nat \<Rightarrow> nat) \<Rightarrow> nat \<Rightarrow> nat" where
  "min_length c j = (if j \<le> BMAX then if c j \<noteq> 0 then j else min_length c (j + 1) else j)"
  by pat_completeness auto
termination by (relation "measure (\<lambda>(c, j). BMAX + 1 - j)") auto

fun max_length :: "(nat \<Rightarrow> nat) \<Rightarrow> nat \<Rightarrow> nat" where
  "max_length c 0 = 0"
| "max_length c (Suc i) = (if c (Suc i) \<noteq> 0 then Suc i else max_length c i)"

text \<open>The loop over \<^verbatim>\<open>y\<close>: \<open>None\<close> for more codes than bits, else the number of missing codes.\<close>

function dummy_codes :: "(nat \<Rightarrow> nat) \<Rightarrow> nat \<Rightarrow> nat \<Rightarrow> int \<Rightarrow> int option" where
  "dummy_codes c g j y =
     (if j < g then if y - int (c j) < 0 then None else dummy_codes c g (j + 1) (2 * (y - int (c j)))
      else if y - int (c g) < 0 then None else Some (y - int (c g)))"
  by pat_completeness auto
termination by (relation "measure (\<lambda>(c, g, j, y). g - j)") auto

subsection \<open>The values in the order of their lengths\<close>

text \<open>\<^verbatim>\<open>x[2]\<close> to \<^verbatim>\<open>x[g]\<close> are set one after the other; \<open>m\<close> counts the passes left.\<close>

fun offsets :: "(nat \<Rightarrow> nat) \<Rightarrow> nat \<Rightarrow> nat \<Rightarrow> nat \<Rightarrow> (nat \<Rightarrow> nat) \<Rightarrow> (nat \<Rightarrow> nat)" where
  "offsets c 0 p j x = x"
| "offsets c (Suc m) p j x = offsets c m (p + 1) (j + c p) (x(p + 1 := j + c p))"

fun sort_values :: "nat list \<Rightarrow> nat \<Rightarrow> (nat \<Rightarrow> nat) \<Rightarrow> (nat \<Rightarrow> nat) \<Rightarrow> (nat \<Rightarrow> nat) \<times> (nat \<Rightarrow> nat)" where
  "sort_values [] i x v = (x, v)"
| "sort_values (j # b) i x v =
     (if j \<noteq> 0 then sort_values b (i + 1) (x(j := x j + 1)) (v(x j := i)) else sort_values b (i + 1) x v)"

subsection \<open>Making the tables\<close>

record huft_locals =
  hb_i :: nat
  hb_levels :: nat
  hb_wl :: nat
  hb_z :: nat
  hb_q :: nat
  hb_u :: "nat \<Rightarrow> nat"
  hb_x :: "nat \<Rightarrow> nat"
  hb_r :: huft
  hb_p :: nat
  hb_t :: "nat option"
  hb_root :: "nat option"
  hb_lin :: lin

text \<open>\<open>try_bits\<close> is the loop that looks for the size of a table. It is entered with the number
  \<open>j\<close> of bits tried and the number \<open>f\<close> of patterns left.\<close>

function try_bits :: "(nat \<Rightarrow> nat) \<Rightarrow> nat \<Rightarrow> nat \<Rightarrow> nat \<Rightarrow> nat \<Rightarrow> nat" where
  "try_bits c z xp j f =
     (if j + 1 < z
      then if 2 * f \<le> c (xp + 1) then j + 1 else try_bits c z (xp + 1) (j + 1) (2 * f - c (xp + 1))
      else j + 1)"
  by pat_completeness auto
termination by (relation "measure (\<lambda>(c, z, xp, j, f). z - j)") auto

definition table_bits :: "(nat \<Rightarrow> nat) \<Rightarrow> nat \<Rightarrow> nat \<Rightarrow> nat \<Rightarrow> nat \<Rightarrow> nat \<Rightarrow> nat" where
  "table_bits c g l k w a =
     (let z = (if g - w > l then l else g - w); j = k - w; f = 2 ^ j
      in if f > a + 1 then try_bits c z k j (f - (a + 1)) else j)"

text \<open>\<open>new_table\<close> is the body of the loop that makes tables up to the level of a code. The pointer
  \<^verbatim>\<open>t\<close> names where the next table is linked in: the caller's variable, or the entry in front of
  the last table.\<close>

definition new_table :: "(nat \<Rightarrow> nat) \<Rightarrow> nat \<Rightarrow> nat \<Rightarrow> nat \<Rightarrow> nat \<Rightarrow> huft_locals \<Rightarrow> huft_locals" where
  "new_table c g l k a s =
     (let h = hb_levels s; w = hb_wl s; i = hb_i s; j = table_bits c g l k w a; z = 2 ^ j
      in case linalloc (int (z + 1) * 8) (hb_lin s) of
           (q, L) \<Rightarrow>
             let L1 = L\<lparr>hufts := u32 (hufts L + int z + 1),
                        table_link := (case hb_t s of None \<Rightarrow> table_link L | Some t \<Rightarrow> (table_link L)(t := Some q))(q := None)\<rparr>;
                 s1 = s\<lparr>hb_levels := h + 1, hb_wl := w + l, hb_z := z, hb_q := q, hb_u := (hb_u s)(h := q),
                        hb_t := Some q, hb_root := (if hb_t s = None then Some q else hb_root s), hb_lin := L1\<rparr>;
                 r = \<lparr>hf_e = 16 + j, hf_b = l, hf_v = Tab q\<rparr>
             in if h = 0 then s1
                else s1\<lparr>hb_x := (hb_x s)(h := i), hb_r := r,
                        hb_lin := store_entry (hb_u s (h - 1)) (drop_bit (w - l) i) r L1\<rparr>)"

text \<open>The loop. A table has at least one bit; \<open>l\<close> is never zero in \<^verbatim>\<open>huft_build\<close>.\<close>

function make_tables :: "(nat \<Rightarrow> nat) \<Rightarrow> nat \<Rightarrow> nat \<Rightarrow> nat \<Rightarrow> nat \<Rightarrow> huft_locals \<Rightarrow> huft_locals" where
  "make_tables c g l k a s = (if l \<noteq> 0 \<and> k > hb_wl s then make_tables c g l k a (new_table c g l k a s) else s)"
  by pat_completeness auto
termination
  by (relation "measure (\<lambda>(c, g, l, k, a, s). k - hb_wl s)")
    (auto simp: new_table_def linalloc_def Let_def split: prod.splits)

text \<open>The entry of the next value; \<open>None\<close> where the lists of the base values are read outside of
  their bounds.\<close>

definition set_entry :: "(nat \<Rightarrow> nat) \<Rightarrow> nat \<Rightarrow> nat \<Rightarrow> nat list \<Rightarrow> nat list \<Rightarrow> nat \<Rightarrow> huft_locals \<Rightarrow> huft_locals option" where
  "set_entry v n s d e bits st =
     (let r = (hb_r st)\<lparr>hf_b := bits\<rparr>; p = hb_p st
      in if p \<ge> n then Some (st\<lparr>hb_r := r\<lparr>hf_e := 99\<rparr>\<rparr>)
         else if v p < s
         then Some (st\<lparr>hb_r := r\<lparr>hf_e := if v p < 256 then 16 else 15, hf_v := Num (v p)\<rparr>, hb_p := p + 1\<rparr>)
         else if v p - s < length d \<and> v p - s < length e
         then Some (st\<lparr>hb_r := r\<lparr>hf_e := e ! (v p - s), hf_v := Num (d ! (v p - s))\<rparr>, hb_p := p + 1\<rparr>)
         else None)"

function fill :: "nat \<Rightarrow> nat \<Rightarrow> nat \<Rightarrow> nat \<Rightarrow> huft \<Rightarrow> lin \<Rightarrow> lin" where
  "fill q j z f r L = (if f \<noteq> 0 \<and> j < z then fill q (j + f) z f r (store_entry q j r L) else L)"
  by pat_completeness auto
termination by (relation "measure (\<lambda>(q, j, z, f, r, L). z - j)") auto

text \<open>The backwards increment of the code \<open>i\<close>: the bit \<^verbatim>\<open>j\<close> is \<open>2 ^ m\<close>, and zero after the last.\<close>

fun next_code :: "nat \<Rightarrow> nat \<Rightarrow> nat" where
  "next_code 0 i = i"
| "next_code (Suc m) i = (if bit i m then next_code m (i XOR 2 ^ m) else i XOR 2 ^ m)"

text \<open>\<open>backup l i x h w\<close>: \<open>Suc h\<close> levels are open and the top one starts at bit \<open>w\<close>. Level zero
  starts at bit zero and ends the loop.\<close>

fun backup :: "nat \<Rightarrow> nat \<Rightarrow> (nat \<Rightarrow> nat) \<Rightarrow> nat \<Rightarrow> nat \<Rightarrow> nat \<times> nat" where
  "backup l i x 0 w = (0, w)"
| "backup l i x (Suc h) w = (if i AND (2 ^ w - 1) \<noteq> x (Suc h) then backup l i x h (w - l) else (Suc h, w))"

definition code_step :: "(nat \<Rightarrow> nat) \<Rightarrow> nat \<Rightarrow> nat \<Rightarrow> (nat \<Rightarrow> nat) \<Rightarrow> nat \<Rightarrow> nat \<Rightarrow> nat list \<Rightarrow> nat list \<Rightarrow>
    nat \<Rightarrow> nat \<Rightarrow> huft_locals \<Rightarrow> huft_locals option" where
  "code_step c g l v n s d e k a st =
     (let st1 = make_tables c g l k a st; w = hb_wl st1 - l
      in case set_entry v n s d e (k - w) st1 of
           None \<Rightarrow> None
         | Some st2 \<Rightarrow>
             let L = fill (hb_q st2) (drop_bit w (hb_i st2)) (hb_z st2) (2 ^ (k - w)) (hb_r st2) (hb_lin st2);
                 i = next_code k (hb_i st2)
             in case backup l i (hb_x st2) (hb_levels st2 - 1) w of
                  (h, w') \<Rightarrow> Some (st2\<lparr>hb_i := i, hb_levels := h + 1, hb_wl := w' + l, hb_lin := L\<rparr>))"

text \<open>The loops over the codes of length \<open>k\<close> and over the lengths, for any step.\<close>

fun codes_of_length :: "(nat \<Rightarrow> nat \<Rightarrow> 's \<Rightarrow> 's option) \<Rightarrow> nat \<Rightarrow> nat \<Rightarrow> 's \<Rightarrow> 's option" where
  "codes_of_length step k 0 st = Some st"
| "codes_of_length step k (Suc a) st =
     (case step k a st of None \<Rightarrow> None | Some st1 \<Rightarrow> codes_of_length step k a st1)"

fun all_codes :: "(nat \<Rightarrow> nat \<Rightarrow> 's \<Rightarrow> 's option) \<Rightarrow> (nat \<Rightarrow> nat) \<Rightarrow> nat list \<Rightarrow> 's \<Rightarrow> 's option" where
  "all_codes step c [] st = Some st"
| "all_codes step c (k # ks) st =
     (case codes_of_length step k (c k) st of None \<Rightarrow> None | Some st1 \<Rightarrow> all_codes step c ks st1)"

text \<open>\<open>huft_build junk b s d e m L\<close>: the return value, the table \<^verbatim>\<open>*t\<close> (\<open>None\<close> inside is the null
  pointer), and \<^verbatim>\<open>*m\<close>. Where the code returns 2 it has set \<^verbatim>\<open>*m\<close> and leaves \<^verbatim>\<open>*t\<close>, which is the
  argument \<open>t\<close>. The code assumes at least one length and no length above \<^verbatim>\<open>BMAX\<close>; else it leaves
  its arrays.\<close>

definition huft_build :: "(nat \<Rightarrow> nat) \<Rightarrow> nat list \<Rightarrow> nat \<Rightarrow> nat list \<Rightarrow> nat list \<Rightarrow> nat option \<Rightarrow> nat \<Rightarrow> lin \<Rightarrow>
    (nat \<times> nat option \<times> nat \<times> lin) option" where
  "huft_build junk b s d e t m L =
     (let n = length b; c = length_counts b
      in if n = 0 \<or> (\<exists>k \<in> set b. k > BMAX) then None
         else if c 0 = n then Some (0, None, 0, L)
         else let j = min_length c 1; g = max_length c BMAX;
                  l1 = (if m < j then j else m); l = (if l1 > g then g else l1)
              in case dummy_codes c g j (2 ^ j) of
                   None \<Rightarrow> Some (2, t, l, L)
                 | Some y \<Rightarrow>
                     let c1 = c(g := c g + nat y);
                         (x, v) = sort_values b 0 (offsets c1 (g - 1) 1 0 (\<lambda>_. 0)) junk;
                         st = \<lparr>hb_i = 0, hb_levels = 0, hb_wl = 0, hb_z = 0, hb_q = 0, hb_u = (\<lambda>_. 0), hb_x = x(0 := 0),
                               hb_r = \<lparr>hf_e = 0, hf_b = 0, hf_v = Num 0\<rparr>, hb_p = 0, hb_t = None, hb_root = t, hb_lin = L\<rparr>
                     in map_option (\<lambda>st1. (if y \<noteq> 0 \<and> g \<noteq> 1 then 1 else 0, hb_root st1, l, hb_lin st1))
                          (all_codes (code_step c1 g l v n s d e) c1 [j..<g + 1] st))"

declare min_length.simps [simp del] dummy_codes.simps [simp del] try_bits.simps [simp del]
  make_tables.simps [simp del] fill.simps [simp del]

section \<open>Codes and their positions\<close>

text \<open>Huffman codes are packed from their most significant bit on, so the code that the tables are
  indexed with is the code of the format with its bits reversed. \<open>brev g\<close> reverses \<open>g\<close> bits: it
  gives the position of a bit stream in the order of the codes.\<close>

fun brev :: "nat \<Rightarrow> nat \<Rightarrow> nat" where
  "brev 0 B = 0"
| "brev (Suc g) B = (B mod 2) * 2 ^ g + brev g (B div 2)"

lemma block_inj: "u < (N :: nat) \<Longrightarrow> u' < N \<Longrightarrow> x * N + u = y * N + u' \<longleftrightarrow> x = y \<and> u = u'"
  by (metis add.commute div_mult_self3 div_less add_0 mult.commute mod_mult_self2 mod_less gr_implies_not0)

lemma div_eq_iff_between: "0 < (N :: nat) \<Longrightarrow> x div N = y \<longleftrightarrow> y * N \<le> x \<and> x < y * N + N"
  by (metis add.commute div_nat_eqI div_times_less_eq_dividend dividend_less_div_times mult.commute mult_Suc)

lemma brev_less: "brev g B < 2 ^ g"
proof (induction g arbitrary: B)
  case (Suc g)
  have "B mod 2 = 0 \<or> B mod 2 = 1" by auto
  then show ?case using Suc [of "B div 2"] by auto
qed simp

lemma brev_0 [simp]: "brev g 0 = 0"
  by (induction g) auto

lemma brev_split: "brev (k + m) B = brev k B * 2 ^ m + brev m (B div 2 ^ k)"
  by (induction k arbitrary: B) (auto simp: algebra_simps power_add div_mult2_eq)

lemma brev_split_le: "k \<le> g \<Longrightarrow> brev g B = brev k B * 2 ^ (g - k) + brev (g - k) (B div 2 ^ k)"
  using brev_split [of k "g - k" B] by simp

lemma brev_inj: "brev k B = brev k C \<longleftrightarrow> B mod 2 ^ k = C mod 2 ^ k"
proof (induction k arbitrary: B C)
  case (Suc k)
  have B: "B mod 2 ^ Suc k = B mod 2 + 2 * (B div 2 mod 2 ^ k)" for B :: nat
    by (simp add: mod_mult2_eq)
  have "brev (Suc k) B = brev (Suc k) C \<longleftrightarrow> B mod 2 = C mod 2 \<and> brev k (B div 2) = brev k (C div 2)"
    using block_inj [OF brev_less brev_less, of "B mod 2" k "B div 2" "C mod 2" "C div 2"] by simp
  also have "\<dots> \<longleftrightarrow> B mod 2 = C mod 2 \<and> B div 2 mod 2 ^ k = C div 2 mod 2 ^ k" using Suc.IH by simp
  also have "\<dots> \<longleftrightarrow> B mod 2 ^ Suc k = C mod 2 ^ Suc k" 
    unfolding B using block_inj [of "B mod 2" 2 "C mod 2" "B div 2 mod 2 ^ k" "C div 2 mod 2 ^ k"] by (auto simp: algebra_simps)
  finally show ?case .
qed simp

lemma brev_div: "k \<le> g \<Longrightarrow> brev g B div 2 ^ (g - k) = brev k B"
  using brev_less [of "g - k" "B div 2 ^ k"] by (simp add: brev_split_le)

text \<open>The streams that start with the \<open>k\<close> bits of \<open>i\<close> are an interval of positions.\<close>

lemma block_iff:
  assumes "k \<le> g" "i < 2 ^ k"
  shows "brev g i \<le> brev g B \<and> brev g B < brev g i + 2 ^ (g - k) \<longleftrightarrow> B mod 2 ^ k = i"
proof -
  have i: "brev g i = brev k i * 2 ^ (g - k)" using brev_split_le [OF assms(1), of i] assms(2) by simp
  have "brev g i \<le> brev g B \<and> brev g B < brev g i + 2 ^ (g - k) \<longleftrightarrow> brev g B div 2 ^ (g - k) = brev k i"
    unfolding i by (subst div_eq_iff_between) auto
  also have "\<dots> \<longleftrightarrow> B mod 2 ^ k = i" using assms by (simp add: brev_div brev_inj)
  finally show ?thesis .
qed

lemma brev_dvd: "k \<le> g \<Longrightarrow> i < 2 ^ k \<Longrightarrow> 2 ^ (g - k) dvd brev g i"
  by (simp add: brev_split_le)

lemma brev_dvd_less:
  assumes "k \<le> g" "i < 2 ^ g" "2 ^ (g - k) dvd brev g i"
  shows "i < 2 ^ k"
proof -
  have "2 ^ (g - k) dvd brev (g - k) (i div 2 ^ k)"
    using assms(3) by (simp add: brev_split_le [OF assms(1)] dvd_add_right_iff)
  then have "brev (g - k) (i div 2 ^ k) = brev (g - k) 0"
    using brev_less [of "g - k" "i div 2 ^ k"] by (auto dest: dvd_imp_le)
  then have "i div 2 ^ k mod 2 ^ (g - k) = 0" unfolding brev_inj by simp
  moreover have "i div 2 ^ k < 2 ^ (g - k)"
    using assms(1,2) by (simp add: div_less_iff_less_mult flip: power_add)
  ultimately have "i div 2 ^ k = 0" by simp
  then show ?thesis by (simp add: div_eq_0_iff)
qed

lemma xor_bit_clear:
  fixes i :: nat
  assumes "\<not> bit i m"
  shows "i XOR 2 ^ m = i + 2 ^ m"
proof -
  have "i AND 2 ^ m = 0" using assms by (intro bit_eqI) (auto simp: bit_simps)
  then show ?thesis by (simp add: disjunctive_add_eq_xor)
qed

lemma xor_bit_set:
  fixes i :: nat
  assumes "bit i m"
  shows "i = (i XOR 2 ^ m) + 2 ^ m" "\<not> bit (i XOR 2 ^ m) m"
proof -
  show b: "\<not> bit (i XOR 2 ^ m) m" using assms by (simp add: bit_simps)
  show "i = (i XOR 2 ^ m) + 2 ^ m" using xor_bit_clear [OF b] by (simp add: xor.assoc)
qed

lemma brev_set_bit: "m < g \<Longrightarrow> \<not> bit i m \<Longrightarrow> brev g (i + 2 ^ m) = brev g i + 2 ^ (g - 1 - m)"
proof (induction g arbitrary: i m)
  case (Suc g)
  show ?case
  proof (cases m)
    case 0
    then have "(i + 1) mod 2 = 1" "(i + 1) div 2 = i div 2" "i mod 2 = 0"
      using Suc.prems by (auto simp: bit_0)
    then show ?thesis using 0 by simp
  next
    case (Suc n)
    then have "(i + 2 ^ m) mod 2 = i mod 2" "(i + 2 ^ m) div 2 = i div 2 + 2 ^ n" by auto
    then show ?thesis using Suc.IH [of n "i div 2"] Suc.prems Suc by (simp add: bit_Suc add.commute)
  qed
qed simp

lemma less_power_bit_clear:
  fixes i :: nat
  assumes "i < 2 ^ Suc m" "\<not> bit i m"
  shows "i < 2 ^ m"
proof -
  have "take_bit (Suc m) i = take_bit m i" using assms(2) by (simp add: take_bit_Suc_from_most)
  then have "i = take_bit m i" using assms(1) by (metis take_bit_nat_eq_self)
  then show ?thesis by (metis take_bit_nat_less_exp)
qed

text \<open>The backwards increment goes to the code that starts where the last one ends.\<close>

lemma next_code_pos:
  assumes "k \<le> g" "i < 2 ^ k" "brev g i + 2 ^ (g - k) < 2 ^ g"
  shows "brev g (next_code k i) = brev g i + 2 ^ (g - k) \<and> next_code k i < 2 ^ k"
  using assms
proof (induction k arbitrary: i)
  case (Suc m)
  have g: "2 ^ (g - m) = 2 * (2 :: nat) ^ (g - Suc m)" using Suc.prems(1) by (simp add: Suc_diff_Suc flip: power_Suc)
  show ?case
  proof (cases "bit i m")
    case True
    define j where "j = i XOR 2 ^ m"
    have j: "i = j + 2 ^ m" "\<not> bit j m" using xor_bit_set [OF True] by (simp_all add: j_def)
    have p: "brev g i = brev g j + 2 ^ (g - Suc m)" using brev_set_bit [of m g j] j Suc.prems(1) by simp
    have "j < 2 ^ m" using j Suc.prems(2) by simp
    then have "brev g (next_code m j) = brev g j + 2 ^ (g - m) \<and> next_code m j < 2 ^ m"
      using Suc.IH [of j] Suc.prems p g by simp
    then show ?thesis using True p g by (auto simp: j_def)
  next
    case False
    then show ?thesis
      using brev_set_bit [of m g i] Suc.prems less_power_bit_clear [OF Suc.prems(2) False] by (simp add: xor_bit_clear)
  qed
qed simp

section \<open>Walks through the tables\<close>

text \<open>\<open>walk T q bits B n r\<close>: on the bit stream \<open>B\<close> the lookup that starts in table \<open>q\<close> with
  \<open>bits\<close> bits ends in the entry \<open>r\<close> and has dumped \<open>n\<close> bits.\<close>

definition is_leaf :: "huft \<Rightarrow> bool" where
  "is_leaf t \<longleftrightarrow> hf_e t \<le> 16 \<or> hf_e t = 99"

inductive walk :: "(nat \<Rightarrow> nat \<Rightarrow> huft) \<Rightarrow> nat \<Rightarrow> nat \<Rightarrow> nat \<Rightarrow> nat \<Rightarrow> huft \<Rightarrow> bool" for T where
  walk_leaf: "t = T q (B mod 2 ^ bits) \<Longrightarrow> is_leaf t \<Longrightarrow> 0 < hf_b t \<Longrightarrow> hf_b t \<le> bits \<Longrightarrow> walk T q bits B (hf_b t) t"
| walk_node: "t = T q (B mod 2 ^ bits) \<Longrightarrow> hf_e t = 16 + m \<Longrightarrow> 0 < m \<Longrightarrow> m \<le> 16 \<Longrightarrow> hf_b t \<le> bits \<Longrightarrow> bits \<le> hf_b t \<Longrightarrow>
    hf_v t = Tab q' \<Longrightarrow> walk T q' m (B div 2 ^ hf_b t) n r \<Longrightarrow> walk T q bits B (hf_b t + n) r"

text \<open>The same walk with the place of every table: \<open>hm q = Some (w, p, bits)\<close> says that table
  \<open>q\<close> is looked up with \<open>bits\<close> bits after the \<open>w\<close> bits \<open>p\<close>.\<close>

type_synonym homes = "nat \<rightharpoonup> nat \<times> nat \<times> nat"

inductive dec :: "(nat \<Rightarrow> nat \<Rightarrow> huft) \<Rightarrow> homes \<Rightarrow> nat \<Rightarrow> nat \<Rightarrow> nat \<Rightarrow> huft \<Rightarrow> bool" for T hm B where
  dec_leaf: "hm q = Some (w, B mod 2 ^ w, bits) \<Longrightarrow> t = T q (B div 2 ^ w mod 2 ^ bits) \<Longrightarrow> is_leaf t \<Longrightarrow>
    0 < hf_b t \<Longrightarrow> hf_b t \<le> bits \<Longrightarrow> dec T hm B q (w + hf_b t) t"
| dec_node: "hm q = Some (w, B mod 2 ^ w, bits) \<Longrightarrow> t = T q (B div 2 ^ w mod 2 ^ bits) \<Longrightarrow> hf_e t = 16 + m \<Longrightarrow>
    0 < m \<Longrightarrow> m \<le> 16 \<Longrightarrow> hf_b t \<le> bits \<Longrightarrow> bits \<le> hf_b t \<Longrightarrow> hf_v t = Tab q' \<Longrightarrow> hm q' = Some (w + hf_b t, B mod 2 ^ (w + hf_b t), m) \<Longrightarrow>
    dec T hm B q' n r \<Longrightarrow> dec T hm B q n r"

lemma dec_walk:
  "dec T hm B q n r \<Longrightarrow> hm q = Some (w, p, bits) \<Longrightarrow> w \<le> n \<and> walk T q bits (B div 2 ^ w) (n - w) r"
proof (induction arbitrary: w p bits rule: dec.induct)
  case (dec_leaf q w' bits' t)
  then show ?case using walk_leaf [of t T q "B div 2 ^ w" bits] by auto
next
  case (dec_node q w' bits' t m q' n r)
  then have [simp]: "w' = w" "bits' = bits" by auto
  have IH: "w + hf_b t \<le> n" "walk T q' m (B div 2 ^ (w + hf_b t)) (n - (w + hf_b t)) r"
    using dec_node.IH [OF dec_node.hyps(9)] by auto
  then have "walk T q bits (B div 2 ^ w) (hf_b t + (n - (w + hf_b t))) r"
    using walk_node [of t T q "B div 2 ^ w" bits m q' "n - (w + hf_b t)" r] dec_node.hyps
    by (simp add: power_add div_mult2_eq)
  then show ?case using IH(1) by simp
qed

lemma dec_frame:
  assumes "dec T hm B q n r" "hm \<subseteq>\<^sub>m hm'"
    and "\<And>q w bits. hm q = Some (w, B mod 2 ^ w, bits) \<Longrightarrow> T' q (B div 2 ^ w mod 2 ^ bits) = T q (B div 2 ^ w mod 2 ^ bits)"
  shows "dec T' hm' B q n r"
  using assms(1)
proof (induction rule: dec.induct)
  case (dec_leaf q w bits t)
  moreover have "hm' q = Some (w, B mod 2 ^ w, bits)" using dec_leaf(1) assms(2) by (metis map_le_def domI)
  ultimately show ?case using assms(3) [OF dec_leaf(1)] by (intro dec.dec_leaf) auto
next
  case (dec_node q w bits t m q' n r)
  have "hm' q = Some (w, B mod 2 ^ w, bits)" "hm' q' = Some (w + hf_b t, B mod 2 ^ (w + hf_b t), m)"
    using dec_node.hyps(1,9) assms(2) by (metis map_le_def domI)+
  then show ?case using dec_node assms(3) [OF dec_node.hyps(1)] dec.dec_node [of hm' q w B bits t T' m q' n r] by simp
qed

text \<open>The stack of open tables while the codes are made: level \<open>h\<close> is looked up after the first
  \<open>l * h\<close> bits of the current code \<open>i\<close>, and has the link to the next level.\<close>

definition chain :: "nat \<Rightarrow> (nat \<Rightarrow> nat \<Rightarrow> huft) \<Rightarrow> homes \<Rightarrow> (nat \<Rightarrow> nat) \<Rightarrow> (nat \<Rightarrow> nat) \<Rightarrow> (nat \<Rightarrow> nat) \<Rightarrow> nat \<Rightarrow> nat \<Rightarrow> bool" where
  "chain l T hm u x bs i H \<longleftrightarrow>
     (\<forall>h<H. hm (u h) = Some (l * h, i mod 2 ^ (l * h), bs h) \<and> x h = i mod 2 ^ (l * h)) \<and>
     (\<forall>h. Suc h < H \<longrightarrow> bs h = l \<and> 0 < bs (Suc h) \<and> bs (Suc h) \<le> 16 \<and>
        T (u h) (i div 2 ^ (l * h) mod 2 ^ l) = \<lparr>hf_e = 16 + bs (Suc h), hf_b = l, hf_v = Tab (u (Suc h))\<rparr>)"

lemma chainD:
  assumes "chain l T hm u x bs i H" "h < H"
  shows "hm (u h) = Some (l * h, i mod 2 ^ (l * h), bs h)" "x h = i mod 2 ^ (l * h)"
  using assms by (auto simp: chain_def)

lemma chain_less: "chain l T hm u x bs i H \<Longrightarrow> H' \<le> H \<Longrightarrow> chain l T hm u x bs i H'"
  by (auto simp: chain_def)

lemma mod_power_le_cong:
  fixes i i' :: nat
  assumes "i' mod 2 ^ n = i mod 2 ^ n" "m \<le> n"
  shows "i' mod 2 ^ m = i mod 2 ^ m"
  using assms by (metis le_imp_power_dvd mod_mod_cancel)

lemma digit_cong:
  fixes i i' :: nat
  assumes "i' mod 2 ^ n = i mod 2 ^ n" "w + l \<le> n"
  shows "i' div 2 ^ w mod 2 ^ l = i div 2 ^ w mod 2 ^ l"
proof -
  have "j div 2 ^ w mod 2 ^ l = j mod 2 ^ (w + l) div 2 ^ w" for j :: nat
    by (simp add: power_add mod_mult2_eq)
  then show ?thesis using mod_power_le_cong [OF assms] by simp
qed

lemma chain_cong:
  assumes "chain l T hm u x bs i (Suc H)" "i' mod 2 ^ (l * H) = i mod 2 ^ (l * H)"
  shows "chain l T hm u x bs i' (Suc H)"
proof -
  have "i' mod 2 ^ (l * h) = i mod 2 ^ (l * h)" if "h \<le> H" for h
    using mod_power_le_cong [OF assms(2)] that by simp
  moreover have "i' div 2 ^ (l * h) mod 2 ^ l = i div 2 ^ (l * h) mod 2 ^ l" if "Suc h \<le> H" for h
    using digit_cong [OF assms(2), of "l * h" l] mult_le_mono2 [OF that, of l] by (simp add: algebra_simps)
  ultimately show ?thesis using assms(1) by (simp add: chain_def less_Suc_eq_le)
qed

lemma chain_ids: "chain l T hm u x bs i H \<Longrightarrow> h < H \<Longrightarrow> h' < H \<Longrightarrow> h \<noteq> h' \<Longrightarrow> 0 < l \<Longrightarrow> u h \<noteq> u h'"
  using chainD(1) [of l T hm u x bs i H h] chainD(1) [of l T hm u x bs i H h'] by auto

lemma chain_dec:
  assumes "chain l T hm u x bs i (Suc H)" "B mod 2 ^ (l * H) = i mod 2 ^ (l * H)" "dec T hm B (u H) n r" "h \<le> H"
  shows "dec T hm B (u h) n r"
  using assms(4)
proof (induction h rule: inc_induct)
  case base
  then show ?case using assms(3) .
next
  case (step h)
  have c: "chain l T hm u x bs B (Suc H)" using chain_cong [OF assms(1,2)] .
  have "T (u h) (B div 2 ^ (l * h) mod 2 ^ l) = \<lparr>hf_e = 16 + bs (Suc h), hf_b = l, hf_v = Tab (u (Suc h))\<rparr>"
      "bs h = l" "0 < bs (Suc h)" "bs (Suc h) \<le> 16"
    using c step.hyps by (auto simp: chain_def)
  then show ?case
    using dec_node [of hm "u h" "l * h" B l "T (u h) (B div 2 ^ (l * h) mod 2 ^ l)" T "bs (Suc h)" "u (Suc h)" n r] chainD(1) [OF c, of h] chainD(1) [OF c, of "Suc h"]
      step.hyps step.IH by (simp add: algebra_simps)
qed

lemma chain_frame:
  assumes "chain l T hm u x bs i H" "hm \<subseteq>\<^sub>m hm'"
    and "\<And>h. Suc h < H \<Longrightarrow> T' (u h) (i div 2 ^ (l * h) mod 2 ^ l) = T (u h) (i div 2 ^ (l * h) mod 2 ^ l)"
  shows "chain l T' hm' u x bs i H"
proof -
  have "hm' (u h) = Some (l * h, i mod 2 ^ (l * h), bs h)" if "h < H" for h
    using chainD(1) [OF assms(1) that] assms(2) by (metis map_le_def domI)
  then show ?thesis using assms(1,3) by (simp add: chain_def)
qed

lemma chain_push:
  assumes "chain l T hm u x bs i H" "hm q = Some (l * H, i mod 2 ^ (l * H), m)" "0 < m" "m \<le> 16"
    and "0 < H \<Longrightarrow> bs (H - 1) = l \<and> T (u (H - 1)) (i div 2 ^ (l * (H - 1)) mod 2 ^ l) = \<lparr>hf_e = 16 + m, hf_b = l, hf_v = Tab q\<rparr>"
    and "x' = x(H := i mod 2 ^ (l * H))" "u' = u(H := q)"
  shows "chain l T hm u' x' (bs(H := m)) i (Suc H)"
proof (cases H)
  case 0
  then show ?thesis using assms by (simp add: chain_def)
next
  case (Suc h)
  then have "bs h = l \<and> T (u h) (i div 2 ^ (l * h) mod 2 ^ l) = \<lparr>hf_e = 16 + m, hf_b = l, hf_v = Tab q\<rparr>"
    using assms(5) by simp
  then show ?thesis using assms(1-4,6,7) Suc by (auto simp: chain_def less_Suc_eq)
qed

section \<open>The size of a table\<close>

text \<open>\<open>wsum g xs\<close> is the number of positions that codes of the lengths \<open>xs\<close> take, \<open>wle xs m\<close> the
  number of \<open>m\<close> bit patterns that those of at most \<open>m\<close> bits take.\<close>

definition wsum :: "nat \<Rightarrow> nat list \<Rightarrow> nat" where
  "wsum g xs = (\<Sum>x\<leftarrow>xs. 2 ^ (g - x))"

definition wle :: "nat list \<Rightarrow> nat \<Rightarrow> nat" where
  "wle xs m = (\<Sum>x\<leftarrow>filter (\<lambda>x. x \<le> m) xs. 2 ^ (m - x))"

lemma wsum_simps [simp]: "wsum g [] = 0" "wsum g (x # xs) = 2 ^ (g - x) + wsum g xs" "wsum g (xs @ ys) = wsum g xs + wsum g ys"
  by (simp_all add: wsum_def)

lemma wle_Suc: "wle xs (Suc m) = 2 * wle xs m + count_list xs (Suc m)"
  by (induction xs) (auto simp: wle_def Suc_diff_le le_Suc_eq)

lemma wle_none: "\<forall>x\<in>set xs. m < x \<Longrightarrow> wle xs m = 0"
  by (induction xs) (auto simp: wle_def)

lemma wle_head: "\<forall>x\<in>set xs. k \<le> x \<Longrightarrow> wle xs k = count_list xs k"
  by (induction xs) (auto simp: wle_def)

lemma wsum_filter_le: "m \<le> g \<Longrightarrow> wsum g (filter (\<lambda>x. x \<le> m) xs) = wle xs m * 2 ^ (g - m)"
proof (induction xs)
  case (Cons x xs)
  have "(2 :: nat) ^ (g - x) = 2 ^ (m - x) * 2 ^ (g - m)" if "x \<le> m"
    using that Cons.prems by (simp flip: power_add)
  then show ?case using Cons by (simp add: wle_def algebra_simps)
qed (simp add: wle_def)

lemma wsum_filter_mono: "wsum g (filter P xs) \<le> wsum g xs"
  by (induction xs) auto

lemma try_bits_spec:
  assumes "f + wle xs (w + j) = 2 ^ j" "\<And>m. w + j < m \<Longrightarrow> m < w + z \<Longrightarrow> count_list xs m = c m"
  shows "j < try_bits c z (w + j) j f \<and> try_bits c z (w + j) j f \<le> max z (j + 1) \<and>
    (z \<le> try_bits c z (w + j) j f \<or> 2 ^ try_bits c z (w + j) j f \<le> wle xs (w + try_bits c z (w + j) j f))"
  using assms
proof (induction "z - j" arbitrary: j f rule: less_induct)
  case less
  show ?case
  proof (cases "j + 1 < z \<and> c (w + j + 1) < 2 * f")
    case True
    have "2 * f - c (w + j + 1) + wle xs (w + (j + 1)) = 2 ^ (j + 1)"
      using True less.prems(1) less.prems(2) [of "w + j + 1"] wle_Suc [of xs "w + j"] by simp
    moreover have "try_bits c z (w + j) j f = try_bits c z (w + (j + 1)) (j + 1) (2 * f - c (w + j + 1))"
      using True by (subst try_bits.simps) simp
    moreover have "z - (j + 1) < z - j" "max z (j + 1 + 1) = z" using True by auto
    ultimately show ?thesis
      using less.hyps [of "j + 1" "2 * f - c (w + j + 1)"] less.prems(2) by (auto simp: max_def)
  next
    case False
    then have "try_bits c z (w + j) j f = j + 1" by (subst try_bits.simps) auto
    moreover have "2 ^ (j + 1) \<le> wle xs (w + j + 1)" if "j + 1 < z"
      using False that less.prems(1) less.prems(2) [of "w + j + 1"] wle_Suc [of xs "w + j"] by simp
    ultimately show ?thesis by (cases "j + 1 < z") auto
  qed
qed

lemma table_bits_spec:
  fixes l :: nat
  assumes "w < k" "k \<le> g" "\<forall>x\<in>set xs. k \<le> x" "count_list xs k = a + 1"
    and "\<And>m. k < m \<Longrightarrow> m \<le> g \<Longrightarrow> count_list xs m = c m"
    and "z = (if g - w > l then l else g - w)" "J = table_bits c g l k w a"
  shows "k - w \<le> J" "J \<le> max z (k - w + 1)" "k < w + z \<Longrightarrow> J \<le> z" "z \<le> J \<or> 2 ^ J \<le> wle xs (w + J)"
proof -
  have h: "wle xs k = a + 1" using wle_head [OF assms(3)] assms(4) by simp
  have "k - w \<le> J \<and> J \<le> max z (k - w + 1) \<and> (k < w + z \<longrightarrow> J \<le> z) \<and> (z \<le> J \<or> 2 ^ J \<le> wle xs (w + J))"
  proof (cases "a + 1 < 2 ^ (k - w)")
    case True
    have A: "2 ^ (k - w) - (a + 1) + wle xs (w + (k - w)) = 2 ^ (k - w)" using True h assms(1) by simp
    have B: "count_list xs m = c m" if "w + (k - w) < m" "m < w + z" for m
      using that assms(1,5) by (auto simp: assms(6) split: if_splits)
    have J: "J = try_bits c z (w + (k - w)) (k - w) (2 ^ (k - w) - (a + 1))"
      using True assms(1) by (simp add: assms(7) table_bits_def assms(6) Let_def)
    have "k - w < J \<and> J \<le> max z (k - w + 1) \<and> (z \<le> J \<or> 2 ^ J \<le> wle xs (w + J))"
      unfolding J by (rule try_bits_spec [OF A B])
    moreover have "max z (k - w + 1) = z" if "k < w + z" using that assms(1) by linarith
    ultimately show ?thesis by auto
  next
    case False
    then have "J = k - w" by (simp add: assms(7) table_bits_def Let_def)
    then show ?thesis using False h assms(1) by auto
  qed
  then show "k - w \<le> J" "J \<le> max z (k - w + 1)" "k < w + z \<Longrightarrow> J \<le> z" "z \<le> J \<or> 2 ^ J \<le> wle xs (w + J)" by auto
qed

text \<open>A table is large enough: a code that comes into it has at most its bits, or goes into a
  further table.\<close>

definition fits :: "nat \<Rightarrow> nat \<Rightarrow> nat \<Rightarrow> nat \<Rightarrow> nat \<Rightarrow> nat \<Rightarrow> nat list \<Rightarrow> bool" where
  "fits g l w J end pos todo \<longleftrightarrow> (\<forall>xs k ys. todo = xs @ k # ys \<longrightarrow> pos + wsum g xs < end \<longrightarrow> k \<le> w + J \<or> l \<le> J)"

lemma fits_step: "fits g l w J end pos (k # todo) \<Longrightarrow> fits g l w J end (pos + 2 ^ (g - k)) todo"
  unfolding fits_def by (metis Cons_eq_appendI add.assoc wsum_simps(2))

lemma fits_head: "fits g l w J end pos (k # todo) \<Longrightarrow> pos < end \<Longrightarrow> k \<le> w + J \<or> l \<le> J"
  unfolding fits_def by (metis append_Nil add_0_right wsum_simps(1))

lemma table_bits_fits:
  assumes "w < k" "k \<le> g" "sorted todo" "\<forall>x\<in>set todo. k \<le> x \<and> x \<le> g" "count_list todo k = a + 1"
    and "\<And>m. k < m \<Longrightarrow> m \<le> g \<Longrightarrow> count_list todo m = c m"
  shows "fits g l w (table_bits c g l k w a) (pos + 2 ^ (g - w)) pos todo"
proof -
  define J where "J = table_bits c g l k w a"
  have "x \<le> w + J \<or> l \<le> J" if t: "todo = xs @ x # ys" "wsum g xs < 2 ^ (g - w)" for xs x ys
  proof (rule ccontr)
    assume n: "\<not> (x \<le> w + J \<or> l \<le> J)"
    have "x \<le> g" using assms(4) t by auto
    then have "2 ^ J \<le> wle todo (w + J)" "w + J < g"
      using table_bits_spec(4) [OF assms(1,2) _ assms(5,6) refl refl, of l] n assms(4) by (auto simp: J_def [symmetric] split: if_splits)
    moreover have "filter (\<lambda>y. y \<le> w + J) todo = filter (\<lambda>y. y \<le> w + J) xs"
      using assms(3) n t(1) by (auto simp: sorted_append filter_empty_conv)
    ultimately have "2 ^ J * 2 ^ (g - (w + J)) \<le> wsum g xs"
      using wsum_filter_le [of "w + J" g todo] wsum_filter_mono [of g "\<lambda>y. y \<le> w + J" xs]
      by (metis (no_types, lifting) le_trans less_imp_le mult_le_mono1)
    then show False using t(2) \<open>w + J < g\<close> by (simp flip: power_add)
  qed
  then show ?thesis by (auto simp: fits_def J_def)
qed

lemma root_table_bits:
  assumes "0 < k" "k \<le> g" "\<forall>x\<in>set todo. k \<le> x \<and> x \<le> g" "count_list todo k = a + 1"
    and "\<And>m. k < m \<Longrightarrow> m \<le> g \<Longrightarrow> count_list todo m = c m" "wsum g todo = 2 ^ g" "g \<in> set todo" "l \<le> g"
  shows "l \<le> table_bits c g l k 0 a"
proof (rule ccontr)
  define J where "J = table_bits c g l k 0 a"
  assume "\<not> ?thesis"
  then have J: "J < l" by (simp add: J_def)
  then have "2 ^ J \<le> wle todo J"
    using table_bits_spec(4) [OF assms(1,2) _ assms(4,5) refl refl, of l] assms(3,8) by (auto simp: J_def [symmetric] split: if_splits)
  then have "2 ^ g \<le> wsum g (filter (\<lambda>x. x \<le> J) todo)"
    using wsum_filter_le [of J g todo] J assms(8) mult_le_mono1 [of "2 ^ J" "wle todo J" "2 ^ (g - J)"]
    by (simp flip: power_add)
  moreover have "wsum g (filter (\<lambda>x. x \<le> J) xs) < wsum g xs" if "g \<in> set xs" for xs
    using that
  proof (induction xs)
    case (Cons x xs)
    then show ?case using J assms(8) wsum_filter_mono [of g "\<lambda>x. x \<le> J" xs] by auto
  qed simp
  ultimately show False using assms(6,7) by fastforce
qed

section \<open>The invariant of the loop over the codes\<close>

lemma fill_tables:
  "f \<noteq> 0 \<Longrightarrow> tables (fill q j z f r L) q' c = (if q' = q \<and> c < z \<and> (\<exists>m. c = j + m * f) then r else tables L q' c)"
proof (induction q j z f r L rule: fill.induct)
  case (1 q j z f r L)
  have E: "(\<exists>m. c = j + m * f) \<longleftrightarrow> c = j \<or> (\<exists>m. c = j + f + m * f)"
  proof
    assume "\<exists>m. c = j + m * f"
    then obtain m where "c = j + m * f" ..
    then show "c = j \<or> (\<exists>m. c = j + f + m * f)" by (cases m) (auto simp: add.assoc)
  next
    assume "c = j \<or> (\<exists>m. c = j + f + m * f)"
    then show "\<exists>m. c = j + m * f" by (metis add.assoc add_0_right mult_0 mult_Suc)
  qed
  show ?case
  proof (cases "j < z")
    case True
    then have "fill q j z f r L = fill q (j + f) z f r (store_entry q j r L)" using "1.prems" by (subst fill.simps) simp
    then show ?thesis using "1.IH" "1.prems" True E by (simp add: store_entry_def) blast
  next
    case False
    then show ?thesis by (subst fill.simps) auto
  qed
qed

lemma fill_code:
  assumes "j < f"
  shows "tables (fill q j z f r L) = (\<lambda>q' c. if q' = q \<and> c < z \<and> c mod f = j then r else tables L q' c)"
proof -
  have "(\<exists>m. c = j + m * f) \<longleftrightarrow> c mod f = j" for c
    using assms by (metis add.commute div_mult_mod_eq mod_less mod_mult_self1)
  then show ?thesis using assms by (simp add: fun_eq_iff fill_tables)
qed

lemma fill_ntables [simp]: "ntables (fill q j z f r L) = ntables L"
  by (induction q j z f r L rule: fill.induct) (subst fill.simps, auto simp: store_entry_def)

lemma backup_spec:
  "backup l i x h (l * h) = (h', w) \<Longrightarrow> x 0 = 0 \<Longrightarrow>
    h' \<le> h \<and> w = l * h' \<and> i mod 2 ^ (l * h') = x h' \<and> (\<forall>m. h' < m \<and> m \<le> h \<longrightarrow> i mod 2 ^ (l * m) \<noteq> x m)"
proof (induction h arbitrary: h' w)
  case (Suc h)
  have m: "i AND (2 ^ n - 1) = i mod 2 ^ n" for n
    by (metis mask_eq_exp_minus_1 take_bit_eq_mask take_bit_eq_mod)
  show ?case
  proof (cases "i mod 2 ^ (l * Suc h) = x (Suc h)")
    case True
    then show ?thesis using Suc.prems by (auto simp: m [unfolded One_nat_def])
  next
    case False
    then have "backup l i x h (l * h) = (h', w)" using Suc.prems by (simp add: m [unfolded One_nat_def])
    then show ?thesis using Suc.IH [of h' w] Suc.prems(2) False le_Suc_eq by auto
  qed
qed auto

text \<open>The lengths \<open>cs\<close> of the codes in the order in which they are made, dummy codes included, for the
  counts \<open>c\<close>, the maximum length \<open>g\<close> and the lookup bits \<open>l\<close>. The last condition rules out that a
  table after the first needs further tables of more than \<open>l\<close> bits.\<close>

definition code_set :: "(nat \<Rightarrow> nat) \<Rightarrow> nat \<Rightarrow> nat \<Rightarrow> nat list \<Rightarrow> bool" where
  "code_set c g l cs \<longleftrightarrow> sorted cs \<and> (\<forall>x\<in>set cs. 0 < x \<and> x \<le> g \<and> hd cs \<le> x) \<and> hd cs \<le> l \<and> l \<le> g \<and> 0 < l \<and> g \<le> 16 \<and> g \<in> set cs \<and>
     wsum g cs = 2 ^ g \<and> (\<forall>m. 0 < m \<longrightarrow> m \<le> g \<longrightarrow> count_list cs m = c m) \<and> (g \<le> 2 * l \<or> length cs < 2 ^ l)"

definition start :: "nat \<Rightarrow> nat list \<Rightarrow> nat \<Rightarrow> nat" where
  "start g cs t = wsum g (take t cs)"

lemma start_Suc: "t < length cs \<Longrightarrow> start g cs (Suc t) = start g cs t + 2 ^ (g - cs ! t)"
  by (simp add: start_def take_Suc_conv_app_nth)

lemma start_0 [simp]: "start g cs 0 = 0"
  by (simp add: start_def)

lemma start_less: "wsum g cs = 2 ^ g \<Longrightarrow> t < length cs \<Longrightarrow> start g cs t + wsum g (drop t cs) = 2 ^ g"
  by (metis append_take_drop_id start_def wsum_simps(3))

lemma drop_head: "t < length cs \<Longrightarrow> drop t cs = cs ! t # drop (Suc t) cs"
  by (simp add: Cons_nth_drop_Suc)

lemma start_less_end: "wsum g cs = 2 ^ g \<Longrightarrow> t < length cs \<Longrightarrow> start g cs t < 2 ^ g"
proof -
  assume a: "wsum g cs = 2 ^ g" "t < length cs"
  define p where "p = (2 :: nat) ^ (g - cs ! t)"
  have "0 < p" by (simp add: p_def)
  then show ?thesis using start_less [OF a] drop_head [OF a(2)] by (simp add: p_def [symmetric])
qed

lemma code_set_nth:
  assumes "code_set c g l cs" "t < length cs"
  shows "0 < cs ! t" "cs ! t \<le> g" "\<forall>x\<in>set (drop t cs). cs ! t \<le> x \<and> x \<le> g" "sorted (drop t cs)"
proof -
  have c: "sorted cs" "\<And>x. x \<in> set cs \<Longrightarrow> 0 < x \<and> x \<le> g" using assms(1) by (auto simp: code_set_def)
  show "0 < cs ! t" "cs ! t \<le> g" using c(2) [of "cs ! t"] assms(2) by auto
  show s: "sorted (drop t cs)" using c(1) by (rule sorted_wrt_drop)
  show "\<forall>x\<in>set (drop t cs). cs ! t \<le> x \<and> x \<le> g"
    using s c(2) in_set_dropD [of _ t cs] drop_head [OF assms(2)] by auto
qed

lemma few_codes:
  assumes "code_set c g l cs" "t < length cs" "2 ^ (g - w) dvd start g cs t" "w \<le> g" "length cs < 2 ^ l"
  shows "cs ! t < w + l"
proof (rule ccontr)
  define k where "k = cs ! t"
  assume "\<not> ?thesis"
  then have k: "w + l \<le> k" "k \<le> g" using code_set_nth(2) [OF assms(1,2)] by (auto simp: k_def)
  have W: "wsum g cs = 2 ^ g" using assms(1) by (simp add: code_set_def)
  have "start g cs t + 2 ^ (g - w) \<le> 2 ^ g"
    using start_less_end [OF W assms(2)] assms(3,4)
    by (metis (no_types, lifting) add.commute diff_le_self dvd_diff_nat le_add_diff_inverse2 le_imp_power_dvd less_imp_le nat_dvd_not_less not_less zero_less_diff le_diff_conv2)
  then have "2 ^ (g - w) \<le> wsum g (drop t cs)" using start_less [OF W assms(2)] by simp
  also have "wsum g xs \<le> length xs * 2 ^ (g - k)" if "\<forall>x\<in>set xs. k \<le> x" for xs
    using that
  proof (induction xs)
    case (Cons x xs)
    then have "(2 :: nat) ^ (g - x) \<le> 2 ^ (g - k)" by (intro power_increasing) auto
    then have "2 ^ (g - x) + wsum g xs \<le> 2 ^ (g - k) + length xs * 2 ^ (g - k)" by (rule add_mono) (use Cons in auto)
    then show ?case by simp
  qed simp
  then have "wsum g (drop t cs) \<le> length (drop t cs) * 2 ^ (g - k)"
    using code_set_nth(3) [OF assms(1,2)] by (simp add: k_def del: length_drop)
  finally have "2 ^ (k - w) * 2 ^ (g - k) \<le> length (drop t cs) * 2 ^ (g - k)" using k by (simp flip: power_add)
  then have "2 ^ (k - w) \<le> length (drop t cs)" by simp
  moreover have "(2 :: nat) ^ l \<le> 2 ^ (k - w)" using k by (intro power_increasing) auto
  ultimately have "2 ^ l \<le> length (drop t cs)" by (rule le_trans [rotated])
  then show False using assms(5) by simp
qed

text \<open>The entry of code number \<open>t\<close>, as \<^verbatim>\<open>huft_build\<close> sets it up.\<close>

definition entry_ok :: "(nat \<Rightarrow> nat) \<Rightarrow> nat \<Rightarrow> nat \<Rightarrow> nat list \<Rightarrow> nat list \<Rightarrow> nat \<Rightarrow> huft \<Rightarrow> bool" where
  "entry_ok v n s d e t r \<longleftrightarrow>
     (if n \<le> t then hf_e r = 99
      else if v t < s then hf_e r = (if v t < 256 then 16 else 15) \<and> hf_v r = Num (v t)
      else hf_e r = e ! (v t - s) \<and> hf_v r = Num (d ! (v t - s)))"

definition values_ok :: "(nat \<Rightarrow> nat) \<Rightarrow> nat \<Rightarrow> nat \<Rightarrow> nat list \<Rightarrow> nat list \<Rightarrow> nat list \<Rightarrow> bool" where
  "values_ok v n s d e cs \<longleftrightarrow> (\<forall>x\<in>set e. x \<le> 16 \<or> x = 99) \<and>
     (\<forall>t. t < length cs \<longrightarrow> t < n \<longrightarrow> v t < s \<or> v t - s < length d \<and> v t - s < length e)"

lemma set_entry_spec:
  assumes "values_ok v n s d e cs" "t < length cs" "hb_p st = min t n"
  shows "\<exists>r. set_entry v n s d e bits st = Some (st\<lparr>hb_r := r, hb_p := min (Suc t) n\<rparr>) \<and>
    entry_ok v n s d e t r \<and> hf_b r = bits \<and> is_leaf r"
proof -
  have e: "is_leaf r" if "hf_e r \<in> set e" for r using that assms(1) by (auto simp: values_ok_def is_leaf_def)
  show ?thesis
  proof (cases "n \<le> t")
    case True
    then have "set_entry v n s d e bits st = Some (st\<lparr>hb_r := (hb_r st)\<lparr>hf_b := bits, hf_e := 99\<rparr>, hb_p := min (Suc t) n\<rparr>)"
      using assms(3) by (simp add: set_entry_def Let_def)
    then show ?thesis using True by (auto simp: entry_ok_def is_leaf_def)
  next
    case False
    then have p: "hb_p st = t" "min (Suc t) n = t + 1" "v t < s \<or> v t - s < length d \<and> v t - s < length e"
      using assms by (auto simp: values_ok_def)
    show ?thesis
    proof (cases "v t < s")
      case True
      then have "set_entry v n s d e bits st =
          Some (st\<lparr>hb_r := (hb_r st)\<lparr>hf_b := bits, hf_e := if v t < 256 then 16 else 15, hf_v := Num (v t)\<rparr>, hb_p := min (Suc t) n\<rparr>)"
        using False p by (simp add: set_entry_def Let_def)
      then show ?thesis using True False
        by (intro exI [of _ "(hb_r st)\<lparr>hf_b := bits, hf_e := if v t < 256 then 16 else 15, hf_v := Num (v t)\<rparr>"])
          (simp add: entry_ok_def is_leaf_def)
    next
      case v: False
      then have "e ! (v t - s) \<in> set e" using p(3) by simp
      then have "set_entry v n s d e bits st =
          Some (st\<lparr>hb_r := (hb_r st)\<lparr>hf_b := bits, hf_e := e ! (v t - s), hf_v := Num (d ! (v t - s))\<rparr>, hb_p := min (Suc t) n\<rparr>)"
        using False p v by (simp add: set_entry_def Let_def)
      then show ?thesis using e [of "(hb_r st)\<lparr>hf_b := bits, hf_e := e ! (v t - s), hf_v := Num (d ! (v t - s))\<rparr>"] \<open>e ! (v t - s) \<in> set e\<close> v False
        by (intro exI [of _ "(hb_r st)\<lparr>hf_b := bits, hf_e := e ! (v t - s), hf_v := Num (d ! (v t - s))\<rparr>"]) (simp add: entry_ok_def)
    qed
  qed
qed

text \<open>\<open>decoded\<close>: every stream that starts with one of the first \<open>t\<close> codes is decoded, and stays so
  when cells change that no such stream reaches.\<close>

definition decoded :: "nat \<Rightarrow> nat list \<Rightarrow> (nat \<Rightarrow> nat \<Rightarrow> huft) \<Rightarrow> homes \<Rightarrow> nat \<Rightarrow> (nat \<Rightarrow> huft \<Rightarrow> bool) \<Rightarrow> nat \<Rightarrow> bool" where
  "decoded g cs T hm root ok t \<longleftrightarrow>
     (\<forall>t'<t. \<exists>r. ok t' r \<and> (\<forall>B. start g cs t' \<le> brev g B \<longrightarrow> brev g B < start g cs (Suc t') \<longrightarrow> dec T hm B root (cs ! t') r))"

lemma start_mono: "t \<le> t' \<Longrightarrow> t' \<le> length cs \<Longrightarrow> start g cs t \<le> start g cs t'"
proof (induction t' rule: dec_induct)
  case (step m)
  then show ?case using start_Suc [of m cs g] by simp
qed simp

lemma decoded_frame:
  assumes "decoded g cs T hm root ok t" "hm \<subseteq>\<^sub>m hm'" "t \<le> length cs"
    and "\<And>B q w bits. brev g B < start g cs t \<Longrightarrow> hm q = Some (w, B mod 2 ^ w, bits) \<Longrightarrow>
      T' q (B div 2 ^ w mod 2 ^ bits) = T q (B div 2 ^ w mod 2 ^ bits)"
  shows "decoded g cs T' hm' root ok t"
  unfolding decoded_def
proof (intro allI impI)
  fix t' assume t': "t' < t"
  then obtain r where r: "ok t' r" "\<And>B. start g cs t' \<le> brev g B \<Longrightarrow> brev g B < start g cs (Suc t') \<Longrightarrow> dec T hm B root (cs ! t') r"
    using assms(1) by (auto simp: decoded_def)
  have "dec T' hm' B root (cs ! t') r" if "start g cs t' \<le> brev g B" "brev g B < start g cs (Suc t')" for B
    using dec_frame [OF r(2) [OF that] assms(2)] assms(4) [of B] that(2) start_mono [of "Suc t'" t cs g] t' assms(3) by fastforce
  then show "\<exists>r. ok t' r \<and> (\<forall>B. start g cs t' \<le> brev g B \<longrightarrow> brev g B < start g cs (Suc t') \<longrightarrow> dec T' hm' B root (cs ! t') r)"
    using r(1) by blast
qed

definition top_fresh :: "nat \<Rightarrow> nat \<Rightarrow> nat list \<Rightarrow> nat \<Rightarrow> huft_locals \<Rightarrow> (nat \<Rightarrow> nat) \<Rightarrow> nat \<Rightarrow> bool" where
  "top_fresh g l cs t st bs J \<longleftrightarrow>
     (let h = hb_levels st - 1; w = l * h
      in hb_q st = hb_u st h \<and> w < cs ! t \<and> hb_z st = 2 ^ J \<and> bs h \<le> J \<and>
         fits g l w J (brev g (hb_i st mod 2 ^ w) + 2 ^ (g - w)) (start g cs t) (drop t cs) \<and>
         (if h = 0 then bs h = l else bs h = J \<and> (J \<le> l \<or> g \<le> 2 * l)))"

definition stacked :: "nat \<Rightarrow> nat \<Rightarrow> nat list \<Rightarrow> nat \<Rightarrow> huft_locals \<Rightarrow> homes \<Rightarrow> (nat \<Rightarrow> nat) \<Rightarrow> bool" where
  "stacked g l cs t st hm bs \<longleftrightarrow>
     hb_wl st = l * hb_levels st \<and> brev g (hb_i st) = start g cs t \<and> hb_i st < 2 ^ (cs ! t) \<and> hb_x st 0 = 0 \<and>
     chain l (tables (hb_lin st)) hm (hb_u st) (hb_x st) bs (hb_i st) (hb_levels st)"

text \<open>What is always kept; \<open>ok\<close> is the property of the entries.\<close>

definition kept :: "nat \<Rightarrow> nat \<Rightarrow> nat list \<Rightarrow> (nat \<Rightarrow> huft \<Rightarrow> bool) \<Rightarrow> nat \<Rightarrow> nat \<Rightarrow> huft_locals \<Rightarrow> homes \<Rightarrow> bool" where
  "kept g l cs ok n t st hm \<longleftrightarrow>
     dom hm \<subseteq> {..<ntables (hb_lin st)} \<and> hb_p st = min t n \<and>
     decoded g cs (tables (hb_lin st)) hm (hb_u st 0) ok t"

definition rooted :: "nat \<Rightarrow> huft_locals \<Rightarrow> homes \<Rightarrow> bool" where
  "rooted l st hm \<longleftrightarrow> hb_root st = Some (hb_u st 0) \<and> hm (hb_u st 0) = Some (0, 0, l) \<and> hb_t st \<noteq> None \<and> 0 < hb_levels st"

definition build_inv :: "nat \<Rightarrow> nat \<Rightarrow> nat list \<Rightarrow> (nat \<Rightarrow> huft \<Rightarrow> bool) \<Rightarrow> nat \<Rightarrow> nat \<Rightarrow> huft_locals \<Rightarrow> bool" where
  "build_inv g l cs ok n t st \<longleftrightarrow> (\<exists>hm bs. kept g l cs ok n t st hm \<and>
     (if t = 0 then hb_t st = None \<and> hb_levels st = 0 else rooted l st hm) \<and>
     (t < length cs \<longrightarrow> stacked g l cs t st hm bs \<and> hb_i st < 2 ^ hb_wl st \<and>
        (0 < t \<longrightarrow> bs (hb_levels st - 1) = l \<and> hb_wl st < cs ! t \<or> (\<exists>J. top_fresh g l cs t st bs J))))"

definition code_inv :: "nat \<Rightarrow> nat \<Rightarrow> nat list \<Rightarrow> (nat \<Rightarrow> huft \<Rightarrow> bool) \<Rightarrow> nat \<Rightarrow> nat \<Rightarrow> huft_locals \<Rightarrow> bool" where
  "code_inv g l cs ok n t st \<longleftrightarrow> (\<exists>hm bs J. kept g l cs ok n t st hm \<and> rooted l st hm \<and> stacked g l cs t st hm bs \<and>
     top_fresh g l cs t st bs J \<and> cs ! t \<le> l * (hb_levels st - 1) + J \<and> cs ! t \<le> hb_wl st)"

lemma in_block: "w \<le> g \<Longrightarrow> i < 2 ^ g \<Longrightarrow> brev g (i mod 2 ^ w) \<le> brev g i \<and> brev g i < brev g (i mod 2 ^ w) + 2 ^ (g - w)"
  using block_iff [of w g "i mod 2 ^ w" i] by simp

lemma code_inv_old_table:
  assumes "code_set c g l cs" "t < length cs" "build_inv g l cs ok n t st" "cs ! t \<le> hb_wl st"
  shows "code_inv g l cs ok n t st"
proof -
  obtain hm bs where b: "kept g l cs ok n t st hm" "if t = 0 then hb_t st = None \<and> hb_levels st = 0 else rooted l st hm"
      "stacked g l cs t st hm bs" "0 < t \<longrightarrow> bs (hb_levels st - 1) = l \<and> hb_wl st < cs ! t \<or> (\<exists>J. top_fresh g l cs t st bs J)"
    using assms(2,3) by (auto simp: build_inv_def)
  have k: "0 < cs ! t" "cs ! t \<le> g" using code_set_nth [OF assms(1,2)] by auto
  have "0 < t" using b(2,3) k assms(4) by (auto simp: stacked_def split: if_splits)
  then obtain J where J: "top_fresh g l cs t st bs J" and r: "rooted l st hm" using b(2,4) assms(4) by auto
  define w where "w = l * (hb_levels st - 1)"
  have wl: "hb_wl st = w + l"
    using b(3) r by (cases "hb_levels st") (auto simp: stacked_def w_def rooted_def)
  have f: "w < cs ! t" "fits g l w J (brev g (hb_i st mod 2 ^ w) + 2 ^ (g - w)) (start g cs t) (cs ! t # drop (Suc t) cs)"
    using J by (auto simp: top_fresh_def Let_def w_def drop_head [OF assms(2)])
  have "hb_i st < 2 ^ g" using b(3) k(2) less_le_trans [OF _ power_increasing [of "cs ! t" g "2 :: nat"]] by (auto simp: stacked_def)
  then have "start g cs t < brev g (hb_i st mod 2 ^ w) + 2 ^ (g - w)"
    using in_block [of w g "hb_i st"] b(3) f(1) k(2) by (auto simp: stacked_def)
  then have "cs ! t \<le> w + J" using fits_head [OF f(2)] assms(4) wl by auto
  then show ?thesis using b(1,3) r J assms(4) unfolding code_inv_def w_def by blast
qed

lemma count_drop:
  assumes "code_set c g l cs" "t < length cs" "cs ! t < m" "m \<le> g"
  shows "count_list (drop t cs) m = c m"
proof -
  have "m \<notin> set (take t cs)"
    using assms(1,2,3) by (auto simp: code_set_def in_set_conv_nth sorted_iff_nth_mono leD)
  then have "count_list cs m = count_list (drop t cs) m"
    by (metis add_0 append_take_drop_id count_list_append count_notin)
  then show ?thesis using assms by (simp add: code_set_def)
qed

lemma new_table_simps:
  "hb_levels (new_table c g l k a st) = Suc (hb_levels st)" "hb_wl (new_table c g l k a st) = hb_wl st + l"
  "hb_i (new_table c g l k a st) = hb_i st" "hb_p (new_table c g l k a st) = hb_p st"
  "hb_z (new_table c g l k a st) = 2 ^ table_bits c g l k (hb_wl st) a" "hb_q (new_table c g l k a st) = ntables (hb_lin st)"
  "hb_u (new_table c g l k a st) = (hb_u st)(hb_levels st := ntables (hb_lin st))"
  "hb_x (new_table c g l k a st) = (if hb_levels st = 0 then hb_x st else (hb_x st)(hb_levels st := hb_i st))"
  "hb_t (new_table c g l k a st) \<noteq> None"
  "hb_root (new_table c g l k a st) = (if hb_t st = None then Some (ntables (hb_lin st)) else hb_root st)"
  "ntables (hb_lin (new_table c g l k a st)) = Suc (ntables (hb_lin st))"
  "tables (hb_lin (new_table c g l k a st)) =
     (if hb_levels st = 0 then tables (hb_lin st)
      else (tables (hb_lin st))(hb_u st (hb_levels st - 1) := (tables (hb_lin st) (hb_u st (hb_levels st - 1)))
        (hb_i st div 2 ^ (hb_wl st - l) :=
          \<lparr>hf_e = 16 + table_bits c g l k (hb_wl st) a, hf_b = l, hf_v = Tab (ntables (hb_lin st))\<rparr>)))"
  by (simp_all add: new_table_def linalloc_def store_entry_def Let_def drop_bit_eq_div)

lemma power_less_le: "(i :: nat) < 2 ^ a \<Longrightarrow> a \<le> b \<Longrightarrow> i < 2 ^ b"
  by (erule less_le_trans) (rule power_increasing, auto)

lemma mod_split_eq:
  fixes B i :: nat
  assumes "B mod 2 ^ w = i mod 2 ^ w" "B div 2 ^ w mod 2 ^ l = i div 2 ^ w mod 2 ^ l"
  shows "B mod 2 ^ (w + l) = i mod 2 ^ (w + l)"
  using assms by (simp add: power_add mod_mult2_eq)

text \<open>The table that a further table is linked to is looked up with \<open>l\<close> bits.\<close>

lemma top_bits:
  assumes "code_set c g l cs" "t < length cs" "stacked g l cs t st hm bs" "0 < hb_levels st" "hb_wl st < cs ! t"
    and "bs (hb_levels st - 1) = l \<and> hb_wl st < cs ! t \<or> (\<exists>J. top_fresh g l cs t st bs J)"
  shows "bs (hb_levels st - 1) = l"
  using assms(6)
proof (elim disjE conjE exE)
  fix J assume J: "top_fresh g l cs t st bs J"
  obtain h where H: "hb_levels st = Suc h" using assms(4) by (cases "hb_levels st") auto
  then have wl: "hb_wl st = l * h + l" using assms(3) by (simp add: stacked_def)
  have k: "cs ! t \<le> g" using code_set_nth [OF assms(1,2)] by auto
  have i: "hb_i st < 2 ^ g" "brev g (hb_i st) = start g cs t"
    using assms(3) k power_less_le by (auto simp: stacked_def)
  show ?thesis
  proof (cases "h = 0")
    case True
    then show ?thesis using J by (simp add: top_fresh_def Let_def H)
  next
    case False
    then have f: "bs h = J" "J \<le> l \<or> g \<le> 2 * l"
        "fits g l (l * h) J (brev g (hb_i st mod 2 ^ (l * h)) + 2 ^ (g - l * h)) (start g cs t) (cs ! t # drop (Suc t) cs)"
      using J by (auto simp: top_fresh_def Let_def H drop_head [OF assms(2)])
    have "2 * l \<le> l * h + l" using False by (cases h) auto
    then have "J \<le> l" using f(2) assms(5) k wl by linarith
    moreover have "start g cs t < brev g (hb_i st mod 2 ^ (l * h)) + 2 ^ (g - l * h)"
      using in_block [of "l * h" g "hb_i st"] i wl assms(5) k by simp
    then have "l \<le> J" using fits_head [OF f(3)] assms(5) wl \<open>J \<le> l\<close> by linarith
    ultimately show ?thesis using f(1) by (simp add: H)
  qed
qed

lemma next_level:
  assumes "code_set c g l cs" "t < length cs" "brev g i = start g cs t" "i < 2 ^ w" "w < cs ! t" "l \<le> w"
  shows "cs ! t < w + l \<or> g \<le> 2 * l"
proof (cases "g \<le> 2 * l")
  case False
  then have "length cs < 2 ^ l" using assms(1) by (simp add: code_set_def)
  moreover have "w \<le> g" using code_set_nth(2) [OF assms(1,2)] assms(5) by simp
  ultimately show ?thesis using few_codes [OF assms(1,2), of w] brev_dvd [of w g i] assms(3,4) by simp
qed simp

lemma new_table_bits:
  assumes "code_set c g l cs" "t < length cs" "cs ! t = k" "w < k" "Suc a = count_list (drop t cs) k"
    and "k < w + l \<or> k \<le> w + l \<and> g \<le> 2 * l" "l \<le> w"
  shows "0 < table_bits c g l k w a" "table_bits c g l k w a \<le> 16" "table_bits c g l k w a \<le> l \<or> g \<le> 2 * l" "k \<le> w + table_bits c g l k w a"
proof -
  define J where "J = table_bits c g l k w a"
  have k: "k \<le> g" "\<forall>x\<in>set (drop t cs). k \<le> x" "0 < l" "g \<le> 16"
    using code_set_nth [OF assms(1,2)] assms(1,3) by (auto simp: code_set_def)
  have J: "k - w \<le> J" "J \<le> max (if g - w > l then l else g - w) (k - w + 1)"
    using table_bits_spec(1,2) [OF assms(4) k(1,2) _ _ refl refl, of a c l] count_drop [OF assms(1,2)] assms(3,5) by (auto simp: J_def)
  show "0 < table_bits c g l k w a" "k \<le> w + table_bits c g l k w a" using J(1) assms(4) by (auto simp: J_def [symmetric])
  show "table_bits c g l k w a \<le> 16" using J(2) assms(4,7) k by (auto simp: J_def [symmetric] split: if_splits)
  show "table_bits c g l k w a \<le> l \<or> g \<le> 2 * l" using J(2) assms(4,6) k by (auto simp: J_def [symmetric] split: if_splits)
qed

text \<open>The first table.\<close>

lemma code_inv_first_table:
  assumes "code_set c g l cs" "0 < length cs" "build_inv g l cs ok n 0 st" "Suc a = count_list cs (cs ! 0)"
  shows "code_inv g l cs ok n 0 (new_table c g l (cs ! 0) a st)"
proof -
  define k where "k = cs ! 0"
  define J where "J = table_bits c g l k 0 a"
  define q where "q = ntables (hb_lin st)"
  obtain hm bs where b: "kept g l cs ok n 0 st hm" "hb_t st = None" "hb_levels st = 0" "stacked g l cs 0 st hm bs" "hb_i st < 2 ^ hb_wl st"
    using assms(2,3) by (auto simp: build_inv_def)
  have s: "hb_wl st = 0" "hb_x st 0 = 0" "hb_i st = 0" using b(3-5) by (auto simp: stacked_def)
  have k: "0 < k" "k \<le> g" "\<forall>x\<in>set cs. k \<le> x \<and> x \<le> g" "sorted cs" "k \<le> l" "0 < l" "l \<le> 16" "l \<le> g" "g \<in> set cs" "wsum g cs = 2 ^ g"
    using code_set_nth [OF assms(1,2)] assms(1,2) hd_conv_nth [of cs] by (auto simp: k_def code_set_def)
  have cnt: "count_list cs k = a + 1" "\<And>m. k < m \<Longrightarrow> m \<le> g \<Longrightarrow> count_list cs m = c m"
    using assms(4) count_drop [OF assms(1,2)] by (auto simp: k_def)
  have J: "l \<le> J" "k \<le> J"
    using root_table_bits [OF k(1-3) cnt k(10,9,8)] table_bits_spec(1) [OF k(1,2) _ cnt refl refl] k(3) by (auto simp: J_def)
  have "fits g l 0 J (2 ^ g) 0 cs" using table_bits_fits [OF k(1,2,4,3) cnt, of l 0] by (simp add: J_def)
  then have "top_fresh g l cs 0 (new_table c g l k a st) (bs(0 := l)) J"
    using J(1) k(1) s b(3) by (simp add: top_fresh_def Let_def new_table_simps q_def J_def [symmetric] k_def [symmetric])
  moreover have "stacked g l cs 0 (new_table c g l k a st) (hm(q \<mapsto> (0, 0, l))) (bs(0 := l))"
    using s b(3) k(1) by (simp add: stacked_def new_table_simps q_def k_def [symmetric] chain_def)
  moreover have "rooted l (new_table c g l k a st) (hm(q \<mapsto> (0, 0, l)))"
    using b(2,3) new_table_simps(9) by (auto simp: rooted_def new_table_simps q_def)
  moreover have "kept g l cs ok n 0 (new_table c g l k a st) (hm(q \<mapsto> (0, 0, l)))"
    using b(1) by (auto simp: kept_def new_table_simps q_def decoded_def)
  ultimately show ?thesis
    using J(2) s b(3) k(5) unfolding code_inv_def k_def [symmetric] by (auto simp: new_table_simps intro!: exI)
qed

text \<open>A further table: its link goes into a cell that no code made so far reaches.\<close>

lemma code_inv_further_table:
  assumes "code_set c g l cs" "t < length cs" "build_inv g l cs ok n t st" "Suc a = count_list (drop t cs) (cs ! t)" "0 < t" "hb_wl st < cs ! t"
  shows "code_inv g l cs ok n t (new_table c g l (cs ! t) a st)"
proof -
  define k where "k = cs ! t"
  define q where "q = ntables (hb_lin st)"
  define i where "i = hb_i st"
  define T where "T = tables (hb_lin st)"
  obtain hm bs where b: "kept g l cs ok n t st hm" "rooted l st hm" "stacked g l cs t st hm bs" "i < 2 ^ hb_wl st"
      "bs (hb_levels st - 1) = l \<and> hb_wl st < cs ! t \<or> (\<exists>J. top_fresh g l cs t st bs J)"
    using assms(2,3,5) by (auto simp: build_inv_def i_def)
  have bsl: "bs (hb_levels st - 1) = l" using top_bits [OF assms(1,2) b(3) _ assms(6) b(5)] b(2) by (simp add: rooted_def)
  obtain h where H: "hb_levels st = Suc h" using b(2) by (cases "hb_levels st") (auto simp: rooted_def)
  define w where "w = l * h + l"
  have wl: "hb_wl st = w" using b(3) H by (simp add: stacked_def w_def)
  define J where "J = table_bits c g l k w a"
  have s: "brev g i = start g cs t" "i < 2 ^ k" "hb_x st 0 = 0" "chain l T hm (hb_u st) (hb_x st) bs i (Suc h)"
    using b(3) H by (auto simp: stacked_def i_def k_def T_def)
  have k: "0 < k" "k \<le> g" "\<forall>x\<in>set (drop t cs). k \<le> x \<and> x \<le> g" "sorted (drop t cs)" "w < k" "0 < l"
    using code_set_nth [OF assms(1,2)] assms(1,6) wl by (auto simp: k_def code_set_def)
  have kl: "k < w + l \<or> k \<le> w + l \<and> g \<le> 2 * l"
    using next_level [OF assms(1,2) s(1), of w] b(4) wl k(2,5) by (auto simp: k_def w_def)
  have J: "0 < J" "J \<le> 16" "J \<le> l \<or> g \<le> 2 * l" "k \<le> w + J"
    using new_table_bits [OF assms(1,2) k_def [symmetric] k(5) _ kl] assms(4) by (auto simp: J_def w_def k_def)
  define r where "r = \<lparr>hf_e = 16 + J, hf_b = l, hf_v = Tab q\<rparr>"
  define T' where "T' = T(hb_u st h := (T (hb_u st h))(i div 2 ^ (l * h) := r))"
  define st1 where "st1 = new_table c g l k a st"
  have st1: "hb_levels st1 = Suc (Suc h)" "hb_wl st1 = w + l" "hb_i st1 = i" "hb_p st1 = hb_p st" "hb_z st1 = 2 ^ J" "hb_q st1 = q"
      "hb_u st1 = (hb_u st)(Suc h := q)" "hb_x st1 = (hb_x st)(Suc h := i)" "hb_t st1 \<noteq> None" "hb_root st1 = hb_root st"
      "ntables (hb_lin st1) = Suc q" "tables (hb_lin st1) = T'"
    using new_table_simps(9) [of c g l k a st] b(2)
    by (auto simp: st1_def new_table_simps wl H i_def q_def J_def T'_def T_def r_def rooted_def w_def)
  define hm' where "hm' = hm(q \<mapsto> (w, i, J))"
  have q: "hm q = None" using b(1) by (auto simp: kept_def q_def)
  have le: "hm \<subseteq>\<^sub>m hm'" using q by (auto simp: hm'_def map_le_def)
  have iw: "i mod 2 ^ w = i" "i div 2 ^ (l * h) mod 2 ^ l = i div 2 ^ (l * h)"
    using b(4) wl by (auto simp: w_def power_add div_less_iff_less_mult mult.commute less_mult_imp_div_less)
  have top: "hm (hb_u st h) = Some (l * h, i mod 2 ^ (l * h), l)" using chainD(1) [OF s(4), of h] bsl H by simp
  have "chain l T' hm' (hb_u st) (hb_x st) bs i (Suc h)"
    using chain_frame [OF s(4) le] chain_ids [OF s(4) _ _ _ k(6)] by (auto simp: T'_def)
  then have "chain l T' hm' (hb_u st1) (hb_x st1) (bs(Suc h := J)) i (Suc (Suc h))"
    using chain_push [of l T' hm' "hb_u st" "hb_x st" bs i "Suc h" q J] J(1,2) iw bsl H
    by (simp add: st1 hm'_def T'_def r_def w_def add.commute)
  then have "stacked g l cs t st1 hm' (bs(Suc h := J))"
    using s by (simp add: stacked_def st1 k_def [symmetric] w_def add.commute)
  moreover have "fits g l w J (brev g i + 2 ^ (g - w)) (start g cs t) (drop t cs)"
    unfolding s(1) J_def using table_bits_fits [OF k(5,2,4,3), of a c l] assms(4) count_drop [OF assms(1,2)] by (simp add: k_def)
  then have "top_fresh g l cs t st1 (bs(Suc h := J)) J"
    using J k(5) iw by (simp add: top_fresh_def Let_def st1 k_def [symmetric] w_def add.commute)
  moreover have "rooted l st1 hm'"
    using b(2) q by (auto simp: rooted_def st1 hm'_def)
  moreover have "decoded g cs T' hm' (hb_u st 0) ok t"
  proof (rule decoded_frame [where T = T and hm = hm])
    show "decoded g cs T hm (hb_u st 0) ok t" using b(1) by (simp add: kept_def T_def)
    fix B q' w' bits assume B: "brev g B < start g cs t" "hm q' = Some (w', B mod 2 ^ w', bits)"
    have False if e: "q' = hb_u st h" "B div 2 ^ w' mod 2 ^ bits = i div 2 ^ (l * h)"
    proof -
      have "w' = l * h" "bits = l" "B mod 2 ^ (l * h) = i mod 2 ^ (l * h)" using top B(2) e(1) by auto
      then have "B mod 2 ^ w = i" using mod_split_eq [of B "l * h" i l] e(2) iw by (simp add: w_def)
      then show False using block_iff [of w g i B] b(4) wl k(2,5) B(1) s(1) by simp
    qed
    then show "T' q' (B div 2 ^ w' mod 2 ^ bits) = T q' (B div 2 ^ w' mod 2 ^ bits)" by (auto simp: T'_def)
  qed (use le assms(2) in auto)
  then have "kept g l cs ok n t st1 hm'"
    using b(1) by (auto simp: kept_def st1 hm'_def q_def)
  ultimately show ?thesis
    unfolding code_inv_def k_def [symmetric] st1_def [symmetric]
    using J(4) kl by (intro exI [of _ hm'] exI [of _ "bs(Suc h := J)"] exI [of _ J]) (auto simp: st1 w_def add.commute)
qed

lemma make_tables_inv:
  assumes "code_set c g l cs" "t < length cs" "build_inv g l cs ok n t st" "Suc a = count_list (drop t cs) (cs ! t)"
  shows "code_inv g l cs ok n t (make_tables c g l (cs ! t) a st)"
proof (cases "hb_wl st < cs ! t")
  case True
  have l: "l \<noteq> 0" using assms(1) by (simp add: code_set_def)
  have c: "code_inv g l cs ok n t (new_table c g l (cs ! t) a st)"
    using code_inv_first_table [OF assms(1)] code_inv_further_table [OF assms _ True] assms by (cases "t = 0") auto
  then have "cs ! t \<le> hb_wl (new_table c g l (cs ! t) a st)" by (auto simp: code_inv_def)
  then have "make_tables c g l (cs ! t) a (new_table c g l (cs ! t) a st) = new_table c g l (cs ! t) a st"
    by (subst make_tables.simps) simp
  then show ?thesis using c True l by (subst make_tables.simps) simp
next
  case False
  then show ?thesis using code_inv_old_table [OF assms(1-3)] by (subst make_tables.simps) simp
qed

lemma leave_block:
  assumes "W \<le> k" "k \<le> g" "i < 2 ^ k" "i' < 2 ^ g" "brev g i' = brev g i + 2 ^ (g - k)" "i' mod 2 ^ W \<noteq> i mod 2 ^ W"
  shows "i' < 2 ^ W"
proof -
  define S where "S = brev g (i mod 2 ^ W)"
  define D where "D = (2 :: nat) ^ (g - k)"
  have W: "W \<le> g" using assms(1,2) by simp
  have b: "S \<le> brev g i" "brev g i < S + 2 ^ (g - W)"
    using in_block [OF W] power_less_le [OF assms(3,2)] by (auto simp: S_def)
  have "D dvd 2 ^ (g - W)" using assms(1) by (simp add: D_def le_imp_power_dvd)
  moreover have S: "2 ^ (g - W) dvd S" using brev_dvd [OF W, of "i mod 2 ^ W"] by (simp add: S_def)
  ultimately have "D dvd S + 2 ^ (g - W)" by (meson dvd_add dvd_trans)
  moreover have "D dvd brev g i" using brev_dvd [OF assms(2,3)] by (simp add: D_def)
  ultimately have "D dvd S + 2 ^ (g - W) - brev g i" by (rule dvd_diff_nat)
  then have "D \<le> S + 2 ^ (g - W) - brev g i" using b(2) by (intro dvd_imp_le) auto
  then have "brev g i' \<le> S + 2 ^ (g - W)" using assms(5) b(2) by (simp add: D_def)
  moreover have "\<not> (S \<le> brev g i' \<and> brev g i' < S + 2 ^ (g - W))"
    using block_iff [OF W, of "i mod 2 ^ W" i'] assms(6) by (simp add: S_def)
  ultimately have "brev g i' = S + 2 ^ (g - W)" using b(1) assms(5) by simp
  then show ?thesis using brev_dvd_less [OF W assms(4)] S by simp
qed

text \<open>The entries of a code: what the streams that start with the code find, and what was there
  before is kept.\<close>

lemma code_cell:
  fixes B i :: nat
  assumes "w < k" "k \<le> w + bits" "i < 2 ^ k" "B mod 2 ^ w = i mod 2 ^ w"
  shows "B div 2 ^ w mod 2 ^ bits mod 2 ^ (k - w) = i div 2 ^ w \<longleftrightarrow> B mod 2 ^ k = i"
proof -
  have k: "k = w + (k - w)" using assms(1) by simp
  have "B div 2 ^ w mod 2 ^ bits mod 2 ^ (k - w) = B div 2 ^ w mod 2 ^ (k - w)"
    using assms(2) by (intro mod_mod_cancel) (simp add: le_imp_power_dvd)
  moreover have "i div 2 ^ w mod 2 ^ (k - w) = i div 2 ^ w"
    using assms(3) k by (metis less_mult_imp_div_less mod_less mult.commute power_add)
  moreover have "B mod 2 ^ k = i mod 2 ^ k \<longleftrightarrow> B div 2 ^ w mod 2 ^ (k - w) = i div 2 ^ w mod 2 ^ (k - w)"
    using mod_split_eq [OF assms(4), of "k - w"] digit_cong [of B k i w "k - w"] k by auto
  ultimately show ?thesis using assms(3) by simp
qed

lemma decoded_Suc:
  assumes "decoded g cs T hm (u 0) ok t" "t < length cs" "k = cs ! t" "k \<le> g" "i < 2 ^ k" "brev g i = start g cs t" "0 < l"
    and "chain l T hm u x bs i (Suc h)" "w = l * h" "w < k" "k \<le> w + bs h" "bs h \<le> J" "ok t r" "is_leaf r" "hf_b r = k - w"
    and "T' = (\<lambda>q' c. if q' = u h \<and> c < 2 ^ J \<and> c mod 2 ^ (k - w) = i div 2 ^ w then r else T q' c)"
  shows "decoded g cs T' hm (u 0) ok (Suc t)" "chain l T' hm u x bs i (Suc h)"
proof -
  have top: "hm (u h) = Some (w, i mod 2 ^ w, bs h)" using chainD(1) [OF assms(8), of h] assms(9) by simp
  show ch: "chain l T' hm u x bs i (Suc h)"
  proof (rule chain_frame [OF assms(8)])
    fix h' assume "Suc h' < Suc h"
    then have "u h' \<noteq> u h" using chain_ids [OF assms(8), of h' h] assms(7) by simp
    then show "T' (u h') (i div 2 ^ (l * h') mod 2 ^ l) = T (u h') (i div 2 ^ (l * h') mod 2 ^ l)" using assms(16) by simp
  qed simp
  have D: "decoded g cs T' hm (u 0) ok t"
  proof (rule decoded_frame [OF assms(1)])
    fix B q' w' bits assume B: "brev g B < start g cs t" "hm q' = Some (w', B mod 2 ^ w', bits)"
    have False if "q' = u h" "B div 2 ^ w' mod 2 ^ bits mod 2 ^ (k - w) = i div 2 ^ w"
    proof -
      have "w' = w" "bits = bs h" "B mod 2 ^ w = i mod 2 ^ w" using that(1) B(2) top by auto
      then have "B mod 2 ^ k = i" using code_cell [OF assms(10,11,5)] that(2) by simp
      then show False using block_iff [OF assms(4,5), of B] B(1) assms(6) by simp
    qed
    then show "T' q' (B div 2 ^ w' mod 2 ^ bits) = T q' (B div 2 ^ w' mod 2 ^ bits)" using assms(16) by auto
  qed (use assms(2) in auto)
  have E: "dec T' hm B (u 0) (cs ! t) r" if "start g cs t \<le> brev g B" "brev g B < start g cs (Suc t)" for B
  proof -
    have Bk: "B mod 2 ^ k = i"
      using block_iff [OF assms(4,5), of B] that start_Suc [OF assms(2), of g] assms(3,6) by simp
    then have "B mod 2 ^ k = i mod 2 ^ k" using assms(5) by simp
    then have Bw: "B mod 2 ^ w = i mod 2 ^ w" using mod_power_le_cong [of B k i w] assms(10) by simp
    have "B div 2 ^ w mod 2 ^ bs h < 2 ^ J" by (rule power_less_le [of _ "bs h"]) (use assms(12) in auto)
    then have "T' (u h) (B div 2 ^ w mod 2 ^ bs h) = r" using code_cell [OF assms(10,11,5) Bw] Bk assms(16) by simp
    then have "dec T' hm B (u h) (w + hf_b r) r"
      using dec_leaf [of hm "u h" w B "bs h" r T'] top Bw assms(10,11,14,15) by simp
    then show ?thesis
      using chain_dec [OF ch, of B "cs ! t" r 0] Bw assms(3,9,10,15) by simp
  qed
  show "decoded g cs T' hm (u 0) ok (Suc t)"
    unfolding decoded_def
  proof (intro allI impI)
    fix t' assume "t' < Suc t"
    then consider "t' < t" | "t' = t" by linarith
    then show "\<exists>r. ok t' r \<and> (\<forall>B. start g cs t' \<le> brev g B \<longrightarrow> brev g B < start g cs (Suc t') \<longrightarrow> dec T' hm B (u 0) (cs ! t') r)"
    proof cases
      case 1
      then show ?thesis using D unfolding decoded_def by blast
    next
      case 2
      then show ?thesis using E assms(13) by blast
    qed
  qed
qed


text \<open>The open tables after the step to the next code: the top one is the same, or tables are
  finished and the next code makes a new one.\<close>

lemma stack_after_code:
  assumes "code_set c g l cs" "Suc t < length cs" "k = cs ! t" "i < 2 ^ k" "brev g i = start g cs t" "i' = next_code k i"
    and "chain l T hm u x bs i (Suc h)" "l * h < k" "k \<le> l * Suc h" "backup l i' x h (l * h) = (h', w')" "x 0 = 0"
  shows "h' \<le> h" "w' = l * h'" "brev g i' = start g cs (Suc t)" "i' < 2 ^ (cs ! Suc t)" "chain l T hm u x bs i' (Suc h')" "i' < 2 ^ (l * Suc h')"
    and "i' mod 2 ^ (l * h') = i mod 2 ^ (l * h')" "h' < h \<Longrightarrow> bs h' = l \<and> l * Suc h' < cs ! Suc t"
proof -
  have k: "k \<le> g" "k \<le> cs ! Suc t" "cs ! Suc t \<le> g" "wsum g cs = 2 ^ g" "0 < l"
    using code_set_nth [OF assms(1), of t] code_set_nth(2) [OF assms(1,2)] assms(1-3) drop_head [of t cs] drop_head [OF assms(2)]
    by (auto simp: code_set_def)
  have "start g cs (Suc t) = brev g i + 2 ^ (g - k)" using start_Suc [of t cs g] assms(2,3,5) by simp
  then have n: "brev g i' = start g cs (Suc t)" "i' < 2 ^ k" "brev g i' = brev g i + 2 ^ (g - k)"
    using next_code_pos [OF k(1) assms(4)] start_less_end [OF k(4) assms(2)] assms(6) by auto
  have b: "h' \<le> h" "w' = l * h'" "i' mod 2 ^ (l * h') = x h'" "\<And>m. h' < m \<Longrightarrow> m \<le> h \<Longrightarrow> i' mod 2 ^ (l * m) \<noteq> x m"
    using backup_spec [OF assms(10,11)] by auto
  have x: "x m = i mod 2 ^ (l * m)" if "m \<le> h" for m using chainD(2) [OF assms(7), of m] that by simp
  show "h' \<le> h" "w' = l * h'" "brev g i' = start g cs (Suc t)" "i' < 2 ^ (cs ! Suc t)" "i' mod 2 ^ (l * h') = i mod 2 ^ (l * h')"
    using b n k(2) x power_less_le by auto
  show "chain l T hm u x bs i' (Suc h')"
    using chain_cong [OF chain_less [OF assms(7)], of h' i'] b(1,3) x by simp
  have le: "l * Suc h' \<le> l * h" if "h' < h" using that by (intro mult_le_mono2) simp
  show "i' < 2 ^ (l * Suc h')"
  proof (cases "h' = h")
    case True
    then show ?thesis using n(2) assms(9) power_less_le by auto
  next
    case False
    then have "i' mod 2 ^ (l * Suc h') \<noteq> i mod 2 ^ (l * Suc h')" using b(1) b(4) [of "Suc h'"] x [of "Suc h'"] by simp
    then show ?thesis
      using leave_block [OF _ k(1) assms(4) _ n(3), of "l * Suc h'"] power_less_le [OF n(2) k(1)] le False b(1) assms(8) by simp
  qed
  show "bs h' = l \<and> l * Suc h' < cs ! Suc t" if "h' < h"
    using that assms(7,8) le k(2) by (auto simp: chain_def)
qed

lemma code_step_inv:
  assumes "code_set c g l cs" "t < length cs" "values_ok v n s d e cs" "build_inv g l cs (entry_ok v n s d e) n t st"
    and "Suc a = count_list (drop t cs) (cs ! t)"
  shows "\<exists>st'. code_step c g l v n s d e (cs ! t) a st = Some st' \<and> build_inv g l cs (entry_ok v n s d e) n (Suc t) st'"
proof -
  define ok where "ok = entry_ok v n s d e"
  define k where "k = cs ! t"
  define st1 where "st1 = make_tables c g l k a st"
  obtain hm bs J where m: "kept g l cs ok n t st1 hm" "rooted l st1 hm" "stacked g l cs t st1 hm bs" "top_fresh g l cs t st1 bs J"
      "k \<le> l * (hb_levels st1 - 1) + J" "k \<le> hb_wl st1"
    using make_tables_inv [OF assms(1,2,4,5)] by (auto simp: code_inv_def ok_def st1_def k_def)
  obtain h where H: "hb_levels st1 = Suc h" using m(2) by (cases "hb_levels st1") (auto simp: rooted_def)
  define w where "w = l * h"
  define T where "T = tables (hb_lin st1)"
  define i where "i = hb_i st1"
  have s: "hb_wl st1 = w + l" "brev g i = start g cs t" "i < 2 ^ k" "hb_x st1 0 = 0" "chain l T hm (hb_u st1) (hb_x st1) bs i (Suc h)"
    using m(3) H by (auto simp: stacked_def w_def i_def T_def k_def)
  have f: "hb_q st1 = hb_u st1 h" "w < k" "hb_z st1 = 2 ^ J" "bs h \<le> J" "k \<le> w + bs h"
      "fits g l w J (brev g (i mod 2 ^ w) + 2 ^ (g - w)) (start g cs t) (k # drop (Suc t) cs)"
      "if h = 0 then bs h = l else bs h = J \<and> (J \<le> l \<or> g \<le> 2 * l)"
    using m(4,5,6) s(1) by (auto simp: top_fresh_def Let_def H w_def k_def i_def drop_head [OF assms(2)] split: if_splits)
  have k: "k \<le> g" "0 < l" using code_set_nth [OF assms(1,2)] assms(1) by (auto simp: k_def code_set_def)
  obtain r where r: "set_entry v n s d e (k - w) st1 = Some (st1\<lparr>hb_r := r, hb_p := min (Suc t) n\<rparr>)" "ok t r" "hf_b r = k - w" "is_leaf r"
    using set_entry_spec [OF assms(3,2), of st1 "k - w"] m(1) by (auto simp: kept_def ok_def)
  define i' where "i' = next_code k i"
  obtain h' w' where b: "backup l i' (hb_x st1) h (l * h) = (h', w')" by fastforce
  define L where "L = fill (hb_u st1 h) (drop_bit w i) (2 ^ J) (2 ^ (k - w)) r (hb_lin st1)"
  define st' where "st' = st1\<lparr>hb_r := r, hb_p := min (Suc t) n, hb_i := i', hb_levels := h' + 1, hb_wl := w' + l, hb_lin := L\<rparr>"
  have step: "code_step c g l v n s d e k a st = Some st'"
    using r(1) b s(1) f(1,3) H
    by (simp add: code_step_def Let_def st1_def [symmetric] w_def [symmetric] i_def [symmetric] i'_def [symmetric] L_def [symmetric] st'_def)
  have "i div 2 ^ w < 2 ^ (k - w)"
    using s(3) f(2) by (intro less_mult_imp_div_less) (simp flip: power_add)
  then have T': "tables L = (\<lambda>q' c. if q' = hb_u st1 h \<and> c < 2 ^ J \<and> c mod 2 ^ (k - w) = i div 2 ^ w then r else T q' c)"
    unfolding L_def T_def drop_bit_eq_div by (rule fill_code)
  have d: "decoded g cs (tables L) hm (hb_u st1 0) ok (Suc t)" "chain l (tables L) hm (hb_u st1) (hb_x st1) bs i (Suc h)"
    using decoded_Suc [where u = "hb_u st1" and bs = bs and ok = ok, OF _ assms(2) k_def k(1) s(3,2) k(2) s(5) w_def f(2,5,4) r(2,4,3) T']
      m(1) by (auto simp: kept_def T_def)
  have "kept g l cs ok n (Suc t) st' hm" "rooted l st' hm"
    using m(1,2) d(1) by (auto simp: kept_def rooted_def st'_def L_def)
  moreover have "stacked g l cs (Suc t) st' hm bs \<and> hb_i st' < 2 ^ hb_wl st' \<and>
      (bs (hb_levels st' - 1) = l \<and> hb_wl st' < cs ! Suc t \<or> (\<exists>J. top_fresh g l cs (Suc t) st' bs J))" if lt: "Suc t < length cs"
  proof -
    have kl: "l * h < k" "k \<le> l * Suc h" using f(2) m(6) s(1) by (auto simp: w_def)
    note a = stack_after_code [OF assms(1) lt k_def s(3,2) i'_def d(2) kl b s(4)]
    have "top_fresh g l cs (Suc t) st' bs J" if "h' = h"
      using that a f fits_step [OF f(6)] start_Suc [OF assms(2), of g] drop_head [OF lt] code_set_nth(3) [OF assms(1,2)]
        drop_head [OF assms(2)] by (auto simp: top_fresh_def Let_def st'_def w_def k_def)
    then show ?thesis
      using a s(4) by (cases "h' = h") (auto simp: stacked_def st'_def add.commute)
  qed
  ultimately show ?thesis
    using step unfolding build_inv_def ok_def k_def by (intro exI [of _ st']) auto
qed

section \<open>The whole loop\<close>

lemma count_list_replicate: "count_list (replicate a x) k = (if k = x then a else 0)"
  by (induction a) auto

lemma codes_of_length_inv:
  assumes "code_set c g l cs" "values_ok v n s d e cs" "build_inv g l cs (entry_ok v n s d e) n t st"
    and "drop t cs = replicate a k @ ys" "k \<notin> set ys"
  shows "\<exists>st'. codes_of_length (code_step c g l v n s d e) k a st = Some st' \<and> build_inv g l cs (entry_ok v n s d e) n (t + a) st'"
  using assms(3,4)
proof (induction a arbitrary: t st)
  case (Suc a)
  have t: "t < length cs" using Suc.prems(2) by (metis append_is_Nil_conv drop_eq_Nil not_le_imp_less replicate_empty nat.distinct(1))
  then have k: "cs ! t = k" "drop (Suc t) cs = replicate a k @ ys" using Suc.prems(2) drop_head [OF t] by auto
  have "Suc a = count_list (drop t cs) (cs ! t)" using assms(5) k(1) Suc.prems(2) by (simp add: count_list_append count_list_replicate)
  then obtain st1 where st1: "code_step c g l v n s d e k a st = Some st1" "build_inv g l cs (entry_ok v n s d e) n (Suc t) st1"
    using code_step_inv [OF assms(1) t assms(2) Suc.prems(1)] k by auto
  then show ?case using Suc.IH [OF st1(2) k(2)] by simp
qed simp

definition code_list :: "(nat \<Rightarrow> nat) \<Rightarrow> nat list \<Rightarrow> nat list" where
  "code_list c ks = concat (map (\<lambda>k. replicate (c k) k) ks)"

lemma code_list_simps [simp]: "code_list c [] = []" "code_list c (k # ks) = replicate (c k) k @ code_list c ks"
  by (simp_all add: code_list_def)

lemma set_code_list: "set (code_list c ks) = {k \<in> set ks. c k \<noteq> 0}"
  by (auto simp: code_list_def)

lemma all_codes_inv:
  assumes "code_set c g l cs" "values_ok v n s d e cs" "build_inv g l cs (entry_ok v n s d e) n t st"
    and "drop t cs = code_list c ks" "distinct ks"
  shows "\<exists>st'. all_codes (code_step c g l v n s d e) c ks st = Some st' \<and>
    build_inv g l cs (entry_ok v n s d e) n (t + length (code_list c ks)) st'"
  using assms(3-5)
proof (induction ks arbitrary: t st)
  case (Cons k ks)
  have nk: "k \<notin> set (code_list c ks)" using Cons.prems(3) by (auto simp: set_code_list)
  obtain st1 where st1: "codes_of_length (code_step c g l v n s d e) k (c k) st = Some st1"
      "build_inv g l cs (entry_ok v n s d e) n (t + c k) st1"
    using codes_of_length_inv [OF assms(1,2) Cons.prems(1) _ nk, of "c k"] Cons.prems(2) by auto
  moreover have "drop (t + c k) cs = code_list c ks"
    using arg_cong [OF Cons.prems(2), of "drop (c k)"] by (simp add: add.commute)
  ultimately show ?case using Cons.IH [of "t + c k" st1] Cons.prems(3) by (simp add: add.assoc)
qed simp

subsection \<open>The code set of a list of lengths\<close>

lemma length_counts_eq: "length_counts b = count_list b"
proof -
  have "foldl (\<lambda>c k. c(k := c k + 1)) c b k = c k + count_list b k" for c :: "nat \<Rightarrow> nat" and k
    by (induction b arbitrary: c) auto
  then show ?thesis by (simp add: length_counts_def fun_eq_iff)
qed

lemma count_list_0_iff: "count_list xs x = 0 \<longleftrightarrow> x \<notin> set xs"
  by (induction xs) auto

lemma min_length_spec:
  assumes "\<exists>k. j \<le> k \<and> k \<le> BMAX \<and> c k \<noteq> 0"
  shows "j \<le> min_length c j" "min_length c j \<le> BMAX" "c (min_length c j) \<noteq> 0" "\<And>k. j \<le> k \<Longrightarrow> c k \<noteq> 0 \<Longrightarrow> min_length c j \<le> k"
proof -
  have "j \<le> min_length c j \<and> min_length c j \<le> BMAX \<and> c (min_length c j) \<noteq> 0 \<and> (\<forall>k. j \<le> k \<longrightarrow> c k \<noteq> 0 \<longrightarrow> min_length c j \<le> k)"
    using assms
  proof (induction c j rule: min_length.induct)
    case (1 c j)
    obtain k where k: "j \<le> k" "k \<le> BMAX" "c k \<noteq> 0" using "1.prems" by blast
    show ?case
    proof (cases "c j = 0")
      case True
      then have "j + 1 \<le> k" using k by (metis Suc_eq_plus1 Suc_leI le_neq_implies_less)
      then have IH: "j + 1 \<le> min_length c (j + 1) \<and> min_length c (j + 1) \<le> BMAX \<and> c (min_length c (j + 1)) \<noteq> 0 \<and>
          (\<forall>k. j + 1 \<le> k \<longrightarrow> c k \<noteq> 0 \<longrightarrow> min_length c (j + 1) \<le> k)"
        using "1.IH" True k by fastforce
      have "min_length c j = min_length c (j + 1)" using True k by (subst min_length.simps) simp
      then show ?thesis using IH True by (metis Suc_eq_plus1 Suc_leD Suc_leI le_neq_implies_less)
    next
      case False
      then have "min_length c j = j" using k by (subst min_length.simps) simp
      then show ?thesis using False k by simp
    qed
  qed
  then show "j \<le> min_length c j" "min_length c j \<le> BMAX" "c (min_length c j) \<noteq> 0" "\<And>k. j \<le> k \<Longrightarrow> c k \<noteq> 0 \<Longrightarrow> min_length c j \<le> k"
    by auto
qed

lemma max_length_spec:
  assumes "0 < k" "k \<le> i" "c k \<noteq> 0"
  shows "k \<le> max_length c i" "max_length c i \<le> i" "c (max_length c i) \<noteq> 0"
  using assms by (induction i) (auto simp: le_Suc_eq)

definition kraft :: "nat \<Rightarrow> (nat \<Rightarrow> nat) \<Rightarrow> nat \<Rightarrow> nat \<Rightarrow> int" where
  "kraft g c j k = (\<Sum>m\<in>{j..<k}. int (c m) * 2 ^ (g - m))"

lemma kraft_head: "j < k \<Longrightarrow> kraft g c j k = int (c j) * 2 ^ (g - j) + kraft g c (j + 1) k"
  by (simp add: kraft_def sum.atLeast_Suc_lessThan)

lemma dummy_codes_spec:
  "j \<le> g \<Longrightarrow> (case dummy_codes c g j y of
     None \<Rightarrow> y * 2 ^ (g - j) < kraft g c j (g + 1)
   | Some d \<Rightarrow> 0 \<le> d \<and> d + kraft g c j (g + 1) = y * 2 ^ (g - j))"
proof (induction c g j y rule: dummy_codes.induct)
  case (1 c g j y)
  have k: "kraft g c j (g + 1) = int (c j) * 2 ^ (g - j) + kraft g c (j + 1) (g + 1)" using "1.prems" by (intro kraft_head) simp
  have pos: "0 \<le> kraft g c (j + 1) (g + 1)" by (simp add: kraft_def sum_nonneg)
  show ?case
  proof (cases "j < g")
    case True
    have p: "(2 :: int) ^ (g - j) = 2 * 2 ^ (g - (j + 1))" using True by (simp add: Suc_diff_Suc flip: power_Suc)
    show ?thesis
    proof (cases "y - int (c j) < 0")
      case neg: True
      then have "y * 2 ^ (g - j) < int (c j) * 2 ^ (g - j)" by (intro mult_strict_right_mono) auto
      then have "y * 2 ^ (g - j) < kraft g c j (g + 1)" using k pos by linarith
      moreover have "dummy_codes c g j y = None" using True neg by (subst dummy_codes.simps) simp
      ultimately show ?thesis by simp
    next
      case False
      then have "dummy_codes c g j y = dummy_codes c g (j + 1) (2 * (y - int (c j)))" using True by (subst dummy_codes.simps) simp
      then show ?thesis using "1.IH" [OF True False] True k p by (auto simp: algebra_simps split: option.splits)
    qed
  next
    case False
    then have "j = g" using "1.prems" by simp
    then show ?thesis using k by (subst dummy_codes.simps) (auto simp: kraft_def)
  qed
qed

lemma wsum_code_list: "int (wsum g (code_list c [j..<k])) = kraft g c j k"
proof (induction k)
  case (Suc k)
  have r: "wsum g (replicate a x) = a * 2 ^ (g - x)" for a x by (induction a) auto
  show ?case
  proof (cases "j \<le> k")
    case True
    then have "code_list c [j..<Suc k] = code_list c [j..<k] @ replicate (c k) k" by (simp add: code_list_def)
    then show ?thesis using Suc True by (simp add: r kraft_def)
  qed (simp add: kraft_def)
qed (simp add: kraft_def)

lemma sorted_code_list: "sorted ks \<Longrightarrow> sorted (code_list c ks)"
  by (induction ks) (auto simp: sorted_append set_code_list)

lemma count_code_list: "distinct ks \<Longrightarrow> count_list (code_list c ks) k = (if k \<in> set ks then c k else 0)"
proof (induction ks)
  case (Cons x ks)
  then show ?case by (auto simp: count_list_append count_list_replicate)
qed simp

subsection \<open>The values in the order of the codes\<close>

definition code_offset :: "(nat \<Rightarrow> nat) \<Rightarrow> nat \<Rightarrow> nat" where
  "code_offset c k = (\<Sum>m\<in>{1..<k}. c m)"

lemma offsets_spec:
  "offsets c m p j x k = (if p < k \<and> k \<le> p + m then j + (\<Sum>q\<in>{p..<k}. c q) else x k)"
proof (induction m arbitrary: p j x)
  case (Suc m)
  have "(\<Sum>q\<in>{p..<k}. c q) = c p + (\<Sum>q\<in>{Suc p..<k}. c q)" if "p < k"
    using that by (rule sum.atLeast_Suc_lessThan)
  then show ?case using Suc [of "p + 1"] by auto
qed auto

lemma offsets_from_1: "1 \<le> k \<Longrightarrow> k \<le> g \<Longrightarrow> offsets c (g - 1) 1 0 (\<lambda>_. 0) k = code_offset c k"
  by (auto simp: offsets_spec code_offset_def)

text \<open>Places of the values that are still to come, by their lengths.\<close>

definition apart :: "nat list \<Rightarrow> (nat \<Rightarrow> nat) \<Rightarrow> bool" where
  "apart b x \<longleftrightarrow> (\<forall>k k' r r'. k \<noteq> k' \<longrightarrow> k \<noteq> 0 \<longrightarrow> k' \<noteq> 0 \<longrightarrow> r < count_list b k \<longrightarrow> r' < count_list b k' \<longrightarrow> x k + r \<noteq> x k' + r')"

lemma apart_tail: "apart (j # b) x \<Longrightarrow> apart b (x(j := x j + 1))"
  unfolding apart_def
proof (intro allI impI)
  fix k k' r r'
  assume a: "\<forall>k k' r r'. k \<noteq> k' \<longrightarrow> k \<noteq> 0 \<longrightarrow> k' \<noteq> 0 \<longrightarrow> r < count_list (j # b) k \<longrightarrow> r' < count_list (j # b) k' \<longrightarrow> x k + r \<noteq> x k' + r'"
    and k: "k \<noteq> k'" "k \<noteq> 0" "k' \<noteq> 0" "r < count_list b k" "r' < count_list b k'"
  show "(x(j := x j + 1)) k + r \<noteq> (x(j := x j + 1)) k' + r'"
    using a [rule_format, of k k' "if k = j then Suc r else r" "if k' = j then Suc r' else r'"] k by (auto split: if_splits)
qed

lemma apart_tail_0: "apart (0 # b) x \<Longrightarrow> apart b x"
  by (auto simp: apart_def)

lemma sort_values_frame:
  "(\<And>k r. k \<noteq> 0 \<Longrightarrow> r < count_list b k \<Longrightarrow> p \<noteq> x k + r) \<Longrightarrow> snd (sort_values b i x v) p = v p"
proof (induction b arbitrary: i x v)
  case (Cons j b)
  show ?case
  proof (cases "j = 0")
    case True
    then show ?thesis using Cons.IH [of x "i + 1" v] Cons.prems by simp
  next
    case False
    have "p \<noteq> (x(j := x j + 1)) k + r" if "k \<noteq> 0" "r < count_list b k" for k r
      using Cons.prems [of k "if k = j then Suc r else r"] that by (auto split: if_splits)
    moreover have "p \<noteq> x j" using Cons.prems [of j 0] False by simp
    ultimately show ?thesis using Cons.IH [of "x(j := x j + 1)" "i + 1" "v(x j := i)"] False by (simp add: fun_upd_def)
  qed
qed simp

lemma sort_values_spec:
  "apart b x \<Longrightarrow> s < length b \<Longrightarrow> b ! s \<noteq> 0 \<Longrightarrow>
    snd (sort_values b i x v) (x (b ! s) + count_list (take s b) (b ! s)) = i + s"
proof (induction b arbitrary: i x v s)
  case (Cons j b)
  show ?case
  proof (cases "j = 0")
    case True
    then obtain s' where "s = Suc s'" using Cons.prems(3) by (cases s) auto
    then show ?thesis using Cons.IH [of x s' "i + 1" v] Cons.prems True apart_tail_0 by auto
  next
    case False
    note a = apart_tail [OF Cons.prems(1)]
    show ?thesis
    proof (cases s)
      case 0
      have "x j \<noteq> (x(j := x j + 1)) k + r" if "k \<noteq> 0" "r < count_list b k" for k r
        using Cons.prems(1) [unfolded apart_def, rule_format, of j k 0 r] that False by (cases "k = j") auto
      then show ?thesis using sort_values_frame [of b "x j" "x(j := x j + 1)" "i + 1" "v(x j := i)"] 0 False by (simp add: fun_upd_def)
    next
      case (Suc s')
      then show ?thesis using Cons.IH [OF a, of s' "i + 1" "v(x j := i)"] Cons.prems False by (auto simp: fun_upd_def split: if_splits)
    qed
  qed
qed simp

lemma sort_values_range:
  "k \<noteq> 0 \<Longrightarrow> r < count_list b k \<Longrightarrow> apart b x \<Longrightarrow> snd (sort_values b i x v) (x k + r) < i + length b"
proof (induction b arbitrary: i x v r)
  case (Cons j b)
  show ?case
  proof (cases "j = 0")
    case True
    then show ?thesis using Cons.IH [of r x "i + 1" v] Cons.prems apart_tail_0 by auto
  next
    case False
    note a = apart_tail [OF Cons.prems(3)]
    have n: "x j \<noteq> (x(j := x j + 1)) k' + r'" if "k' \<noteq> 0" "r' < count_list b k'" for k' r'
      using Cons.prems(3) [unfolded apart_def, rule_format, of j k' 0 r'] that False by (cases "k' = j") auto
    have "snd (sort_values b (i + 1) (x(j := x j + 1)) (v(x j := i))) (x j) = i"
      using sort_values_frame [of b "x j" "x(j := x j + 1)" "i + 1" "v(x j := i)"] n by simp
    then show ?thesis
      using Cons.IH [OF Cons.prems(1) _ a, of r "i + 1" "v(x j := i)"] Cons.IH [OF Cons.prems(1) _ a, of "r - 1" "i + 1" "v(x j := i)"]
        Cons.prems False by (cases "k = j"; cases r) (auto simp: fun_upd_def)
  qed
qed simp

lemma code_offset_Suc: "1 \<le> k \<Longrightarrow> code_offset c (Suc k) = code_offset c k + c k"
  by (simp add: code_offset_def)

lemma code_offset_mono: "k < k' \<Longrightarrow> 1 \<le> k \<Longrightarrow> code_offset c k + c k \<le> code_offset c k'"
proof -
  assume "k < k'" "1 \<le> k"
  then have "{1..<Suc k} \<subseteq> {1..<k'}" by auto
  then have "code_offset c (Suc k) \<le> code_offset c k'" unfolding code_offset_def by (intro sum_mono2) auto
  then show ?thesis using code_offset_Suc [OF \<open>1 \<le> k\<close>] by simp
qed

lemma apart_offsets: "\<lbrakk>\<And>k. k \<noteq> 0 \<Longrightarrow> k \<in> set b \<Longrightarrow> x k = code_offset (count_list b) k\<rbrakk> \<Longrightarrow> apart b x"
  unfolding apart_def
proof (intro allI impI)
  fix k k' r r'
  assume x: "\<And>k. k \<noteq> 0 \<Longrightarrow> k \<in> set b \<Longrightarrow> x k = code_offset (count_list b) k"
    and k: "k \<noteq> k'" "k \<noteq> 0" "k' \<noteq> 0" "r < count_list b k" "r' < count_list b k'"
  have "x k = code_offset (count_list b) k" "x k' = code_offset (count_list b) k'"
    using x k count_list_0_iff by (metis not_less_zero)+
  then show "x k + r \<noteq> x k' + r'"
    using code_offset_mono [of k k' "count_list b"] code_offset_mono [of k' k "count_list b"] k by (cases "k < k'") auto
qed

text \<open>Every place below the number of used codes belongs to a value.\<close>

lemma code_offset_cover: "t < code_offset c (Suc g) \<Longrightarrow> \<exists>k r. k \<noteq> 0 \<and> k \<le> g \<and> r < c k \<and> t = code_offset c k + r"
proof (induction g)
  case (Suc g)
  show ?case
  proof (cases "t < code_offset c (Suc g)")
    case True
    then show ?thesis using Suc.IH le_SucI by blast
  next
    case False
    then have "t - code_offset c (Suc g) < c (Suc g)" "t = code_offset c (Suc g) + (t - code_offset c (Suc g))"
      using Suc.prems code_offset_Suc [of "Suc g" c] by auto
    then show ?thesis by blast
  qed
qed (simp add: code_offset_def)

section \<open>The tables decode the canonical codes\<close>

text \<open>The canonical code (RFC 1951, 3.2.2): the first code of each length from the numbers of the
  shorter codes, and the codes of one length in the order of the symbols.\<close>

fun rfc_first_code :: "(nat \<Rightarrow> nat) \<Rightarrow> nat \<Rightarrow> nat" where
  "rfc_first_code bl_count 0 = 0"
| "rfc_first_code bl_count (Suc bits) = 2 * (rfc_first_code bl_count bits + (if bits = 0 then 0 else bl_count bits))"

definition rfc_code :: "nat list \<Rightarrow> nat \<Rightarrow> nat" where
  "rfc_code b s = rfc_first_code (count_list b) (b ! s) + count_list (take s b) (b ! s)"

text \<open>The share of the 16 bit patterns that the codes take.\<close>

definition code_space :: "nat list \<Rightarrow> nat" where
  "code_space b = wsum 16 (filter (\<lambda>x. x \<noteq> 0) b)"

definition complete_codes :: "nat list \<Rightarrow> bool" where
  "complete_codes b \<longleftrightarrow> code_space b = 2 ^ 16"

lemma wsum_counts:
  "\<forall>x\<in>set xs. j \<le> x \<and> x \<le> g \<Longrightarrow> int (wsum g xs) = (\<Sum>m\<in>{j..<g + 1}. int (count_list xs m) * 2 ^ (g - m))"
proof (induction xs)
  case (Cons x xs)
  have "(\<Sum>m\<in>{j..<g + 1}. int (count_list (x # xs) m) * 2 ^ (g - m)) =
      (\<Sum>m\<in>{j..<g + 1}. int (count_list xs m) * 2 ^ (g - m) + (if m = x then 2 ^ (g - m) else 0))"
    by (intro sum.cong) (auto simp: algebra_simps)
  also have "\<dots> = (\<Sum>m\<in>{j..<g + 1}. int (count_list xs m) * 2 ^ (g - m)) + 2 ^ (g - x)"
    using Cons.prems by (simp add: sum.distrib sum.delta)
  finally show ?case using Cons by simp
qed simp

lemma wsum_scale: "\<forall>x\<in>set xs. x \<le> g \<Longrightarrow> g \<le> G \<Longrightarrow> wsum G xs = wsum g xs * 2 ^ (G - g)"
proof (induction xs)
  case (Cons x xs)
  have "(2 :: nat) ^ (G - x) = 2 ^ (g - x) * 2 ^ (G - g)" using Cons.prems by (simp flip: power_add)
  then show ?case using Cons by (simp add: algebra_simps)
qed simp

lemma count_list_filter: "P k \<Longrightarrow> count_list (filter P xs) k = count_list xs k"
  by (induction xs) auto

lemma code_space_kraft:
  assumes "\<And>x. x \<in> set b \<Longrightarrow> x \<noteq> 0 \<Longrightarrow> j \<le> x \<and> x \<le> g" "0 < j" "g \<le> 16"
  shows "int (code_space b) = kraft g (count_list b) j (g + 1) * 2 ^ (16 - g)"
proof -
  have "int (wsum g (filter (\<lambda>x. x \<noteq> 0) b)) = (\<Sum>m\<in>{j..<g + 1}. int (count_list (filter (\<lambda>x. x \<noteq> 0) b) m) * 2 ^ (g - m))"
    using assms(1) by (intro wsum_counts) auto
  also have "\<dots> = kraft g (count_list b) j (g + 1)"
    unfolding kraft_def using assms(2) by (intro sum.cong) (auto simp: count_list_filter)
  finally show ?thesis
    unfolding code_space_def using wsum_scale [of "filter (\<lambda>x. x \<noteq> 0) b" g 16] assms(1,3) by simp
qed

lemma kraft_upd: "g < k \<Longrightarrow> j \<le> g \<Longrightarrow> k = g + 1 \<Longrightarrow> kraft g (c(g := c g + y)) j k = kraft g c j k + int y"
  by (simp add: kraft_def)

lemma rfc_first_code_kraft: "k \<le> g \<Longrightarrow> int (rfc_first_code c k) * 2 ^ (g - k) = kraft g c 1 k"
proof (induction k)
  case (Suc k)
  have p: "(2 :: int) ^ (g - k) = 2 * 2 ^ (g - Suc k)" using Suc.prems by (simp add: Suc_diff_Suc flip: power_Suc)
  show ?case
  proof (cases "k = 0")
    case False
    then have "kraft g c 1 (Suc k) = kraft g c 1 k + int (c k) * 2 ^ (g - k)" by (simp add: kraft_def)
    then show ?thesis using Suc p False by (simp add: algebra_simps)
  qed (simp add: kraft_def)
qed (simp add: kraft_def)

lemma kraft_zero_head: "(\<And>m. 1 \<le> m \<Longrightarrow> m < j \<Longrightarrow> c m = 0) \<Longrightarrow> 1 \<le> j \<Longrightarrow> j \<le> k \<Longrightarrow> kraft g c 1 k = kraft g c j k"
  unfolding kraft_def by (rule sum.mono_neutral_right) auto

lemma code_offset_length:
  "(\<And>m. 1 \<le> m \<Longrightarrow> m < j \<Longrightarrow> c m = 0) \<Longrightarrow> 1 \<le> j \<Longrightarrow> j \<le> k \<Longrightarrow> length (code_list c [j..<k]) = code_offset c k"
proof -
  assume a: "\<And>m. 1 \<le> m \<Longrightarrow> m < j \<Longrightarrow> c m = 0" "1 \<le> j" "j \<le> k"
  have "length (code_list c [j..<k]) = (\<Sum>m\<in>{j..<k}. c m)"
    by (simp add: code_list_def length_concat comp_def interv_sum_list_conv_sum_set_nat)
  also have "\<dots> = code_offset c k" unfolding code_offset_def using a by (intro sum.mono_neutral_left) auto
  finally show ?thesis .
qed

text \<open>Where the code of a symbol starts.\<close>

lemma code_start:
  assumes "\<And>m. 1 \<le> m \<Longrightarrow> m < j \<Longrightarrow> c m = 0" "1 \<le> j" "j \<le> k" "k \<le> g" "r < c k"
  defines "cs \<equiv> code_list c [j..<g + 1]"
  shows "code_offset c k + r < length cs" "cs ! (code_offset c k + r) = k"
    and "start g cs (code_offset c k + r) = (rfc_first_code c k + r) * 2 ^ (g - k)"
proof -
  have "[j..<g + 1] = [j..<k] @ k # [k + 1..<g + 1]" 
    using upt_add_eq_append [of j k "g + 1 - k"] upt_conv_Cons [of k "g + 1"] assms(3,4) by simp
  then have cs: "cs = code_list c [j..<k] @ replicate (c k) k @ code_list c [k + 1..<g + 1]"
    by (simp add: cs_def code_list_def)
  have len: "length (code_list c [j..<k]) = code_offset c k" using code_offset_length [OF assms(1-3)] by simp
  show "code_offset c k + r < length cs" "cs ! (code_offset c k + r) = k"
    using assms(5) by (auto simp: cs nth_append len)
  have rep: "wsum g (replicate a x) = a * 2 ^ (g - x)" for a x by (induction a) auto
  have "int (wsum g (code_list c [j..<k])) = int (rfc_first_code c k) * 2 ^ (g - k)"
    using wsum_code_list [of g c j k] rfc_first_code_kraft [OF assms(4), of c] kraft_zero_head [OF assms(1-3)] by simp
  then have "int (wsum g (code_list c [j..<k])) = int (rfc_first_code c k * 2 ^ (g - k))" by simp
  then have "wsum g (code_list c [j..<k]) = rfc_first_code c k * 2 ^ (g - k)" by (simp only: of_nat_eq_iff)
  then show "start g cs (code_offset c k + r) = (rfc_first_code c k + r) * 2 ^ (g - k)"
    using assms(5) by (simp add: start_def cs len rep algebra_simps min_def)
qed

lemma rfc_first_code_cong: "(\<And>m. 0 < m \<Longrightarrow> m < k \<Longrightarrow> c m = c' m) \<Longrightarrow> rfc_first_code c k = rfc_first_code c' k"
  by (induction k) auto

lemma code_offset_cong: "(\<And>m. 0 < m \<Longrightarrow> m < k \<Longrightarrow> c m = c' m) \<Longrightarrow> code_offset c k = code_offset c' k"
  unfolding code_offset_def by (intro sum.cong) auto

lemma stream_in_block: "k \<le> g \<Longrightarrow> brev k B = a \<Longrightarrow> a * 2 ^ (g - k) \<le> brev g B \<and> brev g B < a * 2 ^ (g - k) + 2 ^ (g - k)"
  using brev_split_le [of k g B] brev_less [of "g - k" "B div 2 ^ k"] by simp

text \<open>Tables that were there before are not touched.\<close>

definition old_kept :: "nat \<Rightarrow> (nat \<Rightarrow> nat \<Rightarrow> huft) \<Rightarrow> huft_locals \<Rightarrow> bool" where
  "old_kept N T0 st \<longleftrightarrow> N \<le> ntables (hb_lin st) \<and> (\<forall>q<N. tables (hb_lin st) q = T0 q) \<and> (\<forall>h<hb_levels st. N \<le> hb_u st h) \<and>
     (hb_wl st \<noteq> 0 \<longrightarrow> N \<le> hb_q st \<and> hb_levels st \<noteq> 0)"

lemma new_table_old: "old_kept N T0 st \<Longrightarrow> old_kept N T0 (new_table c g l k a st)"
proof -
  assume o: "old_kept N T0 st"
  show ?thesis
  proof (cases "hb_levels st")
    case 0
    then show ?thesis using o by (auto simp: old_kept_def new_table_simps)
  next
    case (Suc h)
    then have "N \<le> hb_u st h" using o by (simp add: old_kept_def)
    then show ?thesis using o Suc by (auto simp: old_kept_def new_table_simps less_Suc_eq)
  qed
qed

lemma make_tables_old:
  "old_kept N T0 st \<Longrightarrow> l \<noteq> 0 \<Longrightarrow> 0 < k \<Longrightarrow> old_kept N T0 (make_tables c g l k a st) \<and> k \<le> hb_wl (make_tables c g l k a st)"
proof (induction c g l k a st rule: make_tables.induct)
  case (1 c g l k a s)
  show ?case
  proof (cases "hb_wl s < k")
    case True
    then show ?thesis using 1 new_table_old by (subst (1 2) make_tables.simps) auto
  next
    case False
    then show ?thesis using 1 by (subst (1 2) make_tables.simps) auto
  qed
qed

lemma set_entry_same:
  "set_entry v n s d e bits st = Some st' \<Longrightarrow> hb_lin st' = hb_lin st \<and> hb_levels st' = hb_levels st \<and> hb_u st' = hb_u st \<and>
    hb_q st' = hb_q st \<and> hb_wl st' = hb_wl st"
  by (auto simp: set_entry_def Let_def split: if_splits)

lemma backup_le: "backup l i x h w = (h', w') \<Longrightarrow> h' \<le> h"
  by (induction h arbitrary: w) (auto split: if_splits intro: le_SucI)

lemma fill_other: "q' \<noteq> q \<Longrightarrow> tables (fill q j z f r L) q' = tables L q'"
  by (induction q j z f r L rule: fill.induct) (subst fill.simps, auto simp: store_entry_def)

lemma code_step_old:
  assumes "code_step c g l v n s d e k a st = Some st'" "old_kept N T0 st" "l \<noteq> 0" "0 < k"
  shows "old_kept N T0 st'"
proof -
  define st1 where "st1 = make_tables c g l k a st"
  have o: "old_kept N T0 st1" "k \<le> hb_wl st1" using make_tables_old [OF assms(2-4)] by (auto simp: st1_def)
  obtain st2 where st2: "set_entry v n s d e (k - (hb_wl st1 - l)) st1 = Some st2"
    using assms(1) by (auto simp: code_step_def Let_def st1_def [symmetric] split: option.splits)
  note e = set_entry_same [OF st2]
  have q: "N \<le> hb_q st2" using o assms(4) e by (simp add: old_kept_def)
  obtain h w' where b: "backup l (next_code k (hb_i st2)) (hb_x st2) (hb_levels st2 - 1) (hb_wl st1 - l) = (h, w')" by fastforce
  have "hb_levels st2 \<noteq> 0" using o assms(4) e by (simp add: old_kept_def)
  then have h: "h < hb_levels st2" using backup_le [OF b] by simp
  show ?thesis
    using assms(1) st2 b o e q h fill_other [of _ "hb_q st2"]
    by (auto simp: code_step_def Let_def st1_def [symmetric] old_kept_def)
qed


lemma all_codes_old:
  assumes "all_codes (code_step c g l v n s d e) c' ks st = Some st'" "old_kept N T0 st" "l \<noteq> 0" "0 \<notin> set ks"
  shows "old_kept N T0 st'"
proof -
  have one: "codes_of_length (code_step c g l v n s d e) k a st = Some st' \<Longrightarrow> old_kept N T0 st \<Longrightarrow> 0 < k \<Longrightarrow> old_kept N T0 st'"
    for k a st st'
    by (induction a arbitrary: st) (auto dest: code_step_old [OF _ _ assms(3)] split: option.splits)
  show ?thesis using assms(1,2,4)
  proof (induction ks arbitrary: st)
    case (Cons k ks)
    then show ?case using one by (auto split: option.splits)
  qed simp
qed

text \<open>The lists of lengths the tables are made for: not oversubscribed, and complete or without an
  unused symbol; and either no longer than two tables can look up, or few.\<close>

definition decodable :: "nat list \<Rightarrow> nat \<Rightarrow> bool" where
  "decodable b m \<longleftrightarrow> (\<forall>x\<in>set b. x \<le> 16) \<and> (\<exists>x\<in>set b. x \<noteq> 0) \<and> code_space b \<le> 2 ^ 16 \<and> (complete_codes b \<or> 0 \<notin> set b) \<and>
     ((\<forall>x\<in>set b. x \<le> 2 * m) \<or> complete_codes b \<and> length b < 2 ^ m)"

definition shortest :: "nat list \<Rightarrow> nat" where
  "shortest b = min_length (count_list b) 1"

definition longest :: "nat list \<Rightarrow> nat" where
  "longest b = max_length (count_list b) BMAX"

definition lookup_bits :: "nat list \<Rightarrow> nat \<Rightarrow> nat" where
  "lookup_bits b m = (let l = (if m < shortest b then shortest b else m) in if l > longest b then longest b else l)"

lemma length_bounds:
  assumes "\<forall>x\<in>set b. x \<le> 16" "\<exists>x\<in>set b. x \<noteq> 0"
  shows "1 \<le> shortest b" "shortest b \<in> set b" "longest b \<in> set b" "shortest b \<le> longest b" "longest b \<le> 16"
    and "\<And>x. x \<in> set b \<Longrightarrow> x \<noteq> 0 \<Longrightarrow> shortest b \<le> x \<and> x \<le> longest b"
proof -
  obtain y where y: "y \<in> set b" "y \<noteq> 0" using assms(2) by blast
  then have e: "\<exists>k. 1 \<le> k \<and> k \<le> BMAX \<and> count_list b k \<noteq> 0"
    using assms(1) by (intro exI [of _ y]) (auto simp: BMAX_def count_list_0_iff)
  note m = min_length_spec [OF e]
  show "1 \<le> shortest b" "shortest b \<in> set b" using m(1,3) by (auto simp: shortest_def count_list_0_iff)
  show b: "shortest b \<le> x \<and> x \<le> longest b" if "x \<in> set b" "x \<noteq> 0" for x
    using m(4) [of x] max_length_spec(1) [of x BMAX "count_list b"] that assms(1)
    by (auto simp: shortest_def longest_def count_list_0_iff BMAX_def)
  show "longest b \<in> set b" "longest b \<le> 16"
    using max_length_spec(2,3) [of y BMAX "count_list b"] y assms(1) by (auto simp: longest_def count_list_0_iff BMAX_def)
  show "shortest b \<le> longest b" using b [OF y] by simp
qed

lemma decodable_code_set:
  assumes "decodable b m"
  defines "c \<equiv> count_list b" and "g \<equiv> longest b" and "l \<equiv> lookup_bits b m"
  obtains y c1 where "dummy_codes c g (shortest b) (2 ^ shortest b) = Some y" "y = 0 \<longleftrightarrow> complete_codes b"
    "c1 = c(g := c g + nat y)" "code_set c1 g l (code_list c1 [shortest b..<g + 1])"
proof -
  define j where "j = shortest b"
  have b: "1 \<le> j" "j \<in> set b" "g \<in> set b" "j \<le> g" "g \<le> 16" "\<And>x. x \<in> set b \<Longrightarrow> x \<noteq> 0 \<Longrightarrow> j \<le> x \<and> x \<le> g"
    using length_bounds [of b] assms(1) by (auto simp: j_def g_def decodable_def)
  have K: "int (code_space b) = kraft g c j (g + 1) * 2 ^ (16 - g)"
    unfolding c_def using code_space_kraft [of b j g] b by fastforce
  have p16: "(2 :: int) ^ 16 = 2 ^ g * 2 ^ (16 - g)" using b(5) by (simp flip: power_add)
  have "int (code_space b) \<le> 2 ^ 16" using assms(1) by (simp add: decodable_def)
  then have "kraft g c j (g + 1) \<le> 2 ^ g" unfolding K p16 by (simp add: mult_le_cancel_right)
  moreover have pj: "(2 :: int) ^ j * 2 ^ (g - j) = 2 ^ g" using b(4) by (simp flip: power_add)
  ultimately obtain y where y: "dummy_codes c g j (2 ^ j) = Some y" "0 \<le> y" "y + kraft g c j (g + 1) = 2 ^ g"
    using dummy_codes_spec [where c = c and y = "2 ^ j", OF b(4)] pj by (auto split: option.splits)
  have "complete_codes b \<longleftrightarrow> int (code_space b) = 2 ^ 16" by (simp add: complete_codes_def)
  also have "\<dots> \<longleftrightarrow> kraft g c j (g + 1) = 2 ^ g" unfolding K p16 by simp
  finally have y0: "y = 0 \<longleftrightarrow> complete_codes b" using y(3) by auto
  define c1 where "c1 = c(g := c g + nat y)"
  define cs where "cs = code_list c1 [j..<g + 1]"
  have "int (wsum g cs) = 2 ^ g"
    unfolding cs_def wsum_code_list c1_def using kraft_upd [OF _ b(4), of "g + 1" c "nat y"] y(2,3) by simp
  then have W: "wsum g cs = 2 ^ g" by (metis of_nat_eq_iff of_nat_numeral of_nat_power)
  have c0: "c k = 0 \<longleftrightarrow> k \<notin> set b" for k by (simp add: c_def count_list_0_iff)
  have c10: "c1 k \<noteq> 0 \<longleftrightarrow> k \<in> set b" for k using c0 [of k] c0 [of g] b(3) by (cases "k = g") (auto simp: c1_def)
  have S: "set cs = set b - {0}"
  proof (intro equalityI subsetI)
    fix k assume "k \<in> set b - {0}"
    then show "k \<in> set cs" using b(6) [of k] c10 [of k] by (auto simp: cs_def set_code_list)
  qed (use b(1) c10 in \<open>auto simp: cs_def set_code_list\<close>)
  have s: "sorted cs" unfolding cs_def by (rule sorted_code_list [OF sorted_upt])
  have "hd cs = j"
  proof -
    have "[j..<g + 1] = j # [j + 1..<g + 1]" using b(4) by (simp add: upt_conv_Cons)
    moreover have "c1 j \<noteq> 0" using c0 b(2) by (auto simp: c1_def)
    ultimately show ?thesis by (cases "c1 j") (auto simp: cs_def)
  qed
  moreover have l: "j \<le> l" "l \<le> g" "m \<le> l \<or> l = g"
    using b(4) by (auto simp: l_def lookup_bits_def Let_def j_def [symmetric] g_def [symmetric])
  moreover have "count_list cs k = c1 k" if "0 < k" "k \<le> g" for k
    using that c0 b by (auto simp: cs_def count_code_list c1_def)
  moreover have "g \<le> 2 * l \<or> length cs < 2 ^ l"
  proof (cases "l = g")
    case False
    then have ml: "m \<le> l" using l(3) by simp
    show ?thesis
    proof (cases "g \<le> 2 * m")
      case nle: False
      then have "complete_codes b" "length b < 2 ^ m" using assms(1) b(3) by (auto simp: decodable_def)
      then have "c1 = c" using y0 by (simp add: c1_def)
      moreover have "c k = 0" if "1 \<le> k" "k < j" for k using c0 [of k] b(6) [of k] that by auto
      ultimately have "length cs \<le> code_offset c (g + 1)"
        unfolding cs_def using code_offset_length [of j c "g + 1"] b(1,4) by (metis le_SucI Suc_eq_plus1 order_refl)
      also have "code_offset c (g + 1) \<le> (\<Sum>k\<in>set b \<union> {1..<g + 1}. c k)" unfolding code_offset_def by (intro sum_mono2) auto
      also have "\<dots> = (\<Sum>k\<in>set b. c k)" using c0 by (intro sum.mono_neutral_right) auto
      also have "\<dots> = length b" unfolding c_def by (simp add: sum_count_set)
      also have "\<dots> < 2 ^ l" using \<open>length b < 2 ^ m\<close> ml power_less_le by blast
      finally show ?thesis by simp
    qed (use ml in simp)
  qed simp
  ultimately have "code_set c1 g l cs" using s S b W by (auto simp: code_set_def)
  then show thesis using that y(1) y0 c1_def cs_def unfolding j_def by blast
qed

text \<open>The entry of a symbol, and tables that decode every symbol with a code.\<close>

definition symbol_entry :: "nat \<Rightarrow> nat list \<Rightarrow> nat list \<Rightarrow> nat \<Rightarrow> huft \<Rightarrow> bool" where
  "symbol_entry s d e y r \<longleftrightarrow>
     (if y < s then hf_e r = (if y < 256 then 16 else 15) \<and> hf_v r = Num y
      else hf_e r = e ! (y - s) \<and> hf_v r = Num (d ! (y - s)))"

definition decodes :: "(nat \<Rightarrow> nat \<Rightarrow> huft) \<Rightarrow> nat \<Rightarrow> nat \<Rightarrow> nat list \<Rightarrow> nat \<Rightarrow> nat list \<Rightarrow> nat list \<Rightarrow> bool" where
  "decodes T root l b s d e \<longleftrightarrow> (\<forall>y<length b. b ! y \<noteq> 0 \<longrightarrow>
     (\<exists>r. symbol_entry s d e y r \<and> (\<forall>B. brev (b ! y) B = rfc_code b y \<longrightarrow> walk T root l B (b ! y) r)))"

definition base_lists :: "nat list \<Rightarrow> nat \<Rightarrow> nat list \<Rightarrow> nat list \<Rightarrow> bool" where
  "base_lists b s d e \<longleftrightarrow> (\<forall>x\<in>set e. x \<le> 16 \<or> x = 99) \<and> length b \<le> s + length d \<and> length b \<le> s + length e"

lemma used_codes: "\<forall>x\<in>set b. x \<le> g \<Longrightarrow> code_offset (count_list b) (g + 1) = length (filter (\<lambda>x. x \<noteq> 0) b)"
proof (induction b)
  case Nil
  then show ?case by (simp add: code_offset_def)
next
  case (Cons x b)
  have "code_offset (count_list (x # b)) (g + 1) = (\<Sum>m\<in>{1..<g + 1}. count_list b m + (if m = x then 1 else 0))"
    unfolding code_offset_def by (intro sum.cong) auto
  also have "\<dots> = code_offset (count_list b) (g + 1) + (if x = 0 then 0 else 1)"
    using Cons.prems by (simp add: sum.distrib code_offset_def)
  finally show ?case using Cons by (simp del: count_list.simps)
qed

lemma count_take_less: "s < length b \<Longrightarrow> count_list (take s b) (b ! s) < count_list b (b ! s)"
proof -
  assume "s < length b"
  then have "count_list b (b ! s) = count_list (take s b @ b ! s # drop (Suc s) b) (b ! s)" by (simp flip: id_take_nth_drop)
  then show ?thesis by (simp add: count_list_append)
qed

lemma built_tables:
  assumes "code_set c g l cs" "build_inv g l cs (entry_ok v n s d e) n (length cs) st"
    and "\<forall>q<ntables (hb_lin st). T q = tables (hb_lin st) q"
  obtains root where "hb_root st = Some root" and "\<And>t. t < length cs \<Longrightarrow> \<exists>r. entry_ok v n s d e t r \<and>
      (\<forall>B. start g cs t \<le> brev g B \<longrightarrow> brev g B < start g cs (Suc t) \<longrightarrow> walk T root l B (cs ! t) r)"
proof -
  have "cs \<noteq> []" using assms(1) by (auto simp: code_set_def)
  then obtain hm where h: "kept g l cs (entry_ok v n s d e) n (length cs) st hm" "rooted l st hm"
    using assms(2) by (auto simp: build_inv_def)
  define root where "root = hb_u st 0"
  have D: "decoded g cs T hm root (entry_ok v n s d e) (length cs)"
  proof (rule decoded_frame [where T = "tables (hb_lin st)" and hm = hm])
    show "decoded g cs (tables (hb_lin st)) hm root (entry_ok v n s d e) (length cs)" using h(1) by (simp add: kept_def root_def)
    fix B q w bits assume "hm q = Some (w, B mod 2 ^ w, bits)"
    then have "q \<in> dom hm" by (rule domI)
    then have "T q = tables (hb_lin st) q" using h(1) assms(3) unfolding kept_def by blast
    then show "T q (B div 2 ^ w mod 2 ^ bits) = tables (hb_lin st) q (B div 2 ^ w mod 2 ^ bits)" by simp
  qed simp_all
  have "\<exists>r. entry_ok v n s d e t r \<and>
      (\<forall>B. start g cs t \<le> brev g B \<longrightarrow> brev g B < start g cs (Suc t) \<longrightarrow> walk T root l B (cs ! t) r)" if t: "t < length cs" for t
  proof -
    obtain r where r: "entry_ok v n s d e t r"
        "\<And>B. start g cs t \<le> brev g B \<Longrightarrow> brev g B < start g cs (Suc t) \<Longrightarrow> dec T hm B root (cs ! t) r"
      using D t by (auto simp: decoded_def)
    have "walk T root l B (cs ! t) r" if "start g cs t \<le> brev g B" "brev g B < start g cs (Suc t)" for B
      using dec_walk [OF r(2) [OF that], of 0 0 l] h(2) by (auto simp: rooted_def root_def)
    then show ?thesis using r(1) by blast
  qed
  then show thesis using that [of root] h(2) by (auto simp: rooted_def root_def)
qed

lemma build_inv_start:
  assumes "code_set c g l cs" "hb_i st = 0" "hb_levels st = 0" "hb_wl st = 0" "hb_x st 0 = 0" "hb_p st = 0" "hb_t st = None"
  shows "build_inv g l cs ok n 0 st"
proof -
  have "kept g l cs ok n 0 st Map.empty" using assms by (simp add: kept_def decoded_def)
  moreover have "stacked g l cs 0 st Map.empty (\<lambda>_. 0)" using assms by (simp add: stacked_def chain_def)
  ultimately show ?thesis using assms(2-4,7) unfolding build_inv_def by (intro exI [of _ Map.empty] exI [of _ "\<lambda>_. 0"]) simp
qed

lemma values_in_order:
  assumes "\<forall>x\<in>set b. x \<le> g" "c = count_list b" "c1 = c(g := c g + y)"
    and "v = snd (sort_values b 0 (offsets c1 (g - 1) 1 0 (\<lambda>_. 0)) junk)"
  shows "s < length b \<Longrightarrow> b ! s \<noteq> 0 \<Longrightarrow> v (code_offset c (b ! s) + count_list (take s b) (b ! s)) = s"
    and "t < code_offset c (g + 1) \<Longrightarrow> v t < length b"
proof -
  define x where "x = offsets c1 (g - 1) 1 0 (\<lambda>_. 0)"
  have x: "x k = code_offset c k" if "k \<noteq> 0" "k \<le> g" for k
    using offsets_from_1 [of k g c1] code_offset_cong [of k c1 c] that assms(3) by (simp add: x_def)
  then have ap: "apart b x" using assms(1) unfolding assms(2) by (intro apart_offsets) auto
  show "v (code_offset c (b ! s) + count_list (take s b) (b ! s)) = s" if "s < length b" "b ! s \<noteq> 0"
    using sort_values_spec [OF ap that, of 0 junk] x [of "b ! s"] assms(1,4) that by (simp add: x_def)
  show "v t < length b" if t: "t < code_offset c (g + 1)"
  proof -
    obtain k r where "k \<noteq> 0" "k \<le> g" "r < c k" "t = code_offset c k + r" using code_offset_cover [of t c g] t by auto
    then show ?thesis using sort_values_range [of k r b x 0 junk] ap x assms(2,4) by (simp add: x_def)
  qed
qed

lemma built_decodes:
  assumes "\<And>x. x \<in> set b \<Longrightarrow> x \<noteq> 0 \<Longrightarrow> j \<le> x \<and> x \<le> g" "1 \<le> j" "c = count_list b" "c1 = c(g := c g + y)" "cs = code_list c1 [j..<g + 1]"
    and "\<And>s. s < length b \<Longrightarrow> b ! s \<noteq> 0 \<Longrightarrow> v (code_offset c (b ! s) + count_list (take s b) (b ! s)) = s"
    and "\<And>t. t < length cs \<Longrightarrow> \<exists>r. entry_ok v (length b) s d e t r \<and>
      (\<forall>B. start g cs t \<le> brev g B \<longrightarrow> brev g B < start g cs (Suc t) \<longrightarrow> walk T root l B (cs ! t) r)"
  shows "decodes T root l b s d e"
  unfolding decodes_def
proof (intro allI impI)
  fix z assume z: "z < length b" "b ! z \<noteq> 0"
  define k where "k = b ! z"
  define i where "i = count_list (take z b) k"
  have k: "j \<le> k" "k \<le> g" "k \<noteq> 0" using assms(1) [of k] z by (auto simp: k_def)
  have i: "i < c k" "i < c1 k" using count_take_less [OF z(1)] assms(3,4) by (auto simp: i_def k_def)
  have z0: "c1 m = 0" if "1 \<le> m" "m < j" for m
    using assms(1) [of m] that k(1,2) assms(3,4) by (auto simp: count_list_0_iff)
  define t where "t = code_offset c1 k + i"
  have same: "code_offset c1 k = code_offset c k" "rfc_first_code c1 k = rfc_first_code c k"
    using k(2) assms(4) by (auto intro!: code_offset_cong rfc_first_code_cong)
  note cs = code_start [where c = c1, OF z0 assms(2) k(1,2) i(2), folded assms(5) t_def]
  have "code_offset c (Suc k) \<le> code_offset c (g + 1)" unfolding code_offset_def using k(2) by (intro sum_mono2) auto
  then have "t < code_offset c (g + 1)" using same(1) i(1) code_offset_Suc [of k c] k(3) by (simp add: t_def)
  also have "\<dots> \<le> length b"
    using used_codes [of b g] assms(1,3) by (metis le_zero_eq length_filter_le nat_le_linear)
  finally have tn: "t < length b" .
  have vt: "v t = z" using assms(6) [OF z] same(1) by (simp add: t_def k_def i_def)
  obtain r where r: "entry_ok v (length b) s d e t r"
      "\<And>B. start g cs t \<le> brev g B \<Longrightarrow> brev g B < start g cs (Suc t) \<Longrightarrow> walk T root l B (cs ! t) r"
    using assms(7) [OF cs(1)] by blast
  have "symbol_entry s d e z r" using r(1) tn vt by (auto simp: entry_ok_def symbol_entry_def)
  moreover have "walk T root l B k r" if "brev k B = rfc_code b z" for B
    using r(2) [of B] stream_in_block [OF k(2) that] cs(2,3) start_Suc [OF cs(1), of g] same(2) assms(3)
    by (simp add: rfc_code_def k_def [symmetric] i_def [symmetric])
  ultimately show "\<exists>r. symbol_entry s d e z r \<and> (\<forall>B. brev (b ! z) B = rfc_code b z \<longrightarrow> walk T root l B (b ! z) r)"
    unfolding k_def by blast
qed

lemma count_all: "count_list b x = length b \<Longrightarrow> y \<in> set b \<Longrightarrow> y = x"
proof (induction b)
  case (Cons a b)
  then show ?case using count_le_length [of b x] by (auto split: if_splits)
qed simp

lemma huft_build_eq:
  assumes "b \<noteq> []" "\<forall>k\<in>set b. k \<le> 16" "count_list b 0 \<noteq> length b"
    and "dummy_codes (count_list b) (longest b) (shortest b) (2 ^ shortest b) = Some y"
    and "c1 = (count_list b)(longest b := count_list b (longest b) + nat y)"
    and "sort_values b 0 (offsets c1 (longest b - 1) 1 0 (\<lambda>_. 0)) junk = (x, v)"
  shows "huft_build junk b s d e t m L =
    map_option (\<lambda>st. (if y \<noteq> 0 \<and> longest b \<noteq> 1 then 1 else 0, hb_root st, lookup_bits b m, hb_lin st))
      (all_codes (code_step c1 (longest b) (lookup_bits b m) v (length b) s d e) c1 [shortest b..<longest b + 1]
        \<lparr>hb_i = 0, hb_levels = 0, hb_wl = 0, hb_z = 0, hb_q = 0, hb_u = (\<lambda>_. 0), hb_x = x(0 := 0),
         hb_r = \<lparr>hf_e = 0, hf_b = 0, hf_v = Num 0\<rparr>, hb_p = 0, hb_t = None, hb_root = t, hb_lin = L\<rparr>)"
proof -
  have "\<not> (length b = 0 \<or> (\<exists>k\<in>set b. k > BMAX))" using assms(1,2) by (auto simp: BMAX_def)
  then show ?thesis
    unfolding huft_build_def length_counts_eq Let_def shortest_def [symmetric] longest_def [symmetric]
      lookup_bits_def [unfolded Let_def, symmetric] if_not_P [OF \<open>\<not> (length b = 0 \<or> _)\<close>] if_not_P [OF assms(3)] assms(4)
    by (simp only: option.case assms(5) [symmetric] assms(6) prod.case)
qed

lemma huft_build_tables:
  assumes "decodable b m" "base_lists b s d e"
  shows "\<exists>root L'. huft_build junk b s d e t m L =
      Some (if complete_codes b \<or> longest b = 1 then 0 else 1, Some root, lookup_bits b m, L') \<and>
    (\<forall>T. (\<forall>q<ntables L'. T q = tables L' q) \<longrightarrow> decodes T root (lookup_bits b m) b s d e) \<and>
    ntables L \<le> ntables L' \<and> (\<forall>q<ntables L. tables L' q = tables L q)"
proof -
  define c g l n j where "c = count_list b" and "g = longest b" and "l = lookup_bits b m" and "n = length b" and "j = shortest b"
  have le16: "\<forall>x\<in>set b. x \<le> 16" and nz: "\<exists>x\<in>set b. x \<noteq> 0" using assms(1) by (auto simp: decodable_def)
  have b: "1 \<le> j" "j \<le> g" "g \<le> 16" "\<And>x. x \<in> set b \<Longrightarrow> x \<noteq> 0 \<Longrightarrow> j \<le> x \<and> x \<le> g"
    using length_bounds [OF le16 nz] by (auto simp: j_def g_def)
  then have leg: "\<forall>x\<in>set b. x \<le> g" by fastforce
  obtain y c1 where y: "dummy_codes c g j (2 ^ j) = Some y" "y = 0 \<longleftrightarrow> complete_codes b" "c1 = c(g := c g + nat y)"
      "code_set c1 g l (code_list c1 [j..<g + 1])"
    using decodable_code_set [OF assms(1)] unfolding c_def g_def l_def j_def by metis
  define cs where "cs = code_list c1 [j..<g + 1]"
  define v where "v = snd (sort_values b 0 (offsets c1 (g - 1) 1 0 (\<lambda>_. 0)) junk)"
  note vals = values_in_order [OF leg c_def y(3) v_def]
  have used: "code_offset c (g + 1) = length (filter (\<lambda>x. x \<noteq> 0) b)" unfolding c_def using used_codes [OF leg] .
  have z: "c1 k = 0" if "1 \<le> k" "k < j" for k using b(2,4) that y(3) by (fastforce simp: c_def count_list_0_iff)
  have "t < code_offset c (g + 1)" if "t < length cs" "t < n" for t
  proof (cases "complete_codes b")
    case True
    then have "c1 = c" using y(2,3) by simp
    then show ?thesis using that code_offset_length [where k = "g + 1", OF z b(1)] b(2) by (simp add: cs_def)
  next
    case False
    then have "0 \<notin> set b" using assms(1) by (auto simp: decodable_def)
    then have "filter (\<lambda>x. x \<noteq> 0) b = b" by (metis (mono_tags, lifting) filter_True)
    then show ?thesis using that used by (simp add: n_def)
  qed
  then have vok: "values_ok v n s d e cs"
    using vals(2) assms(2) unfolding values_ok_def base_lists_def n_def [symmetric] by (metis add_diff_inverse_nat less_le_trans nat_add_left_cancel_less)
  obtain x where sv: "sort_values b 0 (offsets c1 (g - 1) 1 0 (\<lambda>_. 0)) junk = (x, v)" unfolding v_def by (metis prod.collapse)
  define st where "st = \<lparr>hb_i = 0, hb_levels = 0, hb_wl = 0, hb_z = 0, hb_q = 0, hb_u = (\<lambda>_. 0), hb_x = x(0 := 0),
      hb_r = \<lparr>hf_e = 0, hf_b = 0, hf_v = Num 0\<rparr>, hb_p = 0, hb_t = None, hb_root = t, hb_lin = L\<rparr>"
  define ks where "ks = [j..<g + 1]"
  have ks: "cs = code_list c1 ks" "distinct ks" "0 \<notin> set ks" using b(1) by (auto simp: cs_def ks_def)
  have bi: "build_inv g l cs (entry_ok v n s d e) n 0 st" using build_inv_start [OF y(4), folded cs_def] by (simp add: st_def)
  obtain st' where st': "all_codes (code_step c1 g l v n s d e) c1 ks st = Some st'"
      "build_inv g l cs (entry_ok v n s d e) n (length cs) st'"
    using all_codes_inv [OF y(4) [folded cs_def] vok bi _ ks(2)] ks(1) by auto
  have l0: "l \<noteq> 0" using y(4) by (simp add: code_set_def)
  have old: "old_kept (ntables L) (tables L) st'"
    by (rule all_codes_old [OF st'(1) _ l0 ks(3)]) (simp add: st_def old_kept_def)
  obtain root where root: "hb_root st' = Some root" using built_tables [OF y(4) [folded cs_def] st'(2)] by blast
  have "huft_build junk b s d e t m L = Some (if complete_codes b \<or> g = 1 then 0 else 1, Some root, l, hb_lin st')"
  proof -
    have "b \<noteq> []" "c 0 \<noteq> n" using nz count_all [of b 0] by (auto simp: c_def n_def)
    then have "huft_build junk b s d e t m L = map_option (\<lambda>st. (if y \<noteq> 0 \<and> g \<noteq> 1 then 1 else 0, hb_root st, l, hb_lin st)) (Some st')"
      using huft_build_eq [of b y c1 junk x v s d e t m L] le16 y(1,3) sv st'(1)
      by (simp only: c_def n_def g_def l_def j_def ks_def st_def simp_thms)
    then show ?thesis using y(2) root by simp
  qed
  moreover have "decodes T root l b s d e" if T: "\<forall>q<ntables (hb_lin st'). T q = tables (hb_lin st') q" for T
  proof -
    obtain root' where "hb_root st' = Some root'" and w: "\<And>t. t < length cs \<Longrightarrow> \<exists>r. entry_ok v n s d e t r \<and>
        (\<forall>B. start g cs t \<le> brev g B \<longrightarrow> brev g B < start g cs (Suc t) \<longrightarrow> walk T root' l B (cs ! t) r)"
      using built_tables [OF y(4) [folded cs_def] st'(2) T] by blast
    then show ?thesis using built_decodes [OF b(4,1) c_def y(3) cs_def vals(1) w [unfolded n_def]] root by simp
  qed
  ultimately show ?thesis using old unfolding g_def l_def old_kept_def by auto
qed

text \<open>C3: For every set of code lengths that fits the lookup tables (no length above 16, not oversubscribed, and
  complete or without unused symbols), \<^verbatim>\<open>huft_build\<close> returns 0 for a complete set or a single length of one bit and 1
  otherwise, and makes tables in which every bit stream that starts with the canonical code of a symbol (RFC 1951, 3.2.2) is
  looked up to the entry of that symbol, after exactly as many bits as its code has. The tables made before stay as they are.\<close>

theorem huft_build_decodes:
  assumes "decodable b m" "base_lists b s d e"
  shows "\<exists>root L'. huft_build junk b s d e t m L =
      Some (if complete_codes b \<or> longest b = 1 then 0 else 1, Some root, lookup_bits b m, L') \<and>
    (\<forall>y<length b. b ! y \<noteq> 0 \<longrightarrow> (\<exists>r. symbol_entry s d e y r \<and>
       (\<forall>B. brev (b ! y) B = rfc_code b y \<longrightarrow> walk (tables L') root (lookup_bits b m) B (b ! y) r))) \<and>
    (\<forall>q<ntables L. tables L' q = tables L q)"
  using huft_build_tables [OF assms, of junk t L] unfolding decodes_def by blast

definition empty_lin :: lin where
  "empty_lin = \<lparr>linalloc_topaddr = 0x400000, ntables = 0, tables = (\<lambda>_ _. \<lparr>hf_e = 0, hf_b = 0, hf_v = Num 0\<rparr>), table_link = (\<lambda>_. None), hufts = 0\<rparr>"

text \<open>The lengths 2, 1, 3 and 3: the symbol 2 has the code 110, and the stream \<open>0xfb\<close> starts with the bits 1, 1, 0.\<close>

theorem huft_build_decodes_witness:
  "\<exists>root L' r. huft_build (\<lambda>_. 0) [2, 1, 3, 3] 4 [] [] None 7 empty_lin = Some (0, Some root, 3, L') \<and>
    hf_v r = Num 2 \<and> walk (tables L') root 3 0xfb 3 r"
proof -
  have "decodable [2, 1, 3, 3] 7" by (simp add: decodable_def complete_codes_def code_space_def)
  moreover have "base_lists [2, 1, 3, 3] 4 [] []" by (simp add: base_lists_def)
  moreover have v: "complete_codes [2, 1, 3, 3]" "lookup_bits [2, 1, 3, 3] 7 = 3" "brev 3 0xfb = rfc_code [2, 1, 3, 3] 2"
    by (simp add: complete_codes_def code_space_def, code_simp, code_simp)
  ultimately obtain root L' where h: "huft_build (\<lambda>_. 0) [2, 1, 3, 3] 4 [] [] None 7 empty_lin = Some (0, Some root, 3, L')"
      "\<forall>y<4. [2, 1, 3, 3] ! y \<noteq> (0 :: nat) \<longrightarrow> (\<exists>r. symbol_entry 4 [] [] y r \<and> 
         (\<forall>B. brev ([2, 1, 3, 3] ! y) B = rfc_code [2, 1, 3, 3] y \<longrightarrow> walk (tables L') root 3 B ([2, 1, 3, 3] ! y) r))"
    using huft_build_decodes [of "[2, 1, 3, 3]" 7 4 "[]" "[]" "\<lambda>_. 0" None empty_lin] by (auto simp: numeral_eq_Suc)
  then obtain r where "symbol_entry 4 [] [] 2 r" "walk (tables L') root 3 0xfb 3 r" using v(3) by (force dest: spec [of _ 2])
  then show ?thesis using h(1) by (auto simp: symbol_entry_def)
qed

end
