(* ===== verification/Files.thy ===== *)
theory Files
  imports Device_Name Block_File Inflate
begin

text \<open>
  The file layer of \<^verbatim>\<open>stage2/disk_io.c\<close>: probing the file systems on a partition, opening,
  reading and positioning in a file, and listing a directory; with it the gzip header test of
  \<^verbatim>\<open>stage2/gunzip.c\<close> that every opened file goes through.

  The state \<open>files\<close> holds the variables of the disk layer, the private data of the mounted file
  system (which live in \<^verbatim>\<open>FSYS_BUF\<close>), the block list area and the two flags. The table of
  file systems \<^verbatim>\<open>fsys_table\<close> is an argument, a list of entries with the four functions the
  code calls; \<open>fat_entry\<close> is the entry of FAT. The firmware, the memory size
  and whether the network is ready are arguments too; they are collected in the record \<open>env\<close>, with
  the function \<open>decompress\<close> that reads a compressed file: it is \<^verbatim>\<open>gunzip_read\<close> of the theory
  \<open>Gunzip\<close>. A result is \<open>None\<close> where the code traps or does not return.
\<close>

section \<open>Definitions\<close>

text \<open>The static variables of \<^verbatim>\<open>gunzip.c\<close>. The decoding tables and the allocator are \<open>linmem\<close>;
  \<^verbatim>\<open>tl\<close>, \<^verbatim>\<open>td\<close>, \<^verbatim>\<open>bl\<close> and \<^verbatim>\<open>bd\<close> have the prefix \<open>huft\<close>, and \<open>None\<close> is the null pointer.\<close>

record gzip_vars =
  no_decompression :: bool
  gzip_data_offset :: int
  gzip_filepos :: int
  gzip_filemax :: int
  gzip_fsmax :: int
  saved_filepos :: int
  gzip_crc :: int
  block_type :: nat
  block_len :: int
  last_block :: int
  code_state :: int
  linmem :: lin
  slide :: mem
  wp :: nat
  bb :: nat
  bk :: nat
  inbuf :: mem
  bufloc :: nat
  huft_tl :: "nat option"
  huft_td :: "nat option"
  huft_bl :: nat
  huft_bd :: nat
  inflate_n :: nat
  inflate_d :: nat

record ('f, 'w) files =
  dev :: "'w dstate"
  fsbuf :: 'f
  blk :: blk_area
  block_file :: bool
  compressed_file :: bool
  gz :: gzip_vars

record ('f, 'w) fsys_entry =
  name :: cstr
  mount_func :: "('f, 'w) files \<Rightarrow> (bool \<times> ('f, 'w) files) option"
  read_func :: "int \<Rightarrow> mem \<Rightarrow> ('f, 'w) files \<Rightarrow> (int \<times> mem \<times> ('f, 'w) files) option"
  dir_func :: "cstr \<Rightarrow> ('f, 'w) files \<Rightarrow> (bool \<times> cstr \<times> ('f, 'w) files) option"
  close_func :: "(('f, 'w) files \<Rightarrow> ('f, 'w) files) option"

record ('f, 'w) env =
  firm :: "'w firmware"
  network_ready :: bool
  loop_fuel :: nat
  iter_init :: part_iter
  fsys_table :: "('f, 'w) fsys_entry list"
  mem_upper :: int
  grub_scratch_mem :: int
  stack_junk :: "('f, 'w) files \<Rightarrow> nat \<Rightarrow> nat"
  decompress :: "int \<Rightarrow> mem \<Rightarrow> ('f, 'w) files \<Rightarrow> (int \<times> mem \<times> ('f, 'w) files) option"

definition NUM_FSYS :: "('f, 'w) env \<Rightarrow> nat" where
  "NUM_FSYS E = length (fsys_table E)"

definition set_errnum :: "grub_error \<Rightarrow> ('f, 'w) files \<Rightarrow> ('f, 'w) files" where
  "set_errnum e st = st\<lparr>dev := (dev st)\<lparr>errnum := e\<rparr>\<rparr>"

definition set_fsys_type :: "nat \<Rightarrow> ('f, 'w) files \<Rightarrow> ('f, 'w) files" where
  "set_fsys_type i st = st\<lparr>dev := (dev st)\<lparr>fsys_type := i\<rparr>\<rparr>"

subsection \<open>Mounting\<close>

text \<open>The loop of \<^verbatim>\<open>attempt_mount\<close>, for the entries from number \<open>i\<close> on.\<close>

fun mount_loop :: "('f, 'w) fsys_entry list \<Rightarrow> nat \<Rightarrow> ('f, 'w) files \<Rightarrow> ('f, 'w) files option" where
  "mount_loop [] i st = Some (set_fsys_type i st)"
| "mount_loop (e # es) i st =
     (case mount_func e (set_fsys_type i st) of
        None \<Rightarrow> None
      | Some (ok, st1) \<Rightarrow> if ok then Some st1 else mount_loop es (Suc i) st1)"

definition attempt_mount :: "('f, 'w) env \<Rightarrow> ('f, 'w) files \<Rightarrow> ('f, 'w) files option" where
  "attempt_mount E st =
     map_option (\<lambda>st1. if fsys_type (dev st1) = NUM_FSYS E \<and> errnum (dev st1) = ERR_NONE
                       then set_errnum ERR_FSYS_MOUNT st1 else st1)
       (mount_loop (fsys_table E) 0 st)"

definition open_part :: "('f, 'w) env \<Rightarrow> ('f, 'w) files \<Rightarrow> (bool \<times> ('f, 'w) files) option" where
  "open_part E st =
     map_option (\<lambda>(ok, d). (ok, st\<lparr>dev := d\<rparr>)) (open_partition (loop_fuel E) (firm E) (iter_init E) (dev st))"

definition open_device :: "('f, 'w) env \<Rightarrow> ('f, 'w) files \<Rightarrow> (bool \<times> ('f, 'w) files) option" where
  "open_device E st =
     (case open_part E st of
        None \<Rightarrow> None
      | Some (ok, st1) \<Rightarrow>
          map_option (\<lambda>st2. (errnum (dev st2) = ERR_NONE, st2)) (if ok then attempt_mount E st1 else Some st1))"

text \<open>\<^verbatim>\<open>setup_part\<close>: the rest of the name, or null. What \<^verbatim>\<open>set_device\<close> may write into the
  caller's buffer is not looked at again.\<close>

definition open_for :: "('f, 'w) env \<Rightarrow> cstr \<Rightarrow> ('f, 'w) files \<Rightarrow> ('f, 'w) files option" where
  "open_for E filename st = map_option snd (if deref filename \<noteq> 47 then open_part E st else open_device E st)"

definition setup_tail :: "cstr \<Rightarrow> ('f, 'w) files \<Rightarrow> cstr option \<times> ('f, 'w) files" where
  "setup_tail filename st =
     (if errnum (dev st) \<noteq> ERR_NONE \<and> (deref filename = 47 \<or> errnum (dev st) \<noteq> ERR_FSYS_MOUNT) then (None, st)
      else case sane_partition ((dev st)\<lparr>errnum := ERR_NONE\<rparr>) of
             (ok, d) \<Rightarrow> (if ok then Some filename else None, st\<lparr>dev := d\<rparr>))"

definition setup_part :: "('f, 'w) env \<Rightarrow> cstr \<Rightarrow> ('f, 'w) files \<Rightarrow> (cstr option \<times> ('f, 'w) files) option" where
  "setup_part E filename st =
     (let d = dev st
      in if deref filename = 40
         then case set_device (network_ready E) filename d of
                (None, _, _, d1) \<Rightarrow> Some (None, st\<lparr>dev := d1\<lparr>current_drive := GRUB_INVALID_DRIVE\<rparr>\<rparr>)
              | (Some rest, _, _, d1) \<Rightarrow> map_option (setup_tail rest) (open_for E rest (st\<lparr>dev := d1\<rparr>))
         else if saved_drive d \<noteq> current_drive d \<or> saved_partition d \<noteq> current_partition d \<or>
                 (deref filename = 47 \<and> fsys_type d = NUM_FSYS E) \<or> buf_drive d = - 1
         then map_option (setup_tail filename)
                (open_for E filename
                   (st\<lparr>dev := d\<lparr>current_drive := saved_drive d, current_partition := saved_partition d\<rparr>\<rparr>))
         else Some (setup_tail filename st))"

subsection \<open>Reading\<close>

definition grub_read :: "('f, 'w) env \<Rightarrow> int \<Rightarrow> mem \<Rightarrow> ('f, 'w) files \<Rightarrow> (int \<times> mem \<times> ('f, 'w) files) option" where
  "grub_read E len0 buf st =
     (let d = dev st;
          pos = (if filepos d < 0 \<or> filepos d > filemax d then filemax d else filepos d);
          len = (if len0 < 0 \<or> len0 > filemax d - pos then filemax d - pos else len0);
          st1 = st\<lparr>dev := d\<lparr>filepos := pos\<rparr>\<rparr>
      in if pos + len > fsmax d then Some (0, buf, set_errnum ERR_FILELENGTH st1)
         else if compressed_file st1 then decompress E len buf st1
         else if block_file st1
         then case get_sector_size (efi (dev st1)) (current_drive (dev st1)) of
                None \<Rightarrow> None
              | Some ss \<Rightarrow>
                  map_option (\<lambda>(r, m, b, d). (r, m, st1\<lparr>blk := b, dev := d\<rparr>))
                    (blk_read_loop (devread (firm E)) ss len 0 buf (blk st1) (dev st1))
         else if fsys_type (dev st1) = NUM_FSYS E then Some (0, buf, set_errnum ERR_FSYS_MOUNT st1)
         else read_func (fsys_table E ! fsys_type (dev st1)) len buf st1)"

subsection \<open>The gzip header\<close>

definition gunzip_swap_values :: "('f, 'w) files \<Rightarrow> ('f, 'w) files" where
  "gunzip_swap_values st =
     (let d = dev st; g = gz st
      in st\<lparr>dev := d\<lparr>filepos := gzip_filepos g, filemax := gzip_filemax g, fsmax := gzip_fsmax g\<rparr>,
            gz := g\<lparr>gzip_filepos := filepos d, gzip_filemax := filemax d, gzip_fsmax := fsmax d\<rparr>\<rparr>)"

definition reset_linalloc :: "('f, 'w) env \<Rightarrow> ('f, 'w) files \<Rightarrow> ('f, 'w) files" where
  "reset_linalloc E st =
     (let top = u32 (mem_upper E * 2 ^ 10 + 0x100000);
          top1 = u32 ((if top > 0x400000 then 0x400000 else top) + grub_scratch_mem E)
      in st\<lparr>gz := (gz st)\<lparr>linmem := (linmem (gz st))\<lparr>linalloc_topaddr := top1, ntables := 0\<rparr>\<rparr>\<rparr>)"

definition initialize_tables :: "('f, 'w) env \<Rightarrow> ('f, 'w) files \<Rightarrow> ('f, 'w) files" where
  "initialize_tables E st =
     reset_linalloc E (st\<lparr>dev := (dev st)\<lparr>filepos := gzip_data_offset (gz st)\<rparr>,
        gz := (gz st)\<lparr>saved_filepos := 0, bk := 0, bb := 0, last_block := 0, block_len := 0\<rparr>\<rparr>)"

text \<open>\<^verbatim>\<open>bad_field\<close> skips \<open>len\<close> bytes, or, when \<open>len\<close> is negative, the bytes up to a zero. How
  many bytes come before the zero depends on the file, so the loop has fuel.\<close>

fun bad_field :: "nat \<Rightarrow> ('f, 'w) env \<Rightarrow> int \<Rightarrow> byte \<Rightarrow> ('f, 'w) files \<Rightarrow> (bool \<times> ('f, 'w) files) option" where
  "bad_field 0 E len ch st = None"
| "bad_field (Suc fuel) E len ch st =
     (if len = 0 \<or> (len < 0 \<and> ch = 0) then Some (False, st)
      else case grub_read E 1 (\<lambda>_. ch) st of
             None \<Rightarrow> None
           | Some (r, m, st1) \<Rightarrow>
               if r = 1 then bad_field fuel E (if len > 0 then len - 1 else len) (m 0) st1 else Some (r = 0, st1))"

text \<open>The fields of the header that have a variable length, in the order of the short-circuit
  conditions: the extra field, the file name and the comment. The flag says that a condition
  holds.\<close>

definition header_field :: "bool \<Rightarrow> (('f, 'w) files \<Rightarrow> (bool \<times> ('f, 'w) files) option) \<Rightarrow>
    (bool \<times> ('f, 'w) files) option \<Rightarrow> (bool \<times> ('f, 'w) files) option" where
  "header_field present f r =
     (case r of
        None \<Rightarrow> None
      | Some (bad, st) \<Rightarrow> if bad \<or> \<not> present then Some (bad, st) else f st)"

definition extra_field :: "('f, 'w) env \<Rightarrow> mem \<Rightarrow> ('f, 'w) files \<Rightarrow> (bool \<times> ('f, 'w) files) option" where
  "extra_field E buf st =
     (case grub_read E 2 buf st of
        None \<Rightarrow> None
      | Some (n, m, st1) \<Rightarrow> if n \<noteq> 2 then Some (True, st1) else bad_field (loop_fuel E) E (ld16 m 0) 1 st1)"

definition bad_header :: "('f, 'w) env \<Rightarrow> mem \<Rightarrow> ('f, 'w) files \<Rightarrow> (bool \<times> ('f, 'w) files) option" where
  "bad_header E buf st =
     (let flags = ld8 buf 3; name_field = bad_field (loop_fuel E) E (- 1) 1
      in header_field (flags AND 0x10 \<noteq> 0) name_field
           (header_field (flags AND 0x08 \<noteq> 0) name_field
             (header_field (flags AND 0x04 \<noteq> 0) (extra_field E buf)
               (Some (ld8 buf 2 \<noteq> 8 \<or> flags AND 0xE2 \<noteq> 0, st)))))"

definition gunzip_test_header :: "('f, 'w) env \<Rightarrow> ('f, 'w) files \<Rightarrow> (bool \<times> ('f, 'w) files) option" where
  "gunzip_test_header E st =
     (let plain = (\<lambda>st. Some (errnum (dev st) = ERR_NONE, st\<lparr>dev := (dev st)\<lparr>filepos := 0\<rparr>\<rparr>));
          bad = (\<lambda>st. Some (False, if errnum (dev st) = ERR_NONE then set_errnum ERR_BAD_GZIP_HEADER st else st))
      in if no_decompression (gz st) then plain st
         else case grub_read E 10 (\<lambda>_. 0) st of
           None \<Rightarrow> None
         | Some (n, buf, st1) \<Rightarrow>
             if n \<noteq> 10 \<or> ld16 buf 0 \<noteq> 0x8B1F \<and> ld16 buf 0 \<noteq> 0x9E1F then plain st1
             else (case bad_header E buf st1 of
               None \<Rightarrow> None
             | Some (True, st2) \<Rightarrow> bad st2
             | Some (False, st2) \<Rightarrow>
                 (case grub_read E 8 buf
                         (st2\<lparr>gz := (gz st2)\<lparr>gzip_data_offset := filepos (dev st2)\<rparr>,
                              dev := (dev st2)\<lparr>filepos := filemax (dev st2) - 8\<rparr>\<rparr>) of
                    None \<Rightarrow> None
                  | Some (n, buf, st3) \<Rightarrow>
                      if n \<noteq> 8 then bad st3
                      else let st4 = st3\<lparr>gz := (gz st3)\<lparr>gzip_crc := ld32 buf 0, gzip_filemax := s32 (ld32 buf 4),
                                                        gzip_fsmax := s32 (ld32 buf 4)\<rparr>\<rparr>;
                               st5 = gunzip_swap_values ((initialize_tables E st4)\<lparr>compressed_file := True\<rparr>)
                           in Some (True, st5\<lparr>dev := (dev st5)\<lparr>filepos := 0\<rparr>\<rparr>))))"

subsection \<open>Opening\<close>

text \<open>The block list. The sector size is asked for when an entry has been read, so only then does
  a drive without a device trap.\<close>

definition open_blocks :: "('f, 'w) env \<Rightarrow> cstr \<Rightarrow> ('f, 'w) files \<Rightarrow> (bool \<times> ('f, 'w) files) option" where
  "open_blocks E filename st =
     (let ssz = get_sector_size (efi (dev st)) (current_drive (dev st))
      in case blk_parse (case ssz of None \<Rightarrow> 0 | Some ss \<Rightarrow> ss) filename 0 0 False (blk st) of
           (ptr, i, e, fmax, remount, b) \<Rightarrow>
             if ssz = None \<and> i \<noteq> 0 then None
             else let st1 = set_errnum e (st\<lparr>blk := b, dev := (dev st)\<lparr>filemax := fmax\<rparr>\<rparr>);
                      st2 = (if remount then set_fsys_type (NUM_FSYS E) st1 else st1)
                  in if i < BLK_MAX \<and> length ptr \<noteq> length filename \<and> e = ERR_NONE
                     then Some (True, st2\<lparr>block_file := True,
                       blk := (blk st2)\<lparr>BLK_CUR_FILEPOS := 0, BLK_CUR_BLKLIST := 0, BLK_CUR_BLKNUM := 0\<rparr>\<rparr>)
                     else Some (False, st2))"

definition open_fsys :: "('f, 'w) env \<Rightarrow> cstr \<Rightarrow> ('f, 'w) files \<Rightarrow> (bool \<times> ('f, 'w) files) option" where
  "open_fsys E filename st =
     (let st1 = (if errnum (dev st) = ERR_NONE \<and> fsys_type (dev st) = NUM_FSYS E then set_errnum ERR_FSYS_MOUNT st else st);
          st2 = st1\<lparr>dev := (dev st1)\<lparr>print_possibilities := 0\<rparr>\<rparr>
      in if errnum (dev st2) \<noteq> ERR_NONE then Some (False, st2)
         else case dir_func (fsys_table E ! fsys_type (dev st2)) filename st2 of
                None \<Rightarrow> None
              | Some (ok, _, st3) \<Rightarrow> if ok then gunzip_test_header E st3 else Some (False, st3))"

definition grub_open :: "('f, 'w) env \<Rightarrow> cstr \<Rightarrow> ('f, 'w) files \<Rightarrow> (bool \<times> ('f, 'w) files) option" where
  "grub_open E filename st =
     (case setup_part E filename (st\<lparr>compressed_file := False, dev := (dev st)\<lparr>filepos := 0\<rparr>\<rparr>) of
        None \<Rightarrow> None
      | Some (None, st1) \<Rightarrow> Some (False, st1)
      | Some (Some rest, st1) \<Rightarrow>
          (let st2 = st1\<lparr>block_file := False, dev := (dev st1)\<lparr>fsmax := MAXINT\<rparr>\<rparr>
           in if deref rest \<noteq> 47
              then case open_blocks E rest st2 of
                     None \<Rightarrow> None
                   | Some (ok, st3) \<Rightarrow> if ok then gunzip_test_header E st3 else open_fsys E rest st3
              else open_fsys E rest st2))"

definition grub_seek :: "int \<Rightarrow> ('f, 'w) files \<Rightarrow> int \<times> ('f, 'w) files" where
  "grub_seek offset st =
     (if offset > filemax (dev st) \<or> offset < 0 then (- 1, st)
      else (offset, st\<lparr>dev := (dev st)\<lparr>filepos := offset\<rparr>\<rparr>))"

definition dir :: "('f, 'w) env \<Rightarrow> cstr \<Rightarrow> ('f, 'w) files \<Rightarrow> (bool \<times> ('f, 'w) files) option" where
  "dir E dirname st =
     (case setup_part E dirname (st\<lparr>compressed_file := False\<rparr>) of
        None \<Rightarrow> None
      | Some (None, st1) \<Rightarrow> Some (False, st1)
      | Some (Some rest, st1) \<Rightarrow>
          (let st2 = (if deref rest \<noteq> 47 then set_errnum ERR_BAD_FILENAME st1 else st1);
               st3 = (if fsys_type (dev st2) = NUM_FSYS E then set_errnum ERR_FSYS_MOUNT st2 else st2)
           in if errnum (dev st3) \<noteq> ERR_NONE then Some (False, st3)
              else map_option (\<lambda>(ok, _, st4). (ok, st4))
                (dir_func (fsys_table E ! fsys_type (dev st3)) rest
                   (st3\<lparr>dev := (dev st3)\<lparr>print_possibilities := 1\<rparr>\<rparr>))))"

text \<open>The entry behind the last has null functions, so closing with no file system is defined.\<close>

definition grub_close :: "('f, 'w) env \<Rightarrow> ('f, 'w) files \<Rightarrow> ('f, 'w) files" where
  "grub_close E st =
     (if block_file st \<or> fsys_type (dev st) = NUM_FSYS E then st
      else case close_func (fsys_table E ! fsys_type (dev st)) of None \<Rightarrow> st | Some f \<Rightarrow> f st)"

subsection \<open>FAT as an entry of the table\<close>

definition fat_entry :: "nat \<Rightarrow> 'w firmware \<Rightarrow> (fat_fs, 'w) fsys_entry" where
  "fat_entry fuel fw =
     \<lparr>name = bytes_of ''fat'',
      mount_func = \<lambda>st. map_option (\<lambda>(ok, fs, d). (ok, st\<lparr>fsbuf := fs, dev := d\<rparr>))
        (fat_mount (devread fw) (\<lambda>s. get_sector_size (efi s) (current_drive s)) (fsbuf st) (dev st)),
      read_func = \<lambda>len buf st. map_option (\<lambda>(r, m, fs, d). (r, m, st\<lparr>fsbuf := fs, dev := d\<rparr>))
        (fat_read (devread fw) (\<lambda>s. get_sector_size (efi s) (current_drive s)) len buf (fsbuf st) (dev st)),
      dir_func = \<lambda>dirname st. map_option (\<lambda>(ok, p, fs, d). (ok, p, st\<lparr>fsbuf := fs, dev := d\<rparr>))
        (fat_dir fuel (devread fw) (\<lambda>s. get_sector_size (efi s) (current_drive s)) dirname (fsbuf st) (dev st)),
      close_func = None\<rparr>"

section \<open>A file that can be read\<close>

text \<open>The clamping at the beginning of \<^verbatim>\<open>grub_read\<close>, for a position inside the file.\<close>

definition clamp_len :: "nat \<Rightarrow> nat \<Rightarrow> int \<Rightarrow> nat" where
  "clamp_len F q len = (if len < 0 \<or> len > int F - int q then F - q else nat len)"

lemma clamp_len_le: "q \<le> F \<Longrightarrow> q + clamp_len F q len \<le> F"
  by (auto simp: clamp_len_def nat_le_iff)

lemma clamp_len_id: "q + n \<le> F \<Longrightarrow> clamp_len F q (int n) = n"
  by (auto simp: clamp_len_def)

text \<open>What reading leaves alone in the file layer.\<close>

definition same_file_vars :: "('f, 'w) files \<Rightarrow> ('f, 'w) files \<Rightarrow> bool" where
  "same_file_vars st st' \<longleftrightarrow> gz st' = gz st \<and> block_file st' = block_file st \<and> compressed_file st' = compressed_file st \<and>
     filemax (dev st') = filemax (dev st) \<and> fsmax (dev st') = fsmax (dev st) \<and> errnum (dev st') = errnum (dev st)"

lemma same_file_vars_trans: "same_file_vars x y \<Longrightarrow> same_file_vars y z \<Longrightarrow> same_file_vars x z"
  by (simp add: same_file_vars_def)

text \<open>The interface of an open, uncompressed file with the \<open>F\<close> bytes \<open>data\<close>, positioned at
  \<open>q\<close>: \<^verbatim>\<open>grub_read\<close> delivers the bytes at the position, as many as asked for and there are.\<close>

locale file_reader =
  fixes E :: "('f, 'w) env"
    and file_at :: "mem \<Rightarrow> nat \<Rightarrow> nat \<Rightarrow> ('f, 'w) files \<Rightarrow> bool"
  assumes read_at: "file_at data F q st \<Longrightarrow> n = clamp_len F q len \<Longrightarrow>
      \<exists>buf' st'. grub_read E len buf st = Some (int n, buf', st') \<and>
        (\<forall>k. buf' k = (if k < n then data (q + k) else buf k)) \<and> file_at data F (q + n) st' \<and> same_file_vars st st'"
    and at_vars: "file_at data F q st \<Longrightarrow> q \<le> F \<and> filepos (dev st) = int q \<and> filemax (dev st) = int F \<and>
      errnum (dev st) = ERR_NONE \<and> \<not> compressed_file st"
    and seek_at: "file_at data F q st \<Longrightarrow> q' \<le> F \<Longrightarrow>
      file_at data F q' (st\<lparr>dev := (dev st)\<lparr>filepos := int q'\<rparr>, gz := g\<rparr>)"
begin

lemma read_exact:
  assumes "file_at data F q st" "q + n \<le> F"
  shows "\<exists>buf' st'. grub_read E (int n) buf st = Some (int n, buf', st') \<and>
    (\<forall>k. buf' k = (if k < n then data (q + k) else buf k)) \<and> file_at data F (q + n) st' \<and> same_file_vars st st'"
  using read_at [OF assms(1), of n "int n"] clamp_len_id [OF assms(2)] by auto

lemma rewind_at: "file_at data F q st \<Longrightarrow> file_at data F 0 (st\<lparr>dev := (dev st)\<lparr>filepos := 0\<rparr>\<rparr>)"
  using seek_at [of data F q st 0 "gz st"] by simp

text \<open>Files without a gzip header.\<close>

lemma plain_header:
  assumes "file_at data F 0 st" "no_decompression (gz st) \<or> F < 10 \<or> (ld16 data 0 \<noteq> 0x8B1F \<and> ld16 data 0 \<noteq> 0x9E1F)"
  shows "\<exists>st'. gunzip_test_header E st = Some (True, st') \<and> file_at data F 0 st' \<and> same_file_vars st st'"
proof (cases "no_decompression (gz st)")
  case True
  then show ?thesis
    using rewind_at [OF assms(1)] at_vars [OF assms(1)] by (auto simp: gunzip_test_header_def same_file_vars_def)
next
  case False
  obtain buf' st' where r: "grub_read E 10 (\<lambda>_. 0) st = Some (int (clamp_len F 0 10), buf', st')"
      "\<forall>k. buf' k = (if k < clamp_len F 0 10 then data (0 + k) else 0)" "file_at data F (0 + clamp_len F 0 10) st'" "same_file_vars st st'"
    using read_at [OF assms(1) refl, of 10 "\<lambda>_. 0"] by blast
  have "clamp_len F 0 10 \<noteq> 10 \<or> (ld16 buf' 0 \<noteq> 0x8B1F \<and> ld16 buf' 0 \<noteq> 0x9E1F)"
  proof (cases "F < 10")
    case True
    then show ?thesis by (simp add: clamp_len_def)
  next
    case lt: False
    then have "ld16 buf' 0 = ld16 data 0" using r(2) by (simp add: clamp_len_def ld16_def ld8_def)
    then show ?thesis using assms(2) False lt by auto
  qed
  then show ?thesis
    using False r(1) rewind_at [OF r(3)] at_vars [OF r(3)] r(4)
    by (auto simp: gunzip_test_header_def same_file_vars_def Let_def of_nat_eq_iff [of _ 10, simplified])
qed

end

text \<open>The end of a gzip header (RFC 1952): ten bytes, an extra field with its length, the name and
  the comment, each ended by a zero.\<close>

definition after_zero :: "mem \<Rightarrow> nat \<Rightarrow> nat \<Rightarrow> nat" where
  "after_zero data F q = q + length (takeWhile (\<lambda>k. data k \<noteq> 0) [q..<F]) + 1"

definition gzip_header_end :: "mem \<Rightarrow> nat \<Rightarrow> nat" where
  "gzip_header_end data F =
     (let flags = ld8 data 3;
          q1 = (if flags AND 0x04 \<noteq> 0 then 10 + 2 + nat (ld16 data 10) else 10);
          q2 = (if flags AND 0x08 \<noteq> 0 then after_zero data F q1 else q1)
      in if flags AND 0x10 \<noteq> 0 then after_zero data F q2 else q2)"

lemma after_zero_step: "q < F \<Longrightarrow> data q \<noteq> 0 \<Longrightarrow> after_zero data F (Suc q) = after_zero data F q"
  by (simp add: after_zero_def upt_conv_Cons)

lemma after_zero_hit: "q < F \<Longrightarrow> data q = 0 \<Longrightarrow> after_zero data F q = Suc q"
  by (simp add: after_zero_def upt_conv_Cons)

lemma after_zero_ge: "q < after_zero data F q"
  by (simp add: after_zero_def)

context file_reader
begin

lemma read_byte:
  assumes "file_at data F q st" "q < F"
  shows "\<exists>buf' st'. grub_read E 1 buf st = Some (1, buf', st') \<and> buf' 0 = data q \<and> file_at data F (Suc q) st' \<and> same_file_vars st st'"
  using read_exact [OF assms(1), of 1 buf] assms(2) by auto

lemma skip_bytes:
  assumes "file_at data F q st" "q + n \<le> F" "n < fuel"
  shows "\<exists>st'. bad_field fuel E (int n) ch st = Some (False, st') \<and> file_at data F (q + n) st' \<and> same_file_vars st st'"
  using assms
proof (induction n arbitrary: q st fuel ch)
  case 0
  then show ?case by (cases fuel) (auto simp: same_file_vars_def)
next
  case (Suc n)
  obtain f where f: "fuel = Suc f" using Suc.prems(3) by (cases fuel) auto
  obtain buf' st1 where r: "grub_read E 1 (\<lambda>_. ch) st = Some (1, buf', st1)" "file_at data F (Suc q) st1" "same_file_vars st st1"
    using read_byte [OF Suc.prems(1)] Suc.prems(2) by fastforce
  then show ?case
    using Suc.IH [OF r(2), of f "buf' 0"] Suc.prems(2,3) f same_file_vars_trans [OF r(3)] by auto
qed

lemma skip_string:
  assumes "file_at data F q st" "after_zero data F q \<le> F" "F - q + 1 < fuel" "ch \<noteq> 0"
  shows "\<exists>st'. bad_field fuel E (- 1) ch st = Some (False, st') \<and> file_at data F (after_zero data F q) st' \<and> same_file_vars st st'"
  using assms
proof (induction "F - q" arbitrary: q st fuel ch)
  case 0
  then show ?case using after_zero_ge [of q data F] by simp
next
  case (Suc n)
  have q: "q < F" using Suc.hyps(2) by simp
  obtain f where f: "fuel = Suc (Suc f)" using Suc.prems(3) q by (metis Suc_lessE less_Suc_eq_le add.commute plus_1_eq_Suc Suc_le_D not_less_eq)
  obtain buf' st1 where r: "grub_read E 1 (\<lambda>_. ch) st = Some (1, buf', st1)" "buf' 0 = data q" "file_at data F (Suc q) st1"
      "same_file_vars st st1"
    using read_byte [OF Suc.prems(1) q] by blast
  have step: "bad_field fuel E (- 1) ch st = bad_field (Suc f) E (- 1) (data q) st1" using f r(1,2) Suc.prems(4) by simp
  show ?case
  proof (cases "data q = 0")
    case True
    then show ?thesis using step r(3,4) after_zero_hit [of q F data] q by simp
  next
    case False
    have "\<exists>st'. bad_field (Suc f) E (- 1) (data q) st1 = Some (False, st') \<and> file_at data F (after_zero data F (Suc q)) st' \<and> same_file_vars st1 st'"
      using Suc.hyps(2) Suc.prems(2,3) r(3) False f q by (intro Suc.hyps(1)) (auto simp: after_zero_step)
    then show ?thesis unfolding step using after_zero_step [of q F data] q False same_file_vars_trans [OF r(4)]
      by (auto simp del: bad_field.simps)
  qed
qed


lemma header_fields:
  assumes "file_at data F 10 st" "gzip_header_end data F \<le> F" "F + 2 < loop_fuel E"
    "ld8 buf 2 = 8" "ld8 buf 3 = ld8 data 3" "ld8 data 3 AND 0xE2 = 0"
  shows "\<exists>st'. bad_header E buf st = Some (False, st') \<and> file_at data F (gzip_header_end data F) st' \<and> same_file_vars st st'"
proof -
  define fl where "fl = ld8 data 3"
  define q1 where "q1 = (if fl AND 0x04 \<noteq> 0 then 10 + 2 + nat (ld16 data 10) else 10)"
  define q2 where "q2 = (if fl AND 0x08 \<noteq> 0 then after_zero data F q1 else q1)"
  define q3 where "q3 = (if fl AND 0x10 \<noteq> 0 then after_zero data F q2 else q2)"
  have q3: "gzip_header_end data F = q3" by (simp add: gzip_header_end_def Let_def fl_def q1_def q2_def q3_def)
  have le: "q1 \<le> q2" "q2 \<le> q3" "q3 \<le> F"
    using after_zero_ge [of q1 data F] after_zero_ge [of q2 data F] assms(2) q3 by (auto simp: q2_def q3_def)
  let ?name = "bad_field (loop_fuel E) E (- 1) 1"
  have string: "\<exists>st'. header_field present ?name (Some (False, t)) = Some (False, st') \<and>
      file_at data F (if present then after_zero data F q else q) st' \<and> same_file_vars st st'"
    if "file_at data F q t" "same_file_vars st t" "(if present then after_zero data F q else q) \<le> F" for present q t
  proof -
    have "F - q + 1 < loop_fuel E" using assms(3) by simp
    then show ?thesis
      using skip_string [OF that(1), of "loop_fuel E" 1] that same_file_vars_trans [OF that(2)]
      by (auto simp: header_field_def)
  qed
  obtain st1 where s1: "header_field (fl AND 0x04 \<noteq> 0) (extra_field E buf) (Some (False, st)) = Some (False, st1)"
      "file_at data F q1 st1" "same_file_vars st st1"
  proof (cases "fl AND 0x04 \<noteq> 0")
    case True
    then have q1: "q1 = 12 + nat (ld16 data 10)" by (simp add: q1_def)
    then obtain m t where r: "grub_read E 2 buf st = Some (2, m, t)" "\<forall>k. m k = (if k < 2 then data (10 + k) else buf k)"
        "file_at data F 12 t" "same_file_vars st t"
      using read_exact [OF assms(1), of 2 buf] le by auto
    have "ld16 m 0 = ld16 data 10" using r(2) by (simp add: ld16_def ld8_def)
    moreover have "0 \<le> ld16 data 10" by (simp add: ld16_def ld8_def)
    ultimately have n: "ld16 m 0 = int (nat (ld16 data 10))" by simp
    obtain t' where "bad_field (loop_fuel E) E (int (nat (ld16 data 10))) 1 t = Some (False, t')" "file_at data F q1 t'" "same_file_vars t t'"
      using skip_bytes [OF r(3), of "nat (ld16 data 10)" "loop_fuel E" 1] q1 le assms(3) by auto
    then show ?thesis
      using True r(1) n same_file_vars_trans [OF r(4)] by (intro that [of t']) (auto simp: header_field_def extra_field_def)
  next
    case False
    then show ?thesis using assms(1) by (intro that [of st]) (auto simp: header_field_def q1_def same_file_vars_def)
  qed
  obtain st2 where s2: "header_field (fl AND 0x08 \<noteq> 0) ?name (Some (False, st1)) = Some (False, st2)"
      "file_at data F q2 st2" "same_file_vars st st2"
    using string [OF s1(2,3), of "fl AND 0x08 \<noteq> 0"] le unfolding q2_def [symmetric] by auto
  obtain st3 where s3: "header_field (fl AND 0x10 \<noteq> 0) ?name (Some (False, st2)) = Some (False, st3)"
      "file_at data F q3 st3" "same_file_vars st st3"
    using string [OF s2(2,3), of "fl AND 0x10 \<noteq> 0"] le unfolding q3_def [symmetric] by auto
  have "bad_header E buf st = Some (False, st3)"
    using assms(4,5,6) s1(1) s2(1) s3(1) unfolding bad_header_def Let_def fl_def [symmetric] assms(5) by simp
  then show ?thesis using s3 q3 by auto
qed

lemma gzip_header:
  assumes "file_at data F 0 st" "\<not> no_decompression (gz st)" "18 \<le> F" "ld16 data 0 = 0x8B1F \<or> ld16 data 0 = 0x9E1F"
    "ld8 data 2 = 8" "ld8 data 3 AND 0xE2 = 0" "gzip_header_end data F \<le> F" "F + 2 < loop_fuel E"
  shows "\<exists>st'. gunzip_test_header E st = Some (True, st') \<and> compressed_file st' \<and>
    filepos (dev st') = 0 \<and> filemax (dev st') = s32 (ld32 data (F - 4)) \<and> fsmax (dev st') = s32 (ld32 data (F - 4)) \<and>
    gzip_data_offset (gz st') = int (gzip_header_end data F) \<and> gzip_filepos (gz st') = int (gzip_header_end data F) \<and>
    gzip_filemax (gz st') = int F \<and> gzip_fsmax (gz st') = fsmax (dev st) \<and> gzip_crc (gz st') = ld32 data (F - 8) \<and>
    saved_filepos (gz st') = 0 \<and> errnum (dev st') = ERR_NONE \<and> bk (gz st') = 0 \<and> bb (gz st') = 0 \<and>
    gzip_vars.last_block (gz st') = 0 \<and> block_len (gz st') = 0 \<and>
    file_at data F (gzip_header_end data F) (gunzip_swap_values (st'\<lparr>compressed_file := False\<rparr>))"
proof -
  obtain buf st1 where r1: "grub_read E 10 (\<lambda>_. 0) st = Some (10, buf, st1)"
      "\<forall>k. buf k = (if k < 10 then data k else 0)" "file_at data F 10 st1" "same_file_vars st st1"
    using read_exact [OF assms(1), of 10 "\<lambda>_. 0"] assms(3) by auto
  have b: "ld16 buf 0 = ld16 data 0" "ld8 buf 2 = 8" "ld8 buf 3 = ld8 data 3"
    using r1(2) assms(5) by (simp_all add: ld16_def ld8_def)
  obtain st2 where r2: "bad_header E buf st1 = Some (False, st2)" "file_at data F (gzip_header_end data F) st2" "same_file_vars st1 st2"
    using header_fields [OF r1(3) assms(7,8) b(2,3) assms(6)] by blast
  note v2 = at_vars [OF r2(2)]
  define st2' where "st2' = st2\<lparr>gz := (gz st2)\<lparr>gzip_data_offset := filepos (dev st2)\<rparr>,
      dev := (dev st2)\<lparr>filepos := filemax (dev st2) - 8\<rparr>\<rparr>"
  have comm: "st2\<lparr>gz := g, dev := d\<rparr> = st2\<lparr>dev := d, gz := g\<rparr>" for g d by simp
  have e: "filemax (dev st2) - 8 = int (F - 8)" using v2 assms(3) by simp
  have "file_at data F (F - 8) st2'"
    using seek_at [OF r2(2), of "F - 8" "(gz st2)\<lparr>gzip_data_offset := filepos (dev st2)\<rparr>"] unfolding st2'_def e comm by simp
  then obtain m st3 where r3: "grub_read E 8 buf st2' = Some (8, m, st3)" "\<forall>k. m k = (if k < 8 then data (F - 8 + k) else buf k)"
      "file_at data F (F - 8 + 8) st3" "same_file_vars st2' st3"
    using read_exact [of data F "F - 8" st2' 8 buf] assms(3) by auto
  have m: "ld32 m 0 = ld32 data (F - 8)" "ld32 m 4 = ld32 data (F - 4)"
  proof -
    have "Suc (F - 4) = F - 3" "Suc (F - 3) = F - 2" "Suc (F - 2) = F - 1" using assms(3) by auto
    then show "ld32 m 0 = ld32 data (F - 8)" "ld32 m 4 = ld32 data (F - 4)"
      using r3(2) assms(3) by (simp_all add: ld32_def ld16_def ld8_def)
  qed
  have v: "gz st3 = gz st2'" "filemax (dev st3) = int F" "fsmax (dev st3) = fsmax (dev st)" "errnum (dev st3) = ERR_NONE"
    using at_vars [OF r3(3)] r1(4) r2(3) r3(4) by (simp_all add: same_file_vars_def st2'_def)
  have "ld16 buf 0 = 0x8B1F \<or> ld16 buf 0 = 0x9E1F" using b(1) assms(4) by simp
  then have hdr: "gunzip_test_header E st =
      (let st4 = st3\<lparr>gz := (gz st3)\<lparr>gzip_crc := ld32 m 0, gzip_filemax := s32 (ld32 m 4), gzip_fsmax := s32 (ld32 m 4)\<rparr>\<rparr>;
           st5 = gunzip_swap_values ((initialize_tables E st4)\<lparr>compressed_file := True\<rparr>)
       in Some (True, st5\<lparr>dev := (dev st5)\<lparr>filepos := 0\<rparr>\<rparr>))"
    using assms(2) r1(1) r2(1) r3(1) [unfolded st2'_def] unfolding gunzip_test_header_def by (auto simp: Let_def simp del: files.simps)
  have "st3\<lparr>compressed_file := False\<rparr> = st3" using at_vars [OF r3(3)] by (cases st3) simp
  moreover have "(dev st3)\<lparr>filepos := a, filemax := int F, fsmax := fsmax (dev st)\<rparr> = (dev st3)\<lparr>filepos := a\<rparr>" for a
    unfolding v(2) [symmetric] v(3) [symmetric] by simp
  ultimately have "file_at data F (gzip_header_end data F) (st3\<lparr>compressed_file := False,
      dev := (dev st3)\<lparr>filepos := int (gzip_header_end data F), filemax := int F, fsmax := fsmax (dev st)\<rparr>, gz := g\<rparr>)" for g
    using seek_at [OF r3(3) assms(7), of g] by simp
  then show ?thesis
    using hdr v m v2 by (simp add: Let_def gunzip_swap_values_def initialize_tables_def reset_linalloc_def st2'_def)
qed

end

section \<open>Block files and FAT files are such files\<close>

definition block_at :: "('f, 'w) env \<Rightarrow> mem \<Rightarrow> nat \<Rightarrow> nat \<Rightarrow> ('f, 'w) files \<Rightarrow> bool" where
  "block_at E data F q st \<longleftrightarrow>
     (\<exists>P b N bl. disk_serves (firm E) P b N (dev st) \<and> errnum (dev st) = ERR_NONE \<and> block_file st \<and> \<not> compressed_file st \<and>
        blk_ok N bl (blk st) \<and> blk_cursor b bl (blk st) \<and> bl \<noteq> [] \<and> filepos (dev st) = int q \<and> filemax (dev st) = int F \<and>
        int F \<le> fsmax (dev st) \<and> q \<le> F \<and> F \<le> blk_size b bl \<and> blk_size b bl < 2 ^ 30 \<and> data = blk_byte P b bl)"

definition fat_at :: "(fat_fs, 'w) env \<Rightarrow> mem \<Rightarrow> nat \<Rightarrow> nat \<Rightarrow> (fat_fs, 'w) files \<Rightarrow> bool" where
  "fat_at E data F q st \<longleftrightarrow>
     (\<exists>P b N fuel. disk_serves (firm E) P b N (dev st) \<and> errnum (dev st) = ERR_NONE \<and> \<not> block_file st \<and> \<not> compressed_file st \<and>
        fsys_type (dev st) < NUM_FSYS E \<and> fsys_table E ! fsys_type (dev st) = fat_entry fuel (firm E) \<and>
        fat_ok b N (fsbuf st) \<and> fat_cached P b (fsbuf st) \<and> fat_cursor P b (fsbuf st) \<and> 0 \<le> file_cluster (fsbuf st) \<and>
        chain_ok P b (fsbuf st) (file_cluster (fsbuf st)) F \<and> filepos (dev st) = int q \<and> filemax (dev st) = int F \<and>
        int F \<le> fsmax (dev st) \<and> q \<le> F \<and> F < 2 ^ 31 - 1 \<and> data = file_byte P b (fsbuf st) (file_cluster (fsbuf st)))"

text \<open>The clamping, for a file in this state.\<close>

lemma grub_read_clamped:
  assumes "filepos (dev st) = int q" "filemax (dev st) = int F" "q \<le> F" "int F \<le> fsmax (dev st)" "\<not> compressed_file st"
    "n = clamp_len F q len"
  shows "grub_read E len buf st =
    (if block_file st
     then case get_sector_size (efi (dev st)) (current_drive (dev st)) of
            None \<Rightarrow> None
          | Some ss \<Rightarrow> map_option (\<lambda>(r, m, b, d). (r, m, st\<lparr>blk := b, dev := d\<rparr>))
              (blk_read_loop (devread (firm E)) ss (int n) 0 buf (blk st) (dev st))
     else if fsys_type (dev st) = NUM_FSYS E then Some (0, buf, set_errnum ERR_FSYS_MOUNT st)
     else read_func (fsys_table E ! fsys_type (dev st)) (int n) buf st)"
proof -
  have p: "(if filepos (dev st) < 0 \<or> filepos (dev st) > filemax (dev st) then filemax (dev st) else filepos (dev st)) = filepos (dev st)"
    using assms(1-3) by simp
  have l: "(if len < 0 \<or> len > filemax (dev st) - filepos (dev st) then filemax (dev st) - filepos (dev st) else len) = int n"
    using assms by (auto simp: clamp_len_def of_nat_diff)
  have "filepos (dev st) + int n \<le> fsmax (dev st)"
    using assms(1,4,6) clamp_len_le [OF assms(3), of len] by linarith
  moreover have same: "st\<lparr>dev := (dev st)\<lparr>filepos := filepos (dev st)\<rparr>\<rparr> = st" by simp
  ultimately show ?thesis unfolding grub_read_def Let_def p l same using assms(5) by simp
qed

lemma file_step_fsys: "file_step s s' \<Longrightarrow> fsys_type s' = fsys_type s"
  by (auto simp: file_step_def stage2.defs)

lemma block_read_at:
  assumes "block_at E data F q st" "n = clamp_len F q len"
  shows "\<exists>buf' st'. grub_read E len buf st = Some (int n, buf', st') \<and>
    (\<forall>k. buf' k = (if k < n then data (q + k) else buf k)) \<and> block_at E data F (q + n) st' \<and> same_file_vars st st'"
proof -
  obtain P b N bl where a: "disk_serves (firm E) P b N (dev st)" "errnum (dev st) = ERR_NONE" "block_file st" "\<not> compressed_file st"
      "blk_ok N bl (blk st)" "blk_cursor b bl (blk st)" "bl \<noteq> []" "filepos (dev st) = int q" "filemax (dev st) = int F"
      "int F \<le> fsmax (dev st)" "q \<le> F" "F \<le> blk_size b bl" "blk_size b bl < 2 ^ 30" "data = blk_byte P b bl"
    using assms(1) unfolding block_at_def by blast
  have qn: "q + n \<le> F" using clamp_len_le [OF a(11), of len] assms(2) by simp
  then obtain buf' blk' s' where r: "blk_read_loop (devread (firm E)) (2 ^ b) (int n) 0 buf (blk st) (dev st) = Some (int n, buf', blk', s')"
      "\<forall>k. buf' k = (if k < n then blk_byte P b bl (q + k) else buf k)" "disk_serves (firm E) P b N s'" "file_step (dev st) s'"
      "filepos s' = int (q + n)" "same_list (blk st) blk'" "blk_cursor b bl blk'"
    using part.blk_read_ok [OF a(1,2,5,6,7,8) _ a(13), of n 0 buf] a(12) by auto
  let ?st = "st\<lparr>blk := blk', dev := s'\<rparr>"
  have "grub_read E len buf st = Some (int n, buf', ?st)"
    using grub_read_clamped [OF a(8,9,11,10,4) assms(2), of E buf] a(3) r(1) part.size_ok [OF a(1)] by simp
  moreover have "block_at E data F (q + n) ?st"
    unfolding block_at_def
    using a r qn same_list_ok [OF r(6)] file_step_simps [OF r(4)]
    by (intro exI [of _ P] exI [of _ b] exI [of _ N] exI [of _ bl]) simp
  moreover have "same_file_vars st ?st" using file_step_simps [OF r(4)] by (simp add: same_file_vars_def)
  ultimately show ?thesis using r(2) a(14) by blast
qed

lemma fat_read_at:
  assumes "fat_at E data F q st" "n = clamp_len F q len"
  shows "\<exists>buf' st'. grub_read E len buf st = Some (int n, buf', st') \<and>
    (\<forall>k. buf' k = (if k < n then data (q + k) else buf k)) \<and> fat_at E data F (q + n) st' \<and> same_file_vars st st'"
proof -
  obtain P b N fuel where a: "disk_serves (firm E) P b N (dev st)" "errnum (dev st) = ERR_NONE" "\<not> block_file st" "\<not> compressed_file st"
      "fsys_type (dev st) < NUM_FSYS E" "fsys_table E ! fsys_type (dev st) = fat_entry fuel (firm E)"
      "fat_ok b N (fsbuf st)" "fat_cached P b (fsbuf st)" "fat_cursor P b (fsbuf st)" "0 \<le> file_cluster (fsbuf st)"
      "chain_ok P b (fsbuf st) (file_cluster (fsbuf st)) F" "filepos (dev st) = int q" "filemax (dev st) = int F"
      "int F \<le> fsmax (dev st)" "q \<le> F" "F < 2 ^ 31 - 1" "data = file_byte P b (fsbuf st) (file_cluster (fsbuf st))"
    using assms(1) unfolding fat_at_def by blast
  have qn: "q + n \<le> F" using clamp_len_le [OF a(15), of len] assms(2) by simp
  have ch: "chain_ok P b (fsbuf st) (file_cluster (fsbuf st)) (q + n)" using a(11) qn by (auto simp: chain_ok_def)
  have lt: "q + n < 2 ^ 31 - 1" using qn a(16) by linarith
  obtain buf' fs' s' where r: "fat_read (devread (firm E)) (\<lambda>s. get_sector_size (efi s) (current_drive s)) (int n) buf (fsbuf st) (dev st) =
        Some (int n, buf', fs', s')"
      "\<forall>k. buf' k = (if k < n then file_byte P b (fsbuf st) (file_cluster (fsbuf st)) (q + k) else buf k)"
      "disk_serves (firm E) P b N s'" "file_step (dev st) s'" "filepos s' = int (q + n)" "same_fs (fsbuf st) fs'" "fat_cached P b fs'"
      "fat_cursor P b fs'"
    using part.fat_read_ok [OF a(1,2,7,8,9,10,12) lt ch, of buf] by blast
  let ?st = "st\<lparr>fsbuf := fs', dev := s'\<rparr>"
  have "grub_read E len buf st = Some (int n, buf', ?st)"
    using grub_read_clamped [OF a(12,13,15,14,4) assms(2), of E buf] a(3,5,6) r(1) by (simp add: fat_entry_def)
  moreover have "fat_at E data F (q + n) ?st"
    unfolding fat_at_def
    using a r qn file_step_simps [OF r(4)] file_step_fsys [OF r(4)] same_fs_simps [OF r(6)] same_fs_layout [OF r(6)] same_file [OF r(6)]
    by (intro exI [of _ P] exI [of _ b] exI [of _ N] exI [of _ fuel]) auto
  moreover have "same_file_vars st ?st" using file_step_simps [OF r(4)] by (simp add: same_file_vars_def)
  ultimately show ?thesis using r(2) a(17) by blast
qed

interpretation block: file_reader E "block_at E" for E :: "('f, 'w) env"
proof
  fix data F q q' st g
  assume at: "block_at E data F q st"
  show "q \<le> F \<and> filepos (dev st) = int q \<and> filemax (dev st) = int F \<and> errnum (dev st) = ERR_NONE \<and> \<not> compressed_file st"
    using at by (auto simp: block_at_def)
  assume "q' \<le> F"
  moreover have "disk_serves (firm E) P b N ((dev st)\<lparr>filepos := int q'\<rparr>)" if "disk_serves (firm E) P b N (dev st)" for P b N
    by (rule disk_serves_frame [OF that]) simp_all
  ultimately show "block_at E data F q' (st\<lparr>dev := (dev st)\<lparr>filepos := int q'\<rparr>, gz := g\<rparr>)"
    using at unfolding block_at_def by auto blast
qed (rule block_read_at)

interpretation fat: file_reader E "fat_at E" for E :: "(fat_fs, 'w) env"
proof
  fix data F q q' st g
  assume at: "fat_at E data F q st"
  show "q \<le> F \<and> filepos (dev st) = int q \<and> filemax (dev st) = int F \<and> errnum (dev st) = ERR_NONE \<and> \<not> compressed_file st"
    using at by (auto simp: fat_at_def)
  assume "q' \<le> F"
  moreover have "disk_serves (firm E) P b N ((dev st)\<lparr>filepos := int q'\<rparr>)" if "disk_serves (firm E) P b N (dev st)" for P b N
    by (rule disk_serves_frame [OF that]) simp_all
  ultimately show "fat_at E data F q' (st\<lparr>dev := (dev st)\<lparr>filepos := int q'\<rparr>, gz := g\<rparr>)"
    using at unfolding fat_at_def by auto blast
qed (rule fat_read_at)

section \<open>Opening a block list\<close>

lemma blk_total: "(\<forall>(a, n) \<in> set bl. 0 < n) \<Longrightarrow> int (length (blk_sectors bl)) = (\<Sum>x\<leftarrow>bl. snd x)"
  by (induction bl) (auto simp: blk_sectors_Cons, simp add: blk_sectors_def)

lemma blk_store_ok:
  assumes "\<forall>(a, n) \<in> set bl. 0 \<le> a \<and> 0 < n \<and> a + n \<le> N"
  shows "blk_ok N bl (blk_store 0 bl ar)"
  unfolding blk_ok_def
proof (intro allI impI)
  fix i
  assume i: "i < length bl"
  have "case bl ! i of (a, n) \<Rightarrow> 0 \<le> a \<and> 0 < n \<and> a + n \<le> N" using bspec [OF assms nth_mem [OF i]] .
  then show "BLK_BLKSTART (blk_store 0 bl ar) i = fst (bl ! i) \<and> BLK_BLKLENGTH (blk_store 0 bl ar) i = snd (bl ! i) \<and>
    0 \<le> fst (bl ! i) \<and> 0 < snd (bl ! i) \<and> fst (bl ! i) + snd (bl ! i) \<le> N"
    using blk_store_nth [OF i, of 0 ar] by (cases "bl ! i") simp
qed

lemma blk_start_cursor:
  assumes "blk_ok N bl ar" "bl \<noteq> []"
  shows "blk_cursor b bl (ar\<lparr>BLK_CUR_FILEPOS := 0, BLK_CUR_BLKLIST := 0, BLK_CUR_BLKNUM := 0\<rparr>)"
  using assms by (auto simp: blk_cursor_def blk_at_def blk_ok_def intro!: exI [of _ 0])

lemma print_blocks_head:
  assumes "bl \<noteq> []" "\<forall>(a, n) \<in> set bl. 0 \<le> a \<and> a \<le> MAXINT"
  shows "deref (print_blocks bl @ rest) \<noteq> 40" "deref (print_blocks bl @ rest) \<noteq> 47" "print_blocks bl \<noteq> []"
proof -
  obtain a n bl' where bl: "bl = (a, n) # bl'" using assms(1) by (cases bl) auto
  have "48 \<le> schar (deref (print_blocks bl @ rest))"
    using decimal_head [of a] assms(2) bl by (simp add: append_assoc)
  moreover have "\<not> 48 \<le> schar 40" "\<not> 48 \<le> schar 47" by (simp_all add: schar_eq)
  ultimately show "deref (print_blocks bl @ rest) \<noteq> 40" "deref (print_blocks bl @ rest) \<noteq> 47" by metis+
  show "print_blocks bl \<noteq> []" using bl by simp
qed

lemma open_blocks_ok:
  assumes serves: "disk_serves (firm E) P b N (dev st)" and "errnum (dev st) = ERR_NONE" "filepos (dev st) = 0"
    "fsmax (dev st) = MAXINT" "\<not> compressed_file st"
    and bl: "bl \<noteq> []" "length bl < BLK_MAX" "\<forall>(a, n) \<in> set bl. 0 \<le> a \<and> 0 < n \<and> a + n \<le> N" "blk_size b bl < 2 ^ 30"
    and rest: "ends_list (deref rest)"
  shows "\<exists>st'. open_blocks E (print_blocks bl @ rest) st = Some (True, st') \<and> block_at E (blk_byte P b bl) (blk_size b bl) 0 st' \<and> gz st' = gz st"
proof -
  have sz: "get_sector_size (efi (dev st)) (current_drive (dev st)) = Some (2 ^ b)" and N: "N < 2 ^ 31"
    using part.size_ok [OF serves] by auto
  have ranges: "\<forall>(a, n) \<in> set bl. 0 \<le> a \<and> a \<le> MAXINT \<and> 0 < n"
  proof (clarify)
    fix a n
    assume "(a, n) \<in> set bl"
    then have "0 \<le> a \<and> 0 < n \<and> a + n \<le> N" using bl(3) by auto
    then show "0 \<le> a \<and> a \<le> MAXINT \<and> 0 < n" using N by (auto simp: MAXINT_def)
  qed
  have tot: "(\<Sum>x\<leftarrow>bl. snd x) * 2 ^ b = int (blk_size b bl)"
    using blk_total [of bl] bl(3) by (fastforce simp: blk_size_def)
  have p: "blk_parse (2 ^ b) (print_blocks bl @ rest) 0 0 False (blk st) =
      (rest, length bl, ERR_NONE, int (blk_size b bl), True, blk_store 0 bl (blk st))"
    using blk_parse_print [OF bl(1) _ ranges rest, of 0 0 "2 ^ b" False "blk st"] tot bl(2,4) by simp
  have "length rest \<noteq> length (print_blocks bl @ rest)"
    using print_blocks_head(3) [OF bl(1)] ranges by (fastforce split: prod.splits)
  then have e: "open_blocks E (print_blocks bl @ rest) st = Some (True,
      st\<lparr>dev := (dev st)\<lparr>filemax := int (blk_size b bl), errnum := ERR_NONE, fsys_type := NUM_FSYS E\<rparr>,
         blk := (blk_store 0 bl (blk st))\<lparr>BLK_CUR_FILEPOS := 0, BLK_CUR_BLKLIST := 0, BLK_CUR_BLKNUM := 0\<rparr>, block_file := True\<rparr>)"
    (is "_ = Some (True, ?st')")
    using sz p bl(2) by (simp add: open_blocks_def set_errnum_def set_fsys_type_def)
  have "disk_serves (firm E) P b N (dev ?st')" using serves by (rule disk_serves_frame) simp_all
  then have "block_at E (blk_byte P b bl) (blk_size b bl) 0 ?st'"
    unfolding block_at_def
    using assms(2-5) bl blk_store_ok [OF bl(3), of "blk st"] blk_start_cursor [OF blk_store_ok [OF bl(3)] bl(1), of b]
    by (intro exI [of _ P] exI [of _ b] exI [of _ N] exI [of _ bl]) (auto simp: MAXINT_def blk_ok_def)
  then show ?thesis using e by auto
qed

lemma sane_frame: "sane_partition s = (True, s) \<Longrightarrow> sane_partition (s\<lparr>filepos := x, errnum := e\<rparr>) = (True, s\<lparr>filepos := x, errnum := e\<rparr>)"
  by (auto simp: sane_partition_def split: if_splits)

lemma grub_open_list:
  assumes serves: "disk_serves (firm E) P b N (dev st)" and "errnum (dev st) = ERR_NONE"
    and cur: "saved_drive (dev st) = current_drive (dev st)" "saved_partition (dev st) = current_partition (dev st)"
      "buf_drive (dev st) \<noteq> - 1" "sane_partition (dev st) = (True, dev st)"
    and bl: "bl \<noteq> []" "length bl < BLK_MAX" "\<forall>(a, n) \<in> set bl. 0 \<le> a \<and> 0 < n \<and> a + n \<le> N" "blk_size b bl < 2 ^ 30"
    and rest: "ends_list (deref rest)"
  shows "\<exists>st'. grub_open E (print_blocks bl @ rest) st = gunzip_test_header E st' \<and>
    block_at E (blk_byte P b bl) (blk_size b bl) 0 st' \<and> gz st' = gz st"
proof -
  have N: "N < 2 ^ 31" using part.size_ok [OF serves] by auto
  have ranges: "\<forall>(a, n) \<in> set bl. 0 \<le> a \<and> a \<le> MAXINT" using bl(3) N by (fastforce simp: MAXINT_def)
  let ?name = "print_blocks bl @ rest"
  let ?st1 = "st\<lparr>compressed_file := False, dev := (dev st)\<lparr>filepos := 0\<rparr>\<rparr>"
  define st2 where "st2 = st\<lparr>compressed_file := False, block_file := False, dev := (dev st)\<lparr>filepos := 0, errnum := ERR_NONE, fsmax := MAXINT\<rparr>\<rparr>"
  have "setup_part E ?name ?st1 = Some (Some ?name, ?st1\<lparr>dev := (dev st)\<lparr>filepos := 0, errnum := ERR_NONE\<rparr>\<rparr>)"
    using print_blocks_head(1,2) [OF bl(1) ranges, of rest] assms(2) cur sane_frame [OF cur(4), where x = 0 and e = ERR_NONE]
    by (simp add: setup_part_def setup_tail_def Let_def)
  then have e: "grub_open E ?name st = (case open_blocks E ?name st2 of
        None \<Rightarrow> None | Some (ok, st3) \<Rightarrow> if ok then gunzip_test_header E st3 else open_fsys E ?name st3)"
    using print_blocks_head(2) [OF bl(1) ranges, of rest] unfolding grub_open_def st2_def by simp
  have "disk_serves (firm E) P b N (dev st2)" using serves by (rule disk_serves_frame) (simp_all add: st2_def)
  then obtain st3 where o: "open_blocks E ?name st2 = Some (True, st3)" "block_at E (blk_byte P b bl) (blk_size b bl) 0 st3" "gz st3 = gz st"
    using open_blocks_ok [OF _ _ _ _ _ bl rest, of E P st2] by (auto simp: st2_def)
  show ?thesis using e o by auto
qed

section \<open>Properties of the file layer\<close>

text \<open>C32: Block lists. On the current device, opening the printed form of a list of extents
  (followed by a space, a slash or the end) succeeds for contents without a gzip header, with the
  size of the extents as the size of the file; then after \<^verbatim>\<open>grub_seek\<close> to any position,
  \<^verbatim>\<open>grub_read\<close> delivers the bytes of the concatenated sectors.\<close>

theorem block_list_open_read:
  fixes st :: "('f, 'w) files"
  assumes "disk_serves (firm E) P b N (dev st)" "errnum (dev st) = ERR_NONE"
    "saved_drive (dev st) = current_drive (dev st)" "saved_partition (dev st) = current_partition (dev st)"
    "buf_drive (dev st) \<noteq> - 1" "sane_partition (dev st) = (True, dev st)"
    "bl \<noteq> []" "length bl < BLK_MAX" "\<forall>(a, n) \<in> set bl. 0 \<le> a \<and> 0 < n \<and> a + n \<le> N" "blk_size b bl < 2 ^ 30"
    "ends_list (deref rest)"
    "no_decompression (gz st) \<or> (ld16 (blk_byte P b bl) 0 \<noteq> 0x8B1F \<and> ld16 (blk_byte P b bl) 0 \<noteq> 0x9E1F)"
    "q + n \<le> blk_size b bl"
  shows "\<exists>st1 st2 buf' st3. grub_open E (print_blocks bl @ rest) st = Some (True, st1) \<and>
    filemax (dev st1) = int (blk_size b bl) \<and> grub_seek (int q) st1 = (int q, st2) \<and>
    grub_read E (int n) buf st2 = Some (int n, buf', st3) \<and> (\<forall>k. buf' k = (if k < n then blk_byte P b bl (q + k) else buf k))"
proof -
  obtain st0 where o: "grub_open E (print_blocks bl @ rest) st = gunzip_test_header E st0"
      "block_at E (blk_byte P b bl) (blk_size b bl) 0 st0" "gz st0 = gz st"
    using grub_open_list [OF assms(1-11)] by blast
  obtain st1 where s1: "gunzip_test_header E st0 = Some (True, st1)" "block_at E (blk_byte P b bl) (blk_size b bl) 0 st1"
    using block.plain_header [OF o(2)] o(3) assms(12) by auto
  let ?st2 = "st1\<lparr>dev := (dev st1)\<lparr>filepos := int q\<rparr>\<rparr>"
  have "block_at E (blk_byte P b bl) (blk_size b bl) q ?st2"
    using block.seek_at [OF s1(2), of q "gz st1"] assms(13) by simp
  from block.read_exact [OF this assms(13)]
  obtain buf' st3 where "grub_read E (int n) buf ?st2 = Some (int n, buf', st3)"
      "\<forall>k. buf' k = (if k < n then blk_byte P b bl (q + k) else buf k)" by blast
  then show ?thesis
    using o(1) s1(1) block.at_vars [OF s1(2)] assms(13)
    by (intro exI [of _ st1] exI [of _ ?st2] exI [of _ buf'] exI [of _ st3]) (simp add: grub_seek_def)
qed

text \<open>Gzip files. Opening a block list whose contents start with a gzip header (deflate, no
  unsupported flag, any of the optional fields) skips the header, also its extra field, name
  and comment, and sets the size of the file from the trailer; the position and size of the
  compressed data are kept aside.\<close>

theorem gzip_file_open:
  fixes st :: "('f, 'w) files"
  assumes "disk_serves (firm E) P b N (dev st)" "errnum (dev st) = ERR_NONE"
    "saved_drive (dev st) = current_drive (dev st)" "saved_partition (dev st) = current_partition (dev st)"
    "buf_drive (dev st) \<noteq> - 1" "sane_partition (dev st) = (True, dev st)"
    "bl \<noteq> []" "length bl < BLK_MAX" "\<forall>(a, n) \<in> set bl. 0 \<le> a \<and> 0 < n \<and> a + n \<le> N" "blk_size b bl < 2 ^ 30"
    "ends_list (deref rest)" "data = blk_byte P b bl" "F = blk_size b bl"
    "\<not> no_decompression (gz st)" "ld16 data 0 = 0x8B1F \<or> ld16 data 0 = 0x9E1F" "ld8 data 2 = 8" "ld8 data 3 AND 0xE2 = 0"
    "gzip_header_end data F \<le> F" "F + 2 < loop_fuel E"
  shows "\<exists>st'. grub_open E (print_blocks bl @ rest) st = Some (True, st') \<and> compressed_file st' \<and>
    filepos (dev st') = 0 \<and> filemax (dev st') = s32 (ld32 data (F - 4)) \<and>
    gzip_data_offset (gz st') = int (gzip_header_end data F) \<and> gzip_filepos (gz st') = int (gzip_header_end data F) \<and>
    gzip_filemax (gz st') = int F \<and> gzip_crc (gz st') = ld32 data (F - 8)"
proof -
  obtain st0 where o: "grub_open E (print_blocks bl @ rest) st = gunzip_test_header E st0" "block_at E data F 0 st0" "gz st0 = gz st"
    using grub_open_list [OF assms(1-11)] unfolding assms(12,13) by blast
  have "18 \<le> F"
  proof -
    have "blk_sectors bl \<noteq> []"
      using blk_total [of bl] assms(7,9) by (cases bl) (auto simp: blk_sectors_Cons)
    then have "1 * 2 ^ 9 \<le> length (blk_sectors bl) * 2 ^ b"
      using part.size_ok [OF assms(1)] by (intro mult_le_mono power_increasing) (auto simp: Suc_le_eq)
    then show ?thesis using assms(13) by (simp add: blk_size_def)
  qed
  then show ?thesis
    unfolding o(1) using block.gzip_header [OF o(2) _ _ assms(15-19)] o(3) assms(14) by auto
qed

text \<open>Files of a FAT partition. For an open file whose chain covers its size, \<^verbatim>\<open>grub_read\<close>
  delivers the bytes of the file at the position and never more than there are: a negative
  length, or one past the end, is cut to the rest of the file.\<close>

theorem fat_file_read:
  assumes "fat_at E data F q st"
  shows "\<exists>buf' st'. grub_read E len buf st = Some (int (clamp_len F q len), buf', st') \<and>
    (\<forall>k. buf' k = (if k < clamp_len F q len then data (q + k) else buf k)) \<and>
    q + clamp_len F q len \<le> F \<and> fat_at E data F (q + clamp_len F q len) st'"
proof -
  have "q \<le> F" using fat.at_vars [OF assms] by simp
  with fat.read_at [OF assms refl, of len buf] clamp_len_le [of q F len] show ?thesis by blast
qed

section \<open>Sample files\<close>

definition sample_env :: "(fat_fs, mem) fsys_entry list \<Rightarrow> (fat_fs, mem) env" where
  "sample_env es = \<lparr>firm = ram_firmware, network_ready = False, loop_fuel = 1000, iter_init = iter0, fsys_table = es,
     mem_upper = 0, grub_scratch_mem = 0, stack_junk = \<lambda>_ _. 0, decompress = \<lambda>len buf st. None\<rparr>"

definition sample_files :: "mem dstate \<Rightarrow> (fat_fs, mem) files" where
  "sample_files d = \<lparr>dev = d, fsbuf = fat_sample,
     blk = \<lparr>BLK_CUR_FILEPOS = 0, BLK_CUR_BLKLIST = 0, BLK_CUR_BLKNUM = 0, BLK_BLKSTART = \<lambda>_. 0, BLK_BLKLENGTH = \<lambda>_. 0\<rparr>,
     block_file = False, compressed_file = False,
     gz = \<lparr>no_decompression = False, gzip_data_offset = 0, gzip_filepos = 0, gzip_filemax = 0, gzip_fsmax = 0, saved_filepos = 0,
       gzip_crc = 0, block_type = 0, block_len = 0, last_block = 0, code_state = 0,
       linmem = \<lparr>linalloc_topaddr = 0, ntables = 0, tables = \<lambda>_ _. \<lparr>hf_e = 0, hf_b = 0, hf_v = Num 0\<rparr>, table_link = \<lambda>_. None, hufts = 0\<rparr>,
       slide = \<lambda>_. 0, wp = 0, bb = 0, bk = 0, inbuf = \<lambda>_. 0, bufloc = 0, huft_tl = None, huft_td = None, huft_bl = 0, huft_bd = 0,
       inflate_n = 0, inflate_d = 0\<rparr>\<rparr>"

text \<open>A disk with a gzip file in sector 4, whose header has a name.\<close>

definition gzip_disk :: mem where
  "gzip_disk k = (if k = 2048 then 0x1F else if k = 2049 then 0x8B else if k = 2050 \<or> k = 2051 then 8 else if k = 2058 then 97
     else if k = 2552 then 1 else if k = 2556 then 0x58 else if k = 2557 then 2 else 0)"

lemma gzip_disk_no_ezd: "no_ezd gzip_disk 9"
proof -
  have "gzip_disk k \<noteq> 0x55" for k by (simp add: gzip_disk_def)
  then show ?thesis
    by (auto simp: no_ezd_def has_ezd_def PC_SLICE_TYPE_def ld8_def vtrack_def word_uint_eq_iff)
qed

lemma tagged_serves:
  assumes "no_ezd img 9"
  shows "disk_serves ram_firmware img 9 2016 (tagged_state 0 img)"
proof -
  have "disk_ok ram_firmware 0x80 disk0 img 9 (sample_efi1 img)"
    using sample_device [of img] ram_disk_image assms
    by (simp add: disk_ok_def media_sane_def) (simp add: sample_efi1_def sample_efi_def)
  then show ?thesis
    unfolding disk_serves_def using tagged_buffer_ok [of 0 img]
    by (intro exI [of _ disk0] exI [of _ img]) (auto simp: sample_whole part_img_def, simp_all add: tagged_state_def)
qed

lemma tagged_sane: "sane_partition (tagged_state 0 img) = (True, tagged_state 0 img)"
  by (simp add: sane_partition_def tagged_state_def sample_state_def)

lemma tagged_vars:
  "saved_drive (tagged_state 0 img) = current_drive (tagged_state 0 img)"
  "saved_partition (tagged_state 0 img) = current_partition (tagged_state 0 img)" "buf_drive (tagged_state 0 img) \<noteq> - 1"
  by (simp_all add: tagged_state_def sample_state_def)

lemma sample_files_simps [simp]:
  "dev (sample_files d) = d" "no_decompression (gz (sample_files d)) = False" "firm (sample_env es) = ram_firmware"
  "loop_fuel (sample_env es) = 1000" "fsys_table (sample_env es) = es" "fsbuf (sample_files d) = fat_sample"
  "block_file (sample_files d) = False" "compressed_file (sample_files d) = False"
  by (simp_all add: sample_files_def sample_env_def)

theorem block_list_open_read_witness:
  "\<exists>st1 st2 buf' st3. grub_open (sample_env []) (print_blocks [(3, 2), (10, 1)]) (sample_files (tagged_state 0 sample_image)) = Some (True, st1) \<and>
    filemax (dev st1) = 1536 \<and> grub_seek 1000 st1 = (1000, st2) \<and>
    grub_read (sample_env []) 100 (\<lambda>_. 0) st2 = Some (100, buf', st3) \<and> buf' 0 = 4 \<and> buf' 30 = 10"
proof -
  let ?bl = "[(3, 2), (10, 1)] :: blk_list"
  have sec: "blk_sectors ?bl = [3, 4, 10]" by (simp add: blk_sectors_def upt_rec)
  have byt: "blk_byte sample_image 9 ?bl q = of_int (blk_sectors ?bl ! (q div 512))" if "q < 1536" for q
  proof -
    have "q div 512 = 0 \<or> q div 512 = 1 \<or> q div 512 = 2" using that by auto
    moreover have "(c * 512 + q mod 512) div 512 = c" for c by simp
    from this [of 3] this [of 4] this [of 10]
    have "(1536 + q mod 512) div 512 = 3" "(2048 + q mod 512) div 512 = 4" "(5120 + q mod 512) div 512 = 10" by simp_all
    ultimately show ?thesis unfolding blk_byte_def sec by (elim disjE) (simp_all add: sample_image_def del: mod_by_Suc_0)
  qed
  have "\<exists>st1 st2 buf' st3. grub_open (sample_env []) (print_blocks ?bl @ []) (sample_files (tagged_state 0 sample_image)) = Some (True, st1) \<and>
    filemax (dev st1) = int (blk_size 9 ?bl) \<and> grub_seek (int 1000) st1 = (int 1000, st2) \<and>
    grub_read (sample_env []) (int 100) (\<lambda>_. 0) st2 = Some (int 100, buf', st3) \<and>
    (\<forall>k. buf' k = (if k < 100 then blk_byte sample_image 9 ?bl (1000 + k) else 0))"
    by (rule block_list_open_read [where N = 2016])
       (use tagged_serves [OF sample_no_ezd] tagged_sane [of sample_image] tagged_vars [of sample_image] byt [of 0] byt [of 1] sec in
         \<open>simp_all add: BLK_MAX_def blk_size_def ends_list_def ld16_def ld8_def\<close>)
  then show ?thesis using byt [of 1000] byt [of 1030] sec by (auto simp: blk_size_def)
qed

theorem gzip_file_open_witness:
  "\<exists>st'. grub_open (sample_env []) (print_blocks [(4, 1)]) (sample_files (tagged_state 0 gzip_disk)) = Some (True, st') \<and>
     compressed_file st' \<and> filemax (dev st') = 600 \<and> gzip_data_offset (gz st') = 12"
proof -
  let ?bl = "[(4, 1)] :: blk_list" and ?data = "blk_byte gzip_disk 9 [(4, 1)]"
  have sec: "blk_sectors ?bl = [4]" by (simp add: blk_sectors_def)
  have byt: "?data k = gzip_disk (2048 + k)" if "k < 512" for k using that by (simp add: blk_byte_def sec)
  have fl: "ld8 ?data 3 = 8" by (simp add: ld8_def byt gzip_disk_def)
  have "after_zero ?data 512 10 = 12"
    using after_zero_step [of 10 512 ?data] after_zero_hit [of 11 512 ?data] by (simp add: byt gzip_disk_def)
  then have he: "gzip_header_end ?data 512 = 12" by (simp add: gzip_header_end_def fl)
  have "\<exists>st'. grub_open (sample_env []) (print_blocks ?bl @ []) (sample_files (tagged_state 0 gzip_disk)) = Some (True, st') \<and> compressed_file st' \<and>
    filepos (dev st') = 0 \<and> filemax (dev st') = s32 (ld32 ?data (512 - 4)) \<and>
    gzip_data_offset (gz st') = int (gzip_header_end ?data 512) \<and> gzip_filepos (gz st') = int (gzip_header_end ?data 512) \<and>
    gzip_filemax (gz st') = int 512 \<and> gzip_crc (gz st') = ld32 ?data (512 - 8)"
    by (rule gzip_file_open [where N = 2016 and b = 9 and P = gzip_disk])
       (use tagged_serves [OF gzip_disk_no_ezd] tagged_sane [of gzip_disk] tagged_vars [of gzip_disk] sec he fl in
         \<open>simp_all add: BLK_MAX_def blk_size_def ends_list_def ld16_def ld8_def byt gzip_disk_def\<close>)
  moreover have "s32 (ld32 ?data (512 - 4)) = 600" by (simp add: ld32_def ld16_def ld8_def byt gzip_disk_def s32_def)
  ultimately show ?thesis using he by auto
qed

lemma fat_sample_at: "\<exists>st. fat_at (sample_env [fat_entry 9 ram_firmware]) (file_byte fat_disk 9 fat_sample 2) 700 100 st"
proof -
  let ?st = "sample_files ((sample_state fat_disk)\<lparr>filepos := 100, filemax := 700\<rparr>)"
  have sv: "disk_serves ram_firmware fat_disk 9 2016 ((sample_state fat_disk)\<lparr>filepos := 100, filemax := 700\<rparr>)"
    by (rule disk_serves_frame [OF fat_sample_serves [of 100]]) simp_all
  have c: "i = 0 \<or> i = 1" if "128 * i < (175 :: nat)" for i using that by auto
  have "chain_ok fat_disk 9 fat_sample 2 700"
    using fat_sample_ok fat_sample_chain by (auto simp: chain_ok_def dest!: c)
  then have "fat_at (sample_env [fat_entry 9 ram_firmware]) (file_byte fat_disk 9 fat_sample 2) 700 100 ?st"
    unfolding fat_at_def using sv fat_sample_ok
    by (intro exI [of _ fat_disk] exI [of _ 9] exI [of _ 2016] exI [of _ 9])
       (simp add: NUM_FSYS_def, simp add: sample_state_def MAXINT_def)
  then show ?thesis by blast
qed

theorem fat_file_read_witness:
  "\<exists>st buf' st'. grub_read (sample_env [fat_entry 9 ram_firmware]) 2000 (\<lambda>_. 0) st = Some (600, buf', st') \<and> buf' 0 = fat_disk 2148"
proof -
  let ?E = "sample_env [fat_entry 9 ram_firmware]"
  obtain st where st: "fat_at ?E (file_byte fat_disk 9 fat_sample 2) 700 100 st" using fat_sample_at by blast
  from fat_file_read [OF st, of 2000 "\<lambda>_. 0"] have "\<exists>buf' st'. grub_read ?E 2000 (\<lambda>_. 0) st = Some (600, buf', st') \<and>
      buf' 0 = file_byte fat_disk 9 fat_sample 2 100"
    by (auto simp: clamp_len_def)
  moreover have "file_byte fat_disk 9 fat_sample 2 100 = fat_disk 2148"
    using fat_sample_ok by (simp add: file_byte_def cluster_addr_def) (simp add: fat_sample_def)
  ultimately show ?thesis by auto
qed

end
