(* ===== verification/Gunzip.thy ===== *)
theory Gunzip
  imports Files
begin

text \<open>
  The decompressor of \<^verbatim>\<open>stage2/gunzip.c\<close>: the byte and bit input, the expansion of the coded data
  into the sliding window, the block headers, and \<^verbatim>\<open>gunzip_read\<close>.

  The local copies \<^verbatim>\<open>b\<close> and \<^verbatim>\<open>k\<close> of the bit buffer are arguments and results. A result is
  \<open>None\<close> where the code follows a null pointer or a wrong member of the union, where reading the
  file traps, and where a loop does not end: the loops that the data can keep from ending are
  partial functions.
\<close>

section \<open>Definitions\<close>

definition INBUFSIZ :: nat where "INBUFSIZ = 0x2000"

definition WSIZE :: nat where "WSIZE = 0x8000"

definition INFLATE_STORED :: nat where "INFLATE_STORED = 0"

definition INFLATE_FIXED :: nat where "INFLATE_FIXED = 1"

definition INFLATE_DYNAMIC :: nat where "INFLATE_DYNAMIC = 2"

abbreviation upd_gz :: "(gzip_vars \<Rightarrow> gzip_vars) \<Rightarrow> ('f, 'w) files \<Rightarrow> ('f, 'w) files" where
  "upd_gz f st \<equiv> st\<lparr>gz := f (gz st)\<rparr>"

subsection \<open>Input\<close>

definition get_byte :: "('f, 'w) env \<Rightarrow> ('f, 'w) files \<Rightarrow> (byte \<times> ('f, 'w) files) option" where
  "get_byte E st = do {
     st1 \<leftarrow> (if filepos (dev st) = gzip_data_offset (gz st) \<or> bufloc (gz st) = INBUFSIZ
            then do {
              (r, m, st1) \<leftarrow> grub_read E (int INBUFSIZ) (inbuf (gz st)) (upd_gz (\<lambda>g. g\<lparr>bufloc := 0\<rparr>) st);
              Some (upd_gz (\<lambda>g. g\<lparr>inbuf := m\<rparr>) st1) }
            else Some st);
     Some (inbuf (gz st1) (bufloc (gz st1)), upd_gz (\<lambda>g. g\<lparr>bufloc := bufloc g + 1\<rparr>) st1) }"

text \<open>The macros \<^verbatim>\<open>NEEDBITS\<close> and \<^verbatim>\<open>DUMPBITS\<close>; the bit buffer has 32 bits.\<close>

partial_function (option) need_bits :: "('f, 'w) env \<Rightarrow> nat \<Rightarrow> nat \<Rightarrow> nat \<Rightarrow> ('f, 'w) files \<Rightarrow> (nat \<times> nat \<times> ('f, 'w) files) option" where
  "need_bits E n b k st =
     (if k < n
      then do {
        (c, st1) \<leftarrow> get_byte E st;
        need_bits E n (take_bit 32 (b OR push_bit k (unat c))) (k + 8) st1 }
      else Some (b, k, st))"

definition dump_bits :: "nat \<Rightarrow> nat \<Rightarrow> nat \<Rightarrow> nat \<times> nat" where
  "dump_bits n b k = (drop_bit n b, if n \<le> k then k - n else k + 2 ^ 32 - n)"

text \<open>The members of the union.\<close>

fun v_n :: "hval \<Rightarrow> nat option" where
  "v_n (Num n) = Some n"
| "v_n (Tab q) = None"

fun v_t :: "hval \<Rightarrow> nat option" where
  "v_t (Num n) = None"
| "v_t (Tab q) = Some q"

abbreviation entry_at :: "('f, 'w) files \<Rightarrow> nat \<Rightarrow> nat \<Rightarrow> huft" where
  "entry_at st q j \<equiv> tables (linmem (gz st)) q j"

subsection \<open>Coded blocks\<close>

text \<open>The loop through the tables, from the first entry on; the entry is \<open>None\<close> for an unused code.\<close>

partial_function (option) walk_tables :: "('f, 'w) env \<Rightarrow> huft \<Rightarrow> nat \<Rightarrow> nat \<Rightarrow> ('f, 'w) files \<Rightarrow>
    (huft option \<times> nat \<times> nat \<times> ('f, 'w) files) option" where
  "walk_tables E t b k st =
     (if hf_e t > 16
      then if hf_e t = 99 then Some (None, b, k, st)
           else do {
             let (b1, k1) = dump_bits (hf_b t) b k;
             let e = hf_e t - 16;
             (b2, k2, st2) \<leftarrow> need_bits E e b1 k1 st;
             q \<leftarrow> v_t (hf_v t);
             walk_tables E (entry_at st2 q (b2 AND mask_bits e)) b2 k2 st2 }
      else Some (Some t, b, k, st))"

datatype symbol = Bad | Literal (literal: nat) | Block_End | Copy (copy_n: nat) (copy_d: nat)

definition decode_distance :: "('f, 'w) env \<Rightarrow> nat \<Rightarrow> nat \<Rightarrow> nat \<Rightarrow> nat \<Rightarrow> ('f, 'w) files \<Rightarrow>
    (symbol \<times> nat \<times> nat \<times> ('f, 'w) files) option" where
  "decode_distance E n w b k st = do {
     let bd = huft_bd (gz st);
     (b1, k1, st1) \<leftarrow> need_bits E bd b k st;
     td \<leftarrow> huft_td (gz st1);
     (r, b2, k2, st2) \<leftarrow> walk_tables E (entry_at st1 td (b1 AND mask_bits bd)) b1 k1 st1;
     (case r of
        None \<Rightarrow> Some (Bad, b2, k2, st2)
      | Some t \<Rightarrow> do {
          let (b3, k3) = dump_bits (hf_b t) b2 k2;
          (b4, k4, st4) \<leftarrow> need_bits E (hf_e t) b3 k3 st2;
          v \<leftarrow> v_n (hf_v t);
          let d = nat (u32 (int w - int v - int (b4 AND mask_bits (hf_e t))));
          let (b5, k5) = dump_bits (hf_e t) b4 k4;
          Some (Copy n d, b5, k5, st4) }) }"

definition decode_symbol :: "('f, 'w) env \<Rightarrow> nat \<Rightarrow> nat \<Rightarrow> nat \<Rightarrow> ('f, 'w) files \<Rightarrow>
    (symbol \<times> nat \<times> nat \<times> ('f, 'w) files) option" where
  "decode_symbol E w b k st = do {
     let bl = huft_bl (gz st);
     (b1, k1, st1) \<leftarrow> need_bits E bl b k st;
     tl \<leftarrow> huft_tl (gz st1);
     (r, b2, k2, st2) \<leftarrow> walk_tables E (entry_at st1 tl (b1 AND mask_bits bl)) b1 k1 st1;
     (case r of
        None \<Rightarrow> Some (Bad, b2, k2, st2)
      | Some t \<Rightarrow> do {
          let (b3, k3) = dump_bits (hf_b t) b2 k2;
          if hf_e t = 16 then do { v \<leftarrow> v_n (hf_v t); Some (Literal v, b3, k3, st2) }
          else if hf_e t = 15 then Some (Block_End, b3, k3, st2)
          else do {
            (b4, k4, st4) \<leftarrow> need_bits E (hf_e t) b3 k3 st2;
            v \<leftarrow> v_n (hf_v t);
            let n = v + (b4 AND mask_bits (hf_e t));
            let (b5, k5) = dump_bits (hf_e t) b4 k4;
            decode_distance E n w b5 k5 st4 } }) }"

text \<open>The copy inside the window. \<^verbatim>\<open>memmove\<close> copies as if through a buffer of its own; the loop
  goes byte by byte.\<close>

fun copy_bytes :: "nat \<Rightarrow> nat \<Rightarrow> nat \<Rightarrow> mem \<Rightarrow> mem" where
  "copy_bytes 0 w d s = s"
| "copy_bytes (Suc e) w d s = copy_bytes e (w + 1) (d + 1) (s(w := s d))"

definition copy_chunk :: "nat \<Rightarrow> nat \<Rightarrow> nat \<Rightarrow> mem \<Rightarrow> mem" where
  "copy_chunk e w d s =
     (if nat (u32 (int w - int d)) \<ge> e then (\<lambda>i. if w \<le> i \<and> i < w + e then s (d + (i - w)) else s i)
      else copy_bytes e w d s)"

partial_function (option) copy_loop :: "nat \<Rightarrow> nat \<Rightarrow> nat \<Rightarrow> mem \<Rightarrow> (nat \<times> nat \<times> nat \<times> mem) option" where
  "copy_loop n w d s =
     (let d1 = d AND (WSIZE - 1); room = WSIZE - (if d1 > w then d1 else w); e = (if room > n then n else room);
          s1 = copy_chunk e w d1 s
      in if w + e = WSIZE \<or> n - e = 0 then Some (n - e, w + e, d1 + e, s1) else copy_loop (n - e) (w + e) (d1 + e) s1)"

text \<open>The globals that are restored from the locals, and the return value.\<close>

definition restore :: "nat \<Rightarrow> nat \<Rightarrow> nat \<Rightarrow> nat \<Rightarrow> nat \<Rightarrow> ('f, 'w) files \<Rightarrow> bool \<times> ('f, 'w) files" where
  "restore d n w b k st =
     (block_len (gz st) = 0, upd_gz (\<lambda>g. g\<lparr>inflate_d := d, inflate_n := n, wp := w, bb := b, bk := k\<rparr>) st)"

partial_function (option) codes_loop :: "('f, 'w) env \<Rightarrow> nat \<Rightarrow> nat \<Rightarrow> nat \<Rightarrow> nat \<Rightarrow> nat \<Rightarrow> ('f, 'w) files \<Rightarrow> (bool \<times> ('f, 'w) files) option" where
  "codes_loop E d n w b k st =
     (if code_state (gz st) = 0
      then do {
        (s, b1, k1, st1) \<leftarrow> decode_symbol E w b k st;
        if s = Bad then Some (False, set_errnum ERR_BAD_GZIP_DATA st1)
        else if is_Literal s
        then let st2 = upd_gz (\<lambda>g. g\<lparr>slide := (slide g)(w := of_nat (literal s))\<rparr>) st1
             in if w + 1 = WSIZE then Some (restore d n (w + 1) b1 k1 st2) else codes_loop E d n (w + 1) b1 k1 st2
        else if s = Block_End then Some (restore d n w b1 k1 (upd_gz (\<lambda>g. g\<lparr>block_len := 0\<rparr>) st1))
        else codes_loop E (copy_d s) (copy_n s) w b1 k1 (upd_gz (\<lambda>g. g\<lparr>code_state := code_state g + 1\<rparr>) st1) }
      else do {
        (n1, w1, d1, s1) \<leftarrow> copy_loop n w d (slide (gz st));
        let st1 = upd_gz (\<lambda>g. g\<lparr>slide := s1, code_state := if n1 = 0 then code_state g - 1 else code_state g\<rparr>) st;
        if w1 = WSIZE then Some (restore d1 n1 w1 b k st1) else codes_loop E d1 n1 w1 b k st1 })"

definition inflate_codes_in_window :: "('f, 'w) env \<Rightarrow> ('f, 'w) files \<Rightarrow> (bool \<times> ('f, 'w) files) option" where
  "inflate_codes_in_window E st =
     (let g = gz st in codes_loop E (inflate_d g) (inflate_n g) (wp g) (bb g) (bk g) st)"

subsection \<open>Block headers\<close>

definition init_stored_block :: "('f, 'w) env \<Rightarrow> ('f, 'w) files \<Rightarrow> ('f, 'w) files option" where
  "init_stored_block E st = do {
     let (b, k) = dump_bits (bk (gz st) AND 7) (bb (gz st)) (bk (gz st));
     (b1, k1, st1) \<leftarrow> need_bits E 16 b k st;
     let len = int (b1 AND 0xffff);
     let st2 = upd_gz (\<lambda>g. g\<lparr>block_len := len\<rparr>) st1;
     let (b2, k2) = dump_bits 16 b1 k1;
     (b3, k3, st3) \<leftarrow> need_bits E 16 b2 k2 st2;
     let st4 = (if len \<noteq> NOT (int b3) AND 0xffff then set_errnum ERR_BAD_GZIP_DATA st3 else st3);
     let (b4, k4) = dump_bits 16 b3 k3;
     Some (upd_gz (\<lambda>g. g\<lparr>bb := b4, bk := k4\<rparr>) st4) }"

text \<open>A call of \<^verbatim>\<open>huft_build\<close> with the addresses of \<^verbatim>\<open>tl\<close> and \<^verbatim>\<open>bl\<close>, and of \<^verbatim>\<open>td\<close> and \<^verbatim>\<open>bd\<close>.\<close>

definition build_tl :: "('f, 'w) env \<Rightarrow> nat list \<Rightarrow> nat \<Rightarrow> nat list \<Rightarrow> nat list \<Rightarrow> nat \<Rightarrow> ('f, 'w) files \<Rightarrow> (nat \<times> ('f, 'w) files) option" where
  "build_tl E b s d e m st = do {
     (r, t, m1, L) \<leftarrow> huft_build (stack_junk E st) b s d e (huft_tl (gz st)) m (linmem (gz st));
     Some (r, upd_gz (\<lambda>g. g\<lparr>huft_tl := t, huft_bl := m1, linmem := L\<rparr>) st) }"

definition build_td :: "('f, 'w) env \<Rightarrow> nat list \<Rightarrow> nat \<Rightarrow> nat list \<Rightarrow> nat list \<Rightarrow> nat \<Rightarrow> ('f, 'w) files \<Rightarrow> (nat \<times> ('f, 'w) files) option" where
  "build_td E b s d e m st = do {
     (r, t, m1, L) \<leftarrow> huft_build (stack_junk E st) b s d e (huft_td (gz st)) m (linmem (gz st));
     Some (r, upd_gz (\<lambda>g. g\<lparr>huft_td := t, huft_bd := m1, linmem := L\<rparr>) st) }"

definition start_codes :: "('f, 'w) files \<Rightarrow> ('f, 'w) files" where
  "start_codes st = upd_gz (\<lambda>g. g\<lparr>code_state := 0, block_len := block_len g + 1\<rparr>) st"

definition fixed_lengths :: "nat list" where
  "fixed_lengths = map (\<lambda>i. if i < 144 then 8 else if i < 256 then 9 else if i < 280 then 7 else 8) [0..<288]"

definition init_fixed_block :: "('f, 'w) env \<Rightarrow> ('f, 'w) files \<Rightarrow> ('f, 'w) files option" where
  "init_fixed_block E st = do {
     (i, st1) \<leftarrow> build_tl E fixed_lengths 257 cplens cplext 7 st;
     if i \<noteq> 0 then Some (set_errnum ERR_BAD_GZIP_DATA st1)
     else do {
       (i, st2) \<leftarrow> build_td E (replicate 30 5) 0 cpdist cpdext 5 st1;
       if i > 1 then Some (set_errnum ERR_BAD_GZIP_DATA st2) else Some (start_codes st2) } }"

text \<open>The code lengths of a dynamic block. First those of the code length alphabet, from position
  \<open>j\<close> of \<^verbatim>\<open>bitorder\<close> on; then the loop over the \<open>n\<close> lengths, which says whether it has failed.\<close>

fun read_bit_lengths :: "('f, 'w) env \<Rightarrow> nat list \<Rightarrow> (nat \<Rightarrow> nat) \<Rightarrow> nat \<Rightarrow> nat \<Rightarrow> ('f, 'w) files \<Rightarrow>
    ((nat \<Rightarrow> nat) \<times> nat \<times> nat \<times> ('f, 'w) files) option" where
  "read_bit_lengths E [] ll b k st = Some (ll, b, k, st)"
| "read_bit_lengths E (j # js) ll b k st = do {
     (b1, k1, st1) \<leftarrow> need_bits E 3 b k st;
     let (b2, k2) = dump_bits 3 b1 k1;
     read_bit_lengths E js (ll(j := b1 AND 7)) b2 k2 st1 }"

definition fill_lengths :: "nat \<Rightarrow> nat \<Rightarrow> nat \<Rightarrow> (nat \<Rightarrow> nat) \<Rightarrow> nat \<Rightarrow> nat" where
  "fill_lengths i j x ll = (\<lambda>p. if i \<le> p \<and> p < i + j then x else ll p)"

definition repeat_code :: "nat \<Rightarrow> nat \<times> nat" where
  "repeat_code j = (if j = 16 then (2, 3) else if j = 17 then (3, 3) else (7, 11))"

partial_function (option) read_lengths :: "('f, 'w) env \<Rightarrow> nat \<Rightarrow> nat \<Rightarrow> nat \<Rightarrow> (nat \<Rightarrow> nat) \<Rightarrow> nat \<Rightarrow> nat \<Rightarrow> ('f, 'w) files \<Rightarrow>
    (bool \<times> (nat \<Rightarrow> nat) \<times> nat \<times> nat \<times> ('f, 'w) files) option" where
  "read_lengths E n i l ll b k st =
     (if i < n
      then do {
        let bl = huft_bl (gz st);
        (b1, k1, st1) \<leftarrow> need_bits E bl b k st;
        tl \<leftarrow> huft_tl (gz st1);
        let t = entry_at st1 tl (b1 AND mask_bits bl);
        let (b2, k2) = dump_bits (hf_b t) b1 k1;
        j \<leftarrow> v_n (hf_v t);
        if j < 16 then read_lengths E n (i + 1) j (ll(i := j)) b2 k2 st1
        else do {
          let (bits, base) = repeat_code j;
          (b3, k3, st3) \<leftarrow> need_bits E bits b2 k2 st1;
          let j1 = base + (b3 AND mask_bits bits);
          let (b4, k4) = dump_bits bits b3 k3;
          if i + j1 > n then Some (True, ll, b4, k4, set_errnum ERR_BAD_GZIP_DATA st3)
          else let x = (if j = 16 then l else 0)
               in read_lengths E n (i + j1) x (fill_lengths i j1 x ll) b4 k4 st3 } }
      else Some (False, ll, b, k, st))"

definition build_dynamic :: "('f, 'w) env \<Rightarrow> nat \<Rightarrow> nat \<Rightarrow> (nat \<Rightarrow> nat) \<Rightarrow> ('f, 'w) files \<Rightarrow> ('f, 'w) files option" where
  "build_dynamic E nl nd ll st = do {
     (i, st1) \<leftarrow> build_tl E (map ll [0..<nl]) 257 cplens cplext lbits st;
     if i \<noteq> 0 then Some (set_errnum ERR_BAD_GZIP_DATA st1)
     else do {
       (i, st2) \<leftarrow> build_td E (map (\<lambda>j. ll (nl + j)) [0..<nd]) 0 cpdist cpdext dbits st1;
       if i \<noteq> 0 then Some (set_errnum ERR_BAD_GZIP_DATA st2) else Some (start_codes st2) } }"

definition init_dynamic_block :: "('f, 'w) env \<Rightarrow> ('f, 'w) files \<Rightarrow> ('f, 'w) files option" where
  "init_dynamic_block E st = do {
     (b1, k1, st1) \<leftarrow> need_bits E 5 (bb (gz st)) (bk (gz st)) st;
     let nl = 257 + (b1 AND 0x1f);
     let (b1, k1) = dump_bits 5 b1 k1;
     (b2, k2, st2) \<leftarrow> need_bits E 5 b1 k1 st1;
     let nd = 1 + (b2 AND 0x1f);
     let (b2, k2) = dump_bits 5 b2 k2;
     (b3, k3, st3) \<leftarrow> need_bits E 4 b2 k2 st2;
     let nb = 4 + (b3 AND 0xf);
     let (b3, k3) = dump_bits 4 b3 k3;
     if nl > 286 \<or> nd > 30 then Some (set_errnum ERR_BAD_GZIP_DATA st3)
     else do {
       (ll, b4, k4, st4) \<leftarrow> read_bit_lengths E (take nb bitorder) (\<lambda>_. 0) b3 k3 st3;
       (i, st5) \<leftarrow> build_tl E (map ll [0..<19]) 19 [] [] 7 st4;
       if i \<noteq> 0 then Some (set_errnum ERR_BAD_GZIP_DATA st5)
       else do {
         (bad, ll1, b6, k6, st6) \<leftarrow> read_lengths E (nl + nd) 0 0 ll b4 k4 st5;
         if bad then Some st6
         else build_dynamic E nl nd ll1 (reset_linalloc E (upd_gz (\<lambda>g. g\<lparr>bb := b6, bk := k6\<rparr>) st6)) } } }"

definition get_new_block :: "('f, 'w) env \<Rightarrow> ('f, 'w) files \<Rightarrow> ('f, 'w) files option" where
  "get_new_block E st = do {
     let st0 = upd_gz (\<lambda>g. g\<lparr>linmem := (linmem g)\<lparr>hufts := 0\<rparr>\<rparr>) st;
     (b1, k1, st1) \<leftarrow> need_bits E 1 (bb (gz st0)) (bk (gz st0)) st0;
     let st1 = upd_gz (\<lambda>g. g\<lparr>gzip_vars.last_block := int (b1 AND 1)\<rparr>) st1;
     let (b1, k1) = dump_bits 1 b1 k1;
     (b2, k2, st2) \<leftarrow> need_bits E 2 b1 k1 st1;
     let ty = b2 AND 3;
     let (b2, k2) = dump_bits 2 b2 k2;
     let st3 = upd_gz (\<lambda>g. g\<lparr>block_type := ty, bb := b2, bk := k2\<rparr>) st2;
     if ty = INFLATE_STORED then init_stored_block E st3
     else if ty = INFLATE_FIXED then init_fixed_block E st3
     else if ty = INFLATE_DYNAMIC then init_dynamic_block E st3
     else Some st3 }"

subsection \<open>The window\<close>

partial_function (option) pass_through :: "('f, 'w) env \<Rightarrow> nat \<Rightarrow> ('f, 'w) files \<Rightarrow> (nat \<times> ('f, 'w) files) option" where
  "pass_through E w st =
     (if block_len (gz st) \<noteq> 0 \<and> w < WSIZE \<and> errnum (dev st) = ERR_NONE
      then do {
        (c, st1) \<leftarrow> get_byte E st;
        pass_through E (w + 1) (upd_gz (\<lambda>g. g\<lparr>slide := (slide g)(w := c), block_len := block_len g - 1\<rparr>) st1) }
      else Some (w, st))"

text \<open>The loop of \<^verbatim>\<open>inflate_window\<close>; the flag says whether it has ended, and not returned from inside.\<close>

definition needs_block :: "('f, 'w) files \<Rightarrow> bool" where
  "needs_block st \<longleftrightarrow> block_len (gz st) = 0"

partial_function (option) window_loop :: "('f, 'w) env \<Rightarrow> ('f, 'w) files \<Rightarrow> (bool \<times> ('f, 'w) files) option" where
  "window_loop E st =
     (if wp (gz st) < WSIZE \<and> errnum (dev st) = ERR_NONE
      then if needs_block st \<and> gzip_vars.last_block (gz st) \<noteq> 0 then Some (True, st)
           else do {
             st1 \<leftarrow> (if needs_block st then get_new_block E st else Some st);
             let st2 = (if block_type (gz st1) > INFLATE_DYNAMIC then set_errnum ERR_BAD_GZIP_DATA st1 else st1);
             if errnum (dev st2) \<noteq> ERR_NONE then Some (False, st2)
             else if block_type (gz st2) = INFLATE_STORED
             then do {
               (w, st3) \<leftarrow> pass_through E (wp (gz st2)) st2;
               window_loop E (upd_gz (\<lambda>g. g\<lparr>wp := w\<rparr>) st3) }
             else do {
               (done, st3) \<leftarrow> inflate_codes_in_window E st2;
               window_loop E (if done then reset_linalloc E st3 else st3) } }
      else Some (True, st))"

definition inflate_window :: "('f, 'w) env \<Rightarrow> ('f, 'w) files \<Rightarrow> ('f, 'w) files option" where
  "inflate_window E st = do {
     (ended, st1) \<leftarrow> window_loop E (upd_gz (\<lambda>g. g\<lparr>wp := 0\<rparr>) st);
     Some (if ended then upd_gz (\<lambda>g. g\<lparr>saved_filepos := saved_filepos g + int WSIZE\<rparr>) st1 else st1) }"

partial_function (option) to_window :: "('f, 'w) env \<Rightarrow> ('f, 'w) files \<Rightarrow> ('f, 'w) files option" where
  "to_window E st =
     (if gzip_filepos (gz st) \<ge> saved_filepos (gz st)
      then do { st1 \<leftarrow> inflate_window E st; to_window E st1 }
      else Some st)"

text \<open>The loop of \<^verbatim>\<open>gunzip_read\<close>; \<open>ret\<close> bytes have been stored.\<close>

partial_function (option) gunzip_loop :: "('f, 'w) env \<Rightarrow> int \<Rightarrow> nat \<Rightarrow> mem \<Rightarrow> ('f, 'w) files \<Rightarrow> (nat \<times> mem \<times> ('f, 'w) files) option" where
  "gunzip_loop E len ret buf st =
     (if len > 0 \<and> errnum (dev st) = ERR_NONE
      then do {
        st1 \<leftarrow> to_window E st;
        let pos = gzip_filepos (gz st1);
        let srcaddr = nat (pos AND (int WSIZE - 1));
        let sz = saved_filepos (gz st1) - pos;
        let sz = nat (if sz > len then len else sz);
        gunzip_loop E (len - int sz) (ret + sz)
          (\<lambda>i. if ret \<le> i \<and> i < ret + sz then slide (gz st1) (srcaddr + (i - ret)) else buf i)
          (upd_gz (\<lambda>g. g\<lparr>gzip_filepos := pos + int sz\<rparr>) st1) }
      else Some (ret, buf, st))"

definition gunzip_read :: "('f, 'w) env \<Rightarrow> int \<Rightarrow> mem \<Rightarrow> ('f, 'w) files \<Rightarrow> (int \<times> mem \<times> ('f, 'w) files) option" where
  "gunzip_read E len buf st = do {
     let st1 = gunzip_swap_values (st\<lparr>compressed_file := False\<rparr>);
     let st2 = (if saved_filepos (gz st1) > gzip_filepos (gz st1) + int WSIZE then initialize_tables E st1 else st1);
     (ret, buf1, st3) \<leftarrow> gunzip_loop E len 0 buf st2;
     Some (if errnum (dev st3) \<noteq> ERR_NONE then 0 else int ret, buf1,
           gunzip_swap_values (st3\<lparr>compressed_file := True\<rparr>)) }"

text \<open>The environment with this function as the one that reads compressed files.\<close>

definition with_gunzip :: "('f, 'w) env \<Rightarrow> ('f, 'w) env" where
  "with_gunzip E = E\<lparr>decompress := gunzip_read E\<rparr>"

section \<open>The bits of a file\<close>

definition fbit :: "mem \<Rightarrow> nat \<Rightarrow> bool" where
  "fbit data P = bit (data (P div 8)) (P mod 8)"

text \<open>\<open>fnat data P n\<close>: the \<open>n\<close> bits from position \<open>P\<close> on, the first one the least significant.\<close>

fun fnat :: "mem \<Rightarrow> nat \<Rightarrow> nat \<Rightarrow> nat" where
  "fnat data P 0 = 0"
| "fnat data P (Suc n) = of_bool (fbit data P) + 2 * fnat data (Suc P) n"

lemma fnat_less: "fnat data P n < 2 ^ n"
proof (induction n arbitrary: P)
  case (Suc n)
  show ?case using Suc [of "Suc P"] by (cases "fbit data P") auto
qed simp

lemma fnat_add: "fnat data P (m + n) = fnat data P m + 2 ^ m * fnat data (P + m) n"
  by (induction m arbitrary: P) (auto simp: algebra_simps)

lemma fnat_mod: "m \<le> n \<Longrightarrow> fnat data P n mod 2 ^ m = fnat data P m"
  using fnat_add [of data P m "n - m"] fnat_less [of data P m] by simp

lemma fnat_div: "m \<le> n \<Longrightarrow> fnat data P n div 2 ^ m = fnat data (P + m) (n - m)"
  using fnat_add [of data P m "n - m"] fnat_less [of data P m] by simp

lemma fnat_in_byte: "m + n \<le> 8 \<Longrightarrow> fnat data (8 * p + m) n = take_bit n (drop_bit m (unat (data p)))"
proof (induction n arbitrary: m)
  case (Suc n)
  have "fbit data (8 * p + m) = bit (unat (data p)) m" using Suc.prems by (simp add: fbit_def bit_unsigned_iff)
  then have "of_bool (fbit data (8 * p + m)) = drop_bit m (unat (data p)) mod 2"
    by (simp add: bit_iff_odd_drop_bit mod2_eq_if)
  moreover have "drop_bit (Suc m) (unat (data p)) = drop_bit m (unat (data p)) div 2"
    by (simp add: drop_bit_Suc drop_bit_half)
  ultimately show ?case using Suc.IH [of "Suc m"] Suc.prems by (simp add: take_bit_Suc)
qed simp

lemma fnat_byte: "fnat data (8 * p) 8 = unat (data p)"
proof -
  have "unat (data p) < 2 ^ 8" using unsigned_less [of "data p"] by simp
  then have "take_bit 8 (unat (data p)) = unat (data p)" by (rule take_bit_nat_eq_self)
  then show ?thesis using fnat_in_byte [of 0 8 data p] by simp
qed

lemma mask_bits_eq: "n \<le> 16 \<Longrightarrow> mask_bits n = 2 ^ n - 1"
proof -
  assume "n \<le> 16"
  then have "n \<in> set [0..<17]" by simp
  then show ?thesis unfolding mask_bits_def by (simp add: upt_rec) (elim disjE; simp)
qed

lemma and_mask_bits: "n \<le> 16 \<Longrightarrow> b AND mask_bits n = b mod 2 ^ n"
  by (metis mask_bits_eq mask_eq_exp_minus_1 take_bit_eq_mask take_bit_eq_mod)

lemma low_masks: "(b :: nat) AND 1 = b mod 2 ^ 1" "b AND 3 = b mod 2 ^ 2" "b AND 7 = b mod 2 ^ 3" "b AND 0xf = b mod 2 ^ 4" "b AND 0x1f = b mod 2 ^ 5"
  "b AND 0xffff = b mod 2 ^ 16"
  using and_mask_bits [of 1 b] and_mask_bits [of 2 b] and_mask_bits [of 3 b] and_mask_bits [of 4 b] and_mask_bits [of 5 b] and_mask_bits [of 16 b]
  by (simp_all add: mask_bits_eq)

text \<open>One more byte in the bit buffer.\<close>

lemma fnat_grow:
  assumes "P + k = 8 * p" "k \<le> 24"
  shows "take_bit 32 (fnat data P k OR push_bit k (unat (data p))) = fnat data P (k + 8)"
proof -
  have "fnat data P k AND push_bit k (unat (data p)) = 0"
  proof (rule bit_eqI)
    fix i
    have "\<not> bit (fnat data P k) i" if "k \<le> i"
      using that fnat_less [of data P k] by (metis bit_take_bit_iff not_less take_bit_nat_eq_self)
    then show "bit (fnat data P k AND push_bit k (unat (data p))) i \<longleftrightarrow> bit 0 i" by (auto simp: bit_simps)
  qed
  then have "fnat data P k OR push_bit k (unat (data p)) = fnat data P k + 2 ^ k * unat (data p)"
    by (simp add: disjunctive_add_eq_or [symmetric] push_bit_eq_mult mult.commute)
  also have "\<dots> = fnat data P (k + 8)" using fnat_add [of data P k 8] fnat_byte [of data p] assms(1) by simp
  finally show ?thesis using fnat_less [of data P "k + 8"] power_less_le [of "fnat data P (k + 8)" "k + 8" 32] assms(2)
    by (simp add: take_bit_nat_eq_self)
qed

section \<open>Reading bytes and bits\<close>

text \<open>The next byte to be read is at \<open>p\<close>: nothing has been read yet, or the buffer holds a piece of
  the file and the file is positioned behind it.\<close>

definition stream_at :: "(mem \<Rightarrow> nat \<Rightarrow> nat \<Rightarrow> ('f, 'w) files \<Rightarrow> bool) \<Rightarrow> mem \<Rightarrow> nat \<Rightarrow> nat \<Rightarrow> ('f, 'w) files \<Rightarrow> bool" where
  "stream_at file_at data F p st \<longleftrightarrow> (\<exists>off q. gzip_data_offset (gz st) = int off \<and> file_at data F q st \<and>
     (q = off \<and> p = off \<or>
      (\<exists>base. off \<le> base \<and> base < q \<and> q = min (base + INBUFSIZ) F \<and> p = base + bufloc (gz st) \<and> bufloc (gz st) \<le> INBUFSIZ \<and>
         (\<forall>i<INBUFSIZ. base + i < F \<longrightarrow> inbuf (gz st) i = data (base + i)))))"

text \<open>Reading ahead changes the input buffer and the disk layer only.\<close>

definition io_step :: "('f, 'w) files \<Rightarrow> ('f, 'w) files \<Rightarrow> bool" where
  "io_step st st' \<longleftrightarrow> (\<exists>m n. gz st' = (gz st)\<lparr>inbuf := m, bufloc := n\<rparr>) \<and> block_file st' = block_file st \<and>
     compressed_file st' = compressed_file st \<and> filemax (dev st') = filemax (dev st) \<and> fsmax (dev st') = fsmax (dev st) \<and>
     errnum (dev st') = errnum (dev st)"

lemma io_step_refl [simp]: "io_step st st"
  unfolding io_step_def by (intro conjI exI [of _ "inbuf (gz st)"] exI [of _ "bufloc (gz st)"]) auto

lemma io_step_trans: "io_step x y \<Longrightarrow> io_step y z \<Longrightarrow> io_step x z"
proof -
  assume a: "io_step x y" "io_step y z"
  obtain m n where "gz y = (gz x)\<lparr>inbuf := m, bufloc := n\<rparr>" using a(1) by (auto simp: io_step_def)
  moreover obtain m' n' where "gz z = (gz y)\<lparr>inbuf := m', bufloc := n'\<rparr>" using a(2) by (auto simp: io_step_def)
  ultimately have "gz z = (gz x)\<lparr>inbuf := m', bufloc := n'\<rparr>" by simp
  then show ?thesis using a unfolding io_step_def by metis
qed

lemma io_step_gz:
  assumes "io_step st st'"
  shows "linmem (gz st') = linmem (gz st)" "huft_tl (gz st') = huft_tl (gz st)" "huft_td (gz st') = huft_td (gz st)"
    "huft_bl (gz st') = huft_bl (gz st)" "huft_bd (gz st') = huft_bd (gz st)" "slide (gz st') = slide (gz st)"
    "block_len (gz st') = block_len (gz st)" "block_type (gz st') = block_type (gz st)" "code_state (gz st') = code_state (gz st)"
    "gzip_vars.last_block (gz st') = gzip_vars.last_block (gz st)" "saved_filepos (gz st') = saved_filepos (gz st)"
    "gzip_filepos (gz st') = gzip_filepos (gz st)" "gzip_filemax (gz st') = gzip_filemax (gz st)" "gzip_fsmax (gz st') = gzip_fsmax (gz st)"
    "wp (gz st') = wp (gz st)" "gzip_data_offset (gz st') = gzip_data_offset (gz st)" "bb (gz st') = bb (gz st)" "bk (gz st') = bk (gz st)"
    "inflate_n (gz st') = inflate_n (gz st)" "inflate_d (gz st') = inflate_d (gz st)"
    "errnum (dev st') = errnum (dev st)" "filemax (dev st') = filemax (dev st)" "fsmax (dev st') = fsmax (dev st)"
    "compressed_file st' = compressed_file st"
proof -
  obtain m n where "gz st' = (gz st)\<lparr>inbuf := m, bufloc := n\<rparr>" "compressed_file st' = compressed_file st"
      "filemax (dev st') = filemax (dev st)" "fsmax (dev st') = fsmax (dev st)" "errnum (dev st') = errnum (dev st)"
    using assms by (auto simp: io_step_def)
  then show "linmem (gz st') = linmem (gz st)" "huft_tl (gz st') = huft_tl (gz st)" "huft_td (gz st') = huft_td (gz st)"
    "huft_bl (gz st') = huft_bl (gz st)" "huft_bd (gz st') = huft_bd (gz st)" "slide (gz st') = slide (gz st)"
    "block_len (gz st') = block_len (gz st)" "block_type (gz st') = block_type (gz st)" "code_state (gz st') = code_state (gz st)"
    "gzip_vars.last_block (gz st') = gzip_vars.last_block (gz st)" "saved_filepos (gz st') = saved_filepos (gz st)"
    "gzip_filepos (gz st') = gzip_filepos (gz st)" "gzip_filemax (gz st') = gzip_filemax (gz st)" "gzip_fsmax (gz st') = gzip_fsmax (gz st)"
    "wp (gz st') = wp (gz st)" "gzip_data_offset (gz st') = gzip_data_offset (gz st)" "bb (gz st') = bb (gz st)" "bk (gz st') = bk (gz st)"
    "inflate_n (gz st') = inflate_n (gz st)" "inflate_d (gz st') = inflate_d (gz st)"
    "errnum (dev st') = errnum (dev st)" "filemax (dev st') = filemax (dev st)" "fsmax (dev st') = fsmax (dev st)"
    "compressed_file st' = compressed_file st"
    by simp_all
qed

definition bits_at :: "(mem \<Rightarrow> nat \<Rightarrow> nat \<Rightarrow> ('f, 'w) files \<Rightarrow> bool) \<Rightarrow> mem \<Rightarrow> nat \<Rightarrow> nat \<Rightarrow> nat \<Rightarrow> nat \<Rightarrow> ('f, 'w) files \<Rightarrow> bool" where
  "bits_at file_at data F P b k st \<longleftrightarrow> (\<exists>p. stream_at file_at data F p st \<and> P + k = 8 * p \<and> b = fnat data P k \<and> k < 32)"

context file_reader
begin

lemma at_gz: "file_at data F q st \<Longrightarrow> file_at data F q (st\<lparr>gz := g\<rparr>)"
proof -
  assume a: "file_at data F q st"
  have "(dev st)\<lparr>filepos := int q\<rparr> = dev st" using at_vars [OF a] by (cases "dev st") simp
  then have e: "st\<lparr>dev := (dev st)\<lparr>filepos := int q\<rparr>, gz := g\<rparr> = st\<lparr>gz := g\<rparr>" by (cases st) simp
  have "q \<le> F" using at_vars [OF a] by simp
  from seek_at [OF a this, of g] show ?thesis unfolding e .
qed

lemma get_byte_refill:
  assumes "file_at data F q st" "q < F" "gzip_data_offset (gz st) = int off" "off \<le> q"
    "filepos (dev st) = gzip_data_offset (gz st) \<or> bufloc (gz st) = INBUFSIZ"
  shows "\<exists>st'. get_byte E st = Some (data q, st') \<and> stream_at file_at data F (Suc q) st' \<and> io_step st st'"
proof -
  define n where "n = clamp_len F q (int INBUFSIZ)"
  have n: "n = min INBUFSIZ (F - q)" using assms(2) by (auto simp: n_def clamp_len_def min_def)
  have n0: "0 < n" "q + n = min (q + INBUFSIZ) F" using n assms(2) by (auto simp: INBUFSIZ_def)
  define st0 where "st0 = upd_gz (\<lambda>g. g\<lparr>bufloc := 0\<rparr>) st"
  obtain m st1 where r: "grub_read E (int INBUFSIZ) (inbuf (gz st)) st0 = Some (int n, m, st1)"
      "\<forall>k. m k = (if k < n then data (q + k) else inbuf (gz st) k)" "file_at data F (q + n) st1" "same_file_vars st0 st1"
    using read_at [OF at_gz [OF assms(1)] n_def] unfolding st0_def by blast
  define st' where "st' = upd_gz (\<lambda>g. g\<lparr>inbuf := m, bufloc := 1\<rparr>) st1"
  have g: "gz st1 = (gz st)\<lparr>bufloc := 0\<rparr>" using r(4) by (simp add: same_file_vars_def st0_def)
  have "get_byte E st = Some (m 0, st')"
    using assms(5) r(1) g unfolding get_byte_def st0_def [symmetric] by (simp add: st'_def)
  moreover have "m 0 = data q" using r(2) n0(1) by simp
  moreover have "stream_at file_at data F (Suc q) st'"
    unfolding stream_at_def
    using at_gz [OF r(3)] g assms(3,4) n0 r(2) n
    by (intro exI [of _ off] exI [of _ "q + n"]) (auto simp: st'_def INBUFSIZ_def intro!: exI [of _ q])
  moreover have "io_step st st'"
    using r(4) g by (auto simp: io_step_def same_file_vars_def st'_def st0_def)
  ultimately show ?thesis by simp
qed

lemma get_byte_ok:
  assumes "stream_at file_at data F p st" "p < F"
  shows "\<exists>st'. get_byte E st = Some (data p, st') \<and> stream_at file_at data F (Suc p) st' \<and> io_step st st'"
proof -
  obtain off q where a: "gzip_data_offset (gz st) = int off" "file_at data F q st"
      "q = off \<and> p = off \<or> (\<exists>base. off \<le> base \<and> base < q \<and> q = min (base + INBUFSIZ) F \<and> p = base + bufloc (gz st) \<and>
         bufloc (gz st) \<le> INBUFSIZ \<and> (\<forall>i<INBUFSIZ. base + i < F \<longrightarrow> inbuf (gz st) i = data (base + i)))"
    using assms(1) by (auto simp: stream_at_def)
  have fp: "filepos (dev st) = int q" using at_vars [OF a(2)] by simp
  show ?thesis using a(3)
  proof (elim disjE exE conjE)
    assume "q = off" "p = off"
    then show ?thesis using get_byte_refill [OF a(2) _ a(1)] fp a(1) assms(2) by simp
  next
    fix base
    assume b: "off \<le> base" "base < q" "q = min (base + INBUFSIZ) F" "p = base + bufloc (gz st)" "bufloc (gz st) \<le> INBUFSIZ"
      "\<forall>i<INBUFSIZ. base + i < F \<longrightarrow> inbuf (gz st) i = data (base + i)"
    show ?thesis
    proof (cases "bufloc (gz st) = INBUFSIZ")
      case True
      then have "q = p" using b assms(2) by simp
      then show ?thesis using get_byte_refill [OF a(2) _ a(1)] True b(1,2) assms(2) by simp
    next
      case False
      have "filepos (dev st) \<noteq> gzip_data_offset (gz st)" using b(1,2) fp a(1) by simp
      moreover have "inbuf (gz st) (bufloc (gz st)) = data p" using b(4-6) False assms(2) by simp
      ultimately have e: "get_byte E st = Some (data p, upd_gz (\<lambda>g. g\<lparr>bufloc := bufloc g + 1\<rparr>) st)"
        using False by (simp add: get_byte_def)
      have "stream_at file_at data F (Suc p) (upd_gz (\<lambda>g. g\<lparr>bufloc := bufloc g + 1\<rparr>) st)"
        unfolding stream_at_def using at_gz [OF a(2)] a(1) b False by (intro exI [of _ off] exI [of _ q]) auto
      moreover have "io_step st (upd_gz (\<lambda>g. g\<lparr>bufloc := bufloc g + 1\<rparr>) st)"
        unfolding io_step_def by (intro conjI exI [of _ "inbuf (gz st)"] exI [of _ "bufloc (gz st) + 1"]) auto
      ultimately show ?thesis using e by blast
    qed
  qed
qed

lemma need_bits_ok:
  assumes "bits_at file_at data F P b k st" "n \<le> 24" "P + n \<le> 8 * F"
  shows "\<exists>b' k' st'. need_bits E n b k st = Some (b', k', st') \<and> bits_at file_at data F P b' k' st' \<and> n \<le> k' \<and> io_step st st'"
  using assms
proof (induction "n - k" arbitrary: b k st rule: less_induct)
  case less
  show ?case
  proof (cases "k < n")
    case True
    obtain p where p: "stream_at file_at data F p st" "P + k = 8 * p" "b = fnat data P k" "k < 32" using less.prems(1) by (auto simp: bits_at_def)
    obtain st1 where g: "get_byte E st = Some (data p, st1)" "stream_at file_at data F (Suc p) st1" "io_step st st1"
      using get_byte_ok [OF p(1)] True p(2) less.prems(3) by auto
    define b1 where "b1 = take_bit 32 (b OR push_bit k (unat (data p)))"
    have "b1 = fnat data P (k + 8)" unfolding b1_def p(3) by (rule fnat_grow [OF p(2)]) (use True less.prems(2) in simp)
    then have "bits_at file_at data F P b1 (k + 8) st1"
      unfolding bits_at_def using g(2) p(2) True less.prems(2) by (intro exI [of _ "Suc p"]) simp
    then obtain b' k' st' where r: "need_bits E n b1 (k + 8) st1 = Some (b', k', st')"
        "bits_at file_at data F P b' k' st'" "n \<le> k'" "io_step st1 st'"
      using less.hyps [of "k + 8" b1 st1] less.prems(2,3) diff_less_mono2 [of k "k + 8" n] True by auto
    have "need_bits E n b k st = Some (b', k', st')" using True g(1) r(1) unfolding b1_def by (subst need_bits.simps) simp
    then show ?thesis using r io_step_trans [OF g(3)] by blast
  next
    case False
    then show ?thesis using less.prems(1) by (subst need_bits.simps) auto
  qed
qed

lemma dump_bits_ok:
  assumes "bits_at file_at data F P b k st" "n \<le> k"
  shows "dump_bits n b k = (drop_bit n b, k - n)" "bits_at file_at data F (P + n) (drop_bit n b) (k - n) st"
  using assms fnat_div [OF assms(2), of data P] by (auto simp: dump_bits_def bits_at_def drop_bit_eq_div)

lemma bits_value: "bits_at file_at data F P b k st \<Longrightarrow> n \<le> k \<Longrightarrow> b mod 2 ^ n = fnat data P n"
  by (auto simp: bits_at_def fnat_mod)

lemma stream_at_gz:
  assumes "stream_at file_at data F p st" "inbuf g = inbuf (gz st)" "bufloc g = bufloc (gz st)"
    "gzip_data_offset g = gzip_data_offset (gz st)"
  shows "stream_at file_at data F p (st\<lparr>gz := g\<rparr>)"
proof -
  have "file_at data F q (st\<lparr>gz := g\<rparr>)" if "file_at data F q st" for q using at_gz [OF that] .
  moreover have "gz (st\<lparr>gz := g\<rparr>) = g" by simp
  ultimately show ?thesis using assms unfolding stream_at_def by metis
qed

lemma bits_at_gz:
  "bits_at file_at data F P b k st \<Longrightarrow> inbuf g = inbuf (gz st) \<Longrightarrow> bufloc g = bufloc (gz st) \<Longrightarrow>
    gzip_data_offset g = gzip_data_offset (gz st) \<Longrightarrow> bits_at file_at data F P b k (st\<lparr>gz := g\<rparr>)"
  unfolding bits_at_def using stream_at_gz by blast

end

section \<open>Decoding a symbol\<close>

text \<open>\<open>code_at data P b y\<close>: the code of symbol \<open>y\<close> in the code with the lengths \<open>b\<close> is at \<open>P\<close>.\<close>

definition code_at :: "mem \<Rightarrow> nat \<Rightarrow> nat list \<Rightarrow> nat \<Rightarrow> bool" where
  "code_at data P b y \<longleftrightarrow> y < length b \<and> b ! y \<noteq> 0 \<and> brev (b ! y) (fnat data P (b ! y)) = rfc_code b y"

lemma code_at_walk:
  assumes "code_at data P b y" "decodes T root l b s d e" "b ! y \<le> N"
  shows "\<exists>r. symbol_entry s d e y r \<and> walk T root l (fnat data P N) (b ! y) r"
proof -
  have "brev (b ! y) (fnat data P N) = brev (b ! y) (fnat data P (b ! y))"
    unfolding brev_inj using fnat_mod [OF assms(3), of data P] fnat_less [of data P "b ! y"] by simp
  then show ?thesis using assms(1,2) by (auto simp: code_at_def decodes_def)
qed

lemma walk_less: "walk T q bits B n r \<Longrightarrow> hf_b r \<le> n \<and> is_leaf r"
  by (induction rule: walk.induct) auto

context file_reader
begin

lemma walk_tables_ok:
  assumes "walk T q bits B n r" "B = fnat data P (8 * F - P)" "T = tables (linmem (gz st))" "bits_at file_at data F P b k st"
    "bits \<le> k" "bits \<le> 16" "P + n + 16 \<le> 8 * F"
  shows "\<exists>b' k' st'. walk_tables E (T q (b AND mask_bits bits)) b k st = Some (if hf_e r = 99 then None else Some r, b', k', st') \<and>
    bits_at file_at data F (P + (n - hf_b r)) b' k' st' \<and> hf_b r \<le> k' \<and> io_step st st'"
  using assms
proof (induction arbitrary: P b k st rule: walk.induct)
  case (walk_leaf t q B bits)
  have "b AND mask_bits bits = B mod 2 ^ bits"
    using bits_value [OF walk_leaf.prems(3,4)] and_mask_bits [OF walk_leaf.prems(5)] walk_leaf.prems(1,4-6) fnat_mod [of bits "8 * F - P" data P] by simp
  then show ?case
    using walk_leaf by (subst walk_tables.simps) (auto simp: is_leaf_def)
next
  case (walk_node t q B bits m q' n r)
  have v: "b AND mask_bits bits = B mod 2 ^ bits"
    using bits_value [OF walk_node.prems(3,4)] and_mask_bits [OF walk_node.prems(5)] walk_node.prems(1,4-6) fnat_mod [of bits "8 * F - P" data P] by simp
  define b1 where "b1 = drop_bit (hf_b t) b"
  have d: "dump_bits (hf_b t) b k = (b1, k - hf_b t)" "bits_at file_at data F (P + hf_b t) b1 (k - hf_b t) st"
    using dump_bits_ok [OF walk_node.prems(3), of "hf_b t"] walk_node.hyps(5) walk_node.prems(4) by (auto simp: b1_def)
  obtain b2 k2 st2 where n2: "need_bits E m b1 (k - hf_b t) st = Some (b2, k2, st2)" "bits_at file_at data F (P + hf_b t) b2 k2 st2"
      "m \<le> k2" "io_step st st2"
    using need_bits_ok [OF d(2), of m] walk_node.hyps(4) walk_node.prems(6) by auto
  have B: "B div 2 ^ hf_b t = fnat data (P + hf_b t) (8 * F - (P + hf_b t))"
    using walk_node.prems(1,6) fnat_div [of "hf_b t" "8 * F - P" data P] by simp
  obtain b' k' st' where IH: "walk_tables E (T q' (b2 AND mask_bits m)) b2 k2 st2 = Some (if hf_e r = 99 then None else Some r, b', k', st')"
      "bits_at file_at data F (P + hf_b t + (n - hf_b r)) b' k' st'" "hf_b r \<le> k'" "io_step st2 st'"
    using walk_node.IH [OF B _ n2(2,3)] walk_node.prems(2,6) walk_node.hyps(4) io_step_gz(1) [OF n2(4)] by auto
  have "walk_tables E t b k st = Some (if hf_e r = 99 then None else Some r, b', k', st')"
    using walk_node.hyps(2-4,7) d(1) n2(1) IH(1) io_step_gz(1) [OF n2(4)] walk_node.prems(2)
    by (subst walk_tables.simps) simp
  moreover have "P + (hf_b t + n - hf_b r) = P + hf_b t + (n - hf_b r)" using walk_less [OF walk_node.hyps(8)] by simp
  ultimately show ?case
    using IH(2-4) io_step_trans [OF n2(4)] v walk_node.hyps(1) by metis
qed

text \<open>A lookup that starts with enough bits in the buffer.\<close>

lemma lookup_ok:
  assumes "bits_at file_at data F P b k st" "l \<le> 16" "code_at data P bs y" "decodes (tables (linmem (gz st))) root l bs s d e"
    "\<forall>x\<in>set bs. x \<le> 16" "P + 32 \<le> 8 * F"
  shows "\<exists>b1 k1 st1 b2 k2 st2 r. need_bits E l b k st = Some (b1, k1, st1) \<and> io_step st st1 \<and>
    walk_tables E (entry_at st1 root (b1 AND mask_bits l)) b1 k1 st1 = Some (if hf_e r = 99 then None else Some r, b2, k2, st2) \<and>
    symbol_entry s d e y r \<and> dump_bits (hf_b r) b2 k2 = (drop_bit (hf_b r) b2, k2 - hf_b r) \<and>
    bits_at file_at data F (P + bs ! y) (drop_bit (hf_b r) b2) (k2 - hf_b r) st2 \<and> io_step st st2 \<and> is_leaf r"
proof -
  have y: "y < length bs" "bs ! y \<le> 16" using assms(3,5) by (auto simp: code_at_def)
  obtain b1 k1 st1 where n: "need_bits E l b k st = Some (b1, k1, st1)" "bits_at file_at data F P b1 k1 st1" "l \<le> k1" "io_step st st1"
    using need_bits_ok [OF assms(1), of l] assms(2,6) by auto
  have "bs ! y \<le> 8 * F - P" using y(2) assms(6) by simp
  then obtain r where r: "symbol_entry s d e y r" "walk (tables (linmem (gz st))) root l (fnat data P (8 * F - P)) (bs ! y) r"
    using code_at_walk [OF assms(3,4)] by blast
  obtain b2 k2 st2 where w: "walk_tables E (entry_at st1 root (b1 AND mask_bits l)) b1 k1 st1 = Some (if hf_e r = 99 then None else Some r, b2, k2, st2)"
      "bits_at file_at data F (P + (bs ! y - hf_b r)) b2 k2 st2" "hf_b r \<le> k2" "io_step st1 st2"
    using walk_tables_ok [OF r(2) refl _ n(2,3) assms(2)] y(2) assms(6) io_step_gz(1) [OF n(4)] by auto
  have "P + (bs ! y - hf_b r) + hf_b r = P + bs ! y" using walk_less [OF r(2)] by simp
  then show ?thesis
    using n(1,4) w(1) r(1) dump_bits_ok [OF w(2,3)] io_step_trans [OF n(4) w(4)] walk_less [OF r(2)] by metis
qed

text \<open>Extra bits.\<close>

lemma extra_bits_ok:
  assumes "bits_at file_at data F P b k st" "n \<le> 16" "P + n \<le> 8 * F"
  shows "\<exists>b1 k1 st1. need_bits E n b k st = Some (b1, k1, st1) \<and> b1 AND mask_bits n = fnat data P n \<and> b1 mod 2 ^ n = fnat data P n \<and>
    dump_bits n b1 k1 = (drop_bit n b1, k1 - n) \<and> bits_at file_at data F (P + n) (drop_bit n b1) (k1 - n) st1 \<and> io_step st st1"
proof -
  obtain b1 k1 st1 where n: "need_bits E n b k st = Some (b1, k1, st1)" "bits_at file_at data F P b1 k1 st1" "n \<le> k1" "io_step st st1"
    using need_bits_ok [OF assms(1), of n] assms(2,3) by auto
  then show ?thesis using dump_bits_ok [OF n(2,3)] bits_value [OF n(2,3)] and_mask_bits [OF assms(2), of b1] by auto
qed

end

section \<open>The deflate format\<close>

text \<open>
  The reference (RFC 1951), as a machine that makes one byte at a time. \<open>inflates data end out P mode fin m\<close>: from bit \<open>P\<close>
  of the file on, in the given place of the format, with \<open>m\<close> bytes made so far and the last block begun or not, the
  data makes the rest of \<open>out\<close> and ends no later than \<open>end\<close>.
\<close>

datatype mode = Between | Stored nat | Codes "nat list" "nat list" | Copying nat nat "nat list" "nat list"

text \<open>The lengths of a dynamic block: \<open>lens_at data cl n P ls P'\<close> completes the lengths \<open>ls\<close> to \<open>n\<close> ones.\<close>

inductive lens_at :: "mem \<Rightarrow> nat list \<Rightarrow> nat \<Rightarrow> nat \<Rightarrow> nat list \<Rightarrow> nat \<Rightarrow> nat list \<Rightarrow> bool" for data cl n where
  lens_done: "length ls = n \<Longrightarrow> lens_at data cl n P ls P ls"
| lens_one: "length ls < n \<Longrightarrow> code_at data P cl y \<Longrightarrow> y < 16 \<Longrightarrow> lens_at data cl n (P + cl ! y) (ls @ [y]) P' ls' \<Longrightarrow>
    lens_at data cl n P ls P' ls'"
| lens_repeat: "length ls < n \<Longrightarrow> code_at data P cl y \<Longrightarrow> (y = 16 \<and> ls \<noteq> [] \<and> x = last ls) \<or> (16 < y \<and> y < 19 \<and> x = 0) \<Longrightarrow>
    repeat_code y = (bits, base) \<Longrightarrow> j = base + fnat data (P + cl ! y) bits \<Longrightarrow> length ls + j \<le> n \<Longrightarrow>
    lens_at data cl n (P + cl ! y + bits) (ls @ replicate j x) P' ls' \<Longrightarrow> lens_at data cl n P ls P' ls'"

definition code_lengths :: "mem \<Rightarrow> nat \<Rightarrow> nat \<Rightarrow> nat list" where
  "code_lengths data P nb = map (\<lambda>y. case filter (\<lambda>j. bitorder ! j = y) [0..<nb] of [] \<Rightarrow> 0 | j # _ \<Rightarrow> fnat data (P + 3 * j) 3) [0..<19]"

definition good_code :: "nat list \<Rightarrow> nat \<Rightarrow> bool" where
  "good_code b m \<longleftrightarrow> decodable b m \<and> (complete_codes b \<or> longest b = 1)"

definition dynamic_header :: "mem \<Rightarrow> nat \<Rightarrow> nat list \<Rightarrow> nat list \<Rightarrow> nat \<Rightarrow> bool" where
  "dynamic_header data P ll dl P' \<longleftrightarrow>
     (let nl = 257 + fnat data P 5; nd = 1 + fnat data (P + 5) 5; nb = 4 + fnat data (P + 10) 4; cl = code_lengths data (P + 14) nb
      in nl \<le> 286 \<and> nd \<le> 30 \<and> nb \<le> 19 \<and> good_code cl 7 \<and> lens_at data cl (nl + nd) (P + 14 + 3 * nb) [] P' (ll @ dl) \<and>
         length ll = nl \<and> length dl = nd \<and> good_code ll 9 \<and> good_code dl 6)"

inductive inflates :: "mem \<Rightarrow> nat \<Rightarrow> byte list \<Rightarrow> nat \<Rightarrow> mode \<Rightarrow> bool \<Rightarrow> nat \<Rightarrow> bool" for data "end" out where
  inf_end: "P \<le> end \<Longrightarrow> m = length out \<Longrightarrow> inflates data end out P Between True m"
| inf_stored: "fnat data (P + 1) 2 = 0 \<Longrightarrow> p = (P + 10) div 8 \<Longrightarrow> n = fnat data (8 * p) 16 \<Longrightarrow> fnat data (8 * p + 16) 16 = 65535 - n \<Longrightarrow>
    inflates data end out (8 * p + 32) (Stored n) (fbit data P) m \<Longrightarrow> inflates data end out P Between False m"
| inf_fixed: "fnat data (P + 1) 2 = 1 \<Longrightarrow> inflates data end out (P + 3) (Codes fixed_lengths (replicate 30 5)) (fbit data P) m \<Longrightarrow>
    inflates data end out P Between False m"
| inf_dynamic: "fnat data (P + 1) 2 = 2 \<Longrightarrow> dynamic_header data (P + 3) ll dl P' \<Longrightarrow>
    inflates data end out P' (Codes ll dl) (fbit data P) m \<Longrightarrow> inflates data end out P Between False m"
| inf_byte: "m < length out \<Longrightarrow> out ! m = data p \<Longrightarrow> inflates data end out (8 * p + 8) (Stored n) fin (m + 1) \<Longrightarrow>
    inflates data end out (8 * p) (Stored (Suc n)) fin m"
| inf_stored_end: "inflates data end out P Between fin m \<Longrightarrow> inflates data end out P (Stored 0) fin m"
| inf_literal: "code_at data P ll y \<Longrightarrow> y < 256 \<Longrightarrow> m < length out \<Longrightarrow> out ! m = of_nat y \<Longrightarrow>
    inflates data end out (P + ll ! y) (Codes ll dl) fin (m + 1) \<Longrightarrow> inflates data end out P (Codes ll dl) fin m"
| inf_block_end: "code_at data P ll 256 \<Longrightarrow> inflates data end out (P + ll ! 256) Between fin m \<Longrightarrow>
    inflates data end out P (Codes ll dl) fin m"
| inf_match: "code_at data P ll y \<Longrightarrow> 257 \<le> y \<Longrightarrow> y \<le> 285 \<Longrightarrow> x = cplext ! (y - 257) \<Longrightarrow>
    n = cplens ! (y - 257) + fnat data (P + ll ! y) x \<Longrightarrow> P1 = P + ll ! y + x \<Longrightarrow>
    code_at data P1 dl z \<Longrightarrow> z < 30 \<Longrightarrow> dx = cpdext ! z \<Longrightarrow> dist = cpdist ! z + fnat data (P1 + dl ! z) dx \<Longrightarrow> dist \<le> m \<Longrightarrow>
    inflates data end out (P1 + dl ! z + dx) (Copying n dist ll dl) fin m \<Longrightarrow> inflates data end out P (Codes ll dl) fin m"
| inf_copy: "m < length out \<Longrightarrow> out ! m = out ! (m - dist) \<Longrightarrow> inflates data end out P (Copying n dist ll dl) fin (m + 1) \<Longrightarrow>
    inflates data end out P (Copying (Suc n) dist ll dl) fin m"
| inf_copied: "inflates data end out P (Codes ll dl) fin m \<Longrightarrow> inflates data end out P (Copying 0 dist ll dl) fin m"

inductive_cases inflates_BetweenE: "inflates data end out P Between fin m"
inductive_cases inflates_StoredE: "inflates data end out P (Stored n) fin m"
inductive_cases inflates_CodesE: "inflates data end out P (Codes ll dl) fin m"
inductive_cases inflates_CopyingE: "inflates data end out P (Copying n dist ll dl) fin m"

lemma lens_at_le: "lens_at data cl n P ls P' ls' \<Longrightarrow> P \<le> P'"
  by (induction rule: lens_at.induct) auto

lemma dynamic_header_le: "dynamic_header data P ll dl P' \<Longrightarrow> P < P'"
  by (auto simp: dynamic_header_def Let_def dest!: lens_at_le)

lemma inflates_le: "inflates data end out P md fin m \<Longrightarrow> P \<le> end \<and> m \<le> length out"
proof (induction rule: inflates.induct)
  case (inf_stored P p n m)
  have "P \<le> 8 * ((P + 10) div 8) + 32" by presburger
  then show ?case using inf_stored by simp
next
  case (inf_dynamic P ll dl P' m)
  then show ?case using dynamic_header_le by fastforce
qed auto

section \<open>Coded blocks are decoded\<close>

definition coded_tables :: "nat list \<Rightarrow> nat list \<Rightarrow> gzip_vars \<Rightarrow> bool" where
  "coded_tables ll dl g \<longleftrightarrow> (\<exists>tl td. huft_tl g = Some tl \<and> huft_td g = Some td \<and> huft_bl g \<le> 16 \<and> huft_bd g \<le> 16 \<and>
     decodes (tables (linmem g)) tl (huft_bl g) ll 257 cplens cplext \<and> decodes (tables (linmem g)) td (huft_bd g) dl 0 cpdist cpdext \<and>
     (\<forall>x\<in>set ll. x \<le> 16) \<and> (\<forall>x\<in>set dl. x \<le> 16))"

lemma extra_small: "i \<le> 28 \<Longrightarrow> cplext ! i \<le> 5" "z < 30 \<Longrightarrow> cpdext ! z \<le> 13"
proof -
  assume "i \<le> 28"
  then have "i \<in> set [0..<29]" by simp
  then show "cplext ! i \<le> 5" unfolding cplext_def by (simp add: upt_rec) (elim disjE; simp)
next
  assume "z < 30"
  then have "z \<in> set [0..<30]" by simp
  then show "cpdext ! z \<le> 13" unfolding cpdext_def by (simp add: upt_rec) (elim disjE; simp)
qed

context file_reader
begin

lemma decode_distance_ok:
  assumes "bits_at file_at data F P b k st" "coded_tables ll dl (gz st)" "code_at data P dl z" "z < 30" "P + 48 \<le> 8 * F"
    "dist = cpdist ! z + fnat data (P + dl ! z) (cpdext ! z)"
  shows "\<exists>b' k' st'. decode_distance E n w b k st = Some (Copy n (nat (u32 (int w - int dist))), b', k', st') \<and>
    bits_at file_at data F (P + dl ! z + cpdext ! z) b' k' st' \<and> io_step st st'"
proof -
  obtain td where t: "huft_td (gz st) = Some td" "huft_bd (gz st) \<le> 16" "\<forall>x\<in>set dl. x \<le> 16"
      "decodes (tables (linmem (gz st))) td (huft_bd (gz st)) dl 0 cpdist cpdext"
    using assms(2) by (auto simp: coded_tables_def)
  obtain b1 k1 st1 b2 k2 st2 r where l: "need_bits E (huft_bd (gz st)) b k st = Some (b1, k1, st1)" "io_step st st1"
      "walk_tables E (entry_at st1 td (b1 AND mask_bits (huft_bd (gz st)))) b1 k1 st1 = Some (if hf_e r = 99 then None else Some r, b2, k2, st2)"
      "symbol_entry 0 cpdist cpdext z r" "dump_bits (hf_b r) b2 k2 = (drop_bit (hf_b r) b2, k2 - hf_b r)"
      "bits_at file_at data F (P + dl ! z) (drop_bit (hf_b r) b2) (k2 - hf_b r) st2" "io_step st st2"
    using lookup_ok [OF assms(1) t(2) assms(3) t(4,3)] assms(5) by auto
  have r: "hf_e r = cpdext ! z" "hf_v r = Num (cpdist ! z)" "cpdext ! z \<le> 13" using l(4) extra_small(2) [OF assms(4)] by (auto simp: symbol_entry_def)
  have "dl ! z \<le> 16" using t(3) assms(3) by (auto simp: code_at_def)
  then obtain b4 k4 st4 where x: "need_bits E (cpdext ! z) (drop_bit (hf_b r) b2) (k2 - hf_b r) st2 = Some (b4, k4, st4)"
      "b4 AND mask_bits (cpdext ! z) = fnat data (P + dl ! z) (cpdext ! z)" "dump_bits (cpdext ! z) b4 k4 = (drop_bit (cpdext ! z) b4, k4 - cpdext ! z)"
      "bits_at file_at data F (P + dl ! z + cpdext ! z) (drop_bit (cpdext ! z) b4) (k4 - cpdext ! z) st4" "io_step st2 st4"
    using extra_bits_ok [OF l(6), of "cpdext ! z"] r(3) assms(5) by auto
  have "decode_distance E n w b k st = Some (Copy n (nat (u32 (int w - int dist))), drop_bit (cpdext ! z) b4, k4 - cpdext ! z, st4)"
    using l(1,3,5) x(1-3) r t(1) io_step_gz(3) [OF l(2)] by (simp add: decode_distance_def assms(6) diff_diff_eq)
  then show ?thesis using x(4) io_step_trans [OF l(7) x(5)] by blast
qed

lemma decode_symbol_ok:
  assumes "bits_at file_at data F P b k st" "coded_tables ll dl (gz st)" "code_at data P ll y" "P + 64 \<le> 8 * F"
  shows "\<lbrakk>y < 256\<rbrakk> \<Longrightarrow> \<exists>b' k' st'. decode_symbol E w b k st = Some (Literal y, b', k', st') \<and> bits_at file_at data F (P + ll ! y) b' k' st' \<and> io_step st st'"
    and "\<lbrakk>y = 256\<rbrakk> \<Longrightarrow> \<exists>b' k' st'. decode_symbol E w b k st = Some (Block_End, b', k', st') \<and> bits_at file_at data F (P + ll ! y) b' k' st' \<and> io_step st st'"
    and "\<lbrakk>257 \<le> y; y \<le> 285; x = cplext ! (y - 257); P1 = P + ll ! y + x; n = cplens ! (y - 257) + fnat data (P + ll ! y) x;
        code_at data P1 dl z; z < 30; dist = cpdist ! z + fnat data (P1 + dl ! z) (cpdext ! z); P1 + 64 \<le> 8 * F\<rbrakk> \<Longrightarrow>
      \<exists>b' k' st'. decode_symbol E w b k st = Some (Copy n (nat (u32 (int w - int dist))), b', k', st') \<and>
        bits_at file_at data F (P1 + dl ! z + cpdext ! z) b' k' st' \<and> io_step st st'"
proof -
  obtain tl where t: "huft_tl (gz st) = Some tl" "huft_bl (gz st) \<le> 16" "\<forall>x\<in>set ll. x \<le> 16"
      "decodes (tables (linmem (gz st))) tl (huft_bl (gz st)) ll 257 cplens cplext"
    using assms(2) by (auto simp: coded_tables_def)
  obtain b1 k1 st1 b2 k2 st2 r where l: "need_bits E (huft_bl (gz st)) b k st = Some (b1, k1, st1)" "io_step st st1"
      "walk_tables E (entry_at st1 tl (b1 AND mask_bits (huft_bl (gz st)))) b1 k1 st1 = Some (if hf_e r = 99 then None else Some r, b2, k2, st2)"
      "symbol_entry 257 cplens cplext y r" "dump_bits (hf_b r) b2 k2 = (drop_bit (hf_b r) b2, k2 - hf_b r)"
      "bits_at file_at data F (P + ll ! y) (drop_bit (hf_b r) b2) (k2 - hf_b r) st2" "io_step st st2"
    using lookup_ok [OF assms(1) t(2) assms(3) t(4,3)] assms(4) by auto
  note tl = t(1) io_step_gz(2) [OF l(2)]
  have ly: "ll ! y \<le> 16" using t(3) assms(3) by (auto simp: code_at_def)
  show "\<exists>b' k' st'. decode_symbol E w b k st = Some (Literal y, b', k', st') \<and> bits_at file_at data F (P + ll ! y) b' k' st' \<and> io_step st st'"
    if "y < 256"
  proof -
    have "hf_e r = 16" "hf_v r = Num y" using l(4) that by (auto simp: symbol_entry_def)
    then have "decode_symbol E w b k st = Some (Literal y, drop_bit (hf_b r) b2, k2 - hf_b r, st2)"
      using l(1,3,5) tl by (simp add: decode_symbol_def)
    then show ?thesis using l(6,7) by blast
  qed
  show "\<exists>b' k' st'. decode_symbol E w b k st = Some (Block_End, b', k', st') \<and> bits_at file_at data F (P + ll ! y) b' k' st' \<and> io_step st st'"
    if "y = 256"
  proof -
    have "hf_e r = 15" using l(4) that by (auto simp: symbol_entry_def)
    then have "decode_symbol E w b k st = Some (Block_End, drop_bit (hf_b r) b2, k2 - hf_b r, st2)"
      using l(1,3,5) tl by (simp add: decode_symbol_def)
    then show ?thesis using l(6,7) by blast
  qed
  show "\<exists>b' k' st'. decode_symbol E w b k st = Some (Copy n (nat (u32 (int w - int dist))), b', k', st') \<and>
      bits_at file_at data F (P1 + dl ! z + cpdext ! z) b' k' st' \<and> io_step st st'"
    if m: "257 \<le> y" "y \<le> 285" "x = cplext ! (y - 257)" "P1 = P + ll ! y + x" "n = cplens ! (y - 257) + fnat data (P + ll ! y) x"
      "code_at data P1 dl z" "z < 30" "dist = cpdist ! z + fnat data (P1 + dl ! z) (cpdext ! z)" "P1 + 64 \<le> 8 * F"
  proof -
    have r: "hf_e r = x" "hf_v r = Num (cplens ! (y - 257))" "x \<le> 5"
      using l(4) m(1-3) extra_small(1) [of "y - 257"] by (auto simp: symbol_entry_def)
    obtain b4 k4 st4 where e: "need_bits E x (drop_bit (hf_b r) b2) (k2 - hf_b r) st2 = Some (b4, k4, st4)"
        "b4 AND mask_bits x = fnat data (P + ll ! y) x" "dump_bits x b4 k4 = (drop_bit x b4, k4 - x)"
        "bits_at file_at data F P1 (drop_bit x b4) (k4 - x) st4" "io_step st2 st4"
      using extra_bits_ok [OF l(6), of x] r(3) assms(4) ly m(4) by auto
    have io: "io_step st st4" using io_step_trans [OF l(7) e(5)] .
    have ct: "coded_tables ll dl (gz st4)" using assms(2) io_step_gz [OF io] by (simp add: coded_tables_def)
    obtain b' k' st' where d: "decode_distance E n w (drop_bit x b4) (k4 - x) st4 = Some (Copy n (nat (u32 (int w - int dist))), b', k', st')"
        "bits_at file_at data F (P1 + dl ! z + cpdext ! z) b' k' st'" "io_step st4 st'"
      using decode_distance_ok [OF e(4) ct m(6,7) _ m(8), of n w] m(9) by auto
    have "decode_symbol E w b k st = Some (Copy n (nat (u32 (int w - int dist))), b', k', st')"
      using l(1,3,5) tl e(1-3) r m(5) d(1) by (simp add: decode_symbol_def)
    then show ?thesis using d(2) io_step_trans [OF io d(3)] by blast
  qed
qed

end

section \<open>The window\<close>

text \<open>The window holds the last 32K bytes of the output, each at its position modulo the size.\<close>

definition window_holds :: "byte list \<Rightarrow> nat \<Rightarrow> mem \<Rightarrow> bool" where
  "window_holds out m s \<longleftrightarrow> (\<forall>p<m. m \<le> p + WSIZE \<longrightarrow> s (p mod WSIZE) = out ! p)"

lemma mod_ring_neq:
  assumes "p < m" "m < p + W" "0 < (W :: nat)"
  shows "p mod W \<noteq> m mod W"
proof
  assume "p mod W = m mod W"
  then have "W dvd m - p" using assms(1) by (metis less_imp_le mod_eq_dvd_iff_nat)
  then show False using assms by (auto dest: dvd_imp_le)
qed

lemma window_step:
  assumes "window_holds out m s"
  shows "window_holds out (Suc m) (s(m mod WSIZE := out ! m))"
  unfolding window_holds_def
proof (intro allI impI)
  fix p assume p: "p < Suc m" "Suc m \<le> p + WSIZE"
  show "(s(m mod WSIZE := out ! m)) (p mod WSIZE) = out ! p"
  proof (cases "p = m")
    case False
    then have "p mod WSIZE \<noteq> m mod WSIZE" using mod_ring_neq [of p m WSIZE] p by (simp add: WSIZE_def)
    then show ?thesis using assms p False by (simp add: window_holds_def)
  qed simp
qed

text \<open>Copying a chunk through \<^verbatim>\<open>memmove\<close> is copying it byte by byte, as long as the code does the
  former only when the chunks do not overlap that way.\<close>

lemma copy_bytes_disjoint:
  "w < d \<or> d + e \<le> w \<Longrightarrow> copy_bytes e w d s i = (if w \<le> i \<and> i < w + e then s (d + (i - w)) else s i)"
proof (induction e arbitrary: w d s)
  case (Suc e)
  have "d + (i - w) \<noteq> w" if "w < i" "i < w + Suc e" using Suc.prems that by auto
  then show ?case using Suc.IH [of "w + 1" "d + 1" "s(w := s d)"] Suc.prems by (cases "i = w") (auto simp: Suc_diff_Suc fun_upd_def)
qed auto

lemma copy_chunk_bytes:
  assumes "w \<le> WSIZE" "d \<le> WSIZE" "e \<le> WSIZE"
  shows "copy_chunk e w d s = copy_bytes e w d s"
proof (cases "w < d")
  case True
  then show ?thesis using copy_bytes_disjoint [of w d e s] by (auto simp: copy_chunk_def)
next
  case False
  then have "nat (u32 (int w - int d)) = w - d" using assms(1) by (simp add: u32_def WSIZE_def)
  then show ?thesis using copy_bytes_disjoint [of w d e s] False by (auto simp: copy_chunk_def)
qed

lemma and_window: "d AND (WSIZE - 1) = d mod WSIZE"
proof -
  have "d AND mask 15 = d mod 2 ^ 15" by (metis take_bit_eq_mask take_bit_eq_mod)
  moreover have "mask 15 = WSIZE - 1" "2 ^ 15 = WSIZE" by (simp_all add: WSIZE_def mask_eq_exp_minus_1)
  ultimately show ?thesis by simp
qed

definition repeats :: "byte list \<Rightarrow> nat \<Rightarrow> nat \<Rightarrow> nat \<Rightarrow> bool" where
  "repeats out m dist n \<longleftrightarrow> 0 < dist \<and> dist \<le> m \<and> dist \<le> WSIZE \<and> (\<forall>i<n. m + i < length out \<and> out ! (m + i) = out ! (m + i - dist))"

lemma repeats_tail: "repeats out m dist n \<Longrightarrow> j \<le> n \<Longrightarrow> repeats out (m + j) dist (n - j)"
proof -
  assume r: "repeats out m dist n" "j \<le> n"
  have "m + j + i < length out \<and> out ! (m + j + i) = out ! (m + j + i - dist)" if "i < n - j" for i
  proof -
    have "m + (j + i) < length out \<and> out ! (m + (j + i)) = out ! (m + (j + i) - dist)" using r that by (simp add: repeats_def)
    then show ?thesis by (simp add: add.assoc)
  qed
  then show ?thesis using r by (auto simp: repeats_def)
qed

lemma copy_bytes_window:
  assumes "window_holds out m s" "repeats out m dist e" "w mod WSIZE = m mod WSIZE" "d mod WSIZE = (m - dist) mod WSIZE"
    "w + e \<le> WSIZE" "d + e \<le> WSIZE"
  shows "window_holds out (m + e) (copy_bytes e w d s)"
  using assms
proof (induction e arbitrary: m w d s)
  case (Suc e)
  have r: "0 < dist" "dist \<le> m" "dist \<le> WSIZE" "out ! m = out ! (m - dist)" using Suc.prems(2) by (auto simp: repeats_def)
  have wd: "w = m mod WSIZE" "d = (m - dist) mod WSIZE" using Suc.prems(3-6) by auto
  have "s d = out ! m" using Suc.prems(1) r wd(2) by (auto simp: window_holds_def)
  then have "window_holds out (Suc m) (s(w := s d))" using window_step [OF Suc.prems(1)] wd(1) by simp
  moreover have "repeats out (Suc m) dist e" using repeats_tail [OF Suc.prems(2), of 1] by simp
  moreover have "(w + 1) mod WSIZE = Suc m mod WSIZE" using Suc.prems(3) by (metis Suc_eq_plus1 mod_Suc_eq)
  moreover have "(d + 1) mod WSIZE = (Suc m - dist) mod WSIZE"
    using Suc.prems(4) r(2) by (metis Suc_diff_le Suc_eq_plus1 mod_Suc_eq)
  ultimately show ?case using Suc.IH [of "Suc m" "s(w := s d)" "w + 1" "d + 1"] Suc.prems(5,6) by (simp add: fun_upd_def)
qed simp

lemma copy_loop_ok:
  assumes "window_holds out m s" "repeats out m dist n" "w mod WSIZE = m mod WSIZE" "w < WSIZE" "d mod WSIZE = (m - dist) mod WSIZE" "0 < n"
  shows "\<exists>j d' s'. copy_loop n w d s = Some (n - j, w + j, d', s') \<and> 0 < j \<and> j \<le> n \<and> w + j \<le> WSIZE \<and> (j = n \<or> w + j = WSIZE) \<and>
    window_holds out (m + j) s' \<and> d' mod WSIZE = (m + j - dist) mod WSIZE"
  using assms
proof (induction n arbitrary: m w d s rule: less_induct)
  case (less n)
  define d1 where "d1 = d mod WSIZE"
  define room where "room = WSIZE - (if d1 > w then d1 else w)"
  define e where "e = (if room > n then n else room)"
  have d1: "d1 < WSIZE" by (simp add: d1_def WSIZE_def)
  have e: "0 < e" "e \<le> n" "w + e \<le> WSIZE" "d1 + e \<le> WSIZE" using less.prems(4,6) d1 by (auto simp: e_def room_def)
  have c: "copy_chunk e w d1 s = copy_bytes e w d1 s" using copy_chunk_bytes e by simp
  have rep: "repeats out m dist e" using less.prems(2) e(2) by (auto simp: repeats_def)
  have dist: "dist \<le> m" using less.prems(2) by (simp add: repeats_def)
  have win: "window_holds out (m + e) (copy_bytes e w d1 s)"
    using copy_bytes_window [OF less.prems(1) rep less.prems(3) _ e(3,4)] less.prems(5) by (simp add: d1_def)
  have d1e: "(d1 + e) mod WSIZE = (m + e - dist) mod WSIZE"
    using less.prems(5) dist by (metis Nat.diff_add_assoc2 d1_def mod_add_left_eq)
  have we: "(w + e) mod WSIZE = (m + e) mod WSIZE" using less.prems(3) by (metis mod_add_left_eq)
  have step: "copy_loop n w d s = (if w + e = WSIZE \<or> n - e = 0 then Some (n - e, w + e, d1 + e, copy_bytes e w d1 s)
      else copy_loop (n - e) (w + e) (d1 + e) (copy_bytes e w d1 s))"
    by (subst copy_loop.simps) (simp only: Let_def and_window d1_def [symmetric] room_def [symmetric] e_def [symmetric] c)
  show ?case
  proof (cases "w + e = WSIZE \<or> n - e = 0")
    case True
    then show ?thesis using step e win d1e by (intro exI [of _ e] exI [of _ "d1 + e"] exI [of _ "copy_bytes e w d1 s"]) auto
  next
    case False
    then obtain j d' s' where IH: "copy_loop (n - e) (w + e) (d1 + e) (copy_bytes e w d1 s) = Some (n - e - j, w + e + j, d', s')" "0 < j" "j \<le> n - e"
        "w + e + j \<le> WSIZE" "j = n - e \<or> w + e + j = WSIZE" "window_holds out (m + e + j) s'" "d' mod WSIZE = (m + e + j - dist) mod WSIZE"
      using less.IH [of "n - e" "m + e" "copy_bytes e w d1 s" "w + e" "d1 + e"] e win we d1e repeats_tail [OF less.prems(2) e(2)] by auto
    then show ?thesis using step False e
      by (intro exI [of _ "e + j"] exI [of _ d'] exI [of _ s']) (auto simp: add.assoc)
  qed
qed

section \<open>The loop over the codes\<close>

lemma copying_run:
  "inflates data end out P (Copying n dist ll dl) fin m \<Longrightarrow> j \<le> n \<Longrightarrow>
    inflates data end out P (Copying (n - j) dist ll dl) fin (m + j) \<and> (\<forall>i<j. m + i < length out \<and> out ! (m + i) = out ! (m + i - dist))"
proof (induction j)
  case (Suc j)
  then have IH: "inflates data end out P (Copying (Suc (n - Suc j)) dist ll dl) fin (m + j)"
      "\<forall>i<j. m + i < length out \<and> out ! (m + i) = out ! (m + i - dist)" by (auto simp: Suc_diff_Suc)
  from IH(1) have "m + j < length out \<and> out ! (m + j) = out ! (m + j - dist) \<and> inflates data end out P (Copying (n - Suc j) dist ll dl) fin (m + j + 1)"
    by (cases rule: inflates_CopyingE) auto
  then show ?case using IH(2) by (auto simp: less_Suc_eq)
qed simp

lemma copying_done: "inflates data end out P (Copying 0 dist ll dl) fin m \<Longrightarrow> inflates data end out P (Codes ll dl) fin m"
  by (erule inflates_CopyingE) auto

lemma base_values: "i \<le> 28 \<Longrightarrow> 0 < cplens ! i" "z < 30 \<Longrightarrow> 0 < cpdist ! z \<and> cpdist ! z + 2 ^ (cpdext ! z) \<le> WSIZE + 1"
proof -
  assume "i \<le> 28"
  then have "i \<in> set [0..<29]" by simp
  then show "0 < cplens ! i" unfolding cplens_def by (simp add: upt_rec) (elim disjE; simp)
next
  assume "z < 30"
  then have "z \<in> set [0..<30]" by simp
  then show "0 < cpdist ! z \<and> cpdist ! z + 2 ^ (cpdext ! z) \<le> WSIZE + 1"
    unfolding cpdist_def cpdext_def WSIZE_def by (simp add: upt_rec) (elim disjE; simp)
qed

lemma window_distance:
  assumes "m = base + w" "base mod WSIZE = 0" "dist \<le> m"
  shows "nat (u32 (int w - int dist)) mod WSIZE = (m - dist) mod WSIZE"
proof -
  define x where "x = int w - int dist"
  have "0 \<le> u32 x" by (simp add: u32_def)
  then have "int (nat (u32 x) mod WSIZE) = u32 x mod int WSIZE" by (simp add: zmod_int)
  also have "\<dots> = x mod int WSIZE" by (simp add: u32_def WSIZE_def mod_mod_cancel)
  also have "\<dots> = (x + int base) mod int WSIZE"
  proof -
    have "int base mod int WSIZE = 0" using assms(2) by (simp flip: zmod_int)
    then show ?thesis using mod_add_right_eq [of x "int base" "int WSIZE"] by simp
  qed
  also have "x + int base = int (m - dist)" using assms(1,3) by (simp add: x_def of_nat_diff)
  also have "int (m - dist) mod int WSIZE = int ((m - dist) mod WSIZE)" by (simp add: zmod_int)
  finally show ?thesis by (simp add: x_def)
qed

text \<open>What the loop over the codes leaves alone.\<close>

definition codes_keep :: "('f, 'w) files \<Rightarrow> ('f, 'w) files \<Rightarrow> bool" where
  "codes_keep st st' \<longleftrightarrow> linmem (gz st') = linmem (gz st) \<and> huft_tl (gz st') = huft_tl (gz st) \<and> huft_td (gz st') = huft_td (gz st) \<and>
     huft_bl (gz st') = huft_bl (gz st) \<and> huft_bd (gz st') = huft_bd (gz st) \<and> block_type (gz st') = block_type (gz st) \<and>
     gzip_vars.last_block (gz st') = gzip_vars.last_block (gz st) \<and> saved_filepos (gz st') = saved_filepos (gz st) \<and>
     gzip_filepos (gz st') = gzip_filepos (gz st) \<and> gzip_filemax (gz st') = gzip_filemax (gz st) \<and> gzip_fsmax (gz st') = gzip_fsmax (gz st) \<and>
     gzip_data_offset (gz st') = gzip_data_offset (gz st) \<and> compressed_file st' = compressed_file st \<and>
     errnum (dev st') = errnum (dev st) \<and> filemax (dev st') = filemax (dev st) \<and> fsmax (dev st') = fsmax (dev st)"

lemma codes_keep_refl [simp]: "codes_keep st st"
  by (simp add: codes_keep_def)

lemma codes_keep_trans: "codes_keep x y \<Longrightarrow> codes_keep y z \<Longrightarrow> codes_keep x z"
  by (simp add: codes_keep_def)

lemma io_codes_keep: "io_step st st' \<Longrightarrow> codes_keep st st'"
  by (simp add: codes_keep_def io_step_gz)

lemma codes_keep_tables: "codes_keep st st' \<Longrightarrow> coded_tables ll dl (gz st') = coded_tables ll dl (gz st)"
  by (simp add: codes_keep_def coded_tables_def)

text \<open>The place in a coded block, with the locals \<open>d\<close> and \<open>n\<close>.\<close>

definition copy_pending :: "nat \<Rightarrow> mode \<Rightarrow> int \<Rightarrow> nat \<Rightarrow> nat \<Rightarrow> bool" where
  "copy_pending m md cs d n \<longleftrightarrow> (case md of
     Codes ll dl \<Rightarrow> cs = 0
   | Copying n' dist ll dl \<Rightarrow> cs = 1 \<and> n = n' \<and> 0 < n' \<and> d mod WSIZE = (m - dist) mod WSIZE \<and> 0 < dist \<and> dist \<le> m \<and> dist \<le> WSIZE
   | _ \<Rightarrow> False)"

fun mode_tables :: "mode \<Rightarrow> nat list \<times> nat list" where
  "mode_tables (Codes ll dl) = (ll, dl)"
| "mode_tables (Copying n dist ll dl) = (ll, dl)"
| "mode_tables _ = ([], [])"

text \<open>The result of the loop: the block has ended, or the window is full.\<close>

definition codes_result :: "(mem \<Rightarrow> nat \<Rightarrow> nat \<Rightarrow> ('f, 'w) files \<Rightarrow> bool) \<Rightarrow> mem \<Rightarrow> nat \<Rightarrow> nat \<Rightarrow> byte list \<Rightarrow> nat \<Rightarrow> bool \<Rightarrow> nat list \<Rightarrow> nat list \<Rightarrow> int \<Rightarrow>
    nat \<Rightarrow> bool \<times> ('f, 'w) files \<Rightarrow> bool" where
  "codes_result file_at data F end out base fin ll dl blen v res \<longleftrightarrow> (case res of (r, st') \<Rightarrow> \<exists>P' md' m'.
     v < P' + m' \<and> m' = base + wp (gz st') \<and> wp (gz st') \<le> WSIZE \<and> window_holds out m' (slide (gz st')) \<and>
     bits_at file_at data F P' (bb (gz st')) (bk (gz st')) st' \<and> inflates data end out P' md' fin m' \<and>
     (r \<and> md' = Between \<and> block_len (gz st') = 0 \<or>
      \<not> r \<and> wp (gz st') = WSIZE \<and> mode_tables md' = (ll, dl) \<and> copy_pending m' md' (code_state (gz st')) (inflate_d (gz st')) (inflate_n (gz st')) \<and>
        block_len (gz st') = blen))"

lemma codes_result_mono: "codes_result fa data F end out base fin ll dl blen v' res \<Longrightarrow> v \<le> v' \<Longrightarrow> codes_result fa data F end out base fin ll dl blen v res"
  unfolding codes_result_def by (auto split: prod.splits) (meson le_less_trans)+

lemma inflates_Codes_cases:
  assumes "inflates data end out P (Codes ll dl) fin m"
  obtains (literal) y where "code_at data P ll y" "y < 256" "m < length out" "out ! m = of_nat y"
      "inflates data end out (P + ll ! y) (Codes ll dl) fin (m + 1)"
    | (block_end) "code_at data P ll 256" "inflates data end out (P + ll ! 256) Between fin m"
    | (copy) y x n P1 z dx dist where "code_at data P ll y" "257 \<le> y" "y \<le> 285" "x = cplext ! (y - 257)"
      "n = cplens ! (y - 257) + fnat data (P + ll ! y) x" "P1 = P + ll ! y + x" "code_at data P1 dl z" "z < 30" "dx = cpdext ! z"
      "dist = cpdist ! z + fnat data (P1 + dl ! z) dx" "dist \<le> m" "inflates data end out (P1 + dl ! z + dx) (Copying n dist ll dl) fin m"
  using assms by (cases rule: inflates.cases) (blast intro: literal block_end copy)+

context file_reader
begin

lemma full_window:
  assumes "bits_at file_at data F P b k st" "inflates data end out P md fin m" "mode_tables md = (ll, dl)"
    "copy_pending m md (code_state (gz st)) d n" "window_holds out m (slide (gz st))" "m = base + WSIZE"
    "block_len (gz st) = blen" "blen \<noteq> 0" "v < P + m"
  shows "codes_result file_at data F end out base fin ll dl blen v (restore d n WSIZE b k st)" "codes_keep st (snd (restore d n WSIZE b k st))"
proof -
  have "bits_at file_at data F P b k (upd_gz (\<lambda>g. g\<lparr>inflate_d := d, inflate_n := n, wp := WSIZE, bb := b, bk := k\<rparr>) st)"
    by (rule bits_at_gz [OF assms(1)]) auto
  then show "codes_result file_at data F end out base fin ll dl blen v (restore d n WSIZE b k st)"
    unfolding codes_result_def restore_def prod.case
    by (intro exI [of _ P] exI [of _ md] exI [of _ m]) (use assms in simp)
  show "codes_keep st (snd (restore d n WSIZE b k st))" by (simp add: restore_def codes_keep_def)
qed

lemma ended_block:
  assumes "bits_at file_at data F P b k st" "inflates data end out P Between fin m" "window_holds out m (slide (gz st))" "m = base + w" "w \<le> WSIZE" "v < P + m"
  shows "codes_result file_at data F end out base fin ll dl blen v (restore d n w b k (upd_gz (\<lambda>g. g\<lparr>block_len := 0\<rparr>) st))"
    "codes_keep st (snd (restore d n w b k (upd_gz (\<lambda>g. g\<lparr>block_len := 0\<rparr>) st)))"
proof -
  have "bits_at file_at data F P b k (st\<lparr>gz := (gz st)\<lparr>block_len := 0, inflate_d := d, inflate_n := n, wp := w, bb := b, bk := k\<rparr>\<rparr>)"
    by (rule bits_at_gz [OF assms(1)]) auto
  then show "codes_result file_at data F end out base fin ll dl blen v (restore d n w b k (upd_gz (\<lambda>g. g\<lparr>block_len := 0\<rparr>) st))"
    unfolding codes_result_def restore_def prod.case
    by (intro exI [of _ P] exI [of _ Between] exI [of _ m]) (use assms in simp)
  show "codes_keep st (snd (restore d n w b k (upd_gz (\<lambda>g. g\<lparr>block_len := 0\<rparr>) st)))" by (simp add: restore_def codes_keep_def)
qed

lemma codes_loop_ok:
  assumes "bits_at file_at data F P b k st" "inflates data end out P md fin m" "mode_tables md = (ll, dl)"
    "copy_pending m md (code_state (gz st)) d n" "coded_tables ll dl (gz st)" "window_holds out m (slide (gz st))" "m = base + w" "w < WSIZE"
    "base mod WSIZE = 0" "end + 64 \<le> 8 * F" "block_len (gz st) = blen" "blen \<noteq> 0"
  shows "\<exists>res. codes_loop E d n w b k st = Some res \<and> codes_result file_at data F end out base fin ll dl blen (P + m) res \<and> codes_keep st (snd res)"
  using assms(1-8,11)
proof (induction "end + length out - (P + m)" arbitrary: P b k st md m d n w rule: less_induct)
  case less
  note bits = less.prems(1) and inf = less.prems(2) and tabs = less.prems(5) and win = less.prems(6) and mw = less.prems(7,8) and bl = less.prems(9)
  have continue: "\<exists>res. codes_loop E d' n' w' b' k' st' = Some res \<and> codes_result file_at data F end out base fin ll dl blen (P + m) res \<and> codes_keep st (snd res)"
    if "P + m < P' + m'" "codes_keep st st'" "bits_at file_at data F P' b' k' st'" "inflates data end out P' md' fin m'" "mode_tables md' = (ll, dl)"
      "copy_pending m' md' (code_state (gz st')) d' n'" "window_holds out m' (slide (gz st'))" "m' = base + w'" "w' < WSIZE" "block_len (gz st') = blen"
    for P' m' md' d' n' w' b' k' st'
  proof -
    note q = that
    have "end + length out - (P' + m') < end + length out - (P + m)"
      using inflates_le [OF q(4)] inflates_le [OF inf] q(1) by linarith
    then obtain res where "codes_loop E d' n' w' b' k' st' = Some res" "codes_result file_at data F end out base fin ll dl blen (P' + m') res" "codes_keep st' (snd res)"
      using less.hyps [OF _ q(3-6) _ q(7-10)] codes_keep_tables [OF q(2)] tabs by blast
    then show ?thesis using codes_result_mono [of _ data F "end" out base fin ll dl blen "P' + m'"] q(1) codes_keep_trans [OF q(2)]
      by (meson less_imp_le)
  qed
  consider (codes) "md = Codes ll dl" | (copying) c dist where "md = Copying c dist ll dl"
    using less.prems(3) assms(3) by (cases md) (use less.prems(4) in \<open>auto simp: copy_pending_def\<close>)
  then show ?case
  proof cases
    case codes
    have cs: "code_state (gz st) = 0" using less.prems(4) codes by (simp add: copy_pending_def)
    have F64: "P + 64 \<le> 8 * F" using inflates_le [OF inf] assms(10) by simp
    show ?thesis using inf [unfolded codes]
    proof (cases rule: inflates_Codes_cases)
      case 1: (literal y)
      obtain b1 k1 st1 where d: "decode_symbol E w b k st = Some (Literal y, b1, k1, st1)" "bits_at file_at data F (P + ll ! y) b1 k1 st1" "io_step st st1"
        using decode_symbol_ok(1) [OF bits tabs 1(1) F64 1(2)] by blast
      define st2 where "st2 = upd_gz (\<lambda>g. g\<lparr>slide := (slide g)(w := of_nat y)\<rparr>) st1"
      have wm: "w = m mod WSIZE" using mw assms(9) by (metis add_0 mod_add_left_eq mod_less)
      have keep: "codes_keep st st2" using codes_keep_trans [OF io_codes_keep [OF d(3)], of st2] by (simp add: st2_def codes_keep_def)
      have bits2: "bits_at file_at data F (P + ll ! y) b1 k1 st2" unfolding st2_def by (rule bits_at_gz [OF d(2)]) auto
      have win2: "window_holds out (m + 1) (slide (gz st2))"
        using window_step [OF win] io_step_gz(6) [OF d(3)] 1(4) wm by (simp add: st2_def)
      have cs2: "code_state (gz st2) = 0" "block_len (gz st2) = blen" using cs bl io_step_gz(7,9) [OF d(3)] by (simp_all add: st2_def)
      have step: "codes_loop E d n w b k st = (if w + 1 = WSIZE then Some (restore d n (w + 1) b1 k1 st2) else codes_loop E d n (w + 1) b1 k1 st2)"
        using cs d(1) by (subst codes_loop.simps) (simp add: st2_def Let_def)
      have pend: "copy_pending (m + 1) (Codes ll dl) (code_state (gz st2)) d n" using cs2 by (simp add: copy_pending_def)
      show ?thesis
      proof (cases "w + 1 = WSIZE")
        case True
        then show ?thesis
          using step full_window(1) [where base = base and v = "P + m", OF bits2 1(5) mode_tables.simps(1) pend win2 _ cs2(2) assms(12)]
            full_window(2) [where base = base and v = "P + m", OF bits2 1(5) mode_tables.simps(1) pend win2 _ cs2(2) assms(12)] 1(1) keep codes_keep_trans mw(1) by auto
      next
        case False
        then show ?thesis using step continue [where w' = "w + 1", OF _ keep bits2 1(5) mode_tables.simps(1) pend win2 _ _ cs2(2)] mw by simp
      qed
    next
      case 2: block_end
      obtain b1 k1 st1 where d: "decode_symbol E w b k st = Some (Block_End, b1, k1, st1)" "bits_at file_at data F (P + ll ! 256) b1 k1 st1" "io_step st st1"
        using decode_symbol_ok(2) [OF bits tabs 2(1) F64] by blast
      have "codes_loop E d n w b k st = Some (restore d n w b1 k1 (upd_gz (\<lambda>g. g\<lparr>block_len := 0\<rparr>) st1))"
        using cs d(1) by (subst codes_loop.simps) simp
      moreover have "P + m < P + ll ! 256 + m" using 2(1) by (simp add: code_at_def)
      ultimately show ?thesis
        using ended_block(1) [where base = base and w = w and v = "P + m" and d = d and n = n and blen = blen and ll = ll and dl = dl, OF d(2) 2(2)]
          ended_block(2) [where base = base and w = w and v = "P + m" and d = d and n = n, OF d(2) 2(2)] win mw io_step_gz(6) [OF d(3)]
          codes_keep_trans [OF io_codes_keep [OF d(3)]] by auto
    next
      case 3: (copy y x n' P1 z dx dist)
      have P1: "P1 + 64 \<le> 8 * F" using inflates_le [OF 3(12)] assms(10) by simp
      obtain b1 k1 st1 where d: "decode_symbol E w b k st = Some (Copy n' (nat (u32 (int w - int dist))), b1, k1, st1)"
          "bits_at file_at data F (P1 + dl ! z + cpdext ! z) b1 k1 st1" "io_step st st1"
        using decode_symbol_ok(3) [OF bits tabs 3(1) F64 3(2,3,4,6,5,7,8) _ P1] 3(9,10) by blast
      define st2 where "st2 = upd_gz (\<lambda>g. g\<lparr>code_state := code_state g + 1\<rparr>) st1"
      have keep: "codes_keep st st2" using codes_keep_trans [OF io_codes_keep [OF d(3)], of st2] by (simp add: st2_def codes_keep_def)
      have bits2: "bits_at file_at data F (P1 + dl ! z + dx) b1 k1 st2" unfolding st2_def 3(9) by (rule bits_at_gz [OF d(2)]) auto
      have cs2: "code_state (gz st2) = 1" "block_len (gz st2) = blen" "slide (gz st2) = slide (gz st)"
        using cs bl io_step_gz(6,7,9) [OF d(3)] by (simp_all add: st2_def)
      have step: "codes_loop E d n w b k st = codes_loop E (nat (u32 (int w - int dist))) n' w b1 k1 st2"
        using cs d(1) by (subst codes_loop.simps) (simp add: st2_def)
      have n0: "0 < n'" using 3(5) base_values(1) [of "y - 257"] 3(2,3) by simp
      have dd: "0 < dist" "dist \<le> WSIZE" using 3(10) base_values(2) [OF 3(8)] fnat_less [of data "P1 + dl ! z" dx] 3(9) by auto
      have pend: "copy_pending m (Copying n' dist ll dl) (code_state (gz st2)) (nat (u32 (int w - int dist))) n'"
        using cs2(1) n0 dd 3(11) window_distance [OF mw(1) assms(9) 3(11)] by (simp add: copy_pending_def)
      have "P + m < P1 + dl ! z + dx + m" using 3(1,6) by (simp add: code_at_def)
      then show ?thesis using step continue [OF _ keep bits2 3(12) mode_tables.simps(2) pend _ mw cs2(2)] win cs2(3) by simp
    qed
  next
    case copying
    have cp: "code_state (gz st) = 1" "n = c" "0 < c" "d mod WSIZE = (m - dist) mod WSIZE" "0 < dist" "dist \<le> m" "dist \<le> WSIZE"
      using less.prems(4) copying by (auto simp: copy_pending_def)
    have rep: "repeats out m dist n" using copying_run [OF inf [unfolded copying], of c] cp by (auto simp: repeats_def)
    have wm: "w mod WSIZE = m mod WSIZE" using mw assms(9) by (metis add_0 mod_add_left_eq)
    obtain j d' s' where c: "copy_loop n w d (slide (gz st)) = Some (n - j, w + j, d', s')" "0 < j" "j \<le> n" "w + j \<le> WSIZE" "j = n \<or> w + j = WSIZE"
        "window_holds out (m + j) s'" "d' mod WSIZE = (m + j - dist) mod WSIZE"
      using copy_loop_ok [OF win rep wm mw(2) cp(4)] cp(2,3) by blast
    define st1 where "st1 = upd_gz (\<lambda>g. g\<lparr>slide := s', code_state := if n - j = 0 then code_state g - 1 else code_state g\<rparr>) st"
    define md1 where "md1 = (if n - j = 0 then Codes ll dl else Copying (n - j) dist ll dl)"
    have step: "codes_loop E d n w b k st = (if w + j = WSIZE then Some (restore d' (n - j) (w + j) b k st1) else codes_loop E d' (n - j) (w + j) b k st1)"
      using cp(1) c(1) by (subst codes_loop.simps) (simp add: st1_def Let_def)
    have keep: "codes_keep st st1" by (simp add: st1_def codes_keep_def)
    have bits1: "bits_at file_at data F P b k st1" unfolding st1_def by (rule bits_at_gz [OF bits]) auto
    have "inflates data end out P (Copying (n - j) dist ll dl) fin (m + j)"
      using copying_run [OF inf [unfolded copying], of j] c(3) cp(2) by auto
    then have inf1: "inflates data end out P md1 fin (m + j)" using copying_done by (auto simp: md1_def)
    have st1: "block_len (gz st1) = blen" "slide (gz st1) = s'" "mode_tables md1 = (ll, dl)" using bl by (simp_all add: st1_def md1_def)
    have pend: "copy_pending (m + j) md1 (code_state (gz st1)) d' (n - j)"
      using cp c by (auto simp: copy_pending_def md1_def st1_def)
    have lt: "P + m < P + (m + j)" using c(2) by simp
    show ?thesis
    proof (cases "w + j = WSIZE")
      case True
      then show ?thesis
        using step full_window(1) [where base = base, OF bits1 inf1 st1(3) pend _ _ st1(1) assms(12) lt]
            full_window(2) [where base = base, OF bits1 inf1 st1(3) pend _ _ st1(1) assms(12) lt] c(6) st1(2) keep codes_keep_trans mw(1) by auto
    next
      case False
      then show ?thesis using step continue [where w' = "w + j", OF lt keep bits1 inf1 st1(3) pend _ _ _ st1(1)] c(4,6) st1(2) mw(1) by simp
    qed
  qed
qed

end

end
