(* ===== verification/Gunzip_Read.thy ===== *)
theory Gunzip_Read
  imports Gunzip
begin

text \<open>
  The decompressor reads what the data stands for: the block headers, the window, and \<^verbatim>\<open>gunzip_read\<close>.
\<close>

section \<open>Block headers\<close>

text \<open>The state when a block has been begun.\<close>

definition block_begun :: "mode \<Rightarrow> ('f, 'w) files \<Rightarrow> bool" where
  "block_begun md st \<longleftrightarrow> (case md of
     Stored n \<Rightarrow> block_type (gz st) = INFLATE_STORED \<and> block_len (gz st) = int n \<and> bk (gz st) = 0
   | Codes ll dl \<Rightarrow> block_type (gz st) \<in> {INFLATE_FIXED, INFLATE_DYNAMIC} \<and> block_len (gz st) = 1 \<and> code_state (gz st) = 0 \<and>
       coded_tables ll dl (gz st)
   | _ \<Rightarrow> False)"

definition header_keep :: "('f, 'w) files \<Rightarrow> ('f, 'w) files \<Rightarrow> bool" where
  "header_keep st st' \<longleftrightarrow> slide (gz st') = slide (gz st) \<and> wp (gz st') = wp (gz st) \<and> saved_filepos (gz st') = saved_filepos (gz st) \<and>
     gzip_filepos (gz st') = gzip_filepos (gz st) \<and> gzip_filemax (gz st') = gzip_filemax (gz st) \<and> gzip_fsmax (gz st') = gzip_fsmax (gz st) \<and>
     gzip_data_offset (gz st') = gzip_data_offset (gz st) \<and> compressed_file st' = compressed_file st \<and>
     errnum (dev st') = errnum (dev st) \<and> filemax (dev st') = filemax (dev st) \<and> fsmax (dev st') = fsmax (dev st)"

lemma header_keep_refl [simp]: "header_keep st st"
  by (simp add: header_keep_def)

lemma header_keep_trans: "header_keep x y \<Longrightarrow> header_keep y z \<Longrightarrow> header_keep x z"
  by (simp add: header_keep_def)

lemma io_header_keep: "io_step st st' \<Longrightarrow> header_keep st st'"
  by (simp add: header_keep_def io_step_gz)

lemma need_bits_bound: "need_bits E n b k st = Some (b', k', st') \<Longrightarrow> k' \<le> max k (n + 7)"
proof (induction "n - k" arbitrary: b k st rule: less_induct)
  case less
  show ?case
  proof (cases "k < n")
    case True
    then obtain c st1 where c: "get_byte E st = Some (c, st1)" "need_bits E n (take_bit 32 (b OR push_bit k (unat c))) (k + 8) st1 = Some (b', k', st')"
      using less.prems by (subst (asm) need_bits.simps) (auto split: bind_splits)
    then show ?thesis using less.hyps [OF _ c(2)] True by (auto simp: max_def split: if_splits)
  next
    case False
    then show ?thesis using less.prems by (subst (asm) need_bits.simps) auto
  qed
qed

lemma fixed_runs: "fixed_lengths = replicate 144 8 @ replicate 112 9 @ replicate 24 7 @ replicate 8 8"
  by code_simp

lemma wsum_replicate: "wsum g (replicate n x) = n * 2 ^ (g - x)"
  by (induction n) auto

lemma fixed_good: "decodable fixed_lengths 7" "complete_codes fixed_lengths" "decodable (replicate 30 5) 5"
proof -
  have s: "set fixed_lengths = {7, 8, 9}" unfolding fixed_runs by auto
  then have f: "filter (\<lambda>x. x \<noteq> 0) fixed_lengths = fixed_lengths" by (intro filter_True) auto
  have "wsum 16 fixed_lengths = 2 ^ 16" unfolding fixed_runs by (simp add: wsum_replicate)
  then show c: "complete_codes fixed_lengths" unfolding complete_codes_def code_space_def f .
  show "decodable fixed_lengths 7" using c s by (simp add: decodable_def complete_codes_def)
  show "decodable (replicate 30 5) 5"
    unfolding decodable_def code_space_def by (simp add: wsum_replicate filter_replicate)
qed

lemma base_lists_ok: "length b \<le> 288 \<Longrightarrow> base_lists b 257 cplens cplext" "length b \<le> 30 \<Longrightarrow> base_lists b 0 cpdist cpdext" "length b \<le> s \<Longrightarrow> base_lists b s [] []"
proof -
  have "\<forall>x\<in>set cplext. x \<le> 16 \<or> x = 99" "length cplens = 31" "length cplext = 31" by (simp_all add: cplens_def cplext_def)
  then show "length b \<le> 288 \<Longrightarrow> base_lists b 257 cplens cplext" by (simp add: base_lists_def)
  have "\<forall>x\<in>set cpdext. x \<le> 16 \<or> x = 99" "length cpdist = 30" "length cpdext = 30" by (simp_all add: cpdist_def cpdext_def)
  then show "length b \<le> 30 \<Longrightarrow> base_lists b 0 cpdist cpdext" by (simp add: base_lists_def)
qed (simp add: base_lists_def)

lemma lookup_bits_16: "decodable b m \<Longrightarrow> lookup_bits b m \<le> 16"
  using length_bounds(5) [of b] by (auto simp: decodable_def lookup_bits_def Let_def)

lemma build_tl_ok:
  assumes "decodable b m" "base_lists b s d e"
  shows "\<exists>root L'. build_tl E b s d e m st = Some (if complete_codes b \<or> longest b = 1 then 0 else 1,
      upd_gz (\<lambda>g. g\<lparr>huft_tl := Some root, huft_bl := lookup_bits b m, linmem := L'\<rparr>) st) \<and>
    (\<forall>T. (\<forall>q<ntables L'. T q = tables L' q) \<longrightarrow> decodes T root (lookup_bits b m) b s d e)"
  using huft_build_tables [OF assms, of "stack_junk E st" "huft_tl (gz st)" "linmem (gz st)"] unfolding build_tl_def
  apply (elim exE conjE)
  subgoal for root L' by (intro exI [of _ root] exI [of _ L']) simp
  done

lemma build_td_ok:
  assumes "decodable b m" "base_lists b s d e"
  shows "\<exists>root L'. build_td E b s d e m st = Some (if complete_codes b \<or> longest b = 1 then 0 else 1,
      upd_gz (\<lambda>g. g\<lparr>huft_td := Some root, huft_bd := lookup_bits b m, linmem := L'\<rparr>) st) \<and>
    (\<forall>q<ntables (linmem (gz st)). tables L' q = tables (linmem (gz st)) q) \<and>
    decodes (tables L') root (lookup_bits b m) b s d e"
  using huft_build_tables [OF assms, of "stack_junk E st" "huft_td (gz st)" "linmem (gz st)"] unfolding build_td_def
  apply (elim exE conjE)
  subgoal for root L' by (intro exI [of _ root] exI [of _ L']) simp
  done

text \<open>Both tables of a coded block.\<close>

definition table_step :: "('f, 'w) files \<Rightarrow> ('f, 'w) files \<Rightarrow> bool" where
  "table_step st st' \<longleftrightarrow> (\<exists>tl bl td bd L. st' = upd_gz (\<lambda>g. g\<lparr>huft_tl := tl, huft_bl := bl, huft_td := td, huft_bd := bd, linmem := L\<rparr>) st)"

lemma both_tables:
  assumes "decodable ll m" "complete_codes ll \<or> longest ll = 1" "length ll \<le> 288" "decodable dl m'" "length dl \<le> 30"
  shows "\<exists>st1 st2. build_tl E ll 257 cplens cplext m st = Some (0, st1) \<and>
    build_td E dl 0 cpdist cpdext m' st1 = Some (if complete_codes dl \<or> longest dl = 1 then 0 else 1, st2) \<and>
    coded_tables ll dl (gz st2) \<and> table_step st st2"
proof -
  obtain tl L1 where t: "build_tl E ll 257 cplens cplext m st = Some (0, upd_gz (\<lambda>g. g\<lparr>huft_tl := Some tl, huft_bl := lookup_bits ll m, linmem := L1\<rparr>) st)"
      "\<And>T. (\<forall>q<ntables L1. T q = tables L1 q) \<Longrightarrow> decodes T tl (lookup_bits ll m) ll 257 cplens cplext"
    using build_tl_ok [OF assms(1) base_lists_ok(1) [OF assms(3)], of E st] assms(2) by auto
  define st1 where "st1 = upd_gz (\<lambda>g. g\<lparr>huft_tl := Some tl, huft_bl := lookup_bits ll m, linmem := L1\<rparr>) st"
  obtain td L2 where d: "build_td E dl 0 cpdist cpdext m' st1 = Some (if complete_codes dl \<or> longest dl = 1 then 0 else 1,
        upd_gz (\<lambda>g. g\<lparr>huft_td := Some td, huft_bd := lookup_bits dl m', linmem := L2\<rparr>) st1)"
      "\<forall>q<ntables (linmem (gz st1)). tables L2 q = tables (linmem (gz st1)) q" "decodes (tables L2) td (lookup_bits dl m') dl 0 cpdist cpdext"
    using build_td_ok [OF assms(4) base_lists_ok(2) [OF assms(5)], of E st1] by blast
  define st2 where "st2 = upd_gz (\<lambda>g. g\<lparr>huft_td := Some td, huft_bd := lookup_bits dl m', linmem := L2\<rparr>) st1"
  have "decodes (tables L2) tl (lookup_bits ll m) ll 257 cplens cplext" using t(2) d(2) by (simp add: st1_def)
  then have "coded_tables ll dl (gz st2)"
    using d(3) lookup_bits_16 [OF assms(1)] lookup_bits_16 [OF assms(4)] assms(1,4) by (auto simp: coded_tables_def st2_def st1_def decodable_def)
  moreover have "st2 = upd_gz (\<lambda>g. g\<lparr>huft_tl := Some tl, huft_bl := lookup_bits ll m, huft_td := Some td, huft_bd := lookup_bits dl m', linmem := L2\<rparr>) st"
    by (simp add: st2_def st1_def)
  ultimately show ?thesis using t(1) d(1) unfolding st1_def [symmetric] st2_def [symmetric] table_step_def by blast
qed

lemma fixed_block_tables:
  "\<exists>st'. init_fixed_block E st = Some (start_codes st') \<and> coded_tables fixed_lengths (replicate 30 5) (gz st') \<and> table_step st st'"
proof -
  have "length fixed_lengths \<le> 288" by (simp add: fixed_lengths_def)
  then obtain st1 st2 where t: "build_tl E fixed_lengths 257 cplens cplext 7 st = Some (0, st1)"
      "build_td E (replicate 30 5) 0 cpdist cpdext 5 st1 = Some (if complete_codes (replicate 30 5) \<or> longest (replicate 30 5) = 1 then 0 else 1, st2)"
      "coded_tables fixed_lengths (replicate 30 5) (gz st2)" "table_step st st2"
    using both_tables [of fixed_lengths 7 "replicate 30 5" 5 E st] fixed_good by auto
  then have "init_fixed_block E st = Some (start_codes st2)" by (simp add: init_fixed_block_def)
  then show ?thesis using t(3,4) by (intro exI [of _ st2]) simp
qed

lemma table_step_keep: "table_step st st' \<Longrightarrow> header_keep st st' \<and> block_len (gz st') = block_len (gz st) \<and>
    block_type (gz st') = block_type (gz st) \<and> gzip_vars.last_block (gz st') = gzip_vars.last_block (gz st) \<and>
    bb (gz st') = bb (gz st) \<and> bk (gz st') = bk (gz st)"
  by (auto simp: table_step_def header_keep_def)

lemma start_codes_keep: "header_keep st (start_codes st)"
  by (simp add: header_keep_def start_codes_def)

lemma coded_start: "coded_tables ll dl (gz (start_codes st)) = coded_tables ll dl (gz st)"
  by (simp add: start_codes_def coded_tables_def)

lemma not_low_bits: "NOT (int b) AND 65535 = 65535 - int (b mod 2 ^ 16)"
proof -
  have "NOT (int b) AND 65535 = take_bit 16 (NOT (int b))" by (simp add: take_bit_eq_mask mask_eq_exp_minus_1)
  also have "\<dots> = 65535 - take_bit 16 (int b)" by (simp add: take_bit_not_eq_mask_diff mask_eq_exp_minus_1)
  finally show ?thesis by (simp add: take_bit_eq_mod zmod_int)
qed

lemma walk_pos: "walk T q bits B n r \<Longrightarrow> 0 < n"
  by (induction rule: walk.induct) auto

context file_reader
begin

lemma table_step_bits: "table_step st st' \<Longrightarrow> bits_at file_at data F P b k st \<Longrightarrow> bits_at file_at data F P b k st'"
  unfolding table_step_def by (elim exE, hypsubst, rule bits_at_gz) auto

lemma reset_bits: "bits_at file_at data F P b k st \<Longrightarrow> bits_at file_at data F P b k (reset_linalloc E' st)"
  unfolding reset_linalloc_def Let_def by (rule bits_at_gz) auto

lemma start_codes_bits: "bits_at file_at data F P b k st \<Longrightarrow> bits_at file_at data F P b k (start_codes st)"
  unfolding start_codes_def by (rule bits_at_gz) auto

text \<open>A stored block starts on a byte.\<close>

lemma init_stored_ok:
  assumes "bits_at file_at data F P (bb (gz st)) (bk (gz st)) st" "p = (P + 7) div 8" "n = fnat data (8 * p) 16" "fnat data (8 * p + 16) 16 = 65535 - n"
    "8 * p + 64 \<le> 8 * F"
  shows "\<exists>st'. init_stored_block E st = Some st' \<and> bits_at file_at data F (8 * p + 32) (bb (gz st')) (bk (gz st')) st' \<and> header_keep st st' \<and>
    block_len (gz st') = int n \<and> bk (gz st') = 0 \<and> block_type (gz st') = block_type (gz st) \<and>
    gzip_vars.last_block (gz st') = gzip_vars.last_block (gz st)"
proof -
  define b k where "b = bb (gz st)" and "k = bk (gz st)"
  have bits: "bits_at file_at data F P b k st" using assms(1) by (simp add: b_def k_def)
  then obtain q where q: "P + k = 8 * q" by (auto simp: bits_at_def)
  have k7: "k AND 7 = k mod 8" using low_masks(3) [of k] by simp
  have le: "k mod 8 \<le> k" by simp
  obtain t u where tu: "k = 8 * u + t" "t < 8" "k mod 8 = t" using mult_div_mod_eq [of 8 k] by (metis mod_less_divisor zero_less_numeral)
  have pt: "P + t = 8 * (q - u)" using q tu(1) by simp
  then have "P + 7 = (7 - t) + 8 * (q - u)" using tu(2) by simp
  then have "p = q - u" unfolding assms(2) using tu(2) by simp
  then have p: "P + k mod 8 = 8 * p" using pt tu(3) by simp
  note d = dump_bits_ok [OF bits le, unfolded p]
  define b1 k1 where "b1 = drop_bit (k mod 8) b" and "k1 = k - k mod 8"
  have d1: "dump_bits (k AND 7) b k = (b1, k1)" "bits_at file_at data F (8 * p) b1 k1 st" using d by (simp_all add: k7 b1_def k1_def)
  have k1: "k1 mod 8 = 0" by (simp add: k1_def)
  obtain b2 k2 st2 where n1: "need_bits E 16 b1 k1 st = Some (b2, k2, st2)" "bits_at file_at data F (8 * p) b2 k2 st2" "16 \<le> k2" "io_step st st2"
    using need_bits_ok [OF d1(2), of 16] assms(5) by auto
  have v1: "b2 AND 65535 = n" using bits_value [OF n1(2,3)] low_masks(6) [of b2] assms(3) by simp
  note d2 = dump_bits_ok [OF n1(2,3)]
  define st3 where "st3 = upd_gz (\<lambda>g. g\<lparr>block_len := int n\<rparr>) st2"
  have b3: "bits_at file_at data F (8 * p + 16) (drop_bit 16 b2) (k2 - 16) st3" unfolding st3_def by (rule bits_at_gz [OF d2(2)]) auto
  obtain b4 k4 st4 where n2: "need_bits E 16 (drop_bit 16 b2) (k2 - 16) st3 = Some (b4, k4, st4)" "bits_at file_at data F (8 * p + 16) b4 k4 st4" "16 \<le> k4" "io_step st3 st4"
    using need_bits_ok [OF b3, of 16] assms(5) by auto
  have v2: "b4 mod 2 ^ 16 = 65535 - n" using bits_value [OF n2(2,3)] assms(4) by simp
  note d4 = dump_bits_ok [OF n2(2,3)]
  define st' where "st' = upd_gz (\<lambda>g. g\<lparr>bb := drop_bit 16 b4, bk := k4 - 16\<rparr>) st4"
  have k4: "k4 = 16"
  proof -
    have "k2 mod 8 = 0" using n1(2) by (auto simp: bits_at_def) presburger
    moreover have "k4 mod 8 = 0" using n2(2) by (auto simp: bits_at_def) presburger
    moreover have "k2 \<le> 24"
    proof -
      have "k < 32" using bits by (auto simp: bits_at_def)
      moreover have "k1 = 8 * u" using tu by (simp add: k1_def)
      ultimately have "k1 \<le> 24" using tu(1) by simp
      then show ?thesis using need_bits_bound [OF n1(1)] by (auto simp: max_def split: if_splits)
    qed
    ultimately show ?thesis using need_bits_bound [OF n2(1)] n2(3) by (simp add: max_def split: if_splits) presburger+
  qed
  have n16: "n < 65536" using fnat_less [of data "8 * p" 16] assms(3) by simp
  have st': "init_stored_block E st = Some st'"
    using d1(1) n1(1) n2(1) d2(1) d4(1) v1 not_low_bits [of b4] v2 n16
    unfolding init_stored_block_def b_def [symmetric] k_def [symmetric] st'_def st3_def by simp
  have bits': "bits_at file_at data F (8 * p + 32) (bb (gz st')) (bk (gz st')) st'"
    unfolding st'_def using bits_at_gz [OF d4(2), of "(gz st4)\<lparr>bb := drop_bit 16 b4, bk := k4 - 16\<rparr>"] by (simp add: add.assoc)
  have keep: "header_keep st st'"
    using io_header_keep [OF n1(4)] io_header_keep [OF n2(4)] by (simp add: st'_def st3_def header_keep_def)
  show ?thesis
    using st' bits' keep k4 io_step_gz(7,8,10) [OF n1(4)] io_step_gz(7,8,10) [OF n2(4)] by (intro exI [of _ st']) (simp add: st'_def st3_def)
qed

end

text \<open>The code length alphabet: the table has one level.\<close>

lemma bitorder_perm: "distinct bitorder" "length bitorder = 19"
  by (simp_all add: bitorder_def)

lemma in_order: "distinct js \<Longrightarrow> nb \<le> length js \<Longrightarrow> i < nb \<Longrightarrow> filter (\<lambda>j. js ! j = js ! i) [0..<nb] = [i]"
proof -
  assume d: "distinct js" "nb \<le> length js" "i < nb"
  have "filter (\<lambda>j. js ! j = js ! i) [0..<nb] = filter (\<lambda>j. j = i) [0..<nb]"
    using d by (intro filter_cong) (auto simp: nth_eq_iff_index_eq)
  also have "\<dots> = [i]" using d(3) by (induction nb) (auto simp: less_Suc_eq)
  finally show ?thesis .
qed

lemma code_lengths_eq:
  assumes "nb \<le> 19" "\<And>i. i < nb \<Longrightarrow> ll (bitorder ! i) = fnat data (P + 3 * i) 3" "\<And>y. y \<notin> set (take nb bitorder) \<Longrightarrow> ll y = 0"
  shows "map ll [0..<19] = code_lengths data P nb"
  unfolding code_lengths_def
proof (rule map_cong [OF refl])
  fix y :: nat assume "y \<in> set [0..<19]"
  show "ll y = (case filter (\<lambda>j. bitorder ! j = y) [0..<nb] of [] \<Rightarrow> 0 | j # _ \<Rightarrow> fnat data (P + 3 * j) 3)"
  proof (cases "y \<in> set (take nb bitorder)")
    case True
    then obtain i where i: "i < nb" "bitorder ! i = y" using assms(1) by (auto simp: in_set_conv_nth)
    then show ?thesis using in_order [OF bitorder_perm(1), of nb i] assms(1,2) bitorder_perm(2) by auto
  next
    case False
    then have "filter (\<lambda>j. bitorder ! j = y) [0..<nb] = []"
      using assms(1) by (auto simp: filter_empty_conv in_set_conv_nth bitorder_perm(2))
    then show ?thesis using assms(3) [OF False] by simp
  qed
qed

context file_reader
begin

lemma read_bit_lengths_ok:
  assumes "bits_at file_at data F P b k st" "distinct js" "P + 3 * length js \<le> 8 * F"
  shows "\<exists>ll' b' k' st'. read_bit_lengths E js ll b k st = Some (ll', b', k', st') \<and>
    bits_at file_at data F (P + 3 * length js) b' k' st' \<and> io_step st st' \<and>
    (\<forall>i<length js. ll' (js ! i) = fnat data (P + 3 * i) 3) \<and> (\<forall>y. y \<notin> set js \<longrightarrow> ll' y = ll y)"
  using assms
proof (induction js arbitrary: P b k st ll)
  case Nil
  then show ?case by simp
next
  case (Cons j js)
  obtain b1 k1 st1 where n: "need_bits E 3 b k st = Some (b1, k1, st1)" "bits_at file_at data F P b1 k1 st1" "3 \<le> k1" "io_step st st1"
    using need_bits_ok [OF Cons.prems(1), of 3] Cons.prems(3) by auto
  note d = dump_bits_ok [OF n(2,3)]
  have v: "b1 AND 7 = fnat data P 3" using bits_value [OF n(2,3)] low_masks(3) [of b1] by simp
  obtain ll' b' k' st' where r: "read_bit_lengths E js (ll(j := b1 AND 7)) (drop_bit 3 b1) (k1 - 3) st1 = Some (ll', b', k', st')"
      "bits_at file_at data F (P + 3 + 3 * length js) b' k' st'" "io_step st1 st'"
      "\<forall>i<length js. ll' (js ! i) = fnat data (P + 3 + 3 * i) 3" "\<forall>y. y \<notin> set js \<longrightarrow> ll' y = (ll(j := b1 AND 7)) y"
    using Cons.IH [OF d(2), of "ll(j := b1 AND 7)"] Cons.prems(2,3) by (auto simp del: fun_upd_apply)
  have j: "ll' j = fnat data P 3" using r(5) Cons.prems(2) v by simp
  have "\<forall>i<length (j # js). ll' ((j # js) ! i) = fnat data (P + 3 * i) 3"
    using r(4) j by (auto simp: nth_Cons less_Suc_eq_0_disj algebra_simps split: nat.split)
  moreover have "\<forall>y. y \<notin> set (j # js) \<longrightarrow> ll' y = ll y" using r(5) by auto
  moreover have "read_bit_lengths E (j # js) ll b k st = Some (ll', b', k', st')" using n(1) d(1) r(1) by simp
  moreover have "P + 3 + 3 * length js = P + 3 * length (j # js)" by simp
  ultimately show ?case using r(2) io_step_trans [OF n(4) r(3)] by metis
qed

text \<open>One lookup in the table of the code length alphabet.\<close>

lemma length_symbol:
  assumes "bits_at file_at data F P b k st" "code_at data P cl y" "decodes (tables (linmem (gz st))) root l cl 19 [] []"
    "\<forall>x\<in>set cl. x \<le> l" "l \<le> 16" "length cl = 19" "P + 32 \<le> 8 * F"
  shows "\<exists>b1 k1 st1 t. need_bits E l b k st = Some (b1, k1, st1) \<and> io_step st st1 \<and> entry_at st1 root (b1 AND mask_bits l) = t \<and>
    hf_v t = Num y \<and> dump_bits (hf_b t) b1 k1 = (drop_bit (hf_b t) b1, k1 - hf_b t) \<and>
    bits_at file_at data F (P + cl ! y) (drop_bit (hf_b t) b1) (k1 - hf_b t) st1"
proof -
  have y: "y < 19" "cl ! y \<le> l" using assms(2,4,6) by (auto simp: code_at_def)
  obtain b1 k1 st1 where n: "need_bits E l b k st = Some (b1, k1, st1)" "bits_at file_at data F P b1 k1 st1" "l \<le> k1" "io_step st st1"
    using need_bits_ok [OF assms(1), of l] assms(5,7) by auto
  obtain r where r: "symbol_entry 19 [] [] y r" "walk (tables (linmem (gz st))) root l (fnat data P l) (cl ! y) r"
    using code_at_walk [OF assms(2,3) y(2)] by blast
  have "tables (linmem (gz st)) root (fnat data P l mod 2 ^ l) = r \<and> hf_b r = cl ! y"
    using r(2)
  proof cases
    case (walk_node t m q' n)
    then have "l < cl ! y" using walk_pos [of _ _ _ _ n r] by auto
    then show ?thesis using y(2) by simp
  qed simp
  moreover have "b1 AND mask_bits l = fnat data P l mod 2 ^ l"
    using bits_value [OF n(2,3)] and_mask_bits [OF assms(5), of b1] fnat_less [of data P l] by simp
  ultimately have e: "entry_at st1 root (b1 AND mask_bits l) = r" "hf_b r = cl ! y" using io_step_gz(1) [OF n(4)] by auto
  have "hf_b r \<le> k1" using e(2) y(2) n(3) by simp
  from dump_bits_ok [OF n(2) this] show ?thesis
    using n(1,4) e r(1) y(1) by (intro exI [of _ b1] exI [of _ k1] exI [of _ st1] exI [of _ r]) (simp add: symbol_entry_def)
qed

lemma read_lengths_ok:
  assumes "lens_at data cl n P ls P' ls'" "bits_at file_at data F P b k st" "\<forall>p<length ls. ll p = ls ! p" "ls \<noteq> [] \<longrightarrow> l = last ls"
    "huft_tl (gz st) = Some root" "huft_bl (gz st) = lb" "decodes (tables (linmem (gz st))) root lb cl 19 [] []"
    "\<forall>x\<in>set cl. x \<le> lb" "lb \<le> 16" "length cl = 19" "P' + 32 \<le> 8 * F"
  shows "\<exists>ll' b' k' st'. read_lengths E n (length ls) l ll b k st = Some (False, ll', b', k', st') \<and>
    bits_at file_at data F P' b' k' st' \<and> io_step st st' \<and> (\<forall>p<n. ll' p = ls' ! p)"
  using assms
proof (induction arbitrary: ll l b k st rule: lens_at.induct)
  case (lens_done ls P)
  then show ?case by (subst read_lengths.simps) auto
next
  case (lens_one ls P y P' ls')
  have P: "P + 32 \<le> 8 * F" "P + cl ! y \<le> P'" using lens_at_le [OF lens_one.hyps(4)] lens_one.prems(10) by auto
  obtain b1 k1 st1 t where t: "need_bits E lb b k st = Some (b1, k1, st1)" "io_step st st1" "entry_at st1 root (b1 AND mask_bits lb) = t"
      "hf_v t = Num y" "dump_bits (hf_b t) b1 k1 = (drop_bit (hf_b t) b1, k1 - hf_b t)"
      "bits_at file_at data F (P + cl ! y) (drop_bit (hf_b t) b1) (k1 - hf_b t) st1"
    using length_symbol [OF lens_one.prems(1) lens_one.hyps(2) lens_one.prems(6-9) P(1)] by blast
  have step: "read_lengths E n (length ls) l ll b k st =
      read_lengths E n (length (ls @ [y])) y (ll(length ls := y)) (drop_bit (hf_b t) b1) (k1 - hf_b t) st1"
    using lens_one.hyps(1,3) t(1,3-5) lens_one.prems(4,5) io_step_gz(2) [OF t(2)]
    by (subst read_lengths.simps) (simp del: fun_upd_apply)
  have "\<forall>p<length (ls @ [y]). (ll(length ls := y)) p = (ls @ [y]) ! p" using lens_one.prems(2) by (auto simp: nth_append)
  then show ?case unfolding step
    using lens_one.IH [OF t(6), of "ll(length ls := y)" y] lens_one.prems(4-10) io_step_gz(1,2,4) [OF t(2)] io_step_trans [OF t(2)]
    by (simp del: fun_upd_apply length_append) blast
next
  case (lens_repeat ls P y x bits base j P' ls')
  have P: "P + 32 \<le> 8 * F" "P + cl ! y + bits \<le> P'" using lens_at_le [OF lens_repeat.hyps(7)] lens_repeat.prems(10) by auto
  have y: "\<not> y < 16" "repeat_code y = (bits, base)" "0 < base" "bits \<le> 16" using lens_repeat.hyps(3,4) by (auto simp: repeat_code_def split: if_splits)
  obtain b1 k1 st1 t where t: "need_bits E lb b k st = Some (b1, k1, st1)" "io_step st st1" "entry_at st1 root (b1 AND mask_bits lb) = t"
      "hf_v t = Num y" "dump_bits (hf_b t) b1 k1 = (drop_bit (hf_b t) b1, k1 - hf_b t)"
      "bits_at file_at data F (P + cl ! y) (drop_bit (hf_b t) b1) (k1 - hf_b t) st1"
    using length_symbol [OF lens_repeat.prems(1) lens_repeat.hyps(2) lens_repeat.prems(6-9) P(1)] by blast
  obtain b3 k3 st3 where e: "need_bits E bits (drop_bit (hf_b t) b1) (k1 - hf_b t) st1 = Some (b3, k3, st3)" "b3 AND mask_bits bits = fnat data (P + cl ! y) bits"
      "dump_bits bits b3 k3 = (drop_bit bits b3, k3 - bits)" "bits_at file_at data F (P + cl ! y + bits) (drop_bit bits b3) (k3 - bits) st3" "io_step st1 st3"
    using extra_bits_ok [OF t(6) y(4)] P(2) lens_repeat.prems(10) by auto
  have io: "io_step st st3" using io_step_trans [OF t(2) e(5)] .
  have x: "(if y = 16 then l else 0) = x" using lens_repeat.hyps(3) lens_repeat.prems(3) by auto
  have le: "\<not> length ls + (base + fnat data (P + cl ! y) bits) > n" using lens_repeat.hyps(5,6) by simp
  have step: "read_lengths E n (length ls) l ll b k st =
      read_lengths E n (length (ls @ replicate j x)) x (fill_lengths (length ls) j x ll) (drop_bit bits b3) (k3 - bits) st3"
    using lens_repeat.hyps(1,5) t(1,3-5) e(1-3) y lens_repeat.prems(4,5) io_step_gz(2) [OF t(2)] x le
    by (subst read_lengths.simps) (simp add: Let_def del: fun_upd_apply)
  have f: "\<forall>p<length (ls @ replicate j x). fill_lengths (length ls) j x ll p = (ls @ replicate j x) ! p"
    using lens_repeat.prems(2) by (auto simp: fill_lengths_def nth_append)
  have "last (ls @ replicate j x) = x" using y(3) lens_repeat.hyps(5) by (simp add: last_append)
  then show ?case unfolding step
    using lens_repeat.IH [OF e(4) f, of x] lens_repeat.prems(4-10) io_step_gz(1,2,4) [OF io] io_step_trans [OF io]
    by (simp del: length_append) blast
qed

end

lemma single_level:
  assumes "decodable cl 7" "\<forall>x\<in>set cl. x \<le> 7"
  shows "\<forall>x\<in>set cl. x \<le> lookup_bits cl 7" "lookup_bits cl 7 \<le> 16"
proof -
  note b = length_bounds [of cl]
  have d: "\<forall>x\<in>set cl. x \<le> 16" "\<exists>x\<in>set cl. x \<noteq> 0" using assms(1) by (auto simp: decodable_def)
  have "longest cl \<le> 7" "shortest cl \<le> longest cl" using b(3,4) [OF d] assms(2) by auto
  then have "lookup_bits cl 7 = longest cl" by (simp add: lookup_bits_def)
  then show "\<forall>x\<in>set cl. x \<le> lookup_bits cl 7" "lookup_bits cl 7 \<le> 16" using b(5,6) [OF d] by (fastforce, simp)
qed

lemma code_lengths_small: "\<forall>x\<in>set (code_lengths data P nb). x \<le> 7" "length (code_lengths data P nb) = 19"
proof -
  have "fnat data q 3 \<le> 7" for q using fnat_less [of data q 3] by simp
  then show "\<forall>x\<in>set (code_lengths data P nb). x \<le> 7" by (auto simp: code_lengths_def split: list.splits)
qed (simp add: code_lengths_def)

lemma build_dynamic_ok:
  assumes "good_code ll 9" "good_code dl 6" "length ll \<le> 288" "length dl \<le> 30" "\<forall>p<length ll + length dl. f p = (ll @ dl) ! p"
  shows "\<exists>st'. build_dynamic E (length ll) (length dl) f st = Some (start_codes st') \<and> coded_tables ll dl (gz st') \<and> table_step st st'"
proof -
  have l: "map f [0..<length ll] = ll" using assms(5) by (intro nth_equalityI) (auto simp: nth_append)
  have d: "map (\<lambda>j. f (length ll + j)) [0..<length dl] = dl" using assms(5) by (intro nth_equalityI) (auto simp: nth_append)
  obtain st1 st2 where t: "build_tl E ll 257 cplens cplext 9 st = Some (0, st1)"
      "build_td E dl 0 cpdist cpdext 6 st1 = Some (if complete_codes dl \<or> longest dl = 1 then 0 else 1, st2)"
      "coded_tables ll dl (gz st2)" "table_step st st2"
    using both_tables [of ll 9 dl 6 E st] assms(1-4) by (auto simp: good_code_def)
  have "build_dynamic E (length ll) (length dl) f st = Some (start_codes st2)"
    using t(1,2) assms(2) by (simp add: build_dynamic_def l d lbits_def dbits_def good_code_def)
  then show ?thesis using t(3,4) by blast
qed

context file_reader
begin

text \<open>A field of the header: \<open>n\<close> bits are read and dumped.\<close>

lemma field_ok:
  assumes "bits_at file_at data F P b k st" "n \<le> 16" "P + n \<le> 8 * F"
  shows "\<exists>b1 k1 st1. need_bits E n b k st = Some (b1, k1, st1) \<and> b1 mod 2 ^ n = fnat data P n \<and>
    dump_bits n b1 k1 = (drop_bit n b1, k1 - n) \<and> bits_at file_at data F (P + n) (drop_bit n b1) (k1 - n) st1 \<and> io_step st st1"
  using extra_bits_ok [OF assms] by blast

lemma init_dynamic_ok:
  assumes "bits_at file_at data F P (bb (gz st)) (bk (gz st)) st" "dynamic_header data P ll dl P'" "P' + 64 \<le> 8 * F"
  shows "\<exists>st'. init_dynamic_block E st = Some (start_codes st') \<and> bits_at file_at data F P' (bb (gz st')) (bk (gz st')) st' \<and> header_keep st st' \<and>
    coded_tables ll dl (gz st') \<and> block_len (gz st') = block_len (gz st) \<and> block_type (gz st') = block_type (gz st) \<and>
    gzip_vars.last_block (gz st') = gzip_vars.last_block (gz st)"
proof -
  define nl nd nb where "nl = 257 + fnat data P 5" and "nd = 1 + fnat data (P + 5) 5" and "nb = 4 + fnat data (P + 10) 4"
  define cl where "cl = code_lengths data (P + 14) nb"
  have h: "nl \<le> 286" "nd \<le> 30" "nb \<le> 19" "good_code cl 7" "lens_at data cl (nl + nd) (P + 14 + 3 * nb) [] P' (ll @ dl)"
      "length ll = nl" "length dl = nd" "good_code ll 9" "good_code dl 6"
    using assms(2) unfolding dynamic_header_def Let_def nl_def [symmetric] nd_def [symmetric] nb_def [symmetric] cl_def [symmetric] by auto
  have P: "P + 14 + 3 * nb \<le> 8 * F" using lens_at_le [OF h(5)] assms(3) by simp
  obtain b1 k1 st1 where f1: "need_bits E 5 (bb (gz st)) (bk (gz st)) st = Some (b1, k1, st1)" "b1 mod 2 ^ 5 = fnat data P 5"
      "dump_bits 5 b1 k1 = (drop_bit 5 b1, k1 - 5)" "bits_at file_at data F (P + 5) (drop_bit 5 b1) (k1 - 5) st1" "io_step st st1"
    using field_ok [OF assms(1), of 5] P by auto
  obtain b2 k2 st2 where f2: "need_bits E 5 (drop_bit 5 b1) (k1 - 5) st1 = Some (b2, k2, st2)" "b2 mod 2 ^ 5 = fnat data (P + 5) 5"
      "dump_bits 5 b2 k2 = (drop_bit 5 b2, k2 - 5)" "bits_at file_at data F (P + 5 + 5) (drop_bit 5 b2) (k2 - 5) st2" "io_step st1 st2"
    using field_ok [OF f1(4), of 5] P by auto
  obtain b3 k3 st3 where f3: "need_bits E 4 (drop_bit 5 b2) (k2 - 5) st2 = Some (b3, k3, st3)" "b3 mod 2 ^ 4 = fnat data (P + 5 + 5) 4"
      "dump_bits 4 b3 k3 = (drop_bit 4 b3, k3 - 4)" "bits_at file_at data F (P + 5 + 5 + 4) (drop_bit 4 b3) (k3 - 4) st3" "io_step st2 st3"
    using field_ok [OF f2(4), of 4] P by auto
  have nums: "257 + (b1 AND 0x1f) = nl" "1 + (b2 AND 0x1f) = nd" "4 + (b3 AND 0xf) = nb"
    using f1(2) f2(2) f3(2) low_masks(4) [of b3] low_masks(5) [of b1] low_masks(5) [of b2] by (simp_all add: nl_def nd_def nb_def add.commute)
  have P3: "P + 5 + 5 + 4 = P + 14" by simp
  define js where "js = take nb bitorder"
  have js: "distinct js" "length js = nb" "\<And>i. i < nb \<Longrightarrow> js ! i = bitorder ! i" using h(3) bitorder_perm by (simp_all add: js_def)
  obtain f4 b4 k4 st4 where r4: "read_bit_lengths E js (\<lambda>_. 0) (drop_bit 4 b3) (k3 - 4) st3 = Some (f4, b4, k4, st4)"
      "bits_at file_at data F (P + 14 + 3 * nb) b4 k4 st4" "io_step st3 st4"
      "\<forall>i<nb. f4 (js ! i) = fnat data (P + 14 + 3 * i) 3" "\<forall>y. y \<notin> set js \<longrightarrow> f4 y = 0"
    using read_bit_lengths_ok [OF f3(4) js(1), of "\<lambda>_. 0"] P js(2) unfolding P3 by auto
  have cl: "map f4 [0..<19] = cl" unfolding cl_def using r4(4,5) js(3) by (intro code_lengths_eq [OF h(3)]) (auto simp: js_def)
  have good: "decodable cl 7" "complete_codes cl \<or> longest cl = 1" using h(4) by (auto simp: good_code_def)
  obtain root L where t: "build_tl E cl 19 [] [] 7 st4 = Some (0, upd_gz (\<lambda>g. g\<lparr>huft_tl := Some root, huft_bl := lookup_bits cl 7, linmem := L\<rparr>) st4)"
      "decodes (tables L) root (lookup_bits cl 7) cl 19 [] []"
    using build_tl_ok [OF good(1) base_lists_ok(3) [of cl 19], of E st4] good(2) code_lengths_small(2) by (auto simp: cl_def)
  define st5 where "st5 = upd_gz (\<lambda>g. g\<lparr>huft_tl := Some root, huft_bl := lookup_bits cl 7, linmem := L\<rparr>) st4"
  have b5: "bits_at file_at data F (P + 14 + 3 * nb) b4 k4 st5" unfolding st5_def by (rule bits_at_gz [OF r4(2)]) auto
  obtain f6 b6 k6 st6 where r6: "read_lengths E (nl + nd) 0 0 f4 b4 k4 st5 = Some (False, f6, b6, k6, st6)"
      "bits_at file_at data F P' b6 k6 st6" "io_step st5 st6" "\<forall>p<nl + nd. f6 p = (ll @ dl) ! p"
    using read_lengths_ok [OF h(5) b5, of f4 0 root "lookup_bits cl 7"] t(2) single_level [OF good(1)] code_lengths_small assms(3)
    by (auto simp: st5_def cl_def)
  define st7 where "st7 = reset_linalloc E (upd_gz (\<lambda>g. g\<lparr>bb := b6, bk := k6\<rparr>) st6)"
  obtain st8 where d: "build_dynamic E nl nd f6 st7 = Some (start_codes st8)" "coded_tables ll dl (gz st8)" "table_step st7 st8"
    using build_dynamic_ok [OF h(8,9), of f6 E st7] h r6(4) by auto
  have step: "init_dynamic_block E st = Some (start_codes st8)"
  proof -
    have "\<not> (nl > 286 \<or> nd > 30)" using h(1,2) by simp
    then show ?thesis
      unfolding init_dynamic_block_def Let_def
      by (simp only: f1(1,3) f2(1,3) f3(1,3) Option.bind.simps prod.case nums if_False js_def [symmetric] r4(1) cl t(1) [folded st5_def] r6(1)
          st7_def [symmetric] d(1) simp_thms)
  qed
  have b7: "bits_at file_at data F P' b6 k6 st7"
    unfolding st7_def by (intro reset_bits bits_at_gz [OF r6(2)]) auto
  have bk7: "bb (gz st7) = b6" "bk (gz st7) = k6" by (simp_all add: st7_def reset_linalloc_def Let_def)
  note io = io_step_trans [OF io_step_trans [OF io_step_trans [OF f1(5) f2(5)] f3(5)] r4(3)]
  have keep: "header_keep st st7 \<and> block_len (gz st7) = block_len (gz st) \<and> block_type (gz st7) = block_type (gz st) \<and>
      gzip_vars.last_block (gz st7) = gzip_vars.last_block (gz st)"
    using io_header_keep [OF io] io_header_keep [OF r6(3)] io_step_gz(7,8,10) [OF io] io_step_gz(7,8,10) [OF r6(3)]
    by (simp add: st7_def st5_def reset_linalloc_def Let_def header_keep_def)
  show ?thesis
    using step d(2) keep table_step_keep [OF d(3)] table_step_bits [OF d(3) b7] bk7 header_keep_trans [of st st7 st8]
    by (intro exI [of _ st8]) simp
qed

text \<open>What the two fields in front of a block leave.\<close>

lemma block_start:
  assumes "bits_at file_at data F P (bb (gz st)) (bk (gz st)) st" "P + 3 \<le> 8 * F"
  shows "\<exists>st'. get_new_block E st = (if fnat data (P + 1) 2 = INFLATE_STORED then init_stored_block E st'
      else if fnat data (P + 1) 2 = INFLATE_FIXED then init_fixed_block E st'
      else if fnat data (P + 1) 2 = INFLATE_DYNAMIC then init_dynamic_block E st' else Some st') \<and>
    bits_at file_at data F (P + 3) (bb (gz st')) (bk (gz st')) st' \<and> header_keep st st' \<and> block_type (gz st') = fnat data (P + 1) 2 \<and>
    gzip_vars.last_block (gz st') = of_bool (fbit data P) \<and> block_len (gz st') = block_len (gz st)"
proof -
  define st0 where "st0 = upd_gz (\<lambda>g. g\<lparr>linmem := (linmem g)\<lparr>hufts := 0\<rparr>\<rparr>) st"
  have b0: "bits_at file_at data F P (bb (gz st0)) (bk (gz st0)) st0" unfolding st0_def by (rule bits_at_gz) (use assms(1) in auto)
  obtain b1 k1 st1 where f1: "need_bits E 1 (bb (gz st0)) (bk (gz st0)) st0 = Some (b1, k1, st1)" "b1 mod 2 ^ 1 = fnat data P 1"
      "dump_bits 1 b1 k1 = (drop_bit 1 b1, k1 - 1)" "bits_at file_at data F (P + 1) (drop_bit 1 b1) (k1 - 1) st1" "io_step st0 st1"
    using field_ok [OF b0, of 1] assms(2) by auto
  define st1' where "st1' = upd_gz (\<lambda>g. g\<lparr>gzip_vars.last_block := int (b1 AND 1)\<rparr>) st1"
  have b1': "bits_at file_at data F (P + 1) (drop_bit 1 b1) (k1 - 1) st1'" unfolding st1'_def by (rule bits_at_gz [OF f1(4)]) auto
  obtain b2 k2 st2 where f2: "need_bits E 2 (drop_bit 1 b1) (k1 - 1) st1' = Some (b2, k2, st2)" "b2 mod 2 ^ 2 = fnat data (P + 1) 2"
      "dump_bits 2 b2 k2 = (drop_bit 2 b2, k2 - 2)" "bits_at file_at data F (P + 1 + 2) (drop_bit 2 b2) (k2 - 2) st2" "io_step st1' st2"
    using field_ok [OF b1', of 2] assms(2) by auto
  define st3 where "st3 = upd_gz (\<lambda>g. g\<lparr>block_type := b2 AND 3, bb := drop_bit 2 b2, bk := k2 - 2\<rparr>) st2"
  have v: "b1 AND 1 = of_bool (fbit data P)" "b2 AND 3 = fnat data (P + 1) 2"
    using f1(2) f2(2) low_masks(1) [of b1] low_masks(2) [of b2] by simp_all
  have step: "get_new_block E st = (if fnat data (P + 1) 2 = INFLATE_STORED then init_stored_block E st3
      else if fnat data (P + 1) 2 = INFLATE_FIXED then init_fixed_block E st3
      else if fnat data (P + 1) 2 = INFLATE_DYNAMIC then init_dynamic_block E st3 else Some st3)"
    using f1(1,3) f2(1,3) unfolding get_new_block_def Let_def st0_def [symmetric] v(2) [symmetric] st3_def
    by (simp add: st1'_def)
  have b3: "bits_at file_at data F (P + 3) (bb (gz st3)) (bk (gz st3)) st3"
  proof -
    have P3: "P + 1 + 2 = P + 3" by simp
    show ?thesis unfolding st3_def using bits_at_gz [OF f2(4) [unfolded P3], of "(gz st2)\<lparr>block_type := b2 AND 3, bb := drop_bit 2 b2, bk := k2 - 2\<rparr>"] by simp
  qed
  show ?thesis
    using step b3 io_header_keep [OF f1(5)] io_header_keep [OF f2(5)] io_step_gz(7,8,10) [OF f1(5)] io_step_gz(7,8,10) [OF f2(5)] v
    by (intro exI [of _ st3]) (simp add: st3_def st1'_def st0_def header_keep_def)
qed

lemma get_new_block_ok:
  assumes "bits_at file_at data F P (bb (gz st)) (bk (gz st)) st" "inflates data end out P Between False m" "end + 64 \<le> 8 * F" "block_len (gz st) = 0"
  shows "\<exists>st' P' md fin. get_new_block E st = Some st' \<and> P < P' \<and> bits_at file_at data F P' (bb (gz st')) (bk (gz st')) st' \<and>
    inflates data end out P' md fin m \<and> header_keep st st' \<and> block_begun md st' \<and> gzip_vars.last_block (gz st') = of_bool fin"
  using assms(2)
proof cases
  case (inf_stored p n)
  have P: "8 * p + 96 \<le> 8 * F" using inflates_le [OF inf_stored(5)] assms(3) by simp
  have le: "P + 3 \<le> 8 * p" "p = (P + 3 + 7) div 8" using inf_stored(2) by (simp_all add: add.commute)
  obtain st1 where s1: "get_new_block E st = init_stored_block E st1" "bits_at file_at data F (P + 3) (bb (gz st1)) (bk (gz st1)) st1" "header_keep st st1"
      "block_type (gz st1) = 0" "gzip_vars.last_block (gz st1) = of_bool (fbit data P)"
    using block_start [OF assms(1)] le(1) P inf_stored(1) by (auto simp: INFLATE_STORED_def)
  obtain st' where s2: "init_stored_block E st1 = Some st'" "bits_at file_at data F (8 * p + 32) (bb (gz st')) (bk (gz st')) st'" "header_keep st1 st'"
      "block_len (gz st') = int n" "bk (gz st') = 0" "block_type (gz st') = block_type (gz st1)"
      "gzip_vars.last_block (gz st') = gzip_vars.last_block (gz st1)"
    using init_stored_ok [OF s1(2) le(2) inf_stored(3,4)] P by auto
  have "block_begun (Stored n) st'" using s2 s1(4) by (simp add: block_begun_def INFLATE_STORED_def)
  then show ?thesis using s1(1,5) s2(1,2,7) inf_stored(5) header_keep_trans [OF s1(3) s2(3)] le(1)
    by (intro exI [of _ st'] exI [of _ "8 * p + 32"] exI [of _ "Stored n"] exI [of _ "fbit data P"]) simp
next
  case inf_fixed
  obtain st1 where s1: "get_new_block E st = init_fixed_block E st1" "bits_at file_at data F (P + 3) (bb (gz st1)) (bk (gz st1)) st1" "header_keep st st1"
      "block_type (gz st1) = 1" "gzip_vars.last_block (gz st1) = of_bool (fbit data P)" "block_len (gz st1) = 0"
    using block_start [OF assms(1)] inflates_le [OF inf_fixed(2)] assms(3,4) inf_fixed(1) by (auto simp: INFLATE_STORED_def INFLATE_FIXED_def)
  obtain st2 where s2: "init_fixed_block E st1 = Some (start_codes st2)" "coded_tables fixed_lengths (replicate 30 5) (gz st2)" "table_step st1 st2"
    using fixed_block_tables by blast
  note k = table_step_keep [OF s2(3)]
  have "block_begun (Codes fixed_lengths (replicate 30 5)) (start_codes st2)"
    using s1(4,6) s2(2) k by (simp add: block_begun_def coded_start) (simp add: start_codes_def INFLATE_FIXED_def)
  moreover have "bits_at file_at data F (P + 3) (bb (gz (start_codes st2))) (bk (gz (start_codes st2))) (start_codes st2)"
    using start_codes_bits [OF table_step_bits [OF s2(3) s1(2)]] k by (simp add: start_codes_def)
  moreover have "gzip_vars.last_block (gz (start_codes st2)) = of_bool (fbit data P)" using k s1(5) by (simp add: start_codes_def)
  ultimately show ?thesis using s1(1) s2(1) inf_fixed(2) header_keep_trans [OF header_keep_trans [OF s1(3)] start_codes_keep] k
    by (intro exI [of _ "start_codes st2"] exI [of _ "P + 3"] exI [of _ "Codes fixed_lengths (replicate 30 5)"] exI [of _ "fbit data P"]) simp
next
  case (inf_dynamic ll dl P')
  have P: "P' + 64 \<le> 8 * F" "P + 3 < P'" using inflates_le [OF inf_dynamic(3)] assms(3) dynamic_header_le [OF inf_dynamic(2)] by auto
  obtain st1 where s1: "get_new_block E st = init_dynamic_block E st1" "bits_at file_at data F (P + 3) (bb (gz st1)) (bk (gz st1)) st1" "header_keep st st1"
      "block_type (gz st1) = 2" "gzip_vars.last_block (gz st1) = of_bool (fbit data P)" "block_len (gz st1) = 0"
    using block_start [OF assms(1)] P assms(4) inf_dynamic(1) by (auto simp: INFLATE_STORED_def INFLATE_FIXED_def INFLATE_DYNAMIC_def)
  obtain st2 where s2: "init_dynamic_block E st1 = Some (start_codes st2)" "bits_at file_at data F P' (bb (gz st2)) (bk (gz st2)) st2" "header_keep st1 st2"
      "coded_tables ll dl (gz st2)" "block_len (gz st2) = block_len (gz st1)" "block_type (gz st2) = block_type (gz st1)"
      "gzip_vars.last_block (gz st2) = gzip_vars.last_block (gz st1)"
    using init_dynamic_ok [OF s1(2) inf_dynamic(2) P(1)] by blast
  have "block_begun (Codes ll dl) (start_codes st2)"
    using s1(4,6) s2(4,5,6) by (simp add: block_begun_def coded_start) (simp add: start_codes_def INFLATE_DYNAMIC_def)
  moreover have "bits_at file_at data F P' (bb (gz (start_codes st2))) (bk (gz (start_codes st2))) (start_codes st2)"
    using start_codes_bits [OF s2(2)] by (simp add: start_codes_def)
  moreover have "gzip_vars.last_block (gz (start_codes st2)) = of_bool (fbit data P)" using s2(7) s1(5) by (simp add: start_codes_def)
  ultimately show ?thesis using s1(1) s2(1) inf_dynamic(3) P(2) header_keep_trans [OF header_keep_trans [OF s1(3) s2(3)] start_codes_keep]
    by (intro exI [of _ "start_codes st2"] exI [of _ P'] exI [of _ "Codes ll dl"] exI [of _ "fbit data P"]) simp
qed simp

end

section \<open>The window\<close>

text \<open>The state inside the data, at any place of the format.\<close>

definition mode_state :: "mode \<Rightarrow> nat \<Rightarrow> ('f, 'w) files \<Rightarrow> bool" where
  "mode_state md m st \<longleftrightarrow> (case md of
     Between \<Rightarrow> block_len (gz st) = 0
   | Stored n \<Rightarrow> 0 < n \<and> block_type (gz st) = INFLATE_STORED \<and> block_len (gz st) = int n \<and> bk (gz st) = 0
   | _ \<Rightarrow> block_type (gz st) \<in> {INFLATE_FIXED, INFLATE_DYNAMIC} \<and> block_len (gz st) = 1 \<and>
       coded_tables (fst (mode_tables md)) (snd (mode_tables md)) (gz st) \<and>
       copy_pending m md (code_state (gz st)) (inflate_d (gz st)) (inflate_n (gz st)))"

definition in_stream :: "(mem \<Rightarrow> nat \<Rightarrow> nat \<Rightarrow> ('f, 'w) files \<Rightarrow> bool) \<Rightarrow> mem \<Rightarrow> nat \<Rightarrow> nat \<Rightarrow> byte list \<Rightarrow> nat \<Rightarrow> mode \<Rightarrow> bool \<Rightarrow> nat \<Rightarrow>
    ('f, 'w) files \<Rightarrow> bool" where
  "in_stream file_at data F end out P md fin m st \<longleftrightarrow> bits_at file_at data F P (bb (gz st)) (bk (gz st)) st \<and>
     inflates data end out P md fin m \<and> gzip_vars.last_block (gz st) = of_bool fin \<and> window_holds out m (slide (gz st)) \<and> mode_state md m st"

text \<open>\<open>window_state\<close>: the bytes up to the saved position have been made, the last ones are in the window.\<close>

definition window_state :: "(mem \<Rightarrow> nat \<Rightarrow> nat \<Rightarrow> ('f, 'w) files \<Rightarrow> bool) \<Rightarrow> mem \<Rightarrow> nat \<Rightarrow> nat \<Rightarrow> byte list \<Rightarrow> nat \<Rightarrow>
    ('f, 'w) files \<Rightarrow> bool" where
  "window_state file_at data F end out j st \<longleftrightarrow> saved_filepos (gz st) = int (j * WSIZE) \<and>
     (\<exists>P md fin. in_stream file_at data F end out P md fin (min (j * WSIZE) (length out)) st)"

definition stream_keep :: "('f, 'w) files \<Rightarrow> ('f, 'w) files \<Rightarrow> bool" where
  "stream_keep st st' \<longleftrightarrow> saved_filepos (gz st') = saved_filepos (gz st) \<and> gzip_filepos (gz st') = gzip_filepos (gz st) \<and>
     gzip_filemax (gz st') = gzip_filemax (gz st) \<and> gzip_fsmax (gz st') = gzip_fsmax (gz st) \<and>
     gzip_data_offset (gz st') = gzip_data_offset (gz st) \<and> compressed_file st' = compressed_file st \<and>
     errnum (dev st') = errnum (dev st) \<and> filemax (dev st') = filemax (dev st) \<and> fsmax (dev st') = fsmax (dev st)"

lemma stream_keep_refl [simp]: "stream_keep st st"
  by (simp add: stream_keep_def)

lemma stream_keep_trans: "stream_keep x y \<Longrightarrow> stream_keep y z \<Longrightarrow> stream_keep x z"
  by (simp add: stream_keep_def)

lemma to_stream_keep: "codes_keep st st' \<Longrightarrow> stream_keep st st'" "header_keep st st' \<Longrightarrow> stream_keep st st'" "stream_keep st (reset_linalloc E st)"
  by (simp_all add: codes_keep_def header_keep_def stream_keep_def reset_linalloc_def Let_def)

lemma stored_done: "inflates data end out P (Stored 0) fin m \<Longrightarrow> inflates data end out P Between fin m"
  by (cases rule: inflates.cases) auto

lemma stored_byte:
  "inflates data end out (8 * p) (Stored (Suc n)) fin m \<Longrightarrow>
    m < length out \<and> out ! m = data p \<and> inflates data end out (8 * (p + 1)) (Stored n) fin (m + 1)"
  by (erule inflates.cases) (auto simp: add.commute)

context file_reader
begin

lemma stream_vars: "stream_at file_at data F p st \<Longrightarrow> errnum (dev st) = ERR_NONE \<and> filemax (dev st) = int F \<and> \<not> compressed_file st"
  using at_vars by (auto simp: stream_at_def)

lemma bits_vars: "bits_at file_at data F P b k st \<Longrightarrow> errnum (dev st) = ERR_NONE \<and> filemax (dev st) = int F \<and> \<not> compressed_file st"
  using stream_vars by (auto simp: bits_at_def)

lemma pass_through_ok:
  assumes "stream_at file_at data F p st" "inflates data end out (8 * p) (Stored n) fin m" "block_len (gz st) = int n"
    "window_holds out m (slide (gz st))" "m = base + w" "w \<le> WSIZE" "base mod WSIZE = 0" "end + 64 \<le> 8 * F"
  shows "\<exists>j st'. pass_through E w st = Some (w + j, st') \<and> stream_at file_at data F (p + j) st' \<and> j \<le> n \<and>
    inflates data end out (8 * (p + j)) (Stored (n - j)) fin (m + j) \<and> block_len (gz st') = int (n - j) \<and>
    window_holds out (m + j) (slide (gz st')) \<and> (n = j \<or> w + j = WSIZE) \<and> w + j \<le> WSIZE \<and> codes_keep st st' \<and>
    bb (gz st') = bb (gz st) \<and> bk (gz st') = bk (gz st)"
  using assms(1-6)
proof (induction n arbitrary: p st m w)
  case 0
  then show ?case by (intro exI [of _ 0] exI [of _ st]) (auto simp: pass_through.simps)
next
  case (Suc n)
  show ?case
  proof (cases "w < WSIZE")
    case False
    then show ?thesis using Suc.prems by (intro exI [of _ 0] exI [of _ st]) (auto simp: pass_through.simps)
  next
    case True
    have i: "m < length out" "out ! m = data p" "inflates data end out (8 * (p + 1)) (Stored n) fin (m + 1)"
      using stored_byte [OF Suc.prems(2)] by simp_all
    have pF: "p < F" using inflates_le [OF Suc.prems(2)] assms(8) by simp
    obtain st1 where g: "get_byte E st = Some (data p, st1)" "stream_at file_at data F (Suc p) st1" "io_step st st1"
      using get_byte_ok [OF Suc.prems(1) pF] by blast
    define st2 where "st2 = upd_gz (\<lambda>g. g\<lparr>slide := (slide g)(w := data p), block_len := block_len g - 1\<rparr>) st1"
    have s2: "stream_at file_at data F (p + 1) st2" unfolding st2_def by (rule stream_at_gz) (use g(2) in auto)
    have wm: "w = m mod WSIZE" using Suc.prems(5) True assms(7) by (metis add_0 mod_add_left_eq mod_less)
    have win: "window_holds out (m + 1) (slide (gz st2))"
      using window_step [OF Suc.prems(4)] io_step_gz(6) [OF g(3)] i(2) wm by (simp add: st2_def)
    have bl: "block_len (gz st2) = int n" using Suc.prems(3) io_step_gz(7) [OF g(3)] by (simp add: st2_def)
    have keep: "codes_keep st st2" "bb (gz st2) = bb (gz st)" "bk (gz st2) = bk (gz st)"
      using codes_keep_trans [OF io_codes_keep [OF g(3)], of st2] io_step_gz(17,18) [OF g(3)] by (simp_all add: st2_def codes_keep_def)
    have step: "pass_through E w st = pass_through E (w + 1) st2"
      using True g(1) stream_vars [OF Suc.prems(1)] Suc.prems(3) by (subst pass_through.simps) (simp add: st2_def)
    have mw: "m + 1 = base + (w + 1)" "w + 1 \<le> WSIZE" using Suc.prems(5) True by simp_all
    obtain j st' where r: "pass_through E (w + 1) st2 = Some (w + 1 + j, st')" "stream_at file_at data F (p + 1 + j) st'" "j \<le> n"
        "inflates data end out (8 * (p + 1 + j)) (Stored (n - j)) fin (m + 1 + j)" "block_len (gz st') = int (n - j)"
        "window_holds out (m + 1 + j) (slide (gz st'))" "n = j \<or> w + 1 + j = WSIZE" "w + 1 + j \<le> WSIZE" "codes_keep st2 st'"
        "bb (gz st') = bb (gz st2)" "bk (gz st') = bk (gz st2)"
      using Suc.IH [OF s2 i(3) bl win mw] by blast
    then show ?thesis using step keep codes_keep_trans [OF keep(1) r(9)] by (intro exI [of _ "Suc j"] exI [of _ st']) simp
  qed
qed

text \<open>One round of the loop, in a block.\<close>

definition expands :: "('f, 'w) files \<Rightarrow> ('f, 'w) files \<Rightarrow> bool" where
  "expands st st' \<longleftrightarrow> (if block_type (gz st) = INFLATE_STORED
     then \<exists>w st1. pass_through E (wp (gz st)) st = Some (w, st1) \<and> st' = upd_gz (\<lambda>g. g\<lparr>wp := w\<rparr>) st1
     else \<exists>r st1. inflate_codes_in_window E st = Some (r, st1) \<and> st' = (if r then reset_linalloc E st1 else st1))"

lemma stored_round:
  assumes "bits_at file_at data F P (bb (gz st)) (bk (gz st)) st" "inflates data end out P (Stored n) fin m" "block_type (gz st) = INFLATE_STORED"
    "block_len (gz st) = int n" "bk (gz st) = 0" "gzip_vars.last_block (gz st) = of_bool fin" "window_holds out m (slide (gz st))"
    "m = base + wp (gz st)" "wp (gz st) < WSIZE" "base mod WSIZE = 0" "end + 64 \<le> 8 * F"
  shows "\<exists>st' P' md' m'. expands st st' \<and> in_stream file_at data F end out P' md' fin m' st' \<and> m' = base + wp (gz st') \<and> wp (gz st') \<le> WSIZE \<and>
    (if n = 0 then P + m \<le> P' + m' else P + m < P' + m') \<and> stream_keep st st'"
proof -
  obtain p where p: "stream_at file_at data F p st" "P = 8 * p" "bb (gz st) = fnat data P 0"
    using assms(1,5) by (auto simp: bits_at_def)
  obtain j st1 where r: "pass_through E (wp (gz st)) st = Some (wp (gz st) + j, st1)" "stream_at file_at data F (p + j) st1" "j \<le> n"
      "inflates data end out (8 * (p + j)) (Stored (n - j)) fin (m + j)" "block_len (gz st1) = int (n - j)"
      "window_holds out (m + j) (slide (gz st1))" "n = j \<or> wp (gz st) + j = WSIZE" "wp (gz st) + j \<le> WSIZE" "codes_keep st st1"
      "bb (gz st1) = bb (gz st)" "bk (gz st1) = bk (gz st)"
    using pass_through_ok [OF p(1) assms(2) [unfolded p(2)] assms(4,7,8) less_imp_le [OF assms(9)] assms(10,11)] by blast
  define st' where "st' = upd_gz (\<lambda>g. g\<lparr>wp := wp (gz st) + j\<rparr>) st1"
  define md' where "md' = (if n = j then Between else Stored (n - j))"
  have inf: "inflates data end out (8 * (p + j)) md' fin (m + j)" using r(4) stored_done by (auto simp: md'_def)
  have "stream_at file_at data F (p + j) st'" unfolding st'_def by (rule stream_at_gz [OF r(2)]) auto
  then have bits: "bits_at file_at data F (8 * (p + j)) (bb (gz st')) (bk (gz st')) st'" using r(10,11) assms(5) p(3) by (auto simp: bits_at_def st'_def)
  have type: "block_type (gz st1) = INFLATE_STORED" "gzip_vars.last_block (gz st1) = of_bool fin" using r(9) assms(3,6) by (auto simp: codes_keep_def)
  have ms: "mode_state md' (m + j) st'" using r(3,5,11) assms(5) type by (auto simp: md'_def mode_state_def st'_def)
  have keep: "stream_keep st st'" using stream_keep_trans [OF to_stream_keep(1) [OF r(9)], of st'] by (simp add: st'_def stream_keep_def)
  have ins: "in_stream file_at data F end out (8 * (p + j)) md' fin (m + j) st'"
    unfolding in_stream_def using bits inf ms r(6) type(2) by (simp add: st'_def)
  have ex: "expands st st'" using r(1) assms(3) by (auto simp: expands_def st'_def)
  have "if n = 0 then P + m \<le> 8 * (p + j) + (m + j) else P + m < 8 * (p + j) + (m + j)" using r(7) assms(9) p(2) by auto
  then show ?thesis using ex ins keep r(8) assms(8)
    by (intro exI [of _ st'] exI [of _ "8 * (p + j)"] exI [of _ md'] exI [of _ "m + j"]) (simp add: st'_def)
qed

lemma coded_round:
  assumes "bits_at file_at data F P (bb (gz st)) (bk (gz st)) st" "inflates data end out P md fin m" "block_type (gz st) \<in> {INFLATE_FIXED, INFLATE_DYNAMIC}"
    "block_len (gz st) = 1" "mode_tables md = (ll, dl)" "coded_tables ll dl (gz st)"
    "copy_pending m md (code_state (gz st)) (inflate_d (gz st)) (inflate_n (gz st))"
    "gzip_vars.last_block (gz st) = of_bool fin" "window_holds out m (slide (gz st))"
    "m = base + wp (gz st)" "wp (gz st) < WSIZE" "base mod WSIZE = 0" "end + 64 \<le> 8 * F"
  shows "\<exists>st' P' md' m'. expands st st' \<and> in_stream file_at data F end out P' md' fin m' st' \<and> m' = base + wp (gz st') \<and> wp (gz st') \<le> WSIZE \<and>
    P + m < P' + m' \<and> stream_keep st st'"
proof -
  obtain r st1 where c: "inflate_codes_in_window E st = Some (r, st1)"
      "codes_result file_at data F end out base fin ll dl 1 (P + m) (r, st1)" "codes_keep st st1"
    using codes_loop_ok [OF assms(1,2,5,7,6,9,10,11,12,13,4)] by (auto simp: inflate_codes_in_window_def Let_def)
  obtain P' md' m' where q: "P + m < P' + m'" "m' = base + wp (gz st1)" "wp (gz st1) \<le> WSIZE" "window_holds out m' (slide (gz st1))"
      "bits_at file_at data F P' (bb (gz st1)) (bk (gz st1)) st1" "inflates data end out P' md' fin m'"
      "r \<and> md' = Between \<and> block_len (gz st1) = 0 \<or> \<not> r \<and> wp (gz st1) = WSIZE \<and> mode_tables md' = (ll, dl) \<and>
        copy_pending m' md' (code_state (gz st1)) (inflate_d (gz st1)) (inflate_n (gz st1)) \<and> block_len (gz st1) = 1"
    using c(2) by (auto simp: codes_result_def)
  define st' where "st' = (if r then reset_linalloc E st1 else st1)"
  have keep: "stream_keep st st'"     using to_stream_keep(1) [OF c(3)] stream_keep_trans [OF to_stream_keep(1) [OF c(3)] to_stream_keep(3) [of st1 E]] by (simp add: st'_def)
  have ex: "expands st st'" using c(1) assms(3) by (auto simp: expands_def st'_def INFLATE_STORED_def INFLATE_FIXED_def INFLATE_DYNAMIC_def)
  have same: "block_type (gz st1) = block_type (gz st)" "gzip_vars.last_block (gz st1) = of_bool fin" "coded_tables ll dl (gz st1)"
    using c(3) assms(6,8) codes_keep_tables [OF c(3), of ll dl] by (auto simp: codes_keep_def)
  have gs: "bb (gz st') = bb (gz st1)" "bk (gz st') = bk (gz st1)" "slide (gz st') = slide (gz st1)" "wp (gz st') = wp (gz st1)"
      "gzip_vars.last_block (gz st') = gzip_vars.last_block (gz st1)" "block_len (gz st') = block_len (gz st1)"
    by (simp_all add: st'_def reset_linalloc_def Let_def)
  have ms: "mode_state md' m' st'"
  proof (cases r)
    case True
    then show ?thesis using q(7) gs(6) by (simp add: mode_state_def)
  next
    case False
    then have p: "mode_tables md' = (ll, dl)" "copy_pending m' md' (code_state (gz st1)) (inflate_d (gz st1)) (inflate_n (gz st1))"
        "block_len (gz st1) = 1" "st' = st1" using q(7) by (auto simp: st'_def)
    then show ?thesis using same assms(3) by (cases md') (auto simp: mode_state_def copy_pending_def)
  qed
  have "bits_at file_at data F P' (bb (gz st')) (bk (gz st')) st'" using q(5) reset_bits gs(1,2) by (auto simp: st'_def)
  then have "in_stream file_at data F end out P' md' fin m' st'" using q(4,6) ms gs same(2) by (simp add: in_stream_def)
  then show ?thesis using ex keep q(1-3) gs(4) by (intro exI [of _ st'] exI [of _ P'] exI [of _ md'] exI [of _ m']) simp
qed

end

context file_reader
begin

lemma expand_round:
  assumes "bits_at file_at data F P (bb (gz st)) (bk (gz st)) st" "inflates data end out P md fin m"
    "gzip_vars.last_block (gz st) = of_bool fin" "window_holds out m (slide (gz st))" "block_begun md st \<or> md \<noteq> Between \<and> mode_state md m st"
    "m = base + wp (gz st)" "wp (gz st) < WSIZE" "base mod WSIZE = 0" "end + 64 \<le> 8 * F"
  shows "block_type (gz st) \<le> INFLATE_DYNAMIC \<and>
    (\<exists>st' P' md' m'. expands st st' \<and> in_stream file_at data F end out P' md' fin m' st' \<and> m' = base + wp (gz st') \<and> wp (gz st') \<le> WSIZE \<and>
      P + m \<le> P' + m' \<and> (mode_state md m st \<longrightarrow> P + m < P' + m') \<and> stream_keep st st')"
proof (cases "\<exists>n. md = Stored n")
  case True
  then obtain n where n: "md = Stored n" by blast
  have s: "block_type (gz st) = INFLATE_STORED" "block_len (gz st) = int n" "bk (gz st) = 0"
    using assms(5) by (auto simp: n block_begun_def mode_state_def)
  obtain st' P' md' m' where r: "expands st st'" "in_stream file_at data F end out P' md' fin m' st'" "m' = base + wp (gz st')" "wp (gz st') \<le> WSIZE"
      "if n = 0 then P + m \<le> P' + m' else P + m < P' + m'" "stream_keep st st'"
    using stored_round [OF assms(1) assms(2) [unfolded n] s assms(3,4,6-9)] by blast
  then show ?thesis using s(1)
    by (intro conjI exI [of _ st'] exI [of _ P'] exI [of _ md'] exI [of _ m'])
      (auto simp: n mode_state_def INFLATE_STORED_def INFLATE_DYNAMIC_def split: if_splits)
next
  case False
  obtain ll dl where t: "mode_tables md = (ll, dl)" by fastforce
  have s: "block_type (gz st) \<in> {INFLATE_FIXED, INFLATE_DYNAMIC}" "block_len (gz st) = 1" "coded_tables ll dl (gz st)"
      "copy_pending m md (code_state (gz st)) (inflate_d (gz st)) (inflate_n (gz st))"
    using assms(5) False t by (cases md; auto simp: block_begun_def mode_state_def copy_pending_def)+
  have "block_type (gz st) \<le> INFLATE_DYNAMIC" using s(1) by (auto simp: INFLATE_FIXED_def INFLATE_DYNAMIC_def)
  then show ?thesis using coded_round [OF assms(1,2) s(1,2) t s(3,4) assms(3,4,6-9)] by (meson less_imp_le)
qed

lemma window_step_eq:
  assumes "wp (gz st) < WSIZE" "errnum (dev st) = ERR_NONE" "\<not> (needs_block st \<and> gzip_vars.last_block (gz st) \<noteq> 0)"
    "(if needs_block st then get_new_block E st else Some st) = Some st1" "block_type (gz st1) \<le> INFLATE_DYNAMIC"
    "errnum (dev st1) = ERR_NONE" "expands st1 st2"
  shows "window_loop E st = window_loop E st2"
proof -
  have "\<not> block_type (gz st1) > INFLATE_DYNAMIC" using assms(5) by simp
  then have "window_loop E st = (if block_type (gz st1) = INFLATE_STORED
       then pass_through E (wp (gz st1)) st1 \<bind> (\<lambda>(w, st3). window_loop E (upd_gz (\<lambda>g. g\<lparr>wp := w\<rparr>) st3))
       else inflate_codes_in_window E st1 \<bind> (\<lambda>(done, st3). window_loop E (if done then reset_linalloc E st3 else st3)))"
    using assms(1-4,6) by (subst window_loop.simps) (simp only: if_True if_False simp_thms Option.bind.simps Let_def)
  also have "\<dots> = window_loop E st2" using assms(7) by (auto simp: expands_def split: if_splits)
  finally show ?thesis .
qed

lemma window_loop_ok:
  assumes "in_stream file_at data F end out P md fin m st" "m = base + wp (gz st)" "wp (gz st) \<le> WSIZE" "base mod WSIZE = 0" "end + 64 \<le> 8 * F"
  shows "\<exists>st' P' md' fin'. window_loop E st = Some (True, st') \<and>
    in_stream file_at data F end out P' md' fin' (min (base + WSIZE) (length out)) st' \<and> stream_keep st st'"
  using assms(1-3)
proof (induction "end + length out - (P + m)" arbitrary: P md fin m st rule: less_induct)
  case less
  note ins = less.prems(1) [unfolded in_stream_def] and le = inflates_le [of data "end" out P md fin m]
  have err: "errnum (dev st) = ERR_NONE" using ins bits_vars by blast
  have stop: ?case if "wp (gz st) = WSIZE \<or> needs_block st \<and> gzip_vars.last_block (gz st) \<noteq> 0" "m = min (base + WSIZE) (length out)"
  proof -
    have "window_loop E st = Some (True, st)" using that(1) err by (subst window_loop.simps) auto
    then show ?thesis using less.prems(1) that(2) by (intro exI [of _ st] exI [of _ P] exI [of _ md] exI [of _ fin]) simp
  qed
  have continue: ?case if "(if needs_block st then get_new_block E st else Some st) = Some st1" "\<not> (needs_block st \<and> gzip_vars.last_block (gz st) \<noteq> 0)"
      "bits_at file_at data F P1 (bb (gz st1)) (bk (gz st1)) st1" "inflates data end out P1 md1 fin1 m" "gzip_vars.last_block (gz st1) = of_bool fin1"
      "window_holds out m (slide (gz st1))" "block_begun md1 st1 \<or> md1 \<noteq> Between \<and> mode_state md1 m st1" "wp (gz st1) = wp (gz st)" "stream_keep st st1"
      "P < P1 \<or> P = P1 \<and> mode_state md1 m st1" "wp (gz st) < WSIZE" for st1 P1 md1 fin1
  proof -
    note q = that
    have w: "m = base + wp (gz st1)" "wp (gz st1) < WSIZE" using less.prems(2) q(8,11) by simp_all
    obtain st2 P2 md2 m2 where r: "block_type (gz st1) \<le> INFLATE_DYNAMIC" "expands st1 st2" "in_stream file_at data F end out P2 md2 fin1 m2 st2"
        "m2 = base + wp (gz st2)" "wp (gz st2) \<le> WSIZE" "P1 + m \<le> P2 + m2" "mode_state md1 m st1 \<longrightarrow> P1 + m < P2 + m2" "stream_keep st1 st2"
      using expand_round [OF q(3-7) w assms(4,5)] by blast
    have eq: "window_loop E st = window_loop E st2"
      using window_step_eq [OF q(11) err q(2,1) r(1) _ r(2)] bits_vars [OF q(3)] by blast
    have lt: "P + m < P2 + m2" using q(10) r(6,7) by auto
    have "P2 \<le> end" "m2 \<le> length out" using r(3) inflates_le by (auto simp: in_stream_def)
    then have "end + length out - (P2 + m2) < end + length out - (P + m)" using lt by linarith
    from less.hyps [OF this r(3-5)] show ?thesis
      unfolding eq using stream_keep_trans [OF q(9) stream_keep_trans [OF r(8)]] by blast
  qed
  show ?case
  proof (cases "wp (gz st) < WSIZE")
    case False
    then have "wp (gz st) = WSIZE" using less.prems(3) by simp
    then show ?thesis using stop less.prems(2) ins le by (auto simp: min_def)
  next
    case True
    show ?thesis
    proof (cases "md = Between")
      case between: True
      then have nb: "needs_block st" "block_len (gz st) = 0" using ins by (auto simp: mode_state_def needs_block_def)
      show ?thesis
      proof (cases fin)
        case fin: True
        have "inflates data end out P Between True m" using ins between fin by simp
        then have "m = length out" by (cases rule: inflates.cases) auto
        then show ?thesis using stop nb ins fin less.prems(2) True by auto
      next
        case False
        have inf: "inflates data end out P Between False m" using ins between False by simp
        obtain st1 P1 md1 fin1 where b: "get_new_block E st = Some st1" "P < P1" "bits_at file_at data F P1 (bb (gz st1)) (bk (gz st1)) st1"
            "inflates data end out P1 md1 fin1 m" "header_keep st st1" "block_begun md1 st1" "gzip_vars.last_block (gz st1) = of_bool fin1"
          using get_new_block_ok [OF _ inf assms(5) nb(2)] ins by blast
        have "wp (gz st1) = wp (gz st)" "slide (gz st1) = slide (gz st)" using b(5) by (auto simp: header_keep_def)
        then show ?thesis using continue [of st1 P1 md1 fin1] b nb(1) ins False True to_stream_keep(2) [OF b(5)] by simp
      qed
    next
      case False
      then have "\<not> needs_block st" using ins by (cases md) (auto simp: mode_state_def needs_block_def)
      then show ?thesis using continue [of st P md fin] ins False True by simp
    qed
  qed
qed

abbreviation window_at where "window_at \<equiv> window_state file_at"

lemma inflate_window_ok:
  assumes "window_at data F end out j st" "j * WSIZE < length out" "end + 64 \<le> 8 * F"
  shows "\<exists>st'. inflate_window E st = Some st' \<and> window_at data F end out (Suc j) st' \<and>
    gzip_filepos (gz st') = gzip_filepos (gz st) \<and> gzip_filemax (gz st') = gzip_filemax (gz st) \<and> gzip_fsmax (gz st') = gzip_fsmax (gz st) \<and>
    gzip_data_offset (gz st') = gzip_data_offset (gz st) \<and> fsmax (dev st') = fsmax (dev st)"
proof -
  obtain P md fin where i: "in_stream file_at data F end out P md fin (j * WSIZE) st" "saved_filepos (gz st) = int (j * WSIZE)"
    using assms(1,2) by (auto simp: window_state_def min_def)
  define st1 where "st1 = upd_gz (\<lambda>g. g\<lparr>wp := 0\<rparr>) st"
  have "bits_at file_at data F P (bb (gz st)) (bk (gz st)) st1"
    unfolding st1_def by (rule bits_at_gz) (use i(1) in \<open>auto simp: in_stream_def\<close>)
  moreover have "mode_state md (j * WSIZE) st1"
    using i(1) by (cases md) (auto simp: in_stream_def mode_state_def st1_def coded_tables_def)
  ultimately have s1: "in_stream file_at data F end out P md fin (j * WSIZE) st1"
    using i(1) by (simp add: in_stream_def st1_def)
  obtain st2 P' md' fin' where w: "window_loop E st1 = Some (True, st2)" "in_stream file_at data F end out P' md' fin' (min (j * WSIZE + WSIZE) (length out)) st2"
      "stream_keep st1 st2"
    using window_loop_ok [OF s1, of "j * WSIZE"] assms(3) by (auto simp: st1_def)
  define st3 where "st3 = upd_gz (\<lambda>g. g\<lparr>saved_filepos := saved_filepos g + int WSIZE\<rparr>) st2"
  have "bits_at file_at data F P' (bb (gz st2)) (bk (gz st2)) st3"
    unfolding st3_def by (rule bits_at_gz) (use w(2) in \<open>auto simp: in_stream_def\<close>)
  moreover have "mode_state md' (min (j * WSIZE + WSIZE) (length out)) st3"
    using w(2) by (cases md') (auto simp: in_stream_def mode_state_def st3_def coded_tables_def)
  ultimately have "in_stream file_at data F end out P' md' fin' (min (Suc j * WSIZE) (length out)) st3"
    using w(2) by (simp add: in_stream_def st3_def add.commute)
  then have "window_at data F end out (Suc j) st3"
    using w(3) i(2) unfolding window_state_def by (auto simp: st3_def st1_def stream_keep_def)
  then show ?thesis using w(1,3) by (intro exI [of _ st3]) (simp add: inflate_window_def st1_def st3_def stream_keep_def)
qed

end

section \<open>Reading\<close>

text \<open>An open gzip file whose data makes \<open>out\<close>, positioned at \<open>q\<close>.\<close>

definition gzip_state :: "(mem \<Rightarrow> nat \<Rightarrow> nat \<Rightarrow> ('f, 'w) files \<Rightarrow> bool) \<Rightarrow> mem \<Rightarrow> nat \<Rightarrow> nat \<Rightarrow> byte list \<Rightarrow> nat \<Rightarrow> nat \<Rightarrow> ('f, 'w) files \<Rightarrow> bool" where
  "gzip_state file_at data F end out off q st \<longleftrightarrow> compressed_file st \<and> filepos (dev st) = int q \<and> q \<le> length out \<and>
     filemax (dev st) = int (length out) \<and> fsmax (dev st) = int (length out) \<and> gzip_data_offset (gz st) = int off \<and> off \<le> F \<and>
     inflates data end out (8 * off) Between False 0 \<and> end + 64 \<le> 8 * F \<and>
     (\<exists>j. window_state file_at data F end out j (gunzip_swap_values (st\<lparr>compressed_file := False\<rparr>)))"

definition pos_keep :: "('f, 'w) files \<Rightarrow> ('f, 'w) files \<Rightarrow> bool" where
  "pos_keep st st' \<longleftrightarrow> gzip_filemax (gz st') = gzip_filemax (gz st) \<and> gzip_fsmax (gz st') = gzip_fsmax (gz st) \<and>
     gzip_data_offset (gz st') = gzip_data_offset (gz st) \<and> fsmax (dev st') = fsmax (dev st)"

lemma pos_keep_trans: "pos_keep x y \<Longrightarrow> pos_keep y z \<Longrightarrow> pos_keep x z"
  by (simp add: pos_keep_def)

lemma pos_keep_refl [simp]: "pos_keep x x"
  by (simp add: pos_keep_def)

lemma window_index: "j * WSIZE \<le> q + WSIZE \<Longrightarrow> q < j * WSIZE \<Longrightarrow> j = q div WSIZE + 1"
proof -
  assume a: "j * WSIZE \<le> q + WSIZE" "q < j * WSIZE"
  have W: "0 < WSIZE" by (simp add: WSIZE_def)
  have "q div WSIZE < j" using a(2) W by (simp add: div_less_iff_less_mult)
  moreover have "(j - 1) * WSIZE \<le> q" using a(1) by (cases j) auto
  then have "j - 1 \<le> q div WSIZE" using W by (simp add: less_eq_div_iff_mult_less_eq)
  ultimately show ?thesis by simp
qed

context file_reader
begin

lemma window_vars: "window_at data F end out j st \<Longrightarrow> errnum (dev st) = ERR_NONE \<and> filemax (dev st) = int F \<and> \<not> compressed_file st"
  using bits_vars by (auto simp: window_state_def in_stream_def)

lemma window_at_gz:
  assumes "window_at data F end out j st" "g = (gz st)\<lparr>gzip_filepos := a, gzip_filemax := b, gzip_fsmax := c\<rparr>"
  shows "window_at data F end out j (st\<lparr>gz := g\<rparr>)"
proof -
  obtain P md fin where i: "saved_filepos (gz st) = int (j * WSIZE)" "in_stream file_at data F end out P md fin (min (j * WSIZE) (length out)) st"
    using assms(1) by (auto simp: window_state_def)
  have "bits_at file_at data F P (bb (gz st)) (bk (gz st)) (st\<lparr>gz := g\<rparr>)"
    by (rule bits_at_gz) (use i(2) assms(2) in \<open>auto simp: in_stream_def\<close>)
  moreover have "mode_state md (min (j * WSIZE) (length out)) (st\<lparr>gz := g\<rparr>)"
    using i(2) assms(2) by (cases md) (auto simp: in_stream_def mode_state_def coded_tables_def)
  ultimately have "in_stream file_at data F end out P md fin (min (j * WSIZE) (length out)) (st\<lparr>gz := g\<rparr>)"
    using i(2) assms(2) by (simp add: in_stream_def)
  then show ?thesis using i(1) assms(2) unfolding window_state_def by auto
qed

lemma to_window_ok:
  assumes "window_at data F end out j st" "gzip_filepos (gz st) = int q" "q < length out" "j * WSIZE \<le> q + WSIZE" "end + 64 \<le> 8 * F"
  shows "\<exists>st'. to_window E st = Some st' \<and> window_at data F end out (q div WSIZE + 1) st' \<and> gzip_filepos (gz st') = int q \<and> pos_keep st st'"
  using assms(1,2,4)
proof (induction "q + WSIZE - j * WSIZE" arbitrary: j st rule: less_induct)
  case less
  have s: "saved_filepos (gz st) = int (j * WSIZE)" using less.prems(1) by (simp add: window_state_def)
  show ?case
  proof (cases "j * WSIZE \<le> q")
    case True
    obtain st1 where w: "inflate_window E st = Some st1" "window_at data F end out (Suc j) st1" "gzip_filepos (gz st1) = gzip_filepos (gz st)"
        "gzip_filemax (gz st1) = gzip_filemax (gz st)" "gzip_fsmax (gz st1) = gzip_fsmax (gz st)"
        "gzip_data_offset (gz st1) = gzip_data_offset (gz st)" "fsmax (dev st1) = fsmax (dev st)"
      using inflate_window_ok [OF less.prems(1) _ assms(5)] True assms(3) by auto
    have ge: "int (j * WSIZE) \<le> int q" using True by (simp only: of_nat_le_iff)
    have k: "pos_keep st st1" using w(4-7) by (simp add: pos_keep_def)
    have lt: "q + WSIZE - Suc j * WSIZE < q + WSIZE - j * WSIZE" "Suc j * WSIZE \<le> q + WSIZE" using True by (auto simp: WSIZE_def)
    have step: "to_window E st = to_window E st1" using ge s less.prems(2) w(1) by (subst to_window.simps) (simp del: of_nat_mult)
    have "gzip_filepos (gz st1) = int q" using w(3) less.prems(2) by simp
    from less.hyps [OF lt(1) w(2) this lt(2)] show ?thesis unfolding step using pos_keep_trans [OF k] by blast
  next
    case False
    then have "\<not> int (j * WSIZE) \<le> int q" by (simp only: of_nat_le_iff not_False_eq_True)
    then have "to_window E st = Some st" using s less.prems(2) by (subst to_window.simps) (simp del: of_nat_mult)
    then show ?thesis using window_index [OF less.prems(3)] False less.prems(1,2) by auto
  qed
qed

lemma gunzip_loop_ok:
  assumes "window_at data F end out j st" "gzip_filepos (gz st) = int q" "q + n \<le> length out" "j * WSIZE \<le> q + WSIZE" "end + 64 \<le> 8 * F"
  shows "\<exists>buf' j' st'. gunzip_loop E (int n) ret buf st = Some (ret + n, buf', st') \<and>
    (\<forall>k. buf' k = (if ret \<le> k \<and> k < ret + n then out ! (q + (k - ret)) else buf k)) \<and>
    window_at data F end out j' st' \<and> gzip_filepos (gz st') = int (q + n) \<and> pos_keep st st'"
  using assms(1-4)
proof (induction n arbitrary: q j st ret buf rule: less_induct)
  case (less n)
  have e: "errnum (dev st) = ERR_NONE" using window_vars [OF less.prems(1)] by simp
  show ?case
  proof (cases "n = 0")
    case True
    then have "gunzip_loop E (int n) ret buf st = Some (ret + n, buf, st)" by (subst gunzip_loop.simps) simp
    then show ?thesis using less.prems(1,2) True by (intro exI [of _ buf] exI [of _ j] exI [of _ st]) auto
  next
    case False
    define i where "i = q div WSIZE + 1"
    obtain st1 where w: "to_window E st = Some st1" "window_at data F end out i st1" "gzip_filepos (gz st1) = int q" "pos_keep st st1"
      using to_window_ok [OF less.prems(1,2) _ less.prems(4) assms(5)] less.prems(3) False by (auto simp: i_def)
    have W: "0 < WSIZE" by (simp add: WSIZE_def)
    have iW: "q < i * WSIZE" "i * WSIZE \<le> q + WSIZE"
      using dividend_less_div_times [OF W, of q] div_times_less_eq_dividend [of q WSIZE] by (simp_all add: i_def add_mult_distrib)
    define z where "z = min n (i * WSIZE - q)"
    have z: "0 < z" "z \<le> n" "q + z \<le> i * WSIZE" using iW(1) False by (auto simp: z_def)
    have saved: "saved_filepos (gz st1) = int (i * WSIZE)" using w(2) by (simp add: window_state_def)
    have hold: "slide (gz st1) (q mod WSIZE + k) = out ! (q + k)" if "k < z" for k
    proof -
      have h: "window_holds out (min (i * WSIZE) (length out)) (slide (gz st1))" using w(2) by (auto simp: window_state_def in_stream_def)
      have qk: "q + k < min (i * WSIZE) (length out)" using that z less.prems(3) by auto
      moreover have "min (i * WSIZE) (length out) \<le> q + k + WSIZE" using iW(2) by simp
      ultimately have s: "slide (gz st1) ((q + k) mod WSIZE) = out ! (q + k)" using h by (auto simp: window_holds_def)
      have "q + k < q div WSIZE * WSIZE + WSIZE" using qk by (simp add: i_def)
      then have "q mod WSIZE + k < WSIZE" using div_mult_mod_eq [of q WSIZE] by linarith
      then have "(q + k) mod WSIZE = q mod WSIZE + k" by (metis mod_add_left_eq mod_less)
      then show ?thesis using s by simp
    qed
    define buf1 where "buf1 = (\<lambda>k. if ret \<le> k \<and> k < ret + z then slide (gz st1) (q mod WSIZE + (k - ret)) else buf k)"
    define st2 where "st2 = upd_gz (\<lambda>g. g\<lparr>gzip_filepos := int (q + z)\<rparr>) st1"
    have src: "nat (int q AND (int WSIZE - 1)) = q mod WSIZE"
    proof -
      have "int q AND (int WSIZE - 1) = take_bit 15 (int q)" by (simp add: WSIZE_def take_bit_eq_mask mask_eq_exp_minus_1)
      also have "\<dots> = int (q mod WSIZE)" by (simp add: WSIZE_def take_bit_eq_mod zmod_int)
      finally show ?thesis by simp
    qed
    have sz: "nat (if int (i * WSIZE) - int q > int n then int n else int (i * WSIZE) - int q) = z"
    proof -
      have "nat (if int x - int q > int n then int n else int x - int q) = min n (x - q)" if "q < x" for x using that by auto
      then show ?thesis using iW(1) unfolding z_def by blast
    qed
    have step: "gunzip_loop E (int n) ret buf st = gunzip_loop E (int (n - z)) (ret + z) buf1 st2"
    proof -
      have c: "(int n > 0 \<and> errnum (dev st) = ERR_NONE) = True" using False e by simp
      have "gunzip_loop E (int n) ret buf st = gunzip_loop E (int n - int z) (ret + z) buf1 (upd_gz (\<lambda>g. g\<lparr>gzip_filepos := int q + int z\<rparr>) st1)"
        unfolding buf1_def by (subst gunzip_loop.simps) (simp only: c if_True w(1,3) Option.bind.simps Let_def saved sz src)
      then show ?thesis using z(2) by (simp add: st2_def of_nat_diff)
    qed
    have at2: "window_at data F end out i st2"
      unfolding st2_def by (rule window_at_gz [OF w(2), where a = "int (q + z)" and b = "gzip_filemax (gz st1)" and c = "gzip_fsmax (gz st1)"]) simp
    have q2: "gzip_filepos (gz st2) = int (q + z)" "q + z + (n - z) \<le> length out" "i * WSIZE \<le> q + z + WSIZE"
      using less.prems(3) z(2) iW(2) by (simp_all add: st2_def)
    have k2: "pos_keep st1 st2" by (simp add: pos_keep_def st2_def)
    obtain buf' j' st' where r: "gunzip_loop E (int (n - z)) (ret + z) buf1 st2 = Some (ret + z + (n - z), buf', st')"
        "\<forall>k. buf' k = (if ret + z \<le> k \<and> k < ret + z + (n - z) then out ! (q + z + (k - (ret + z))) else buf1 k)"
        "window_at data F end out j' st'" "gzip_filepos (gz st') = int (q + z + (n - z))" "pos_keep st2 st'"
    proof -
      have "n - z < n" using z(1,2) by simp
      from less.IH [OF this at2 q2, of "ret + z" buf1] show ?thesis using that by blast
    qed
    have "\<forall>k. buf' k = (if ret \<le> k \<and> k < ret + n then out ! (q + (k - ret)) else buf k)"
    proof
      fix k
      show "buf' k = (if ret \<le> k \<and> k < ret + n then out ! (q + (k - ret)) else buf k)"
        using r(2) [rule_format, of k] z(2) hold [of "k - ret"] by (auto simp: buf1_def)
    qed
    then show ?thesis using step r(1,3,4) z(2) pos_keep_trans [OF w(4) pos_keep_trans [OF k2 r(5)]]
      by (intro exI [of _ buf'] exI [of _ j'] exI [of _ st']) (auto simp: fun_eq_iff)
  qed
qed

abbreviation gzip_at where "gzip_at \<equiv> gzip_state file_at"

lemma window_at_start:
  assumes "file_at data F off st" "gzip_data_offset (gz st) = int off" "saved_filepos (gz st) = 0" "bb (gz st) = 0" "bk (gz st) = 0"
    "gzip_vars.last_block (gz st) = 0" "block_len (gz st) = 0" "inflates data end out (8 * off) Between False 0"
  shows "window_at data F end out 0 st"
proof -
  have "stream_at file_at data F off st" unfolding stream_at_def using assms(1,2) by blast
  then have "bits_at file_at data F (8 * off) (bb (gz st)) (bk (gz st)) st" using assms(4,5) by (auto simp: bits_at_def)
  then have "in_stream file_at data F end out (8 * off) Between False 0 st"
    using assms by (simp add: in_stream_def window_holds_def mode_state_def)
  then show ?thesis using assms(3) by (auto simp: window_state_def)
qed

lemma stream_file: "stream_at file_at data F p st \<Longrightarrow> \<exists>q. file_at data F q st"
  by (auto simp: stream_at_def)

lemma restart_ok:
  assumes "window_at data F end out j st" "gzip_data_offset (gz st) = int off" "off \<le> F" "inflates data end out (8 * off) Between False 0"
  shows "window_at data F end out 0 (initialize_tables E st)"
proof -
  obtain q where q: "file_at data F q st" using assms(1) stream_file unfolding window_state_def in_stream_def bits_at_def by blast
  obtain g where g: "initialize_tables E st = st\<lparr>dev := (dev st)\<lparr>filepos := int off\<rparr>, gz := g\<rparr>" "saved_filepos g = 0" "bb g = 0" "bk g = 0"
      "gzip_vars.last_block g = 0" "block_len g = 0" "gzip_data_offset g = int off"
    using assms(2) by (simp add: initialize_tables_def reset_linalloc_def Let_def)
  show ?thesis unfolding g(1) by (rule window_at_start) (use g(2-7) assms(4) seek_at [OF q assms(3)] in simp_all)
qed

lemma gzip_read_at:
  assumes "gzip_at data F end out off q st" "n = clamp_len (length out) q len"
  shows "\<exists>buf' st'. grub_read (with_gunzip E) len buf st = Some (int n, buf', st') \<and>
    (\<forall>k. buf' k = (if k < n then out ! (q + k) else buf k)) \<and> gzip_at data F end out off (q + n) st'"
proof -
  note a = assms(1) [unfolded gzip_state_def]
  obtain j where j: "window_at data F end out j (gunzip_swap_values (st\<lparr>compressed_file := False\<rparr>))" using a by blast
  have "(dev st)\<lparr>filepos := int q\<rparr> = dev st" using a by (cases "dev st") simp
  then have same: "st\<lparr>dev := (dev st)\<lparr>filepos := int q\<rparr>\<rparr> = st" by (cases st) simp
  have qn: "q + n \<le> length out" using clamp_len_le [of q "length out" len] a assms(2) by simp
  have rd: "grub_read (with_gunzip E) len buf st = gunzip_read E (int n) buf st"
  proof -
    have pos: "(if filepos (dev st) < 0 \<or> filepos (dev st) > filemax (dev st) then filemax (dev st) else filepos (dev st)) = int q" using a by auto
    have l: "(if len < 0 \<or> len > filemax (dev st) - int q then filemax (dev st) - int q else len) = int n"
      using a by (auto simp: assms(2) clamp_len_def)
    have "\<not> int q + int n > fsmax (dev st)" using a qn by simp
    then show ?thesis using a unfolding grub_read_def Let_def pos l same by (simp add: with_gunzip_def)
  qed
  define st1 where "st1 = gunzip_swap_values (st\<lparr>compressed_file := False\<rparr>)"
  define st2 where "st2 = (if saved_filepos (gz st1) > gzip_filepos (gz st1) + int WSIZE then initialize_tables E st1 else st1)"
  have g1: "gzip_filepos (gz st1) = int q" "gzip_filemax (gz st1) = int (length out)" "gzip_fsmax (gz st1) = int (length out)"
      "gzip_data_offset (gz st1) = int off" "saved_filepos (gz st1) = int (j * WSIZE)"
    using a j by (simp_all add: st1_def gunzip_swap_values_def Let_def window_state_def)
  have p2: "gzip_filepos (gz st2) = int q" "pos_keep st1 st2"
    using g1(1) by (simp_all add: st2_def initialize_tables_def reset_linalloc_def Let_def pos_keep_def)
  obtain j2 where j2: "window_at data F end out j2 st2" "j2 * WSIZE \<le> q + WSIZE"
  proof (cases "saved_filepos (gz st1) > gzip_filepos (gz st1) + int WSIZE")
    case True
    then show ?thesis using that [of 0] restart_ok [OF j [folded st1_def] g1(4)] a by (simp add: st2_def)
  next
    case False
    then have "j * WSIZE \<le> q + WSIZE" unfolding g1 by linarith
    then show ?thesis using that [of j] False j by (simp add: st2_def st1_def [symmetric])
  qed
  obtain buf' j' st3 where r: "gunzip_loop E (int n) 0 buf st2 = Some (0 + n, buf', st3)"
      "\<forall>k. buf' k = (if 0 \<le> k \<and> k < 0 + n then out ! (q + (k - 0)) else buf k)"
      "window_at data F end out j' st3" "gzip_filepos (gz st3) = int (q + n)" "pos_keep st2 st3"
    using gunzip_loop_ok [OF j2(1) p2(1) qn j2(2), of 0 buf] a by blast
  define st' where "st' = gunzip_swap_values (st3\<lparr>compressed_file := True\<rparr>)"
  note v = window_vars [OF r(3)]
  have read: "gunzip_read E (int n) buf st = Some (int n, buf', st')"
    using r(1) v by (simp add: gunzip_read_def Let_def st1_def [symmetric] st2_def [symmetric] st'_def)
  have k: "pos_keep st1 st3" using pos_keep_trans [OF p2(2) r(5)] .
  have swapped: "gunzip_swap_values (st'\<lparr>compressed_file := False\<rparr>) = st3"
    using v by (simp add: st'_def gunzip_swap_values_def Let_def)
  have "gzip_at data F end out off (q + n) st'"
    using a k g1 r(4) qn r(3) swapped unfolding gzip_state_def by (auto simp: st'_def gunzip_swap_values_def Let_def pos_keep_def)
  then show ?thesis using rd read r(2) by auto
qed

end

end
