(* ===== verification/Gzip_File.thy ===== *)
theory Gzip_File
  imports Gunzip_Read
begin

text \<open>
  Open files as a client sees them: sequences of \<^verbatim>\<open>grub_seek\<close> and \<^verbatim>\<open>grub_read\<close> on plain files and on
  files that \<^verbatim>\<open>gunzip_read\<close> decompresses, against one abstract file.
\<close>

section \<open>The abstract file\<close>

datatype file_op = Seek int | Read int

text \<open>The results of a sequence of operations on a list of bytes, from position \<open>q\<close> on: a seek outside of the
  file fails and has no effect, a read stops at the end, and a negative length reads the rest.\<close>

fun file_ops :: "byte list \<Rightarrow> nat \<Rightarrow> file_op list \<Rightarrow> (int \<times> byte list) list" where
  "file_ops out q [] = []"
| "file_ops out q (Seek p # ops) =
     (if p < 0 \<or> p > int (length out) then (- 1, []) # file_ops out q ops else (p, []) # file_ops out (nat p) ops)"
| "file_ops out q (Read len # ops) =
     (let n = clamp_len (length out) q len in (int n, take n (drop q out)) # file_ops out (q + n) ops)"

text \<open>The same sequence on a state of the program. Every read has a buffer of its own.\<close>

fun run_ops :: "(int \<Rightarrow> mem \<Rightarrow> 's \<Rightarrow> (int \<times> mem \<times> 's) option) \<Rightarrow> (int \<Rightarrow> 's \<Rightarrow> int \<times> 's) \<Rightarrow> file_op list \<Rightarrow> 's \<Rightarrow>
    (int \<times> byte list) list option" where
  "run_ops rd sk [] st = Some []"
| "run_ops rd sk (Seek p # ops) st = (case sk p st of (r, st1) \<Rightarrow> map_option ((#) (r, [])) (run_ops rd sk ops st1))"
| "run_ops rd sk (Read len # ops) st =
     (case rd len (\<lambda>_. 0) st of
        None \<Rightarrow> None
      | Some (r, m, st1) \<Rightarrow> map_option ((#) (r, map m [0..<nat r])) (run_ops rd sk ops st1))"

text \<open>The interface: a state that stands for the bytes \<open>out\<close> at position \<open>q\<close>.\<close>

locale byte_source =
  fixes rd :: "int \<Rightarrow> mem \<Rightarrow> 's \<Rightarrow> (int \<times> mem \<times> 's) option" and sk :: "int \<Rightarrow> 's \<Rightarrow> int \<times> 's"
    and source_at :: "byte list \<Rightarrow> nat \<Rightarrow> 's \<Rightarrow> bool"
  assumes source_read: "source_at out q st \<Longrightarrow> n = clamp_len (length out) q len \<Longrightarrow>
      \<exists>m st'. rd len buf st = Some (int n, m, st') \<and> (\<forall>k<n. m k = out ! (q + k)) \<and> source_at out (q + n) st'"
    and source_seek: "source_at out q st \<Longrightarrow> \<exists>r st'. sk p st = (r, st') \<and>
      (if p < 0 \<or> p > int (length out) then r = - 1 \<and> source_at out q st' else r = p \<and> source_at out (nat p) st')"
    and source_le: "source_at out q st \<Longrightarrow> q \<le> length out"
begin

lemma run_refines: "source_at out q st \<Longrightarrow> run_ops rd sk ops st = Some (file_ops out q ops)"
proof (induction ops arbitrary: q st)
  case Nil
  then show ?case by simp
next
  case (Cons x ops)
  show ?case
  proof (cases x)
    case (Seek p)
    obtain r st' where "sk p st = (r, st')"
        "if p < 0 \<or> p > int (length out) then r = - 1 \<and> source_at out q st' else r = p \<and> source_at out (nat p) st'"
      using source_seek [OF Cons.prems, of p] by blast
    then show ?thesis using Cons.IH by (auto simp: Seek split: if_splits)
  next
    case (Read len)
    define n where "n = clamp_len (length out) q len"
    obtain m st' where r: "rd len (\<lambda>_. 0) st = Some (int n, m, st')" "\<forall>k<n. m k = out ! (q + k)" "source_at out (q + n) st'"
      using source_read [OF Cons.prems n_def] by blast
    have "map m [0..<n] = take n (drop q out)"
      using r(2) clamp_len_le [OF source_le [OF Cons.prems], of len] by (intro nth_equalityI) (auto simp: n_def)
    then show ?thesis using r(1) Cons.IH [OF r(3)] by (simp add: Read n_def [symmetric])
  qed
qed

end

section \<open>Plain files and gzip files\<close>

definition plain_source :: "(mem \<Rightarrow> nat \<Rightarrow> nat \<Rightarrow> 's \<Rightarrow> bool) \<Rightarrow> byte list \<Rightarrow> nat \<Rightarrow> 's \<Rightarrow> bool" where
  "plain_source file_at out q st \<longleftrightarrow> (\<exists>data F. file_at data F q st \<and> out = map data [0..<F])"

definition gzip_source :: "(mem \<Rightarrow> nat \<Rightarrow> nat \<Rightarrow> ('f, 'w) files \<Rightarrow> bool) \<Rightarrow> byte list \<Rightarrow> nat \<Rightarrow> ('f, 'w) files \<Rightarrow> bool" where
  "gzip_source file_at out q st \<longleftrightarrow> (\<exists>data F end off. gzip_state file_at data F end out off q st)"

context file_reader
begin

lemma plain_byte_source: "byte_source (grub_read E) grub_seek (plain_source file_at)"
proof
  fix out q and st :: "('f, 'w) files" and n :: nat and len buf
  assume a: "plain_source file_at out q st" "n = clamp_len (length out) q len"
  then obtain data F where d: "file_at data F q st" "out = map data [0..<F]" by (auto simp: plain_source_def)
  have n: "n = clamp_len F q len" using a(2) d(2) by simp
  obtain m st' where r: "grub_read E len buf st = Some (int n, m, st')" "\<forall>k. m k = (if k < n then data (q + k) else buf k)"
      "file_at data F (q + n) st'" using read_at [OF d(1) n, of buf] by blast
  have "q + n \<le> F" using clamp_len_le [of q F len] at_vars [OF d(1)] n by simp
  then show "\<exists>m st'. grub_read E len buf st = Some (int n, m, st') \<and> (\<forall>k<n. m k = out ! (q + k)) \<and> plain_source file_at out (q + n) st'"
    using r d(2) by (auto simp: plain_source_def)
next
  fix out q p and st :: "('f, 'w) files"
  assume "plain_source file_at out q st"
  note src = this
  then obtain data F where d: "file_at data F q st" "out = map data [0..<F]" by (auto simp: plain_source_def)
  have s: "plain_source file_at out (nat p) (st\<lparr>dev := (dev st)\<lparr>filepos := p\<rparr>\<rparr>)" if "0 \<le> p" "p \<le> int F"
  proof -
    have "file_at data F (nat p) (st\<lparr>dev := (dev st)\<lparr>filepos := p\<rparr>\<rparr>)" using seek_at [OF d(1), of "nat p" "gz st"] that by (simp add: nat_le_iff)
    then show ?thesis using d(2) unfolding plain_source_def by blast
  qed
  then show "\<exists>r st'. grub_seek p st = (r, st') \<and>
      (if p < 0 \<or> p > int (length out) then r = - 1 \<and> plain_source file_at out q st' else r = p \<and> plain_source file_at out (nat p) st')"
    using at_vars [OF d(1)] d(2) src s by (auto simp: grub_seek_def)
next
  fix out q and st :: "('f, 'w) files"
  assume "plain_source file_at out q st"
  then show "q \<le> length out" using at_vars by (auto simp: plain_source_def)
qed

lemma gzip_seek: "gzip_at data F end out off q st \<Longrightarrow> p \<le> length out \<Longrightarrow> gzip_at data F end out off p (st\<lparr>dev := (dev st)\<lparr>filepos := int p\<rparr>\<rparr>)"
proof -
  assume a: "gzip_at data F end out off q st" "p \<le> length out"
  obtain j where j: "window_at data F end out j (gunzip_swap_values (st\<lparr>compressed_file := False\<rparr>))"
    using a(1) unfolding gzip_state_def by blast
  define st1 where "st1 = gunzip_swap_values (st\<lparr>compressed_file := False\<rparr>)"
  have e: "gunzip_swap_values (st\<lparr>dev := (dev st)\<lparr>filepos := int p\<rparr>, compressed_file := False\<rparr>) = st1\<lparr>gz := (gz st1)\<lparr>gzip_filepos := int p\<rparr>\<rparr>"
    by (simp add: st1_def gunzip_swap_values_def Let_def)
  have "window_at data F end out j (st1\<lparr>gz := (gz st1)\<lparr>gzip_filepos := int p\<rparr>\<rparr>)"
    using window_at_gz [OF j [folded st1_def], where a = "int p" and b = "gzip_filemax (gz st1)" and c = "gzip_fsmax (gz st1)"] by simp
  then show ?thesis using a unfolding gzip_state_def by (auto simp: e)
qed

lemma gzip_byte_source: "byte_source (grub_read (with_gunzip E)) grub_seek (gzip_source file_at)"
proof
  fix out q and st :: "('f, 'w) files" and n :: nat and len buf
  assume a: "gzip_source file_at out q st" "n = clamp_len (length out) q len"
  then obtain data F "end" off where d: "gzip_at data F end out off q st" by (auto simp: gzip_source_def)
  show "\<exists>m st'. grub_read (with_gunzip E) len buf st = Some (int n, m, st') \<and> (\<forall>k<n. m k = out ! (q + k)) \<and> gzip_source file_at out (q + n) st'"
    using gzip_read_at [OF d a(2), of buf] unfolding gzip_source_def by (elim exE conjE) auto
next
  fix out q p and st :: "('f, 'w) files"
  assume "gzip_source file_at out q st"
  note src = this
  then obtain data F "end" off where d: "gzip_at data F end out off q st" by (auto simp: gzip_source_def)
  have m: "filemax (dev st) = int (length out)" using d by (simp add: gzip_state_def)
  have s: "gzip_source file_at out (nat p) (st\<lparr>dev := (dev st)\<lparr>filepos := p\<rparr>\<rparr>)" if "0 \<le> p" "p \<le> int (length out)"
  proof -
    have "gzip_at data F end out off (nat p) (st\<lparr>dev := (dev st)\<lparr>filepos := p\<rparr>\<rparr>)" using gzip_seek [OF d, of "nat p"] that by (simp add: nat_le_iff)
    then show ?thesis unfolding gzip_source_def by blast
  qed
  then show "\<exists>r st'. grub_seek p st = (r, st') \<and>
      (if p < 0 \<or> p > int (length out) then r = - 1 \<and> gzip_source file_at out q st' else r = p \<and> gzip_source file_at out (nat p) st')"
    using m src s by (auto simp: grub_seek_def)
next
  fix out q and st :: "('f, 'w) files"
  assume "gzip_source file_at out q st"
  then show "q \<le> length out" by (auto simp: gzip_source_def gzip_state_def)
qed

end

interpretation plain_block: byte_source "grub_read E" grub_seek "plain_source (block_at E)" for E :: "('f, 'w) env"
  by (rule block.plain_byte_source)

interpretation plain_fat: byte_source "grub_read E" grub_seek "plain_source (fat_at E)" for E :: "(fat_fs, 'w) env"
  by (rule fat.plain_byte_source)

interpretation gzip_block: byte_source "grub_read (with_gunzip E)" grub_seek "gzip_source (block_at E)" for E :: "('f, 'w) env"
  by (rule block.gzip_byte_source)

interpretation gzip_fat: byte_source "grub_read (with_gunzip E)" grub_seek "gzip_source (fat_at E)" for E :: "(fat_fs, 'w) env"
  by (rule fat.gzip_byte_source)

section \<open>Properties\<close>

lemma gzip_header_end_ge: "10 \<le> gzip_header_end data F"
proof -
  have "10 \<le> q \<Longrightarrow> 10 \<le> after_zero data F q" for q using after_zero_ge [of q data F] by simp
  then show ?thesis by (simp add: gzip_header_end_def Let_def)
qed

text \<open>The state that opening leaves.\<close>

lemma gzip_open_state:
  fixes st :: "('f, 'w) files"
  assumes "disk_serves (firm E) P b N (dev st)" "errnum (dev st) = ERR_NONE"
    "saved_drive (dev st) = current_drive (dev st)" "saved_partition (dev st) = current_partition (dev st)"
    "buf_drive (dev st) \<noteq> - 1" "sane_partition (dev st) = (True, dev st)"
    "bl \<noteq> []" "length bl < BLK_MAX" "\<forall>(a, n) \<in> set bl. 0 \<le> a \<and> 0 < n \<and> a + n \<le> N" "blk_size b bl < 2 ^ 30"
    "ends_list (deref rest)" "data = blk_byte P b bl" "F = blk_size b bl"
    "\<not> no_decompression (gz st)" "ld16 data 0 = 0x8B1F \<or> ld16 data 0 = 0x9E1F" "ld8 data 2 = 8" "ld8 data 3 AND 0xE2 = 0"
    "F + 2 < loop_fuel E" "inflates data end out (8 * gzip_header_end data F) Between False 0" "end + 64 \<le> 8 * F"
    "s32 (ld32 data (F - 4)) = int (length out)"
  shows "\<exists>st'. grub_open (with_gunzip E) (print_blocks bl @ rest) st = Some (True, st') \<and> gzip_state (block_at E) data F end out (gzip_header_end data F) 0 st'"
proof -
  let ?G = "with_gunzip E"
  have firm: "firm ?G = firm E" "loop_fuel ?G = loop_fuel E" by (simp_all add: with_gunzip_def)
  define off where "off = gzip_header_end data F"
  have inf: "inflates data end out (8 * off) Between False 0" using assms(19) by (simp add: off_def)
  have off: "off \<le> F" using inflates_le [OF inf] assms(20) by simp
  have "10 \<le> off" by (simp add: off_def gzip_header_end_ge)
  then have F: "18 \<le> F" using inflates_le [OF inf] assms(20) by simp
  obtain st0 where o: "grub_open ?G (print_blocks bl @ rest) st = gunzip_test_header ?G st0" "block_at ?G data F 0 st0" "gz st0 = gz st"
    using grub_open_list [of ?G, unfolded firm, OF assms(1-11)] unfolding assms(12,13) by blast
  obtain st' where h: "gunzip_test_header ?G st0 = Some (True, st')" "compressed_file st'"
    "filepos (dev st') = 0" "filemax (dev st') = int (length out)" "fsmax (dev st') = int (length out)"
    "gzip_data_offset (gz st') = int off" "saved_filepos (gz st') = 0"
    "bk (gz st') = 0" "bb (gz st') = 0" "gzip_vars.last_block (gz st') = 0" "block_len (gz st') = 0"
    "block_at ?G data F off (gunzip_swap_values (st'\<lparr>compressed_file := False\<rparr>))"
    using block.gzip_header [OF o(2) _ F assms(15-17)] o(3) assms(14,18,21) off unfolding off_def firm by auto
  have "block_at E data F off (gunzip_swap_values (st'\<lparr>compressed_file := False\<rparr>))"
    using h(12) by (simp add: block_at_def firm)
  then have "window_state (block_at E) data F end out 0 (gunzip_swap_values (st'\<lparr>compressed_file := False\<rparr>))"
    by (rule block.window_at_start) (use h inf in \<open>simp_all add: gunzip_swap_values_def Let_def\<close>)
  then have "gzip_state (block_at E) data F end out off 0 st'"
    unfolding gzip_state_def using h off inf assms(20) by auto
  then show ?thesis using o(1) h(1) unfolding off_def by auto
qed

text \<open>C1: Gzip files. Opening a block list whose contents are a gzip file succeeds, and from then on every sequence of
  seeks and reads, backwards and across the windows of 32 KB too, has the results it has on the list of the bytes that the
  compressed data stands for (RFC 1951: stored, fixed and dynamic blocks). The trailer has the number of bytes.\<close>

theorem gzip_file_session:
  fixes st :: "('f, 'w) files"
  assumes "disk_serves (firm E) P b N (dev st)" "errnum (dev st) = ERR_NONE"
    "saved_drive (dev st) = current_drive (dev st)" "saved_partition (dev st) = current_partition (dev st)"
    "buf_drive (dev st) \<noteq> - 1" "sane_partition (dev st) = (True, dev st)"
    "bl \<noteq> []" "length bl < BLK_MAX" "\<forall>(a, n) \<in> set bl. 0 \<le> a \<and> 0 < n \<and> a + n \<le> N" "blk_size b bl < 2 ^ 30"
    "ends_list (deref rest)" "data = blk_byte P b bl" "F = blk_size b bl"
    "\<not> no_decompression (gz st)" "ld16 data 0 = 0x8B1F \<or> ld16 data 0 = 0x9E1F" "ld8 data 2 = 8" "ld8 data 3 AND 0xE2 = 0"
    "F + 2 < loop_fuel E" "inflates data end out (8 * gzip_header_end data F) Between False 0" "end + 64 \<le> 8 * F"
    "s32 (ld32 data (F - 4)) = int (length out)"
  shows "\<exists>st'. grub_open (with_gunzip E) (print_blocks bl @ rest) st = Some (True, st') \<and> filemax (dev st') = int (length out) \<and>
    run_ops (grub_read (with_gunzip E)) grub_seek ops st' = Some (file_ops out 0 ops)"
proof -
  obtain st' where o: "grub_open (with_gunzip E) (print_blocks bl @ rest) st = Some (True, st')"
      "gzip_state (block_at E) data F end out (gzip_header_end data F) 0 st'"
    using gzip_open_state [OF assms] by blast
  have "gzip_source (block_at E) out 0 st'" using o(2) unfolding gzip_source_def by blast
  then show ?thesis using gzip_block.run_refines o by (auto simp: gzip_state_def)
qed

text \<open>C35: Every sequence of seeks and reads on an open file of a FAT partition has the results it has on the list of the
  bytes of the file.\<close>

theorem fat_file_session:
  assumes "fat_at E data F q st"
  shows "run_ops (grub_read E) grub_seek ops st = Some (file_ops (map data [0..<F]) q ops)"
  by (rule plain_fat.run_refines) (use assms in \<open>auto simp: plain_source_def\<close>)

text \<open>The file \<^verbatim>\<open>aaaa\<close> in sector 4: a fixed block with a literal, a match of three bytes, and the end.\<close>

definition aaaa_disk :: mem where
  "aaaa_disk k = (if k = 2048 then 0x1F else if k = 2049 then 0x8B else if k = 2050 then 8 else if k = 2058 then 0x4B
     else if k = 2059 then 4 else if k = 2060 then 2 else if k = 2556 then 4 else 0)"

lemma aaaa_no_ezd: "no_ezd aaaa_disk 9"
proof -
  have "aaaa_disk k \<noteq> 0x55" for k by (simp add: aaaa_disk_def)
  then show ?thesis
    by (auto simp: no_ezd_def has_ezd_def PC_SLICE_TYPE_def ld8_def vtrack_def word_uint_eq_iff)
qed

lemma fixed_codes: "rfc_code fixed_lengths 97 = 0x91" "rfc_code fixed_lengths 256 = 0" "rfc_code fixed_lengths 257 = 1" "rfc_code (replicate 30 5) 0 = 0"
  by code_simp+

lemma fixed_nth: "fixed_lengths ! 97 = 8" "fixed_lengths ! 256 = 7" "fixed_lengths ! 257 = 7" "length fixed_lengths = 288"
  by (simp_all add: fixed_lengths_def)


lemma fnat_numeral: "fnat data P (numeral n) = of_bool (fbit data P) + 2 * fnat data (P + 1) (pred_numeral n)" "fnat data P 1 = of_bool (fbit data P)"
  by (simp_all add: numeral_eq_Suc)

lemma brev_numeral: "brev (numeral n) B = B mod 2 * 2 ^ pred_numeral n + brev (pred_numeral n) (B div 2)" "brev 1 B = B mod 2"
  by (simp_all add: numeral_eq_Suc)

lemma aaaa_inflates:
  assumes "\<And>k. k < 20 \<Longrightarrow> data k = aaaa_disk (2048 + k)"
  shows "inflates data 110 [97, 97, 97, 97] (8 * 10) Between False 0"
proof -
  let ?ll = fixed_lengths and ?dl = "replicate 30 5 :: nat list"
  have bits: "fbit data P = bit (aaaa_disk (2048 + P div 8)) (P mod 8)" if "P < 160" for P
    using that by (simp add: fbit_def assms div_less_iff_less_mult)
  have eob: "code_at data 103 ?ll 256" and mat: "code_at data 91 ?ll 257" and lit: "code_at data 83 ?ll 97" and dst: "code_at data 98 ?dl 0"
    by (simp_all add: code_at_def fixed_codes fixed_nth fnat_numeral brev_numeral bits aaaa_disk_def)
  have "inflates data 110 [97, 97, 97, 97] 110 Between True 4" by (rule inf_end) simp_all
  then have "inflates data 110 [97, 97, 97, 97] 103 (Codes ?ll ?dl) True 4"
    using inf_block_end [OF eob] by (simp add: fixed_nth)
  then have c0: "inflates data 110 [97, 97, 97, 97] 103 (Copying 0 1 ?ll ?dl) True (3 + 1)" using inf_copied by simp
  have c1: "inflates data 110 [97, 97, 97, 97] 103 (Copying (Suc 0) 1 ?ll ?dl) True 3" by (rule inf_copy [OF _ _ c0]) simp_all
  have c2: "inflates data 110 [97, 97, 97, 97] 103 (Copying (Suc (Suc 0)) 1 ?ll ?dl) True 2" by (rule inf_copy) (use c1 in simp_all)
  have "inflates data 110 [97, 97, 97, 97] 103 (Copying (Suc (Suc (Suc 0))) 1 ?ll ?dl) True 1"
    by (rule inf_copy) (use c2 in \<open>simp_all add: numeral_2_eq_2\<close>)
  then have "inflates data 110 [97, 97, 97, 97] 103 (Copying 3 1 ?ll ?dl) True 1" by (simp add: numeral_3_eq_3)
  then have cp: "inflates data 110 [97, 97, 97, 97] (98 + ?dl ! 0 + 0) (Copying 3 1 ?ll ?dl) True 1" by simp
  have "inflates data 110 [97, 97, 97, 97] 91 (Codes ?ll ?dl) True 1"
    by (rule inf_match [OF mat, where x = 0 and n = 3 and ?P1.0 = 98 and z = 0 and dx = 0 and dist = 1, OF _ _ _ _ _ dst _ _ _ _ cp])
      (simp_all add: fixed_nth cplens_def cplext_def cpdist_def cpdext_def)
  then have m1: "inflates data 110 [97, 97, 97, 97] (83 + ?ll ! 97) (Codes ?ll ?dl) True (0 + 1)" by (simp add: fixed_nth)
  have "inflates data 110 [97, 97, 97, 97] 83 (Codes ?ll ?dl) True 0"
    by (rule inf_literal [OF lit _ _ _ m1]) simp_all
  moreover have "fbit data 80" "fnat data 81 2 = 1" by (simp_all add: bits aaaa_disk_def fnat_numeral)
  ultimately show ?thesis using inf_fixed [of data 80] by simp
qed


lemma aaaa_facts:
  "k < 512 \<Longrightarrow> blk_byte aaaa_disk 9 [(4, 1)] k = aaaa_disk (2048 + k)" "gzip_header_end (blk_byte aaaa_disk 9 [(4, 1)]) 512 = 10"
  "inflates (blk_byte aaaa_disk 9 [(4, 1)]) 110 [97, 97, 97, 97] (8 * 10) Between False 0" "blk_sectors [(4, 1)] = [4]"
proof -
  let ?data = "blk_byte aaaa_disk 9 [(4, 1)]"
  show sec: "blk_sectors [(4, 1)] = [4]" by (simp add: blk_sectors_def)
  have byt: "?data k = aaaa_disk (2048 + k)" if "k < 512" for k using that by (simp add: blk_byte_def sec)
  then show "k < 512 \<Longrightarrow> ?data k = aaaa_disk (2048 + k)" .
  show "gzip_header_end ?data 512 = 10" by (simp add: gzip_header_end_def ld8_def byt aaaa_disk_def)
  show "inflates ?data 110 [97, 97, 97, 97] (8 * 10) Between False 0" by (rule aaaa_inflates) (simp add: byt)
qed

lemma aaaa_state: "\<exists>st. gzip_state (block_at (sample_env [])) (blk_byte aaaa_disk 9 [(4, 1)]) 512 110 [97, 97, 97, 97] 10 0 st"
proof -
  note f = aaaa_facts
  have "\<exists>st'. grub_open (with_gunzip (sample_env [])) (print_blocks [(4, 1)] @ []) (sample_files (tagged_state 0 aaaa_disk)) = Some (True, st') \<and>
      gzip_state (block_at (sample_env [])) (blk_byte aaaa_disk 9 [(4, 1)]) 512 110 [97, 97, 97, 97] (gzip_header_end (blk_byte aaaa_disk 9 [(4, 1)]) 512) 0 st'"
    by (rule gzip_open_state [where N = 2016 and b = 9 and P = aaaa_disk and bl = "[(4, 1)]", OF _ _ _ _ _ _ _ _ _ _ _ _ _ _ _ _ _ _ f(3) [folded f(2)]])
       (use tagged_serves [OF aaaa_no_ezd] tagged_sane [of aaaa_disk] tagged_vars [of aaaa_disk] f(4) in
         \<open>simp_all add: BLK_MAX_def blk_size_def ends_list_def ld32_def ld16_def ld8_def f(1) aaaa_disk_def s32_def\<close>)
  then show ?thesis unfolding f(2) by blast
qed

theorem gzip_file_session_witness:
  "\<exists>st'. grub_open (with_gunzip (sample_env [])) (print_blocks [(4, 1)]) (sample_files (tagged_state 0 aaaa_disk)) = Some (True, st') \<and>
     run_ops (grub_read (with_gunzip (sample_env []))) grub_seek [Read 2, Seek 5, Seek 1, Read 10, Read (- 1)] st' =
       Some [(2, [97, 97]), (- 1, []), (1, []), (3, [97, 97, 97]), (0, [])]"
proof -
  let ?bl = "[(4, 1)] :: blk_list"
  note f = aaaa_facts
  let ?ops = "[Read 2, Seek 5, Seek 1, Read 10, Read (- 1)]"
  have "\<exists>st'. grub_open (with_gunzip (sample_env [])) (print_blocks ?bl @ []) (sample_files (tagged_state 0 aaaa_disk)) = Some (True, st') \<and>
      filemax (dev st') = int (length [97, 97, 97, 97 :: byte]) \<and>
      run_ops (grub_read (with_gunzip (sample_env []))) grub_seek ?ops st' = Some (file_ops [97, 97, 97, 97] 0 ?ops)"
    by (rule gzip_file_session [where N = 2016 and b = 9 and P = aaaa_disk and F = 512, OF _ _ _ _ _ _ _ _ _ _ _ _ _ _ _ _ _ _ f(3) [folded f(2)]])
       (use tagged_serves [OF aaaa_no_ezd] tagged_sane [of aaaa_disk] tagged_vars [of aaaa_disk] f(4) in
         \<open>simp_all add: BLK_MAX_def blk_size_def ends_list_def ld32_def ld16_def ld8_def f(1) aaaa_disk_def s32_def\<close>)
  moreover have "file_ops [97, 97, 97, 97 :: byte] 0 ?ops = [(2, [97, 97]), (- 1, []), (1, []), (3, [97, 97, 97]), (0, [])]"
    by (simp add: clamp_len_def Let_def)
  ultimately show ?thesis by auto
qed

theorem fat_file_session_witness:
  "\<exists>st b. run_ops (grub_read (sample_env [fat_entry 9 ram_firmware])) grub_seek [Read 2000, Seek 700, Read 1] st =
     Some [(600, b), (700, []), (0, [])] \<and> b ! 0 = fat_disk 2148"
proof -
  obtain st where st: "fat_at (sample_env [fat_entry 9 ram_firmware]) (file_byte fat_disk 9 fat_sample 2) 700 100 st" using fat_sample_at by blast
  have b: "file_byte fat_disk 9 fat_sample 2 100 = fat_disk 2148"
    using fat_sample_ok by (simp add: file_byte_def cluster_addr_def) (simp add: fat_sample_def)
  show ?thesis
    using fat_file_session [OF st, of "[Read 2000, Seek 700, Read 1]"] b
    by (intro exI [of _ st] exI [of _ "drop 100 (map (file_byte fat_disk 9 fat_sample 2) [0..<700])"]) (simp add: clamp_len_def del: upt_conv_Cons)
qed

subsection \<open>Damaged data\<close>

lemma inflate_window_failed:
  assumes "errnum (dev st) \<noteq> ERR_NONE"
  shows "inflate_window E st = Some (upd_gz (\<lambda>g. g\<lparr>wp := 0, saved_filepos := saved_filepos g + int WSIZE\<rparr>) st)"
  using assms by (simp add: inflate_window_def window_loop.simps)

text \<open>After an error the positions are moved on without any data, so the loop ends.\<close>

lemma to_window_failed:
  assumes "errnum (dev st) \<noteq> ERR_NONE"
  shows "\<exists>st'. to_window E st = Some st' \<and> dev st' = dev st"
  using assms
proof (induction "nat (gzip_filepos (gz st) - saved_filepos (gz st) + 1)" arbitrary: st rule: less_induct)
  case less
  show ?case
  proof (cases "gzip_filepos (gz st) \<ge> saved_filepos (gz st)")
    case True
    define st1 where "st1 = upd_gz (\<lambda>g. g\<lparr>wp := 0, saved_filepos := saved_filepos g + int WSIZE\<rparr>) st"
    have step: "to_window E st = to_window E st1"
      using True inflate_window_failed [OF less.prems, of E] by (subst to_window.simps) (simp add: st1_def)
    have "nat (gzip_filepos (gz st1) - saved_filepos (gz st1) + 1) < nat (gzip_filepos (gz st) - saved_filepos (gz st) + 1)"
      using True by (simp add: st1_def WSIZE_def)
    then show ?thesis using less.hyps [of st1] less.prems step by (simp add: st1_def)
  next
    case False
    then show ?thesis by (subst to_window.simps) simp
  qed
qed

context file_reader
begin

text \<open>A block of the reserved type.\<close>

lemma bad_block_window:
  assumes "file_at data F off st" "gzip_data_offset (gz st) = int off" "saved_filepos (gz st) = 0" "bb (gz st) = 0" "bk (gz st) = 0"
    "gzip_vars.last_block (gz st) = 0" "block_len (gz st) = 0" "fnat data (8 * off + 1) 2 = 3" "off + 8 \<le> F" "gzip_filepos (gz st) \<ge> 0"
  shows "\<exists>st'. to_window E st = Some st' \<and> errnum (dev st') = ERR_BAD_GZIP_DATA"
proof -
  define st1 where "st1 = upd_gz (\<lambda>g. g\<lparr>wp := 0\<rparr>) st"
  have "stream_at file_at data F off st" unfolding stream_at_def using assms(1,2) by blast
  then have "stream_at file_at data F off st1" unfolding st1_def by (rule stream_at_gz) auto
  then have bits: "bits_at file_at data F (8 * off) (bb (gz st1)) (bk (gz st1)) st1" using assms(4,5) by (auto simp: bits_at_def st1_def)
  obtain st2 where b: "get_new_block E st1 = Some st2" "block_type (gz st2) = 3" "errnum (dev st2) = ERR_NONE" "saved_filepos (gz st2) = 0"
      "gzip_filepos (gz st2) = gzip_filepos (gz st)"
    using block_start [OF bits] assms(3,8,9) bits_vars [OF bits]
    by (auto simp: INFLATE_STORED_def INFLATE_FIXED_def INFLATE_DYNAMIC_def header_keep_def st1_def)
  define st3 where "st3 = set_errnum ERR_BAD_GZIP_DATA st2"
  have st3: "errnum (dev st3) = ERR_BAD_GZIP_DATA" by (simp add: st3_def set_errnum_def)
  have "window_loop E st1 = Some (False, st3)"
    using b(1,2) assms(6,7) bits_vars [OF bits] st3
    by (subst window_loop.simps) (simp add: st1_def needs_block_def WSIZE_def INFLATE_DYNAMIC_def st3_def)
  then have w: "inflate_window E st = Some st3" by (simp add: inflate_window_def st1_def)
  have "to_window E st = to_window E st3" using w assms(3,10) by (subst to_window.simps) simp
  then show ?thesis using to_window_failed [of st3 E] st3 by auto
qed

end

text \<open>C36: Damaged gzip files. When the data of a gzip file starts with a block of the reserved type, the file can be opened, but
  reading it returns 0 with \<^verbatim>\<open>ERR_BAD_GZIP_DATA\<close>; it does not loop.\<close>

theorem gzip_bad_block:
  fixes st :: "('f, 'w) files"
  assumes "disk_serves (firm E) P b N (dev st)" "errnum (dev st) = ERR_NONE"
    "saved_drive (dev st) = current_drive (dev st)" "saved_partition (dev st) = current_partition (dev st)"
    "buf_drive (dev st) \<noteq> - 1" "sane_partition (dev st) = (True, dev st)"
    "bl \<noteq> []" "length bl < BLK_MAX" "\<forall>(a, n) \<in> set bl. 0 \<le> a \<and> 0 < n \<and> a + n \<le> N" "blk_size b bl < 2 ^ 30"
    "ends_list (deref rest)" "data = blk_byte P b bl" "F = blk_size b bl"
    "\<not> no_decompression (gz st)" "ld16 data 0 = 0x8B1F \<or> ld16 data 0 = 0x9E1F" "ld8 data 2 = 8" "ld8 data 3 AND 0xE2 = 0"
    "F + 2 < loop_fuel E" "gzip_header_end data F + 8 \<le> F" "fnat data (8 * gzip_header_end data F + 1) 2 = 3"
    "0 < s32 (ld32 data (F - 4))" "len \<noteq> 0"
  shows "\<exists>st1 buf' st2. grub_open (with_gunzip E) (print_blocks bl @ rest) st = Some (True, st1) \<and>
    grub_read (with_gunzip E) len buf st1 = Some (0, buf', st2) \<and> errnum (dev st2) = ERR_BAD_GZIP_DATA"
proof -
  let ?G = "with_gunzip E"
  have firm: "firm ?G = firm E" "loop_fuel ?G = loop_fuel E" by (simp_all add: with_gunzip_def)
  define off where "off = gzip_header_end data F"
  define S where "S = s32 (ld32 data (F - 4))"
  have F: "18 \<le> F" "off \<le> F" using assms(19) gzip_header_end_ge [of data F] by (simp_all add: off_def)
  obtain st0 where o: "grub_open ?G (print_blocks bl @ rest) st = gunzip_test_header ?G st0" "block_at ?G data F 0 st0" "gz st0 = gz st"
    using grub_open_list [of ?G, unfolded firm, OF assms(1-11)] unfolding assms(12,13) by blast
  obtain st' where h: "gunzip_test_header ?G st0 = Some (True, st')" "compressed_file st'"
    "filepos (dev st') = 0" "filemax (dev st') = S" "fsmax (dev st') = S" "gzip_data_offset (gz st') = int off" "saved_filepos (gz st') = 0"
    "bk (gz st') = 0" "bb (gz st') = 0" "gzip_vars.last_block (gz st') = 0" "block_len (gz st') = 0"
    "block_at ?G data F off (gunzip_swap_values (st'\<lparr>compressed_file := False\<rparr>))"
    using block.gzip_header [OF o(2) _ F(1) assms(15-17)] o(3) assms(14,18) F(2) unfolding off_def firm S_def by auto
  define st1 where "st1 = gunzip_swap_values (st'\<lparr>compressed_file := False\<rparr>)"
  have b1: "block_at E data F off st1" using h(12) by (simp add: block_at_def firm st1_def)
  have g1: "gzip_data_offset (gz st1) = int off" "saved_filepos (gz st1) = 0" "bb (gz st1) = 0" "bk (gz st1) = 0"
      "gzip_vars.last_block (gz st1) = 0" "block_len (gz st1) = 0" "gzip_filepos (gz st1) = 0"
    using h by (simp_all add: st1_def gunzip_swap_values_def Let_def)
  obtain st2 where w: "to_window E st1 = Some st2" "errnum (dev st2) = ERR_BAD_GZIP_DATA"
    using block.bad_block_window [OF b1 g1(1-6)] assms(19,20) g1(7) by (auto simp: off_def)
  have e1: "errnum (dev st1) = ERR_NONE" using block.at_vars [OF b1] by simp
  define n where "n = (if len < 0 \<or> len > S then S else len)"
  have n: "0 < n" "n \<le> S" using assms(21,22) by (auto simp: n_def S_def)
  obtain r buf' st3 where l: "gunzip_loop E n 0 buf st1 = Some (r, buf', st3)" "errnum (dev st3) = ERR_BAD_GZIP_DATA"
    using n(1) e1 w by (subst (asm) gunzip_loop.simps, simp add: Let_def, subst (asm) gunzip_loop.simps, simp)
  have "gunzip_read E n buf st' = Some (0, buf', gunzip_swap_values (st3\<lparr>compressed_file := True\<rparr>))"
    using l g1(2,7) unfolding gunzip_read_def st1_def [symmetric] by (simp add: Let_def)
  moreover have "grub_read ?G len buf st' = gunzip_read E n buf st'"
  proof -
    have "(dev st')\<lparr>filepos := 0\<rparr> = dev st'" using h(3) by (cases "dev st'") simp
    then have same: "st'\<lparr>dev := (dev st')\<lparr>filepos := 0\<rparr>\<rparr> = st'" by (cases st') simp
    have pos: "(if filepos (dev st') < 0 \<or> filepos (dev st') > filemax (dev st') then filemax (dev st') else filepos (dev st')) = 0"
      using h(3,4) n by simp
    have l: "(if len < 0 \<or> len > filemax (dev st') - 0 then filemax (dev st') - 0 else len) = n" using h(4) by (simp add: n_def)
    have "\<not> 0 + n > fsmax (dev st')" using h(5) n by simp
    then show ?thesis using h(2) unfolding grub_read_def Let_def pos l same by (simp add: with_gunzip_def)
  qed
  ultimately show ?thesis using o(1) h(1) l(2) by (auto simp: gunzip_swap_values_def Let_def)
qed


definition bad_disk :: mem where
  "bad_disk = aaaa_disk(2058 := 7)"

lemma bad_disk_byte: "bad_disk k = (if k = 2058 then 7 else aaaa_disk k)"
  by (simp add: bad_disk_def)

lemma bad_disk_no_ezd: "no_ezd bad_disk 9"
proof -
  have "bad_disk k \<noteq> 0x55" for k by (simp add: bad_disk_byte aaaa_disk_def)
  then show ?thesis
    by (auto simp: no_ezd_def has_ezd_def PC_SLICE_TYPE_def ld8_def vtrack_def word_uint_eq_iff)
qed

theorem gzip_bad_block_witness:
  "\<exists>st1 buf' st2. grub_open (with_gunzip (sample_env [])) (print_blocks [(4, 1)]) (sample_files (tagged_state 0 bad_disk)) = Some (True, st1) \<and>
     grub_read (with_gunzip (sample_env [])) 4 (\<lambda>_. 0) st1 = Some (0, buf', st2) \<and> errnum (dev st2) = ERR_BAD_GZIP_DATA"
proof -
  let ?bl = "[(4, 1)] :: blk_list" and ?data = "blk_byte bad_disk 9 [(4, 1)]"
  have sec: "blk_sectors ?bl = [4]" by (simp add: blk_sectors_def)
  have byt: "?data k = bad_disk (2048 + k)" if "k < 512" for k using that by (simp add: blk_byte_def sec)
  have he: "gzip_header_end ?data 512 = 10" by (simp add: gzip_header_end_def ld8_def byt bad_disk_byte aaaa_disk_def)
  have type: "fnat ?data (8 * gzip_header_end ?data 512 + 1) 2 = 3"
    unfolding he by (simp add: fnat_numeral fbit_def byt bad_disk_byte)
  have "\<exists>st1 buf' st2. grub_open (with_gunzip (sample_env [])) (print_blocks ?bl @ []) (sample_files (tagged_state 0 bad_disk)) = Some (True, st1) \<and>
      grub_read (with_gunzip (sample_env [])) 4 (\<lambda>_. 0) st1 = Some (0, buf', st2) \<and> errnum (dev st2) = ERR_BAD_GZIP_DATA"
    by (rule gzip_bad_block [where N = 2016 and b = 9 and P = bad_disk and F = 512, OF _ _ _ _ _ _ _ _ _ _ _ _ _ _ _ _ _ _ _ type])
       (use tagged_serves [OF bad_disk_no_ezd] tagged_sane [of bad_disk] tagged_vars [of bad_disk] sec in
         \<open>simp_all add: he BLK_MAX_def blk_size_def ends_list_def ld32_def ld16_def ld8_def byt bad_disk_byte aaaa_disk_def s32_def\<close>)
  then show ?thesis by simp
qed

text \<open>C37: The state of an open gzip file is kept: a read from any position neither traps nor loops, delivers the bytes of the
  decompressed data at that position, and leaves the file positioned behind them; seeking to any other position also keeps it.\<close>

theorem gzip_state_kept:
  assumes "gzip_state (block_at E) data F end out off q st"
  shows "\<exists>buf' st'. grub_read (with_gunzip E) len buf st = Some (int (clamp_len (length out) q len), buf', st') \<and>
    (\<forall>k. buf' k = (if k < clamp_len (length out) q len then out ! (q + k) else buf k)) \<and>
    gzip_state (block_at E) data F end out off (q + clamp_len (length out) q len) st' \<and>
    (p \<le> length out \<longrightarrow> gzip_state (block_at E) data F end out off p (snd (grub_seek (int p) st')))"
proof -
  obtain buf' st' where r: "grub_read (with_gunzip E) len buf st = Some (int (clamp_len (length out) q len), buf', st')"
      "\<forall>k. buf' k = (if k < clamp_len (length out) q len then out ! (q + k) else buf k)"
      "gzip_state (block_at E) data F end out off (q + clamp_len (length out) q len) st'"
    using block.gzip_read_at [OF assms refl] by blast
  have "grub_seek (int p) st' = (int p, st'\<lparr>dev := (dev st')\<lparr>filepos := int p\<rparr>\<rparr>)" if "p \<le> length out"
    using r(3) that by (simp add: gzip_state_def grub_seek_def)
  then show ?thesis using r block.gzip_seek [OF r(3), of p] by auto
qed

theorem gzip_state_kept_witness:
  "\<exists>st buf' st'. grub_read (with_gunzip (sample_env [])) 3 (\<lambda>_. 0) st = Some (3, buf', st') \<and> buf' 2 = 97 \<and>
     gzip_state (block_at (sample_env [])) (blk_byte aaaa_disk 9 [(4, 1)]) 512 110 [97, 97, 97, 97] 10 2 (snd (grub_seek 2 st'))"
proof -
  obtain st where st: "gzip_state (block_at (sample_env [])) (blk_byte aaaa_disk 9 [(4, 1)]) 512 110 [97, 97, 97, 97] 10 0 st" using aaaa_state by blast
  show ?thesis using gzip_state_kept [OF st, of 3 "\<lambda>_. 0" 2] by (intro exI [of _ st]) (force simp: clamp_len_def eval_nat_numeral)
qed

text \<open>C38: Matches. Let the window hold the last 32 KB of the first \<open>m\<close> bytes of \<open>out\<close>, and let the next \<open>n\<close> bytes of \<open>out\<close> repeat
  those \<open>dist\<close> bytes before. Then the copy inside the window, in pieces, with \<^verbatim>\<open>memmove\<close> or byte by byte when the parts
  overlap, stores the next bytes of \<open>out\<close> and stops when all are stored or at the end of the window.\<close>

theorem copy_in_window:
  assumes "window_holds out m s" "repeats out m dist n" "w mod WSIZE = m mod WSIZE" "w < WSIZE" "d mod WSIZE = (m - dist) mod WSIZE" "0 < n"
  shows "\<exists>j d' s'. copy_loop n w d s = Some (n - j, w + j, d', s') \<and> 0 < j \<and> j \<le> n \<and> (j = n \<or> w + j = WSIZE) \<and> window_holds out (m + j) s'"
  using copy_loop_ok [OF assms] by blast

theorem copy_in_window_witness:
  "\<exists>d' s'. copy_loop 3 2 0 ((\<lambda>_. 0)(0 := 1, 1 := 2)) = Some (0, 5, d', s') \<and> window_holds [1, 2, 1, 2, 1] 5 s'"
proof -
  have "window_holds [1, 2, 1, 2, 1] 2 ((\<lambda>_. 0)(0 := 1, 1 := 2))"
    by (auto simp: window_holds_def WSIZE_def less_Suc_eq numeral_2_eq_2)
  moreover have "repeats [1, 2, 1, 2, 1 :: byte] 2 2 3" by (auto simp: repeats_def less_Suc_eq numeral_eq_Suc WSIZE_def)
  ultimately show ?thesis
    using copy_in_window [of "[1, 2, 1, 2, 1]" 2 "(\<lambda>_. 0)(0 := 1, 1 := 2)" 2 3 2 0] by (auto simp: WSIZE_def)
qed

end
