(* ===== verification/Ext2_File.thy ===== *)
theory Ext2_File
  imports Ext2 Gzip_File
begin

text \<open>
  The rest of \<^verbatim>\<open>stage2/fsys_ext2fs.c\<close>: paths and symbolic links (\<^verbatim>\<open>ext2fs_dir\<close>), the entry of the table of
  file systems, and files of ext2, ext3 and ext4 as the file layer shows them.

  \<^verbatim>\<open>ext2fs_dir\<close> reads a symbolic link with \<^verbatim>\<open>grub_read\<close>, which calls \<^verbatim>\<open>ext2fs_read\<close> by the table of file
  systems; it is the argument \<open>gread\<close>. \<^verbatim>\<open>linkbuf\<close> is an array on the stack, whose first contents are
  the argument \<open>linkbuf\<close>.
\<close>

section \<open>Definitions\<close>

text \<open>A function of the file system, in the state of the file layer.\<close>

definition on_fs ::
    "(('w dstate \<Rightarrow> int option) \<Rightarrow> ext_fs \<Rightarrow> 'w dstate \<Rightarrow> ('r \<times> ext_fs \<times> 'w dstate) option) \<Rightarrow> (ext_fs, 'w) files \<Rightarrow>
       ('r \<times> (ext_fs, 'w) files) option" where
  "on_fs f st =
     map_option (\<lambda>(r, fs, d). (r, st\<lparr>fsbuf := fs, dev := d\<rparr>))
       (f (\<lambda>s. get_sector_size (efi s) (current_drive s)) (fsbuf st) (dev st))"

definition ext2_is_fast_symlink :: "(ext_fs, 'w) files \<Rightarrow> bool option" where
  "ext2_is_fast_symlink st =
     (let I = at_inode (fsbuf st)
      in if i_file_acl I \<noteq> 0
         then map_option (\<lambda>ss. i_blocks I = u32 (EXT2_BLOCK_SIZE (FSYS_BUF (fsbuf st)) div ss))
                (get_sector_size (efi (dev st)) (current_drive (dev st)))
         else Some (i_blocks I = 0))"

text \<open>Where a path ends, and its first component.\<close>

definition path_end :: "byte \<Rightarrow> bool" where
  "path_end c \<longleftrightarrow> c = 0 \<or> grub_isspace (schar c)"

definition ext2_component :: "cstr \<Rightarrow> cstr \<times> cstr" where
  "ext2_component p = (takeWhile (\<lambda>c. \<not> path_end c \<and> c \<noteq> 47) p, dropWhile (\<lambda>c. \<not> path_end c \<and> c \<noteq> 47) p)"

text \<open>A symbolic link in \<^verbatim>\<open>INODE\<close>: the new contents of \<^verbatim>\<open>linkbuf\<close>, or nothing if \<^verbatim>\<open>ext2fs_dir\<close>
  returns 0.\<close>

definition ext2_symlink ::
    "(int \<Rightarrow> mem \<Rightarrow> (ext_fs, 'w) files \<Rightarrow> (int \<times> mem \<times> (ext_fs, 'w) files) option) \<Rightarrow> nat \<Rightarrow> mem \<Rightarrow> cstr \<Rightarrow> (ext_fs, 'w) files \<Rightarrow>
       (mem option \<times> (ext_fs, 'w) files) option" where
  "ext2_symlink gread link_count linkbuf dirname st =
     (if Suc link_count > 5 then Some (None, set_errnum ERR_SYMLINK_LOOP st)
      else let name = takeWhile (\<lambda>c. \<not> path_end c) dirname;
               fmax = s32 (i_size (at_inode (fsbuf st)));
               st1 = st\<lparr>dev := (dev st)\<lparr>filemax := fmax\<rparr>\<rparr>;
               buf = (store_list linkbuf (nat fmax) name)(nat fmax + length name := 0)
           in if u32 (fmax + int (length name)) > 1022 then Some (None, set_errnum ERR_FILELENGTH st1)
              else if fmax < 0 then None
              else case ext2_is_fast_symlink st1 of
                None \<Rightarrow> None
              | Some False \<Rightarrow>
                  (case gread fmax buf st1 of
                     None \<Rightarrow> None
                   | Some (len, m, st2) \<Rightarrow>
                       Some (if len = 0 then None else Some m, st2\<lparr>dev := (dev st2)\<lparr>filepos := 0\<rparr>\<rparr>))
              | Some True \<Rightarrow> Some (Some (copy_mem buf 0 (at_inode (fsbuf st1)) 40 (nat fmax)), st1))"

text \<open>The end of the path.\<close>

definition ext2_at_end :: "(ext_fs, 'w) files \<Rightarrow> bool \<times> (ext_fs, 'w) files" where
  "ext2_at_end st =
     (let I = at_inode (fsbuf st)
      in if \<not> S_ISREG (i_mode I) then (False, set_errnum ERR_BAD_FILETYPE st)
         else if i_flags I AND 0x40000 \<noteq> 0 \<and> i_size_high I = 0 then (False, set_errnum ERR_FILELENGTH st)
         else (True, st\<lparr>dev := (dev st)\<lparr>filemax := s32 (i_size I)\<rparr>\<rparr>))"

text \<open>The main loop. The result has the path as it is left in the caller's buffer; a path in \<^verbatim>\<open>linkbuf\<close> is
  not seen again.\<close>

partial_function (option) ext2_dir_loop ::
    "'w firmware \<Rightarrow> (int \<Rightarrow> mem \<Rightarrow> (ext_fs, 'w) files \<Rightarrow> (int \<times> mem \<times> (ext_fs, 'w) files) option) \<Rightarrow> int \<Rightarrow> int \<Rightarrow> nat \<Rightarrow> mem \<Rightarrow> cstr \<Rightarrow>
       (ext_fs, 'w) files \<Rightarrow> (bool \<times> cstr \<times> (ext_fs, 'w) files) option" where
  "ext2_dir_loop fw gread current_ino updir_ino link_count linkbuf path st =
     (case on_fs (\<lambda>ssz. ext2_get_inode (devread fw) ssz current_ino) st of
        None \<Rightarrow> None
      | Some (Inode_Failed, st1) \<Rightarrow> Some (False, path, st1)
      | Some (Inode_64bit, st1) \<Rightarrow> Some (True, path, st1)
      | Some (Inode_Read, st1) \<Rightarrow>
          let I = at_inode (fsbuf st1)
          in if S_ISLNK (i_mode I)
             then case ext2_symlink gread link_count linkbuf path st1 of
                    None \<Rightarrow> None
                  | Some (None, st2) \<Rightarrow> Some (False, path, st2)
                  | Some (Some buf, st2) \<Rightarrow>
                      let top = buf 0 = 47
                      in Option.bind (ext2_dir_loop fw gread (if top then 2 else updir_ino) (if top then 2 else updir_ino)
                                        (Suc link_count) buf (mem_slice buf 0 1024) st2)
                           (\<lambda>(r, p, st3). Some (r, path, st3))
             else if path_end (deref path) then case ext2_at_end st1 of (r, st2) \<Rightarrow> Some (r, path, st2)
             else let slashes = takeWhile (\<lambda>c. c = 47) path;
                      (name, rest) = ext2_component (dropWhile (\<lambda>c. c = 47) path)
                  in if i_size I = 0 \<or> \<not> S_ISDIR (i_mode I) then Some (False, path, set_errnum ERR_BAD_FILETYPE st1)
                     else case on_fs (\<lambda>ssz. ext2_scan (devread fw) ssz name (deref rest) 0) st1 of
                       None \<Rightarrow> None
                     | Some (Dir_Return r repaired, st2) \<Rightarrow>
                         Some (r, slashes @ name @ (if repaired then rest else 0 # drop 1 rest), st2)
                     | Some (Dir_Entry ino, st2) \<Rightarrow>
                         Option.bind (ext2_dir_loop fw gread ino current_ino link_count linkbuf rest st2)
                           (\<lambda>(r, p, st3). Some (r, slashes @ name @ p, st3)))"

definition ext2fs_dir ::
    "'w firmware \<Rightarrow> (int \<Rightarrow> mem \<Rightarrow> (ext_fs, 'w) files \<Rightarrow> (int \<times> mem \<times> (ext_fs, 'w) files) option) \<Rightarrow> mem \<Rightarrow> cstr \<Rightarrow>
       (ext_fs, 'w) files \<Rightarrow> (bool \<times> cstr \<times> (ext_fs, 'w) files) option" where
  "ext2fs_dir fw gread linkbuf dirname st = ext2_dir_loop fw gread 2 2 0 linkbuf dirname st"

definition ext2_entry ::
    "'w firmware \<Rightarrow> (int \<Rightarrow> mem \<Rightarrow> (ext_fs, 'w) files \<Rightarrow> (int \<times> mem \<times> (ext_fs, 'w) files) option) \<Rightarrow> mem \<Rightarrow> (ext_fs, 'w) fsys_entry" where
  "ext2_entry fw gread linkbuf =
     \<lparr>name = bytes_of ''ext2fs'',
      mount_func = \<lambda>st. on_fs (ext2fs_mount (devread fw)) st,
      read_func = \<lambda>len buf st.
        map_option (\<lambda>(r, m, fs, d). (r, m, st\<lparr>fsbuf := fs, dev := d\<rparr>))
          (ext2fs_read (devread fw) (\<lambda>s. get_sector_size (efi s) (current_drive s)) len buf (fsbuf st) (dev st)),
      dir_func = ext2fs_dir fw gread linkbuf,
      close_func = None\<rparr>"

text \<open>The file layer with this file system only. \<^verbatim>\<open>grub_read\<close> uses of the entry no more than the function that reads,
  so in the inner table any function can take its place.\<close>

definition ext2_table :: "(ext_fs, 'w) env \<Rightarrow> (int \<Rightarrow> mem \<Rightarrow> (ext_fs, 'w) files \<Rightarrow> (int \<times> mem \<times> (ext_fs, 'w) files) option) \<Rightarrow> mem \<Rightarrow>
    (ext_fs, 'w) env" where
  "ext2_table E gread linkbuf = E\<lparr>fsys_table := [ext2_entry (firm E) gread linkbuf]\<rparr>"

definition with_ext2 :: "(ext_fs, 'w) env \<Rightarrow> mem \<Rightarrow> (ext_fs, 'w) env" where
  "with_ext2 E linkbuf = ext2_table E (grub_read (ext2_table E (decompress E) linkbuf)) linkbuf"

section \<open>Open files\<close>

definition has_extents :: "mem \<Rightarrow> mem \<Rightarrow> bool" where
  "has_extents sb I \<longleftrightarrow> s_feature_incompat sb AND 0x40 \<noteq> 0 \<and> i_flags I AND 0x80000 \<noteq> 0"

lemma uses_extents_eq: "uses_extents fs = has_extents (FSYS_BUF fs) (at_inode fs)"
  by (simp add: uses_extents_def has_extents_def)

definition ext2_at :: "(ext_fs, 'w) env \<Rightarrow> mem \<Rightarrow> nat \<Rightarrow> nat \<Rightarrow> (ext_fs, 'w) files \<Rightarrow> bool" where
  "ext2_at E data F q st \<longleftrightarrow>
     (\<exists>P b N k gread linkbuf. disk_serves (firm E) P b N (dev st) \<and> errnum (dev st) = ERR_NONE \<and> \<not> block_file st \<and>
        \<not> compressed_file st \<and> fsys_type (dev st) < NUM_FSYS E \<and> fsys_table E ! fsys_type (dev st) = ext2_entry (firm E) gread linkbuf \<and>
        ext_layout b k (FSYS_BUF (fsbuf st)) \<and> ext_ready P k (fsbuf st) \<and>
        ext_file P b N k (uses_extents (fsbuf st)) (at_inode (fsbuf st)) data F \<and> filepos (dev st) = int q \<and>
        filemax (dev st) = int F \<and> int F \<le> fsmax (dev st) \<and> q \<le> F \<and> F < 2 ^ 31)"

lemma ext2_grub_read:
  assumes "disk_serves (firm E) P b N (dev st)" "errnum (dev st) = ERR_NONE" "\<not> block_file st" "\<not> compressed_file st"
    "fsys_type (dev st) < NUM_FSYS E" "fsys_table E ! fsys_type (dev st) = ext2_entry (firm E) gread linkbuf"
    "ext_layout b k (FSYS_BUF (fsbuf st))" "ext_ready P k (fsbuf st)"
    "ext_file P b N k (uses_extents (fsbuf st)) (at_inode (fsbuf st)) data F" "filepos (dev st) = int q" "filemax (dev st) = int F"
    "int F \<le> fsmax (dev st)" "q \<le> F" "F < 2 ^ 31" "n = clamp_len F q len"
  shows "\<exists>buf' fs' s'. grub_read E len buf st = Some (int n, buf', st\<lparr>fsbuf := fs', dev := s'\<rparr>) \<and>
    (\<forall>j. buf' j = (if j < n then data (q + j) else buf j)) \<and> disk_serves (firm E) P b N s' \<and> file_step (dev st) s' \<and>
    filepos s' = int (q + n) \<and> same_inode k (fsbuf st) fs' \<and> ext_ready P k fs'"
proof -
  have qn: "q + n \<le> F" using clamp_len_le [OF assms(13), of len] assms(15) by simp
  have "F \<le> 2 ^ 31" using assms(14) by simp
  then obtain buf' fs' s' where r: "ext2fs_read (devread (firm E)) (\<lambda>s. get_sector_size (efi s) (current_drive s)) (int n) buf (fsbuf st) (dev st) =
        Some (int n, buf', fs', s')" "\<forall>j. buf' j = (if j < n then data (q + j) else buf j)"
      "disk_serves (firm E) P b N s'" "file_step (dev st) s'" "filepos s' = int (q + n)" "same_inode k (fsbuf st) fs'" "ext_ready P k fs'"
    using part.ext_read_loop_ok [OF assms(1,2,7,8,9,10) qn, of 0 buf] by (auto simp: ext2fs_read_def)
  have "grub_read E len buf st = Some (int n, buf', st\<lparr>fsbuf := fs', dev := s'\<rparr>)"
    using grub_read_clamped [OF assms(10,11,13,12,4,15), of E buf] assms(3,5,6) r(1) by (simp add: ext2_entry_def)
  then show ?thesis using r by blast
qed

lemma ext2_read_at:
  assumes "ext2_at E data F q st" "n = clamp_len F q len"
  shows "\<exists>buf' st'. grub_read E len buf st = Some (int n, buf', st') \<and>
    (\<forall>j. buf' j = (if j < n then data (q + j) else buf j)) \<and> ext2_at E data F (q + n) st' \<and> same_file_vars st st'"
proof -
  obtain P b N k gread linkbuf where a: "disk_serves (firm E) P b N (dev st)" "errnum (dev st) = ERR_NONE" "\<not> block_file st"
      "\<not> compressed_file st" "fsys_type (dev st) < NUM_FSYS E" "fsys_table E ! fsys_type (dev st) = ext2_entry (firm E) gread linkbuf"
      "ext_layout b k (FSYS_BUF (fsbuf st))" "ext_ready P k (fsbuf st)"
      "ext_file P b N k (uses_extents (fsbuf st)) (at_inode (fsbuf st)) data F" "filepos (dev st) = int q"
      "filemax (dev st) = int F" "int F \<le> fsmax (dev st)" "q \<le> F" "F < 2 ^ 31"
    using assms(1) unfolding ext2_at_def by blast
  have qn: "q + n \<le> F" using clamp_len_le [OF a(13), of len] assms(2) by simp
  obtain buf' fs' s' where r: "grub_read E len buf st = Some (int n, buf', st\<lparr>fsbuf := fs', dev := s'\<rparr>)"
      "\<forall>j. buf' j = (if j < n then data (q + j) else buf j)" "disk_serves (firm E) P b N s'" "file_step (dev st) s'"
      "filepos s' = int (q + n)" "same_inode k (fsbuf st) fs'" "ext_ready P k fs'"
    using ext2_grub_read [OF a assms(2), of buf] by blast
  let ?st = "st\<lparr>fsbuf := fs', dev := s'\<rparr>"
  have "ext2_at E data F (q + n) ?st"
    unfolding ext2_at_def
    using a r qn file_step_simps [OF r(4)] file_step_fsys [OF r(4)] same_inode_simps(1) [OF r(6) a(7)] same_inode_file [OF r(6) a(7,9)]
    by (intro exI [of _ P] exI [of _ b] exI [of _ N] exI [of _ k] exI [of _ gread] exI [of _ linkbuf]) simp
  moreover have "same_file_vars st ?st" using file_step_simps [OF r(4)] by (simp add: same_file_vars_def)
  ultimately show ?thesis using r(1,2) by blast
qed

interpretation ext2: file_reader E "ext2_at E" for E :: "(ext_fs, 'w) env"
proof
  fix data F q q' st g
  assume at: "ext2_at E data F q st"
  show "q \<le> F \<and> filepos (dev st) = int q \<and> filemax (dev st) = int F \<and> errnum (dev st) = ERR_NONE \<and> \<not> compressed_file st"
    using at by (auto simp: ext2_at_def)
  assume "q' \<le> F"
  moreover have "disk_serves (firm E) P b N ((dev st)\<lparr>filepos := int q'\<rparr>)" if "disk_serves (firm E) P b N (dev st)" for P b N
    by (rule disk_serves_frame [OF that]) simp_all
  ultimately show "ext2_at E data F q' (st\<lparr>dev := (dev st)\<lparr>filepos := int q'\<rparr>, gz := g\<rparr>)"
    using at unfolding ext2_at_def by auto blast
qed (rule ext2_read_at)

interpretation plain_ext2: byte_source "grub_read E" grub_seek "plain_source (ext2_at E)" for E :: "(ext_fs, 'w) env"
  by (rule ext2.plain_byte_source)

interpretation gzip_ext2: byte_source "grub_read (with_gunzip E)" grub_seek "gzip_source (ext2_at E)" for E :: "(ext_fs, 'w) env"
  by (rule ext2.gzip_byte_source)

section \<open>Paths\<close>

text \<open>A path as text: up to its end, a zero or a space.\<close>

definition path_text :: "cstr \<Rightarrow> byte list" where
  "path_text p = takeWhile (\<lambda>c. \<not> path_end c) p"

lemma slash_inside [simp]: "\<not> path_end 47"
  by (simp add: path_end_def grub_isspace_def)

lemma path_end_0 [simp]: "path_end 0"
  by (simp add: path_end_def)

lemma path_text_Nil: "path_text p = [] \<longleftrightarrow> path_end (deref p)"
  by (cases p) (auto simp: path_text_def)

lemma path_text_slashes: "path_text (dropWhile (\<lambda>c. c = 47) p) = dropWhile (\<lambda>c. c = 47) (path_text p)"
  by (induction p) (auto simp: path_text_def)

lemma component_text:
  assumes "ext2_component p = (nm, rest)"
  shows "nm = takeWhile (\<lambda>c. c \<noteq> 47) (path_text p)" "path_text rest = dropWhile (\<lambda>c. c \<noteq> 47) (path_text p)"
    "p = nm @ rest" "cstring nm = nm" "deref rest = 47 \<longleftrightarrow> dropWhile (\<lambda>c. c \<noteq> 47) (path_text p) \<noteq> []"
proof -
  have c: "nm = takeWhile (\<lambda>c. \<not> path_end c \<and> c \<noteq> 47) p" "rest = dropWhile (\<lambda>c. \<not> path_end c \<and> c \<noteq> 47) p"
    using assms by (auto simp: ext2_component_def)
  show "nm = takeWhile (\<lambda>c. c \<noteq> 47) (path_text p)" unfolding c(1) path_text_def by (induction p) auto
  show t: "path_text rest = dropWhile (\<lambda>c. c \<noteq> 47) (path_text p)" unfolding c(2) path_text_def by (induction p) auto
  show "p = nm @ rest" by (simp add: c)
  have "0 \<notin> set nm" unfolding c(1) by (auto dest: set_takeWhileD)
  then show "cstring nm = nm" by (rule cstring_id)
  show "deref rest = 47 \<longleftrightarrow> dropWhile (\<lambda>c. c \<noteq> 47) (path_text p) \<noteq> []"
    unfolding c(2) path_text_def by (induction p) auto
qed

text \<open>The contents of a symbolic link: in the inode if there are no blocks but those of attributes, else like
  those of a file.\<close>

definition link_text :: "mem \<Rightarrow> nat \<Rightarrow> int \<Rightarrow> nat \<Rightarrow> mem \<Rightarrow> mem \<Rightarrow> byte list \<Rightarrow> bool" where
  "link_text P b N k sb I t \<longleftrightarrow> int (length t) = i_size I \<and>
     (if i_blocks I = (if i_file_acl I \<noteq> 0 then 2 ^ (k - b) else 0)
      then length t \<le> 60 \<and> t = map (\<lambda>j. I (40 + j)) [0..<length t]
      else t \<noteq> [] \<and> (\<exists>data. ext_file P b N k (has_extents sb I) I data (length t) \<and> t = map data [0..<length t]))"

text \<open>What the path \<open>p\<close> leads to from the inode \<open>ino\<close>, when \<open>n\<close> links have been followed and the last directory
  was \<open>up\<close>: a file, by the number of its inode, or an error.\<close>

inductive ext2_resolves :: "mem \<Rightarrow> nat \<Rightarrow> int \<Rightarrow> nat \<Rightarrow> mem \<Rightarrow> int \<Rightarrow> int \<Rightarrow> nat \<Rightarrow> byte list \<Rightarrow> int + grub_error \<Rightarrow> bool"
  for P b N k sb where
  at_file: "ext_inode_at P b N k sb ino I \<Longrightarrow> S_ISREG (i_mode I) \<Longrightarrow> i_flags I AND 0x40000 = 0 \<or> i_size_high I \<noteq> 0 \<Longrightarrow>
     ext2_resolves P b N k sb ino up n [] (Inl ino)"
| huge_file: "ext_inode_at P b N k sb ino I \<Longrightarrow> S_ISREG (i_mode I) \<Longrightarrow> i_flags I AND 0x40000 \<noteq> 0 \<Longrightarrow> i_size_high I = 0 \<Longrightarrow>
     ext2_resolves P b N k sb ino up n [] (Inr ERR_FILELENGTH)"
| no_file: "ext_inode_at P b N k sb ino I \<Longrightarrow> \<not> S_ISREG (i_mode I) \<Longrightarrow> \<not> S_ISLNK (i_mode I) \<Longrightarrow>
     ext2_resolves P b N k sb ino up n [] (Inr ERR_BAD_FILETYPE)"
| in_dir: "ext_inode_at P b N k sb ino I \<Longrightarrow> S_ISDIR (i_mode I) \<Longrightarrow> p \<noteq> [] \<Longrightarrow> i_size I = int F \<Longrightarrow> 0 < F \<Longrightarrow> F \<le> 2 ^ 30 \<Longrightarrow>
     ext_file P b N k (has_extents sb I) I D F \<Longrightarrow> q = dropWhile (\<lambda>c. c = 47) p \<Longrightarrow>
     dir_search k D F (takeWhile (\<lambda>c. c \<noteq> 47) q) 0 (Some ino') \<Longrightarrow>
     ext2_resolves P b N k sb ino' ino n (dropWhile (\<lambda>c. c \<noteq> 47) q) r \<Longrightarrow> ext2_resolves P b N k sb ino up n p r"
| not_in_dir: "ext_inode_at P b N k sb ino I \<Longrightarrow> S_ISDIR (i_mode I) \<Longrightarrow> p \<noteq> [] \<Longrightarrow> i_size I = int F \<Longrightarrow> 0 < F \<Longrightarrow> F \<le> 2 ^ 30 \<Longrightarrow>
     ext_file P b N k (has_extents sb I) I D F \<Longrightarrow>
     dir_search k D F (takeWhile (\<lambda>c. c \<noteq> 47) (dropWhile (\<lambda>c. c = 47) p)) 0 None \<Longrightarrow>
     ext2_resolves P b N k sb ino up n p (Inr ERR_FILE_NOT_FOUND)"
| no_dir: "ext_inode_at P b N k sb ino I \<Longrightarrow> \<not> S_ISLNK (i_mode I) \<Longrightarrow> p \<noteq> [] \<Longrightarrow> i_size I = 0 \<or> \<not> S_ISDIR (i_mode I) \<Longrightarrow>
     ext2_resolves P b N k sb ino up n p (Inr ERR_BAD_FILETYPE)"
| link: "ext_inode_at P b N k sb ino I \<Longrightarrow> S_ISLNK (i_mode I) \<Longrightarrow> n < 5 \<Longrightarrow> link_text P b N k sb I t \<Longrightarrow>
     length t + length p \<le> 1022 \<Longrightarrow> up' = (if deref (t @ p) = 47 then 2 else up) \<Longrightarrow>
     ext2_resolves P b N k sb up' up' (Suc n) (path_text (t @ p)) r \<Longrightarrow> ext2_resolves P b N k sb ino up n p r"
| long_link: "ext_inode_at P b N k sb ino I \<Longrightarrow> S_ISLNK (i_mode I) \<Longrightarrow> n < 5 \<Longrightarrow> i_size I < 2 ^ 30 \<Longrightarrow> 1022 < i_size I + int (length p) \<Longrightarrow>
     length p < 2 ^ 30 \<Longrightarrow> ext2_resolves P b N k sb ino up n p (Inr ERR_FILELENGTH)"
| link_loop: "ext_inode_at P b N k sb ino I \<Longrightarrow> S_ISLNK (i_mode I) \<Longrightarrow> 5 \<le> n \<Longrightarrow>
     ext2_resolves P b N k sb ino up n p (Inr ERR_SYMLINK_LOOP)"

lemma file_types:
  "S_ISREG m \<Longrightarrow> \<not> S_ISLNK m" "S_ISDIR m \<Longrightarrow> \<not> S_ISLNK m" "S_ISLNK m \<Longrightarrow> \<not> S_ISREG m"
  by (auto simp: S_ISREG_def S_ISDIR_def S_ISLNK_def)

text \<open>The state between two rounds of the main loop.\<close>

definition ext2_mounted :: "(ext_fs, 'w) env \<Rightarrow> mem \<Rightarrow> nat \<Rightarrow> int \<Rightarrow> nat \<Rightarrow> mem \<Rightarrow> (ext_fs, 'w) files \<Rightarrow> bool" where
  "ext2_mounted E P b N k sb st \<longleftrightarrow>
     disk_serves (firm E) P b N (dev st) \<and> errnum (dev st) = ERR_NONE \<and> \<not> block_file st \<and> \<not> compressed_file st \<and>
     fsys_type (dev st) < NUM_FSYS E \<and> (\<exists>linkbuf. fsys_table E ! fsys_type (dev st) = ext2_entry (firm E) (grub_read E) linkbuf) \<and>
     ext_layout b k sb \<and> (\<forall>j < 1024. FSYS_BUF (fsbuf st) j = sb j) \<and> filepos (dev st) = 0 \<and> fsmax (dev st) = MAXINT \<and>
     print_possibilities (dev st) = 0 \<and> \<not> no_decompression (gz st)"

definition inode_open :: "mem \<Rightarrow> nat \<Rightarrow> ext_fs \<Rightarrow> mem \<Rightarrow> bool" where
  "inode_open P k fs I \<longleftrightarrow> (\<forall>j < 128. at_inode fs j = I j) \<and> ext_ready P k fs"

lemma inode_fields:
  assumes "\<forall>j < 128. J j = I j"
  shows "i_mode J = i_mode I" "i_size J = i_size I" "i_blocks J = i_blocks I" "i_flags J = i_flags I"
    "i_file_acl J = i_file_acl I" "i_size_high J = i_size_high I" "has_extents sb J = has_extents sb I"
proof -
  show "i_mode J = i_mode I" "i_size J = i_size I" "i_blocks J = i_blocks I" "i_file_acl J = i_file_acl I" "i_size_high J = i_size_high I"
    unfolding inode_defs using assms by (auto intro!: ld32_upto [of 128] ld16_upto [of 128])
  show "i_flags J = i_flags I"
    unfolding inode_defs using assms by (auto intro!: ld32_upto [of 128])
  then show "has_extents sb J = has_extents sb I" by (simp add: has_extents_def)
qed

lemma sb_same:
  assumes "\<forall>j < 1024. m j = sb j"
  shows "ext_layout b k m = ext_layout b k sb" "has_extents m I = has_extents sb I" "ext_inode_at P b N k m ino I = ext_inode_at P b N k sb ino I"
proof -
  have s: "m j = sb j" if "j < 1024" for j using assms that by simp
  show "ext_layout b k m = ext_layout b k sb" "has_extents m I = has_extents sb I"
    by (simp_all add: ext_layout_def has_extents_def same_super [of m sb, OF s])
  show "ext_inode_at P b N k m ino I = ext_inode_at P b N k sb ino I" by (rule ext_inode_same) (rule s)
qed

text \<open>Reading an inode, the file of an open inode, and searching it.\<close>

lemma mounted_get_inode:
  assumes "ext2_mounted E P b N k sb st" "ext_inode_at P b N k sb ino I"
  shows "\<exists>st'. on_fs (\<lambda>ssz. ext2_get_inode (devread (firm E)) ssz ino) st = Some (Inode_Read, st') \<and>
    ext2_mounted E P b N k sb st' \<and> inode_open P k (fsbuf st') I"
proof -
  have m: "disk_serves (firm E) P b N (dev st)" "errnum (dev st) = ERR_NONE" "\<forall>j < 1024. FSYS_BUF (fsbuf st) j = sb j"
    using assms(1) by (simp_all add: ext2_mounted_def)
  note sb = sb_same [OF m(3)]
  have lay: "ext_layout b k (FSYS_BUF (fsbuf st))" using assms(1) by (simp add: sb ext2_mounted_def)
  have ino: "ext_inode_at P b N k (FSYS_BUF (fsbuf st)) ino I" using assms(2) by (simp add: sb)
  obtain fs' s' where r: "ext2_get_inode (devread (firm E)) (\<lambda>s. get_sector_size (efi s) (current_drive s)) ino (fsbuf st) (dev st) =
        Some (Inode_Read, fs', s')" "disk_serves (firm E) P b N s'" "reads_only (dev st) s'" "\<forall>j < 1024. FSYS_BUF fs' j = FSYS_BUF (fsbuf st) j"
      "\<forall>j < 128. at_inode fs' j = I j" "mapblock1 fs' = - 1" "mapblock2 fs' = - 1"
    using part.get_inode_ok [OF m(1,2) lay ino] by blast
  let ?st = "st\<lparr>fsbuf := fs', dev := s'\<rparr>"
  have "ext2_mounted E P b N k sb ?st"
    using assms(1) r(2,4) reads_only_simps [OF r(3)] unfolding ext2_mounted_def by simp
  moreover have "inode_open P k fs' I" using r(5-7) by (simp add: inode_open_def ext_ready_def ext_cached_def Let_def)
  ultimately show ?thesis using r(1) by (intro exI [of _ ?st]) (simp add: on_fs_def)
qed

lemma open_file:
  assumes "ext2_mounted E P b N k sb st" "inode_open P k (fsbuf st) I" "ext_file P b N k (has_extents sb I) I D F"
  shows "ext_file P b N k (uses_extents (fsbuf st)) (at_inode (fsbuf st)) D F" "ext_layout b k (FSYS_BUF (fsbuf st))"
proof -
  have o: "\<forall>j < 128. at_inode (fsbuf st) j = I j" using assms(2) by (simp add: inode_open_def)
  have m: "\<forall>j < 1024. FSYS_BUF (fsbuf st) j = sb j" using assms(1) by (simp add: ext2_mounted_def)
  show "ext_file P b N k (uses_extents (fsbuf st)) (at_inode (fsbuf st)) D F"
    unfolding uses_extents_eq sb_same(2) [OF m] inode_fields(7) [OF o]
    by (rule ext_file_same [OF assms(3)]) (use o in auto)
  show "ext_layout b k (FSYS_BUF (fsbuf st))" using assms(1) by (simp add: sb_same [OF m] ext2_mounted_def)
qed

lemma mounted_scan:
  assumes "ext2_mounted E P b N k sb st" "inode_open P k (fsbuf st) I" "ext_file P b N k (has_extents sb I) I D F"
    "i_size I = int F" "F \<le> 2 ^ 30" "dir_search k D F nm 0 r" "cstring nm = nm"
  shows "\<exists>st'. on_fs (\<lambda>ssz. ext2_scan (devread (firm E)) ssz nm ch 0) st =
      (case r of Some ino \<Rightarrow> Some (Dir_Entry ino, st') | None \<Rightarrow> Some (Dir_Return False True, set_errnum ERR_FILE_NOT_FOUND st')) \<and>
    ext2_mounted E P b N k sb st'"
proof -
  have m: "disk_serves (firm E) P b N (dev st)" "errnum (dev st) = ERR_NONE" "print_possibilities (dev st) = 0"
      "\<forall>j < 1024. FSYS_BUF (fsbuf st) j = sb j"
    using assms(1) by (simp_all add: ext2_mounted_def)
  have o: "\<forall>j < 128. at_inode (fsbuf st) j = I j" "ext_ready P k (fsbuf st)" using assms(2) by (simp_all add: inode_open_def)
  note f = open_file [OF assms(1-3)]
  have sz: "i_size (at_inode (fsbuf st)) = int F" using inode_fields(2) [OF o(1)] assms(4) by simp
  obtain fs' s' where r: "ext2_scan (devread (firm E)) (\<lambda>s. get_sector_size (efi s) (current_drive s)) nm ch 0 (fsbuf st) (dev st) =
        (case r of Some ino \<Rightarrow> Some (Dir_Entry ino, fs', s') | None \<Rightarrow> Some (Dir_Return False True, fs', s'\<lparr>errnum := ERR_FILE_NOT_FOUND\<rparr>))"
      "disk_serves (firm E) P b N s'" "reads_only (dev st) s'" "same_inode k (fsbuf st) fs'"
    using part.scan_ok [OF assms(6) m(1,2) f(2) o(2) f(1) sz assms(5) m(3) assms(7), of ch] by auto
  let ?st = "st\<lparr>fsbuf := fs', dev := s'\<rparr>"
  have "\<forall>j < 1024. FSYS_BUF fs' j = sb j" using r(4) m(4) by (simp add: same_inode_def)
  then have "ext2_mounted E P b N k sb ?st"
    using assms(1) r(2) reads_only_simps [OF r(3)] unfolding ext2_mounted_def by simp
  then show ?thesis
    using r(1) by (intro exI [of _ ?st]) (simp add: on_fs_def set_errnum_def split: option.splits)
qed

text \<open>Following a symbolic link.\<close>

lemma mounted_set_filemax: "ext2_mounted E P b N k sb st \<Longrightarrow> ext2_mounted E P b N k sb (st\<lparr>dev := (dev st)\<lparr>filemax := x\<rparr>\<rparr>)"
  unfolding ext2_mounted_def by (auto intro: disk_serves_frame)

lemma mounted_sector:
  assumes "ext2_mounted E P b N k sb st"
  shows "get_sector_size (efi (dev st)) (current_drive (dev st)) = Some (2 ^ b)" "EXT2_BLOCK_SIZE (FSYS_BUF (fsbuf st)) = 2 ^ k"
    "b \<le> k" "k \<le> 13"
proof -
  have m: "disk_serves (firm E) P b N (dev st)" "ext_layout b k sb" "\<forall>j < 1024. FSYS_BUF (fsbuf st) j = sb j"
    using assms by (simp_all add: ext2_mounted_def)
  show "get_sector_size (efi (dev st)) (current_drive (dev st)) = Some (2 ^ b)" using part.size_ok [OF m(1)] by simp
  have "ext_layout b k (FSYS_BUF (fsbuf st))" using m(2) by (simp add: sb_same(1) [OF m(3)])
  then show "EXT2_BLOCK_SIZE (FSYS_BUF (fsbuf st)) = 2 ^ k" by (rule layout_sizes)
  show "b \<le> k" "k \<le> 13" using m(2) by (simp_all add: ext_layout_def)
qed

lemma fast_link:
  assumes "ext2_mounted E P b N k sb st" "inode_open P k (fsbuf st) I"
  shows "ext2_is_fast_symlink st = Some (i_blocks I = (if i_file_acl I \<noteq> 0 then 2 ^ (k - b) else 0))"
proof -
  note s = mounted_sector [OF assms(1)]
  note f = inode_fields [of "at_inode (fsbuf st)" I]
  have o: "\<forall>j < 128. at_inode (fsbuf st) j = I j" using assms(2) by (simp add: inode_open_def)
  have "(2 :: int) ^ (k - b) \<le> 2 ^ 13" using s(4) by (intro power_increasing) auto
  then have "u32 (2 ^ (k - b)) = 2 ^ (k - b)" by (intro u32_id) auto
  moreover have "(2 :: int) ^ k div 2 ^ b = 2 ^ (k - b)" using s(3) by (simp add: power_diff)
  ultimately show ?thesis by (simp add: ext2_is_fast_symlink_def Let_def s(1,2) f(3,5) [OF o])
qed

lemma mounted_symlink:
  assumes "ext2_mounted E P b N k sb st" "inode_open P k (fsbuf st) I" "n < 5" "link_text P b N k sb I t"
    "length t + length p \<le> 1022" "p = path_text path"
  shows "\<exists>buf st'. ext2_symlink (grub_read E) n linkbuf path st = Some (Some buf, st') \<and> ext2_mounted E P b N k sb st' \<and>
    (\<forall>j < length t + length p. buf j = (t @ p) ! j) \<and> buf (length t + length p) = 0"
proof -
  let ?F = "length t"
  have o: "\<forall>j < 128. at_inode (fsbuf st) j = I j" "ext_ready P k (fsbuf st)" using assms(2) by (simp_all add: inode_open_def)
  have fm: "s32 (i_size (at_inode (fsbuf st))) = int ?F"
    using assms(4,5) by (simp add: inode_fields(2) [OF o(1)] link_text_def s32_num)
  have u: "u32 (int ?F + int (length p)) = int (?F + length p)" using assms(5) by (simp add: u32_id)
  define st1 where "st1 = st\<lparr>dev := (dev st)\<lparr>filemax := int ?F\<rparr>\<rparr>"
  have m1: "ext2_mounted E P b N k sb st1" unfolding st1_def by (rule mounted_set_filemax [OF assms(1)])
  have o1: "inode_open P k (fsbuf st1) I" using assms(2) by (simp add: st1_def)
  define buf where "buf = (store_list linkbuf ?F p)(?F + length p := 0)"
  have step: "ext2_symlink (grub_read E) n linkbuf path st =
      (case ext2_is_fast_symlink st1 of
         None \<Rightarrow> None
       | Some False \<Rightarrow> (case grub_read E (int ?F) buf st1 of None \<Rightarrow> None
           | Some (len, m, st2) \<Rightarrow> Some (if len = 0 then None else Some m, st2\<lparr>dev := (dev st2)\<lparr>filepos := 0\<rparr>\<rparr>))
       | Some True \<Rightarrow> Some (Some (copy_mem buf 0 (at_inode (fsbuf st1)) 40 ?F), st1))"
    using assms(3,5) unfolding ext2_symlink_def Let_def fm path_text_def [symmetric] assms(6) [symmetric] u
    by (simp only: nat_int st1_def [symmetric] buf_def [symmetric]) simp
  have tail: "m (?F + j) = buf (?F + j)" if "\<And>i. ?F \<le> i \<Longrightarrow> m i = buf i" for m j using that by simp
  have ends: "(\<forall>j < ?F + length p. m j = (t @ p) ! j) \<and> m (?F + length p) = 0"
    if "\<And>j. j < ?F \<Longrightarrow> m j = t ! j" "\<And>i. ?F \<le> i \<Longrightarrow> m i = buf i" for m :: mem
    using that by (auto simp: nth_append buf_def store_list_def)
  show ?thesis
  proof (cases "i_blocks I = (if i_file_acl I \<noteq> 0 then 2 ^ (k - b) else 0)")
    case True
    then have f: "ext2_is_fast_symlink st1 = Some True" using fast_link [OF m1 o1] by simp
    have t: "?F \<le> 60" "t = map (\<lambda>j. I (40 + j)) [0..<?F]" using assms(4) True by (simp_all add: link_text_def)
    have "t ! j = I (40 + j)" if "j < ?F" for j using that by (subst t(2)) simp
    then have "copy_mem buf 0 (at_inode (fsbuf st1)) 40 ?F j = t ! j" if "j < ?F" for j
      using that t(1) o(1) by (simp add: copy_mem_def st1_def)
    from ends [OF this] show ?thesis
      unfolding step f using m1 by (simp add: copy_mem_def)
  next
    case False
    then have f: "ext2_is_fast_symlink st1 = Some False" using fast_link [OF m1 o1] by simp
    obtain data where t: "t \<noteq> []" "ext_file P b N k (has_extents sb I) I data ?F" "t = map data [0..<?F]"
      using assms(4) False by (auto simp: link_text_def)
    note fl = open_file [OF m1 o1 t(2)]
    obtain lb where m: "disk_serves (firm E) P b N (dev st1)" "errnum (dev st1) = ERR_NONE" "\<not> block_file st1" "\<not> compressed_file st1"
        "fsys_type (dev st1) < NUM_FSYS E" "fsys_table E ! fsys_type (dev st1) = ext2_entry (firm E) (grub_read E) lb"
        "filepos (dev st1) = int 0" "fsmax (dev st1) = MAXINT" "\<forall>j < 1024. FSYS_BUF (fsbuf st1) j = sb j"
      using m1 by (auto simp: ext2_mounted_def)
    have sizes: "filemax (dev st1) = int ?F" "int ?F \<le> fsmax (dev st1)" "?F < 2 ^ 31" "clamp_len ?F 0 (int ?F) = ?F"
      using assms(5) m(8) by (simp_all add: st1_def MAXINT_def clamp_len_def)
    have o1': "ext_ready P k (fsbuf st1)" using o1 by (simp add: inode_open_def)
    obtain buf' fs' s' where r: "grub_read E (int ?F) buf st1 = Some (int ?F, buf', st1\<lparr>fsbuf := fs', dev := s'\<rparr>)"
        "\<forall>j. buf' j = (if j < ?F then data (0 + j) else buf j)" "disk_serves (firm E) P b N s'" "file_step (dev st1) s'" "same_inode k (fsbuf st1) fs'"
      using ext2_grub_read [OF m(1-6) fl(2) o1' fl(1) m(7) sizes(1,2) _ sizes(3) sizes(4) [symmetric], of buf] by auto
    let ?st = "st1\<lparr>fsbuf := fs', dev := s'\<lparr>filepos := 0\<rparr>\<rparr>"
    have "t ! j = data j" if "j < ?F" for j using that by (subst t(3)) simp
    then have "buf' j = t ! j" if "j < ?F" for j using that r(2) by simp
    note e = ends [of buf', OF this]
    have "disk_serves (firm E) P b N (s'\<lparr>filepos := 0\<rparr>)" using r(3) by (rule disk_serves_frame) auto
    then have "ext2_mounted E P b N k sb ?st"
      using m1 file_step_simps [OF r(4)] file_step_fsys [OF r(4)] r(5) unfolding ext2_mounted_def same_inode_def by simp
    then show ?thesis
      unfolding step f using r(1,2) e t(1) by (intro exI [of _ buf'] exI [of _ ?st]) simp
  qed
qed

text \<open>The text of a path in \<^verbatim>\<open>linkbuf\<close>.\<close>

lemma path_text_zero: "path_text (u @ 0 # v) = path_text u"
  by (induction u) (auto simp: path_text_def)

lemma linkbuf_text:
  assumes "\<forall>j < length u. buf j = u ! j" "buf (length u) = 0" "length u < 1024"
  shows "path_text (mem_slice buf 0 1024) = path_text u" "buf 0 = 47 \<longleftrightarrow> deref u = 47"
proof -
  have "mem_slice buf 0 (length u) = u" using assms(1) by (intro nth_equalityI) simp_all
  then have "mem_slice buf 0 1024 = u @ 0 # mem_slice buf (Suc (length u)) (1024 - Suc (length u))"
    using mem_slice_append [of buf 0 "length u" "1024 - length u"] mem_slice_append [of buf "length u" 1 "1024 - Suc (length u)"] assms(2,3)
    by (simp add: mem_slice_def)
  then show "path_text (mem_slice buf 0 1024) = path_text u" by (simp only: path_text_zero)
  show "buf 0 = 47 \<longleftrightarrow> deref u = 47" using assms(1,2) by (cases u) auto
qed

text \<open>What \<^verbatim>\<open>ext2fs_dir\<close> leaves: an open file, or an error number.\<close>

definition dir_result :: "(ext_fs, 'w) env \<Rightarrow> mem \<Rightarrow> nat \<Rightarrow> int \<Rightarrow> nat \<Rightarrow> mem \<Rightarrow> int + grub_error \<Rightarrow> (ext_fs, 'w) files \<Rightarrow> bool" where
  "dir_result E P b N k sb r st \<longleftrightarrow>
     (case r of
        Inl ino \<Rightarrow> ext2_mounted E P b N k sb st \<and>
          (\<exists>I. ext_inode_at P b N k sb ino I \<and> S_ISREG (i_mode I) \<and> inode_open P k (fsbuf st) I \<and> filemax (dev st) = s32 (i_size I))
      | Inr e \<Rightarrow> errnum (dev st) = e)"

lemma dir_result_error [simp]: "dir_result E P b N k sb (Inr e) (set_errnum e st)"
  by (simp add: dir_result_def set_errnum_def)

lemma inode_open_bytes: "inode_open P k fs I \<Longrightarrow> \<forall>j < 128. at_inode fs j = I j"
  by (simp add: inode_open_def)

lemma dir_loop_read:
  assumes "on_fs (\<lambda>ssz. ext2_get_inode (devread fw) ssz ino) st = Some (Inode_Read, st1)"
    "\<forall>j < 128. at_inode (fsbuf st1) j = I j"
  shows "ext2_dir_loop fw gread ino up n linkbuf path st =
    (if S_ISLNK (i_mode I)
     then case ext2_symlink gread n linkbuf path st1 of
            None \<Rightarrow> None
          | Some (None, st2) \<Rightarrow> Some (False, path, st2)
          | Some (Some buf, st2) \<Rightarrow>
              Option.bind (ext2_dir_loop fw gread (if buf 0 = 47 then 2 else up) (if buf 0 = 47 then 2 else up)
                             (Suc n) buf (mem_slice buf 0 1024) st2) (\<lambda>(r, p, st3). Some (r, path, st3))
     else if path_end (deref path) then case ext2_at_end st1 of (r, st2) \<Rightarrow> Some (r, path, st2)
     else case ext2_component (dropWhile (\<lambda>c. c = 47) path) of (nm, rest) \<Rightarrow>
       if i_size I = 0 \<or> \<not> S_ISDIR (i_mode I) then Some (False, path, set_errnum ERR_BAD_FILETYPE st1)
       else case on_fs (\<lambda>ssz. ext2_scan (devread fw) ssz nm (deref rest) 0) st1 of
              None \<Rightarrow> None
            | Some (Dir_Return r repaired, st2) \<Rightarrow>
                Some (r, takeWhile (\<lambda>c. c = 47) path @ nm @ (if repaired then rest else 0 # drop 1 rest), st2)
            | Some (Dir_Entry ino', st2) \<Rightarrow>
                Option.bind (ext2_dir_loop fw gread ino' ino n linkbuf rest st2)
                  (\<lambda>(r, p, st3). Some (r, takeWhile (\<lambda>c. c = 47) path @ nm @ p, st3)))"
  by (subst ext2_dir_loop.simps, unfold Let_def) (simp add: assms(1) inode_fields [OF assms(2)])

lemma path_parts:
  assumes "ext2_component (dropWhile (\<lambda>c. c = 47) path) = (nm, rest)" "p = path_text path"
  shows "takeWhile (\<lambda>c. c = 47) path @ nm @ rest = path" "nm = takeWhile (\<lambda>c. c \<noteq> 47) (dropWhile (\<lambda>c. c = 47) p)"
    "path_text rest = dropWhile (\<lambda>c. c \<noteq> 47) (dropWhile (\<lambda>c. c = 47) p)" "cstring nm = nm"
proof -
  note c = component_text [OF assms(1), unfolded path_text_slashes, folded assms(2)]
  show "nm = takeWhile (\<lambda>c. c \<noteq> 47) (dropWhile (\<lambda>c. c = 47) p)" "path_text rest = dropWhile (\<lambda>c. c \<noteq> 47) (dropWhile (\<lambda>c. c = 47) p)"
    "cstring nm = nm" by (rule c)+
  show "takeWhile (\<lambda>c. c = 47) path @ nm @ rest = path" unfolding c(3) [symmetric] by (rule takeWhile_dropWhile_id)
qed

text \<open>The round for one inode, by its type.\<close>

lemma round_link:
  assumes "on_fs (\<lambda>ssz. ext2_get_inode (devread fw) ssz ino) st = Some (Inode_Read, st1)" "inode_open P k (fsbuf st1) I" "S_ISLNK (i_mode I)"
    "ext2_symlink gread n linkbuf path st1 = Some (r, st2)"
  shows "ext2_dir_loop fw gread ino up n linkbuf path st =
    (case r of None \<Rightarrow> Some (False, path, st2)
     | Some buf \<Rightarrow> Option.bind (ext2_dir_loop fw gread (if buf 0 = 47 then 2 else up) (if buf 0 = 47 then 2 else up)
         (Suc n) buf (mem_slice buf 0 1024) st2) (\<lambda>(r, p, st3). Some (r, path, st3)))"
  using assms(3,4) dir_loop_read [OF assms(1) inode_open_bytes [OF assms(2)]] by (cases r) simp_all

lemma round_end:
  assumes "on_fs (\<lambda>ssz. ext2_get_inode (devread fw) ssz ino) st = Some (Inode_Read, st1)" "inode_open P k (fsbuf st1) I" "\<not> S_ISLNK (i_mode I)"
    "[] = path_text path"
  shows "ext2_dir_loop fw gread ino up n linkbuf path st =
    (if \<not> S_ISREG (i_mode I) then Some (False, path, set_errnum ERR_BAD_FILETYPE st1)
     else if i_flags I AND 0x40000 \<noteq> 0 \<and> i_size_high I = 0 then Some (False, path, set_errnum ERR_FILELENGTH st1)
     else Some (True, path, st1\<lparr>dev := (dev st1)\<lparr>filemax := s32 (i_size I)\<rparr>\<rparr>))"
  using assms(3,4) dir_loop_read [OF assms(1) inode_open_bytes [OF assms(2)]]
  by (simp add: path_text_Nil [symmetric] ext2_at_end_def Let_def inode_fields [OF inode_open_bytes [OF assms(2)]])

lemma round_dir:
  assumes "on_fs (\<lambda>ssz. ext2_get_inode (devread fw) ssz ino) st = Some (Inode_Read, st1)" "inode_open P k (fsbuf st1) I" "\<not> S_ISLNK (i_mode I)"
    "path_text path \<noteq> []" "ext2_component (dropWhile (\<lambda>c. c = 47) path) = (nm, rest)"
  shows "ext2_dir_loop fw gread ino up n linkbuf path st =
    (if i_size I = 0 \<or> \<not> S_ISDIR (i_mode I) then Some (False, path, set_errnum ERR_BAD_FILETYPE st1)
     else case on_fs (\<lambda>ssz. ext2_scan (devread fw) ssz nm (deref rest) 0) st1 of
            None \<Rightarrow> None
          | Some (Dir_Return r repaired, st2) \<Rightarrow>
              Some (r, takeWhile (\<lambda>c. c = 47) path @ nm @ (if repaired then rest else 0 # drop 1 rest), st2)
          | Some (Dir_Entry ino', st2) \<Rightarrow>
              Option.bind (ext2_dir_loop fw gread ino' ino n linkbuf rest st2)
                (\<lambda>(r, p, st3). Some (r, takeWhile (\<lambda>c. c = 47) path @ nm @ p, st3)))"
  using assms(3-5) dir_loop_read [OF assms(1) inode_open_bytes [OF assms(2)]] by (simp add: path_text_Nil [symmetric])

lemma long_symlink:
  assumes "inode_open P k (fsbuf st) I" "n < 5" "i_size I < 2 ^ 30" "1022 < i_size I + int (length p)" "length p < 2 ^ 30" "p = path_text path"
  shows "\<exists>st'. ext2_symlink gread n linkbuf path st = Some (None, set_errnum ERR_FILELENGTH st')"
proof -
  have i0: "0 \<le> i_size I" by (simp add: i_size_def ld32_range)
  then have f: "s32 (i_size (at_inode (fsbuf st))) = i_size I"
    using assms(3) by (simp add: inode_fields [OF inode_open_bytes [OF assms(1)]] s32_num)
  have u: "u32 (i_size I + int (length p)) = i_size I + int (length p)" using assms(3,5) i0 by (intro u32_id) auto
  show ?thesis
    using assms(2,4) unfolding ext2_symlink_def Let_def f path_text_def [symmetric] assms(6) [symmetric] u by auto
qed

lemma dir_loop_ok:
  assumes "ext2_resolves P b N k sb ino up n p r" "p = path_text path" "ext2_mounted E P b N k sb st"
  shows "\<exists>st'. ext2_dir_loop (firm E) (grub_read E) ino up n linkbuf path st = Some (r \<in> range Inl, path, st') \<and> dir_result E P b N k sb r st'"
  using assms
proof (induction arbitrary: path st linkbuf rule: ext2_resolves.induct)
  case (at_file ino I up n)
  then show ?case
    using mounted_get_inode [OF at_file.prems(2) at_file.hyps(1)] file_types(1) mounted_set_filemax
    by (fastforce simp: round_end dir_result_def)
next
  case (huge_file ino I up n)
  then show ?case
    using mounted_get_inode [OF huge_file.prems(2) huge_file.hyps(1)] file_types(1) by (fastforce simp: round_end)
next
  case (no_file ino I up n)
  then show ?case
    using mounted_get_inode [OF no_file.prems(2) no_file.hyps(1)] by (fastforce simp: round_end)
next
  case (in_dir ino I p F D q ino' n r up)
  obtain st1 where o: "on_fs (\<lambda>ssz. ext2_get_inode (devread (firm E)) ssz ino) st = Some (Inode_Read, st1)"
      "ext2_mounted E P b N k sb st1" "inode_open P k (fsbuf st1) I"
    using mounted_get_inode [OF in_dir.prems(2) in_dir.hyps(1)] by blast
  obtain nm rest where c: "ext2_component (dropWhile (\<lambda>c. c = 47) path) = (nm, rest)" by fastforce
  note pp = path_parts [OF c in_dir.prems(1)]
  have s: "dir_search k D F nm 0 (Some ino')" using in_dir.hyps(8,9) by (simp add: pp(2))
  obtain st2 where sc: "on_fs (\<lambda>ssz. ext2_scan (devread (firm E)) ssz nm (deref rest) 0) st1 = Some (Dir_Entry ino', st2)"
      "ext2_mounted E P b N k sb st2"
    using mounted_scan [OF o(2,3) in_dir.hyps(7,4,6) s pp(4), of "deref rest"] by auto
  obtain st' where ih: "ext2_dir_loop (firm E) (grub_read E) ino' ino n linkbuf rest st2 = Some (r \<in> range Inl, rest, st')"
      "dir_result E P b N k sb r st'"
    using in_dir.IH [of rest st2 linkbuf] sc(2) in_dir.hyps(8) pp(3) by auto
  then show ?case
    using in_dir.hyps(2-5) in_dir.prems(1) file_types(2) [OF in_dir.hyps(2)] sc(1) pp(1)
    by (simp add: round_dir [OF o(1,3) _ _ c])
next
  case (not_in_dir ino I p F D up n)
  obtain st1 where o: "on_fs (\<lambda>ssz. ext2_get_inode (devread (firm E)) ssz ino) st = Some (Inode_Read, st1)"
      "ext2_mounted E P b N k sb st1" "inode_open P k (fsbuf st1) I"
    using mounted_get_inode [OF not_in_dir.prems(2) not_in_dir.hyps(1)] by blast
  obtain nm rest where c: "ext2_component (dropWhile (\<lambda>c. c = 47) path) = (nm, rest)" by fastforce
  note pp = path_parts [OF c not_in_dir.prems(1)]
  have s: "dir_search k D F nm 0 None" using not_in_dir.hyps(8) by (simp add: pp(2))
  obtain st2 where "on_fs (\<lambda>ssz. ext2_scan (devread (firm E)) ssz nm (deref rest) 0) st1 =
      Some (Dir_Return False True, set_errnum ERR_FILE_NOT_FOUND st2)"
    using mounted_scan [OF o(2,3) not_in_dir.hyps(7,4,6) s pp(4), of "deref rest"] by auto
  then show ?case
    using not_in_dir.hyps(2-5) not_in_dir.prems(1) file_types(2) [OF not_in_dir.hyps(2)] pp(1)
    by (auto simp: round_dir [OF o(1,3) _ _ c])
next
  case (no_dir ino I p up n)
  obtain nm rest where c: "ext2_component (dropWhile (\<lambda>c. c = 47) path) = (nm, rest)" by fastforce
  then show ?case
    using mounted_get_inode [OF no_dir.prems(2) no_dir.hyps(1)] no_dir by (fastforce simp: round_dir)
next
  case (link ino I n t p up' up r)
  obtain st1 where o: "on_fs (\<lambda>ssz. ext2_get_inode (devread (firm E)) ssz ino) st = Some (Inode_Read, st1)"
      "ext2_mounted E P b N k sb st1" "inode_open P k (fsbuf st1) I"
    using mounted_get_inode [OF link.prems(2) link.hyps(1)] by blast
  obtain buf st2 where y: "ext2_symlink (grub_read E) n linkbuf path st1 = Some (Some buf, st2)" "ext2_mounted E P b N k sb st2"
      "\<forall>j < length (t @ p). buf j = (t @ p) ! j" "buf (length (t @ p)) = 0"
    using mounted_symlink [OF o(2,3) link.hyps(3-5) link.prems(1), of linkbuf] by auto
  have "length (t @ p) < 1024" using link.hyps(5) by simp
  note lt = linkbuf_text [OF y(3,4) this]
  have u: "up' = (if buf 0 = 47 then 2 else up)" using link.hyps(6) lt(2) by simp
  show ?case
    using link.IH [OF lt(1) [symmetric] y(2), of buf] unfolding u by (auto simp: round_link [OF o(1,3) link.hyps(2) y(1)])
next
  case (long_link ino I n p up)
  obtain st1 where o: "on_fs (\<lambda>ssz. ext2_get_inode (devread (firm E)) ssz ino) st = Some (Inode_Read, st1)" "inode_open P k (fsbuf st1) I"
    using mounted_get_inode [OF long_link.prems(2) long_link.hyps(1)] by blast
  then show ?case
    using long_symlink [OF o(2) long_link.hyps(3-6) long_link.prems(1), of "grub_read E" linkbuf] round_link [OF o(1,2) long_link.hyps(2)] by fastforce
next
  case (link_loop ino I n up p)
  obtain st1 where o: "on_fs (\<lambda>ssz. ext2_get_inode (devread (firm E)) ssz ino) st = Some (Inode_Read, st1)" "inode_open P k (fsbuf st1) I"
    using mounted_get_inode [OF link_loop.prems(2) link_loop.hyps(1)] by blast
  have "ext2_symlink (grub_read E) n linkbuf path st1 = Some (None, set_errnum ERR_SYMLINK_LOOP st1)"
    using link_loop.hyps(3) by (simp add: ext2_symlink_def)
  then show ?case by (auto simp: round_link [OF o link_loop.hyps(2)])
qed

section \<open>Opening a path\<close>

lemma ext2_table_read: "grub_read (ext2_table E g linkbuf) = grub_read (ext2_table E g' linkbuf')"
proof -
  have r: "read_func (fsys_table (ext2_table E g linkbuf) ! i) = read_func (fsys_table (ext2_table E g' linkbuf') ! i)" for i
    by (cases i) (simp_all add: ext2_table_def ext2_entry_def)
  have t: "firm (ext2_table E g l) = firm E" "decompress (ext2_table E g l) = decompress E" "NUM_FSYS (ext2_table E g l) = 1" for g l
    by (simp_all add: ext2_table_def NUM_FSYS_def)
  show ?thesis by (intro ext) (unfold grub_read_def t r, rule refl)
qed

text \<open>So the entry of \<open>with_ext2\<close> reads symbolic links with the \<^verbatim>\<open>grub_read\<close> of its own table.\<close>

lemma with_ext2_entry: "fsys_table (with_ext2 E linkbuf) = [ext2_entry (firm (with_ext2 E linkbuf)) (grub_read (with_ext2 E linkbuf)) linkbuf]"
proof -
  have "grub_read (ext2_table E (decompress E) linkbuf) = grub_read (with_ext2 E linkbuf)"
    unfolding with_ext2_def by (rule ext2_table_read)
  then show ?thesis by (simp add: with_ext2_def ext2_table_def)
qed

text \<open>The bytes of an inode are those on the medium.\<close>

lemma ext_inode_unique: "ext_inode_at P b N k sb ino I \<Longrightarrow> ext_inode_at P b N k sb ino J \<Longrightarrow> j < 128 \<Longrightarrow> I j = J j"
  by (simp add: ext_inode_at_def Let_def)

text \<open>A state in which a path can be opened: the file system is the open one, and its superblock is in the buffer.\<close>

definition ext2_current :: "(ext_fs, 'w) env \<Rightarrow> mem \<Rightarrow> nat \<Rightarrow> int \<Rightarrow> nat \<Rightarrow> mem \<Rightarrow> (ext_fs, 'w) files \<Rightarrow> bool" where
  "ext2_current E P b N k sb st \<longleftrightarrow>
     disk_serves (firm E) P b N (dev st) \<and> errnum (dev st) = ERR_NONE \<and> fsys_type (dev st) < NUM_FSYS E \<and>
     (\<exists>linkbuf. fsys_table E ! fsys_type (dev st) = ext2_entry (firm E) (grub_read E) linkbuf) \<and>
     ext_layout b k sb \<and> (\<forall>j < 1024. FSYS_BUF (fsbuf st) j = sb j) \<and> saved_drive (dev st) = current_drive (dev st) \<and>
     saved_partition (dev st) = current_partition (dev st) \<and> buf_drive (dev st) \<noteq> - 1 \<and> sane_partition (dev st) = (True, dev st)"

lemma dir_at_open:
  assumes "dir_result E P b N k sb (Inl ino) st" "ext_inode_at P b N k sb ino I" "i_size I = int F" "F < 2 ^ 31"
    "ext_file P b N k (has_extents sb I) I data F"
  shows "ext2_at E data F 0 st"
proof -
  obtain J where J: "ext2_mounted E P b N k sb st" "ext_inode_at P b N k sb ino J" "inode_open P k (fsbuf st) J"
      "filemax (dev st) = s32 (i_size J)"
    using assms(1) by (auto simp: dir_result_def)
  have IJ: "\<forall>j < 128. I j = J j" using ext_inode_unique [OF assms(2) J(2)] by simp
  note f = inode_fields [OF IJ]
  have "ext_file P b N k (has_extents sb J) J data F"
    unfolding f(7) [symmetric] by (rule ext_file_same [OF assms(5)]) (use IJ in simp)
  note o = open_file [OF J(1,3) this]
  have fm: "filemax (dev st) = int F" using J(4) assms(3,4) f(2) by (simp add: s32_num)
  have "ext_ready P k (fsbuf st)" using J(3) by (simp add: inode_open_def)
  then show ?thesis
    unfolding ext2_at_def using J(1) o fm assms(4)
    by (intro exI [of _ P] exI [of _ b] exI [of _ N] exI [of _ k]) (auto simp: ext2_mounted_def MAXINT_def)
qed

lemma ext2_open:
  assumes "ext2_current E P b N k sb st" "deref path = 47" "\<not> no_decompression (gz st)"
    "ext2_resolves P b N k sb 2 2 0 (path_text path) r" "firm G = firm E" "fsys_table G = fsys_table E"
  shows "\<exists>st'. grub_open G path st = (if r \<in> range Inl then gunzip_test_header G st' else Some (False, st')) \<and> dir_result E P b N k sb r st'"
proof -
  obtain linkbuf where a: "disk_serves (firm E) P b N (dev st)" "errnum (dev st) = ERR_NONE" "fsys_type (dev st) < NUM_FSYS E"
      "fsys_table E ! fsys_type (dev st) = ext2_entry (firm E) (grub_read E) linkbuf" "sane_partition (dev st) = (True, dev st)"
    using assms(1) by (auto simp: ext2_current_def)
  let ?st1 = "st\<lparr>compressed_file := False, dev := (dev st)\<lparr>filepos := 0\<rparr>\<rparr>"
  define st2 where "st2 = st\<lparr>compressed_file := False, block_file := False,
    dev := (dev st)\<lparr>filepos := 0, errnum := ERR_NONE, fsmax := MAXINT, print_possibilities := 0\<rparr>\<rparr>"
  have nf: "NUM_FSYS G = NUM_FSYS E" by (simp add: NUM_FSYS_def assms(6))
  have "setup_part G path ?st1 = Some (Some path, ?st1\<lparr>dev := (dev st)\<lparr>filepos := 0, errnum := ERR_NONE\<rparr>\<rparr>)"
    using assms(1,2) a(2,3) sane_frame [OF a(5), where x = 0 and e = ERR_NONE]
    by (simp add: setup_part_def setup_tail_def Let_def ext2_current_def nf)
  then have e: "grub_open G path st = (case ext2fs_dir (firm E) (grub_read E) linkbuf path st2 of
      None \<Rightarrow> None | Some (ok, _, st3) \<Rightarrow> if ok then gunzip_test_header G st3 else Some (False, st3))"
    using assms(2) a(2-4) by (simp add: grub_open_def open_fsys_def Let_def nf assms(6) st2_def ext2_entry_def)
  have "disk_serves (firm E) P b N (dev st2)" using a(1) by (rule disk_serves_frame) (simp_all add: st2_def)
  then have "ext2_mounted E P b N k sb st2"
    using assms(1,3) by (auto simp: ext2_mounted_def ext2_current_def st2_def)
  then show ?thesis
    using dir_loop_ok [OF assms(4) refl, of E st2 linkbuf] unfolding e ext2fs_dir_def by auto
qed

lemma ext2_at_gunzip: "ext2_at (with_gunzip E) = ext2_at E"
  by (intro ext) (simp add: ext2_at_def with_gunzip_def NUM_FSYS_def)

text \<open>C4: Files of ext2, ext3 and ext4. A path that leads to a regular file, through directories and up to five symbolic
  links, absolute or relative, can be opened; from then on every sequence of seeks and reads has the results it has
  on the list of the bytes of the file, which lie in direct and indirect blocks or in a tree of extents.\<close>

theorem ext2_path_session:
  assumes "ext2_current E P b N k sb st" "deref path = 47" "\<not> no_decompression (gz st)"
    "ext2_resolves P b N k sb 2 2 0 (path_text path) (Inl ino)" "ext_inode_at P b N k sb ino I" "i_size I = int F" "F < 2 ^ 31"
    "ext_file P b N k (has_extents sb I) I data F" "F < 10 \<or> (ld16 data 0 \<noteq> 0x8B1F \<and> ld16 data 0 \<noteq> 0x9E1F)"
  shows "\<exists>st'. grub_open E path st = Some (True, st') \<and> filemax (dev st') = int F \<and>
    run_ops (grub_read E) grub_seek ops st' = Some (file_ops (map data [0..<F]) 0 ops)"
proof -
  obtain st1 where o: "grub_open E path st = gunzip_test_header E st1" "dir_result E P b N k sb (Inl ino) st1"
    using ext2_open [OF assms(1-4) refl refl] by auto
  obtain st' where h: "gunzip_test_header E st1 = Some (True, st')" "ext2_at E data F 0 st'"
    using ext2.plain_header [OF dir_at_open [OF o(2) assms(5-8)]] assms(9) by blast
  have "plain_source (ext2_at E) (map data [0..<F]) 0 st'" using h(2) by (auto simp: plain_source_def)
  then show ?thesis using o(1) h plain_ext2.run_refines ext2.at_vars [OF h(2)] by auto
qed

text \<open>C39: Paths that do not lead to a file. A name that is not in its directory, a component or an end of the wrong type, a
  chain of more than five links or a name that gets too long: opening returns failure with the error number for it.\<close>

theorem ext2_path_error:
  assumes "ext2_current E P b N k sb st" "deref path = 47" "\<not> no_decompression (gz st)"
    "ext2_resolves P b N k sb 2 2 0 (path_text path) (Inr e)"
  shows "\<exists>st'. grub_open E path st = Some (False, st') \<and> errnum (dev st') = e"
  using ext2_open [OF assms refl refl] by (auto simp: dir_result_def)

text \<open>A gzip file in such a file system.\<close>

lemma ext2_gzip_session:
  assumes "ext2_current E P b N k sb st" "deref path = 47" "\<not> no_decompression (gz st)"
    "ext2_resolves P b N k sb 2 2 0 (path_text path) (Inl ino)" "ext_inode_at P b N k sb ino I" "i_size I = int F" "F < 2 ^ 31"
    "ext_file P b N k (has_extents sb I) I data F" "ld16 data 0 = 0x8B1F \<or> ld16 data 0 = 0x9E1F" "ld8 data 2 = 8" "ld8 data 3 AND 0xE2 = 0"
    "F + 2 < loop_fuel E" "inflates data end out (8 * gzip_header_end data F) Between False 0" "end + 64 \<le> 8 * F"
    "s32 (ld32 data (F - 4)) = int (length out)"
  shows "\<exists>st'. grub_open (with_gunzip E) path st = Some (True, st') \<and> filemax (dev st') = int (length out) \<and>
    run_ops (grub_read (with_gunzip E)) grub_seek ops st' = Some (file_ops out 0 ops)"
proof -
  let ?G = "with_gunzip E"
  have firm: "firm ?G = firm E" "fsys_table ?G = fsys_table E" "loop_fuel ?G = loop_fuel E" by (simp_all add: with_gunzip_def)
  obtain st1 where o: "grub_open ?G path st = gunzip_test_header ?G st1" "dir_result E P b N k sb (Inl ino) st1"
    using ext2_open [OF assms(1-4) firm(1,2)] by auto
  have at: "ext2_at ?G data F 0 st1" using dir_at_open [OF o(2) assms(5-8)] by (simp add: ext2_at_gunzip)
  have nd: "\<not> no_decompression (gz st1)" using o(2) by (auto simp: dir_result_def ext2_mounted_def)
  define off where "off = gzip_header_end data F"
  have inf: "inflates data end out (8 * off) Between False 0" using assms(13) by (simp add: off_def)
  have off: "off \<le> F" "10 \<le> off" using inflates_le [OF inf] assms(14) by (simp_all add: off_def gzip_header_end_ge)
  then have F: "18 \<le> F" using inflates_le [OF inf] assms(14) by simp
  obtain st' where h: "gunzip_test_header ?G st1 = Some (True, st')" "compressed_file st'"
    "filepos (dev st') = 0" "filemax (dev st') = int (length out)" "fsmax (dev st') = int (length out)"
    "gzip_data_offset (gz st') = int off" "saved_filepos (gz st') = 0"
    "bk (gz st') = 0" "bb (gz st') = 0" "gzip_vars.last_block (gz st') = 0" "block_len (gz st') = 0"
    "ext2_at ?G data F off (gunzip_swap_values (st'\<lparr>compressed_file := False\<rparr>))"
    using ext2.gzip_header [OF at _ F assms(9-11)] nd assms(12,15) off unfolding off_def firm by auto
  have "window_state (ext2_at E) data F end out 0 (gunzip_swap_values (st'\<lparr>compressed_file := False\<rparr>))"
    by (rule ext2.window_at_start) (use h inf in \<open>simp_all add: gunzip_swap_values_def Let_def ext2_at_gunzip\<close>)
  then have "gzip_state (ext2_at E) data F end out off 0 st'"
    unfolding gzip_state_def using h off inf assms(14) by auto
  then have "gzip_source (ext2_at E) out 0 st'" unfolding gzip_source_def by blast
  then show ?thesis using o(1) h(1,4) gzip_ext2.run_refines by auto
qed

section \<open>A sample file system\<close>

text \<open>Blocks of 1024 bytes: the superblock in block 1, the group descriptors in block 2, the inodes in blocks 3 and 4, the root
  directory in block 5 with the file \<^verbatim>\<open>a\<close> (inode 11, the text in block 6) and the link \<^verbatim>\<open>l\<close> to it (inode 12).\<close>

definition ext2_bytes :: "(nat \<times> byte) list" where
  "ext2_bytes =
     [(1044, 1), (1064, 16), (1080, 0x53), (1081, 0xEF), (1112, 128), (2056, 3),
      (3201, 0x40), (3205, 4), (3240, 5), (4353, 0x80), (4356, 5), (4392, 6), (4481, 0xA0), (4484, 1), (4520, 97),
      (5120, 11), (5124, 12), (5126, 1), (5128, 97), (5132, 12), (5136, 0xF4), (5137, 3), (5138, 1), (5140, 108),
      (6144, 104), (6145, 101), (6146, 108), (6147, 108), (6148, 111)]"

definition ext2_disk :: mem where
  "ext2_disk k = (case map_of ext2_bytes k of None \<Rightarrow> 0 | Some c \<Rightarrow> c)"

definition ext2_sb :: mem where
  "ext2_sb = (\<lambda>j. ext2_disk (1024 + j))"

lemma ext2_disk_no_ezd: "no_ezd ext2_disk 9"
proof -
  have "\<forall>c \<in> snd ` set ext2_bytes. c \<noteq> 0x55" by (simp add: ext2_bytes_def)
  then have "ext2_disk k \<noteq> 0x55" for k
    by (auto simp: ext2_disk_def split: option.splits dest!: map_of_SomeD)
  then show ?thesis
    by (auto simp: no_ezd_def has_ezd_def PC_SLICE_TYPE_def ld8_def vtrack_def word_uint_eq_iff)
qed

lemma ext2_sb_fields:
  "s_first_data_block ext2_sb = 1" "s_log_block_size ext2_sb = 0" "s_inodes_per_group ext2_sb = 16" "s_inode_size ext2_sb = 128"
  "s_feature_incompat ext2_sb = 0" "ext_layout 9 10 ext2_sb"
  by (simp_all add: ext_layout_def super_defs ext2_sb_def ld32_def ld16_def ld8_def ext2_disk_def ext2_bytes_def)

definition sample_inode :: "nat \<Rightarrow> mem" where
  "sample_inode i = (\<lambda>j. ext2_disk (3072 + (i - 1) * 128 + j))"

lemma sample_inode_ok:
  assumes "1 \<le> i" "i \<le> 16"
  shows "ext_inode_at ext2_disk 9 2016 10 ext2_sb (int i) (sample_inode i)"
proof -
  have t: "inode_table ext2_disk 10 ext2_sb 0 = 3"
    unfolding inode_table_def ext2_sb_fields by (simp add: ld32_def ld16_def ld8_def ext2_disk_def ext2_bytes_def)
  have d: "(int i - 1) div 16 = 0" "(int i - 1) mod 16 = int i - 1" using assms by simp_all
  have g: "blk_good 9 2016 10 (3 + (int i - 1) div 8)" using assms by (simp add: blk_good_def)
  have n: "\<exists>n. (128 :: int) * 2 ^ n = 2 ^ 10" by (intro exI [of _ 3]) simp
  have a: "nat (2944 + int i * 128) = 3072 + (i - Suc 0) * 128" using assms by (cases i) (auto simp: nat_add_distrib nat_mult_distrib)
  show ?thesis
    unfolding ext_inode_at_def Let_def ext2_sb_fields d t
    using assms g n by (simp add: blk_good_def a sample_inode_def)
qed

lemma sample_inode_fields:
  "i_mode (sample_inode 2) = 0x4000" "i_size (sample_inode 2) = 1024" "i_block (sample_inode 2) 0 = 5" "i_flags (sample_inode 2) = 0"
  "i_mode (sample_inode 11) = 0x8000" "i_size (sample_inode 11) = 5" "i_block (sample_inode 11) 0 = 6" "i_flags (sample_inode 11) = 0"
  "i_mode (sample_inode 12) = 0xA000" "i_size (sample_inode 12) = 1" "i_blocks (sample_inode 12) = 0" "i_file_acl (sample_inode 12) = 0"
  "sample_inode 12 40 = 97"
  by (simp_all add: inode_defs sample_inode_def ld32_def ld16_def ld8_def ext2_disk_def ext2_bytes_def)

lemma ext2_one_block:
  assumes "i_block I 0 = m" "0 < m" "m < 1000" "i_flags I = 0" "F \<le> 1024"
  shows "ext_file ext2_disk 9 2016 10 (has_extents ext2_sb I) I (\<lambda>j. ext2_disk (nat m * 1024 + j)) F"
proof -
  have "ext_maps ext2_disk 9 2016 10 False I 0 m"
    using assms by (simp add: ext_maps_def ext2_path_def blk_good_def)
  moreover have "lb = 0" if "lb * 1024 < F" for lb :: nat using that assms(5) by (cases lb) auto
  moreover have "\<not> has_extents ext2_sb I" by (simp add: has_extents_def assms(4))
  ultimately show ?thesis using assms(2) unfolding ext_file_def by force
qed

definition ext2_root :: mem where
  "ext2_root j = ext2_disk (5120 + j)"

lemma ext2_root_entries:
  "de_inode ext2_root 0 = 11" "de_rec_len ext2_root 0 = 12" "de_name ext2_root 0 = [97]"
  "de_inode ext2_root 12 = 12" "de_rec_len ext2_root 12 = 1012" "de_name ext2_root 12 = [108]"
  by (simp_all add: de_inode_def de_rec_len_def de_name_def mem_slice_def ext2_root_def ld32_def ld16_def ld8_def ext2_disk_def ext2_bytes_def)

lemma ext2_root_search:
  "dir_search 10 ext2_root 1024 [97] 0 (Some 11)" "dir_search 10 ext2_root 1024 [108] 0 (Some 12)"
  "c \<noteq> 97 \<Longrightarrow> c \<noteq> 108 \<Longrightarrow> dir_search 10 ext2_root 1024 [c] 0 None"
proof -
  note e = ext2_root_entries
  have ok: "de_ok 10 ext2_root 0" "de_ok 10 ext2_root 12" by (simp_all add: de_ok_def e)
  show "dir_search 10 ext2_root 1024 [97] 0 (Some 11)"
    using dir_found [of 0 1024 10 ext2_root "[97]"] ok e by simp
  have "dir_search 10 ext2_root 1024 [108] 12 (Some 12)"
    using dir_found [of 12 1024 10 ext2_root "[108]"] ok e by simp
  then show "dir_search 10 ext2_root 1024 [108] 0 (Some 12)"
    using dir_skip [of 0 1024 10 ext2_root "[108]" "Some 12"] ok e by simp
  assume c: "c \<noteq> 97" "c \<noteq> 108"
  have "dir_search 10 ext2_root 1024 [c] 12 None"
    using dir_skip [of 12 1024 10 ext2_root "[c]" None] dir_end [of 1024 1024 10 ext2_root "[c]"] ok e c by auto
  then show "dir_search 10 ext2_root 1024 [c] 0 None"
    using dir_skip [of 0 1024 10 ext2_root "[c]" None] ok e c by auto
qed

definition ext2_base :: "(ext_fs, mem) env" where
  "ext2_base = \<lparr>firm = ram_firmware, network_ready = False, loop_fuel = 1000, iter_init = iter0, fsys_table = [],
     mem_upper = 0, grub_scratch_mem = 0, stack_junk = \<lambda>_ _. 0, decompress = \<lambda>len buf st. None\<rparr>"

definition ext2_env :: "(ext_fs, mem) env" where
  "ext2_env = with_ext2 ext2_base (\<lambda>_. 0)"

definition ext2_files :: "(ext_fs, mem) files" where
  "ext2_files = (let st = sample_files (tagged_state 0 ext2_disk)
     in \<lparr>dev = dev st, fsbuf = \<lparr>FSYS_BUF = ext2_sb, mapblock1 = 0, mapblock2 = 0\<rparr>, blk = blk st, block_file = False,
         compressed_file = False, gz = gz st\<rparr>)"

lemma ext2_sample_current:
  "ext2_current ext2_env ext2_disk 9 2016 10 ext2_sb ext2_files" "\<not> no_decompression (gz ext2_files)"
proof -
  have e: "fsys_table ext2_env = [ext2_entry (firm ext2_env) (grub_read ext2_env) (\<lambda>_. 0)]"
    unfolding ext2_env_def by (rule with_ext2_entry)
  have f: "firm ext2_env = ram_firmware" by (simp add: ext2_env_def ext2_base_def with_ext2_def ext2_table_def)
  have t: "fsys_type (tagged_state 0 ext2_disk) = 0" by (simp add: tagged_state_def sample_state_def)
  show "ext2_current ext2_env ext2_disk 9 2016 10 ext2_sb ext2_files"
    using tagged_serves [OF ext2_disk_no_ezd] tagged_sane [of ext2_disk] tagged_vars [of ext2_disk] ext2_sb_fields(6)
    unfolding ext2_current_def by (simp add: ext2_files_def Let_def NUM_FSYS_def e f t) blast
  show "\<not> no_decompression (gz ext2_files)" by (simp add: ext2_files_def Let_def)
qed

lemma ext2_text:
  "path_text (bytes_of ''/l'') = [47, 108]" "path_text (bytes_of ''/x'') = [47, 120]" "path_text [97] = [97]"
  by code_simp+

lemma ext2_types:
  "S_ISDIR 0x4000" "\<not> S_ISLNK 0x4000" "S_ISREG 0x8000" "S_ISLNK 0xA000"
  by (simp_all add: S_ISDIR_def S_ISLNK_def S_ISREG_def)

text \<open>The root directory is where a one-letter name leads on or not.\<close>

lemma ext2_root_inode:
  "ext_inode_at ext2_disk 9 2016 10 ext2_sb 2 (sample_inode 2)"
  "ext_file ext2_disk 9 2016 10 (has_extents ext2_sb (sample_inode 2)) (sample_inode 2) ext2_root 1024"
  "S_ISDIR (i_mode (sample_inode 2))" "i_size (sample_inode 2) = int 1024" "0 < (1024 :: nat)" "(1024 :: nat) \<le> 2 ^ 30"
proof -
  have r: "(\<lambda>j. ext2_disk (nat 5 * 1024 + j)) = ext2_root" by (simp add: ext2_root_def [abs_def])
  show "ext_file ext2_disk 9 2016 10 (has_extents ext2_sb (sample_inode 2)) (sample_inode 2) ext2_root 1024"
    by (rule ext2_one_block [OF sample_inode_fields(3) _ _ sample_inode_fields(4), unfolded r]) simp_all
  have "ext_inode_at ext2_disk 9 2016 10 ext2_sb (int 2) (sample_inode 2)" by (rule sample_inode_ok) simp_all
  then show "ext_inode_at ext2_disk 9 2016 10 ext2_sb 2 (sample_inode 2)" by simp
  show "S_ISDIR (i_mode (sample_inode 2))" unfolding sample_inode_fields by (rule ext2_types)
  show "i_size (sample_inode 2) = int 1024" unfolding sample_inode_fields by simp
qed simp_all

lemma root_step:
  assumes "dir_search 10 ext2_root 1024 [c] 0 (Some i)" "c \<noteq> 47" "ext2_resolves ext2_disk 9 2016 10 ext2_sb i 2 n [] r" "p = [c] \<or> p = [47, c]"
  shows "ext2_resolves ext2_disk 9 2016 10 ext2_sb 2 up n p r"
proof -
  have q: "p \<noteq> []" "[c] = dropWhile (\<lambda>c. c = 47) p" using assms(2,4) by auto
  have t: "takeWhile (\<lambda>c. c \<noteq> 47) [c] = [c]" "dropWhile (\<lambda>c. c \<noteq> 47) [c] = []" using assms(2) by auto
  show ?thesis
    by (rule in_dir [OF ext2_root_inode(1,3) q(1) ext2_root_inode(4,5,6,2) q(2), unfolded t, OF assms(1,3)])
qed

lemma ext2_sample_path:
  "ext2_resolves ext2_disk 9 2016 10 ext2_sb 2 2 0 [47, 108] (Inl 11)"
proof -
  have i: "ext_inode_at ext2_disk 9 2016 10 ext2_sb 11 (sample_inode 11)" "ext_inode_at ext2_disk 9 2016 10 ext2_sb 12 (sample_inode 12)"
    using sample_inode_ok [of 11] sample_inode_ok [of 12] by simp_all
  have y: "S_ISREG (i_mode (sample_inode 11))" "S_ISLNK (i_mode (sample_inode 12))" "i_flags (sample_inode 11) AND 0x40000 = 0"
    unfolding sample_inode_fields by (simp_all add: ext2_types)
  have "ext2_resolves ext2_disk 9 2016 10 ext2_sb 11 2 (Suc 0) [] (Inl 11)"
    by (rule at_file [OF i(1) y(1)]) (simp add: y(3))
  then have a: "ext2_resolves ext2_disk 9 2016 10 ext2_sb 2 2 (Suc 0) [97] (Inl 11)"
    by (intro root_step [OF ext2_root_search(1)]) simp_all
  have t: "link_text ext2_disk 9 2016 10 ext2_sb (sample_inode 12) [97]"
    unfolding link_text_def sample_inode_fields by (simp add: sample_inode_fields)
  have "ext2_resolves ext2_disk 9 2016 10 ext2_sb 12 2 0 [] (Inl 11)"
    by (rule link [OF i(2) y(2) _ t, where up' = 2]) (simp_all add: ext2_text a)
  then show ?thesis by (intro root_step [OF ext2_root_search(2)]) simp_all
qed

theorem ext2_path_session_witness:
  "\<exists>st'. grub_open ext2_env (bytes_of ''/l'') ext2_files = Some (True, st') \<and> filemax (dev st') = 5 \<and>
     run_ops (grub_read ext2_env) grub_seek [Seek 1, Read 100] st' = Some [(1, []), (4, bytes_of ''ello'')]"
proof -
  have p: "ext2_resolves ext2_disk 9 2016 10 ext2_sb 2 2 0 (path_text (bytes_of ''/l'')) (Inl 11)"
    using ext2_sample_path by (simp add: ext2_text)
  have i: "ext_inode_at ext2_disk 9 2016 10 ext2_sb 11 (sample_inode 11)" using sample_inode_ok [of 11] by simp
  have f: "ext_file ext2_disk 9 2016 10 (has_extents ext2_sb (sample_inode 11)) (sample_inode 11) (\<lambda>j. ext2_disk (6144 + j)) 5"
    using ext2_one_block [OF sample_inode_fields(7) _ _ sample_inode_fields(8), of 5] by simp
  have t: "file_ops (map (\<lambda>j. ext2_disk (6144 + j)) [0..<5]) 0 [Seek 1, Read 100] = [(1, []), (4, bytes_of ''ello'')]"
  proof -
    have "map (\<lambda>j. ext2_disk (6144 + j)) [0..<5] = bytes_of ''hello''"
      by (simp add: upt_rec ext2_disk_def ext2_bytes_def bytes_of_def)
    then show ?thesis by (simp add: bytes_of_def clamp_len_def)
  qed
  have d: "deref (bytes_of ''/l'') = 47" by code_simp
  have s: "i_size (sample_inode 11) = int 5" unfolding sample_inode_fields by simp
  have "\<exists>st'. grub_open ext2_env (bytes_of ''/l'') ext2_files = Some (True, st') \<and> filemax (dev st') = int 5 \<and>
      run_ops (grub_read ext2_env) grub_seek [Seek 1, Read 100] st' = Some (file_ops (map (\<lambda>j. ext2_disk (6144 + j)) [0..<5]) 0 [Seek 1, Read 100])"
    by (rule ext2_path_session [OF ext2_sample_current(1) d ext2_sample_current(2) p i s _ f]) simp_all
  then show ?thesis unfolding t by simp
qed

theorem ext2_path_error_witness:
  "\<exists>st'. grub_open ext2_env (bytes_of ''/x'') ext2_files = Some (False, st') \<and> errnum (dev st') = ERR_FILE_NOT_FOUND"
proof -
  have q: "[47, 120] \<noteq> ([] :: byte list)" "takeWhile (\<lambda>c. c \<noteq> 47) (dropWhile (\<lambda>c. c = 47) [47, 120]) = [120 :: byte]" by simp_all
  have "dir_search 10 ext2_root 1024 [120] 0 None" by (rule ext2_root_search(3)) simp_all
  then have p: "ext2_resolves ext2_disk 9 2016 10 ext2_sb 2 2 0 (path_text (bytes_of ''/x'')) (Inr ERR_FILE_NOT_FOUND)"
    using not_in_dir [OF ext2_root_inode(1,3) q(1) ext2_root_inode(4,5,6,2)] unfolding q(2) ext2_text by blast
  have "deref (bytes_of ''/x'') = 47" by code_simp
  from ext2_path_error [OF ext2_sample_current(1) this ext2_sample_current(2) p] show ?thesis .
qed

section \<open>Mounting a partition\<close>





text \<open>A disk with a Linux partition at sector 10 whose superblock has the magic number.\<close>

definition linux_disk :: mem where
  "linux_disk = part_disk(6200 := 0x53, 6201 := 0xEF)"



definition linux_state :: "mem dstate" where
  "linux_state = (sample_state linux_disk)\<lparr>current_partition := 0xFFFF\<rparr>"

lemma linux_state_simps [simp]:
  "efi linux_state = sample_efi1 linux_disk" "errnum linux_state = ERR_NONE" "current_drive linux_state = 0x80"
  "current_partition linux_state = 0xFFFF"
  by (simp_all add: linux_state_def)



end
