(* ===== verification/Spec2Isabelle.thy ===== *)
theory Spec2Isabelle
  imports Md5 Efi_Mm Ext2_File
begin

text \<open>
  GRUB Legacy with EFI support (\<^verbatim>\<open>src/grub_legacy_efi\<close>): a shallow embedding of the parts of the boot loader
  that stand between the firmware and an opened file, and of the routines they share.

  \<^bold>\<open>The program.\<close> The EFI build finds the disks of the firmware and gives them drive numbers
  (\<^verbatim>\<open>efi/efidisk.c\<close>). \<^verbatim>\<open>stage2/disk_io.c\<close> reads and writes sectors through a track buffer, walks the
  partition tables, takes device names such as \<^verbatim>\<open>(hd0,1)\<close> apart, mounts a file system and opens, reads
  and seeks files. A file is one of a file system (here
  \<^verbatim>\<open>stage2/fsys_fat.c\<close> and \<^verbatim>\<open>stage2/fsys_ext2fs.c\<close>), or a list of blocks; if it starts with a gzip header, \<^verbatim>\<open>stage2/gunzip.c\<close> decompresses it while it is read, by swapping its file variables with
  those of the compressed file. Commands, loaders and menus use this interface. \<^verbatim>\<open>efi/efimm.c\<close> allocates
  pages and makes the memory map for the kernel, \<^verbatim>\<open>stage2/md5.c\<close> checks passwords.

  \<^bold>\<open>State.\<close> Every static variable that the modelled functions use is a field of a record that the operations take and return
  (\<^verbatim>\<open>cur_part_offset\<close> and \<^verbatim>\<open>cur_part_addr\<close>, which only \<^verbatim>\<open>set_bootdev\<close> uses, are left out): \<open>efi_state\<close> (disks) is
  part of \<open>dstate\<close> (the variables of \<^verbatim>\<open>disk_io.c\<close>), which is part of \<open>files\<close> together with the private buffer of the file
  system (\<open>fat_fs\<close>, \<open>ext_fs\<close>), the block list area (\<open>blk_area\<close>) and the variables of \<^verbatim>\<open>gunzip.c\<close> (\<open>gzip_vars\<close>). The firmware is a
  record of functions over a world of its own, \<open>firmware\<close> and \<open>mm_services\<close>; the table of file systems, the memory size and the
  junk of uninitialised arrays are fields of \<open>env\<close>. What the theorems ask of the firmware is named: \<open>disk_ok\<close>,
  \<open>disk_serves\<close>, \<open>services_ok\<close>, each shown to hold of a disk or allocator in memory. A result \<open>None\<close> is a trap (a null or
  wild pointer) or a loop that does not end; errors of the program are values of \<open>grub_error\<close> in \<open>errnum\<close>.
  Integers have the ranges of the ia32 build: \<open>u32\<close>, \<open>s32\<close>, \<open>u64\<close> write the wrap-around out, and MD5 uses words.

  \<^bold>\<open>Theories.\<close>

    \<^item> \<open>Grub_Prelude\<close>: bytes, memory, C strings, integer conversions, the error numbers (\<^verbatim>\<open>shared.h\<close>).

    \<^item> \<open>Char_Io\<close> (\<^verbatim>\<open>stage2/char_io.c\<close>): printing and parsing numbers, comparison, search, tokens and copies. The parser has the
      value of the longest digit prefix or the right error, it reads what was printed, copies are right for
      overlapping areas and stay inside their bounds.

    \<^item> \<open>Efi_Dp\<close>, \<open>Efi_Disk\<close> (\<^verbatim>\<open>efi/efidp.c\<close>, \<^verbatim>\<open>efi/efidisk.c\<close>): device paths and disks. The comparison is a strict linear order on
      devices, so drive numbers do not depend on the order in which the firmware lists them.

    \<^item> \<open>Disk_Io\<close> (\<^verbatim>\<open>rawread\<close>, \<^verbatim>\<open>devread\<close>, \<^verbatim>\<open>rawwrite\<close>, \<^verbatim>\<open>devwrite\<close>): reads inside the whole virtual tracks of a disk deliver the
      bytes of the medium, the track buffer stays coherent, requests with a byte outside the partition fail (both as long as
      \<^verbatim>\<open>byte_offset + byte_len\<close> fits an \<^verbatim>\<open>int\<close>). A write changes one sector and keeps the buffer coherent if the test on its tag
      finds the sector or need not; one lemma shows how it can leave a stale buffer otherwise.

    \<^item> \<open>Partition\<close>, \<open>Device_Name\<close>, \<open>Completion\<close>: the iterator over PC, BSD and GPT tables, opening and hiding partitions, device
      names (a printed name is read back), and the common prefix of completions.

    \<^item> \<open>Fat\<close> (\<^verbatim>\<open>stage2/fsys_fat.c\<close>): mounting, reading along a cluster chain through the FAT cache, directories. Reading
      delivers the bytes of the chain from any cursor; past its end there is nothing, or the file system is corrupt.

    \<^item> \<open>Block_File\<close>, \<open>Files\<close>: block lists and the file layer. The locale \<open>file_reader\<close> is the interface of an open, uncompressed
      file (what \<^verbatim>\<open>grub_read\<close> delivers, what seeking keeps); it is interpreted by block files (\<open>block_at\<close>), FAT
      files (\<open>fat_at\<close>) and later ext2 files (\<open>ext2_at\<close>). Inside it the gzip header test is proved once for all.

    \<^item> \<open>Inflate\<close> (\<^verbatim>\<open>huft_build\<close>): the multi-level lookup tables of a Huffman code. The reference is the canonical code of RFC
      1951 (\<open>rfc_code\<close>); \<open>walk\<close> is a lookup on a bit stream. An invariant over the codes made so far, with a home for every
      table, shows that each symbol is found with exactly the bits of its code.

    \<^item> \<open>Gunzip\<close>, \<open>Gunzip_Read\<close> (the rest of \<^verbatim>\<open>gunzip.c\<close>): bit input, coded blocks, the circular window, block headers,
      \<^verbatim>\<open>gunzip_read\<close> with its restart. The reference is the relation \<open>inflates\<close>, the deflate format as a machine that makes one
      byte at a time; every loop of the code simulates it, with the invariant \<open>in_stream\<close> (the bit buffer is a piece of the file, the window
      holds the last 32 KB, the tables decode the current block).

    \<^item> \<open>Gzip_File\<close>: the abstract file, a list of bytes with a position. The locale \<open>byte_source\<close> is the interface of anything that
      can be read and sought; plain and gzip files of each kind interpret it, so every sequence of seeks and reads has the same results
      on the program as on the list.

    \<^item> \<open>Ext2\<close>, \<open>Ext2_File\<close> (\<^verbatim>\<open>stage2/fsys_ext2fs.c\<close>): ext2, ext3 and ext4. \<open>Ext2\<close> has mounting, the two maps from a block of a
      file to one of the file system (indirect blocks, with the cached blocks in \<^verbatim>\<open>FSYS_BUF\<close>, and the tree of extents), reading, inodes and the
      search in a directory; the references are \<open>ext2_path\<close>, \<open>ext4_maps\<close>, \<open>dir_search\<close> and a linear search in a node. \<open>Ext2_File\<close>
      has mounting a primary partition, paths and symbolic links, which read through the file layer: \<open>with_ext2\<close> ties the knot. The relation \<open>ext2_resolves\<close> says
      where a path leads, to a file or to an error; opening follows it, and open files interpret \<open>file_reader\<close> and \<open>byte_source\<close> too.

    \<^item> \<open>Md5\<close> (\<^verbatim>\<open>stage2/md5.c\<close>): the streaming digest is the one of RFC 1321 for any splitting of the message, and passwords that
      \<^verbatim>\<open>md5_password\<close> makes are accepted by it.

    \<^item> \<open>Efi_Mm\<close> (\<^verbatim>\<open>efi/efimm.c\<close>): in every state that allocations, frees and memory-map requests reach, the blocks
      held from the firmware are those in the table, its own page, and the unrecorded ones (for the runtime, given out while the
      table was full, or at address zero), and finishing returns all but the unrecorded ones; the e820 map covers what the
      descriptors say while it has room; and the memory map is obtained in a number of rounds that a bound on its size gives.

  \<^bold>\<open>Loops and fuel.\<close> Loops with a measure are recursive functions with a termination proof. Loops that the data can keep from ending
  are partial functions in the option monad (\<^verbatim>\<open>gunzip.c\<close>; \<open>ext4_descend\<close>, \<open>ext2_scan\<close> and \<open>ext2_dir_loop\<close>, which a cycle of
  index blocks or an entry of length zero keeps going); the theorems show that they return. Four loops have fuel:
  opening a partition (one unit for each table entry), \<^verbatim>\<open>grub_efi_get_memory_map\<close> (for maps of at most \<open>B\<close> bytes, two more than the
  pages in \<open>B\<close> are enough, since each round enlarges the buffer by a page), the string fields of a gzip header (one for each byte, so the size of the file and two
  are enough), and the loops over clusters and names of \<^verbatim>\<open>fat_dir\<close>, where running out is \<open>None\<close>.

  \<^bold>\<open>Not modelled.\<close> The other file systems (they are entries of the same table); the debug output of \<^verbatim>\<open>fsys_ext2fs.c\<close>; the commands, the menu and the command line editor, which are calls of the layers
  above with console output; formatted printing; terminals and graphics; loading kernels and the hand-over in assembly; network drivers (Etherboot);
  the programs that run under an operating system; the SHA-crypt code, taken over from its reference. The return value of \<^verbatim>\<open>grub_memmove\<close>, null when \<^verbatim>\<open>errnum\<close> is set, is left out. In \<^verbatim>\<open>disk_io.c\<close> the listing mode of
  \<^verbatim>\<open>real_open_partition\<close>, \<^verbatim>\<open>set_bootdev\<close> and \<^verbatim>\<open>print_completions\<close>; in \<^verbatim>\<open>init_dynamic_block\<close> the use of \<^verbatim>\<open>td\<close> as a temporary variable, which
  \<^verbatim>\<open>huft_build\<close> overwrites unless the data is bad. Concurrency does not occur: the loader is one thread.
\<close>

end
